(* ===== verification/Prelude.thy ===== *)
theory Prelude
  imports Main "HOL-Library.Word"
begin

text \<open>
  What the components share: the machine types of the C code, the memory primitives of the C
  library as functions on lists (\<^verbatim>\<open>memcpy\<close>, \<^verbatim>\<open>memmove\<close>, \<^verbatim>\<open>memset\<close>, \<^verbatim>\<open>memchr\<close>,
  \<^verbatim>\<open>memcmp\<close>), big-endian numbers as lists of bytes, the allocator as a parameter, and the
  generic lemmas about them. A region of memory is the list of its bytes; a pointer into a region is
  an index. \<^verbatim>\<open>size_t\<close> is 64 bits wide (the 64-bit targets of the iOS build) and is modelled by
  \<open>nat\<close>, with the wrap-around written out wherever the code can reach it.
\<close>

unbundle bit_operations_syntax

type_synonym u8 = "8 word"
type_synonym u16 = "16 word"
type_synonym u32 = "32 word"
type_synonym u64 = "64 word"
type_synonym bytes = "u8 list"

named_theorems region_simps \<open>memory regions: writes, reads and lengths\<close>
named_theorems codec_simps \<open>round trips of the byte codecs\<close>

definition SIZE_MAX :: nat where
  "SIZE_MAX = 2 ^ 64 - 1"

definition size_add :: "nat \<Rightarrow> nat \<Rightarrow> nat" where
  "size_add a b = (a + b) mod 2 ^ 64"

definition size_mul :: "nat \<Rightarrow> nat \<Rightarrow> nat" where
  "size_mul a b = (a * b) mod 2 ^ 64"

definition INT_MAX :: nat where
  "INT_MAX = 2 ^ 31 - 1"

section \<open>Memory regions\<close>

text \<open>\<^verbatim>\<open>memcpy(buf + off, bs, n)\<close> with \<open>n\<close> the length of \<open>bs\<close>.\<close>

definition write_at :: "'a list \<Rightarrow> nat \<Rightarrow> 'a list \<Rightarrow> 'a list" where
  "write_at buf off bs = take off buf @ bs @ drop (off + length bs) buf"

text \<open>The \<open>n\<close> elements at \<^verbatim>\<open>buf + off\<close>.\<close>

definition read_at :: "'a list \<Rightarrow> nat \<Rightarrow> nat \<Rightarrow> 'a list" where
  "read_at buf off n = take n (drop off buf)"

text \<open>\<^verbatim>\<open>memmove(buf + dst, buf + src, n)\<close>: the source is read before the destination is written.\<close>

definition memmove_at :: "'a list \<Rightarrow> nat \<Rightarrow> nat \<Rightarrow> nat \<Rightarrow> 'a list" where
  "memmove_at buf dst src n = write_at buf dst (read_at buf src n)"

fun memchr :: "bytes \<Rightarrow> u8 \<Rightarrow> nat option" where
  "memchr [] c = None"
| "memchr (b # bs) c = (if b = c then Some 0 else map_option Suc (memchr bs c))"

text \<open>\<^verbatim>\<open>memcmp\<close> on two regions of the same length: the sign of the first difference.\<close>

fun memcmp :: "bytes \<Rightarrow> bytes \<Rightarrow> int" where
  "memcmp (a # as) (b # bs) = (if a < b then -1 else if b < a then 1 else memcmp as bs)"
| "memcmp _ _ = 0"

lemma length_write_at [region_simps]:
  "off + length bs \<le> length buf \<Longrightarrow> length (write_at buf off bs) = length buf"
  by (simp add: write_at_def)

lemma write_at_Nil [region_simps, simp]: "write_at buf off [] = buf"
  by (simp add: write_at_def)

lemma take_write_at_before [region_simps]:
  "n \<le> off \<Longrightarrow> off \<le> length buf \<Longrightarrow> take n (write_at buf off bs) = take n buf"
  by (simp add: write_at_def min_def)

lemma take_write_at_end [region_simps]:
  "off \<le> length buf \<Longrightarrow> n = off + length bs \<Longrightarrow> take n (write_at buf off bs) = take off buf @ bs"
  by (simp add: write_at_def)

lemma drop_write_at_after [region_simps]:
  "off + length bs \<le> length buf \<Longrightarrow> off + length bs \<le> n \<Longrightarrow> drop n (write_at buf off bs) = drop n buf"
  by (simp add: write_at_def min_def)

lemma read_at_write_at_same [region_simps]:
  "off + length bs \<le> length buf \<Longrightarrow> n = length bs \<Longrightarrow> read_at (write_at buf off bs) off n = bs"
  by (simp add: write_at_def read_at_def)

lemma length_read_at [region_simps]:
  "off + n \<le> length buf \<Longrightarrow> length (read_at buf off n) = n"
  by (simp add: read_at_def)

lemma write_at_single: "off < length buf \<Longrightarrow> write_at buf off [b] = buf[off := b]"
  by (simp add: write_at_def upd_conv_take_nth_drop)

lemma write_at_Cons: "i < length buf \<Longrightarrow> write_at buf i (b # bs) = write_at (buf[i := b]) (Suc i) bs"
  by (simp add: write_at_def take_Suc_conv_app_nth)

lemma write_at_snoc:
  "i + length bs < length buf \<Longrightarrow> write_at buf i (bs @ [b]) = (write_at buf i bs)[i + length bs := b]"
  by (simp add: write_at_def list_update_append Cons_nth_drop_Suc [symmetric] min_def)

lemma write_at_update:
  "i + length bs < length buf \<Longrightarrow>
     write_at (buf[i + length bs := b]) i bs = (write_at buf i bs)[i + length bs := b]"
  by (simp add: write_at_def list_update_append drop_update_swap)

lemma write_at_mid: "length ys = length ys' \<Longrightarrow> write_at (xs @ ys @ zs) (length xs) ys' = xs @ ys' @ zs"
  by (simp add: write_at_def)

lemma take_write_at_over:
  "off + length p \<le> n \<Longrightarrow> n \<le> length buf \<Longrightarrow>
     take n (write_at buf off p) = take off buf @ p @ drop (off + length p) (take n buf)"
  by (simp add: write_at_def drop_take min.absorb1 min.absorb2)

lemma split3:
  assumes "n + m \<le> length l"
  obtains xs ys zs where "l = xs @ ys @ zs" "length xs = n" "length ys = m"
proof
  show "l = take n l @ take m (drop n l) @ drop m (drop n l)"
    by (simp only: append_take_drop_id)
qed (use assms in simp_all)

lemma memchr_Some:
  "memchr bs c = Some i \<Longrightarrow> i < length bs \<and> bs ! i = c \<and> c \<notin> set (take i bs)"
proof (induction bs arbitrary: i)
  case (Cons b bs)
  then show ?case by (auto split: if_splits)
qed simp

lemma memchr_None: "memchr bs c = None \<longleftrightarrow> c \<notin> set bs"
  by (induction bs) auto

section \<open>Machine words\<close>

lemma unat_less: "unat (w :: 'a::len word) < 2 ^ LENGTH('a)"
  by (rule unsigned_less)

lemma unat_u8_less [simp]: "unat (b :: u8) < 256"
  using unsigned_less [of b] by simp

lemma unat_of_nat_u8 [simp]: "unat (of_nat v :: u8) = v mod 256"
  by (simp add: unat_of_nat)

lemma unat_and_mask: "unat ((w::'a::len word) AND mask n) = unat w mod 2 ^ n"
  by (simp only: take_bit_eq_mask [symmetric] unsigned_take_bit_eq) (simp only: take_bit_eq_mod)

lemma unat_drop_bit: "unat (drop_bit n (w::'a::len word)) = unat w div 2 ^ n"
  by (simp only: unsigned_drop_bit_eq) (simp add: drop_bit_eq_div take_bit_eq_mod)

lemma unat_ucast_mod: "unat (ucast (b::'a::len word) :: 'b::len word) = unat b mod 2 ^ LENGTH('b)"
  by (simp only: unsigned_ucast_eq take_bit_eq_mod)

lemma unat_ucast_up:
  "LENGTH('a) \<le> LENGTH('b) \<Longrightarrow> unat (ucast (b::'a::len word) :: 'b::len word) = unat b"
  unfolding unsigned_ucast_eq
  by (rule take_bit_nat_eq_self) (meson less_le_trans one_le_numeral power_increasing unsigned_less)

lemma unat_shift_or:
  fixes v w :: "'a::len word"
  assumes "unat v * 2 ^ n < 2 ^ LENGTH('a)" and "unat w < 2 ^ n"
  shows "unat (push_bit n v OR w) = unat v * 2 ^ n + unat w"
proof -
  have "take_bit n w = w"
    using assms(2) by (simp add: word_unat_eq_iff unsigned_take_bit_eq take_bit_nat_eq_self_iff)
  then have w: "bit w i \<Longrightarrow> i < n" for i
    by (metis bit_take_bit_iff)
  have "push_bit n v OR w = push_bit n v + w"
    by (rule disjunctive_add_eq_or [symmetric]) (auto simp: bit_eq_iff bit_and_iff bit_push_bit_iff dest: w)
  moreover have "unat (push_bit n v) = unat v * 2 ^ n"
    using assms(1) by (simp only: unsigned_push_bit_eq) (simp add: push_bit_eq_mult take_bit_eq_mod)
  moreover have "unat v * 2 ^ n + unat w < 2 ^ LENGTH('a)"
  proof (cases "n < LENGTH('a)")
    case True
    then have e: "(2::nat) ^ LENGTH('a) = 2 ^ (LENGTH('a) - n) * 2 ^ n"
      by (simp flip: power_add)
    with assms(1) have "unat v < 2 ^ (LENGTH('a) - n)" by simp
    then have "unat v + 1 \<le> 2 ^ (LENGTH('a) - n)" by simp
    then have "(unat v + 1) * 2 ^ n \<le> 2 ^ LENGTH('a)" unfolding e by (rule mult_le_mono1)
    with assms(2) show ?thesis by (simp add: algebra_simps)
  next
    case False
    then have "(2::nat) ^ LENGTH('a) \<le> 2 ^ n" by simp
    with assms(1) have "unat v * 2 ^ n < 1 * 2 ^ n" by linarith
    then have "unat v = 0" by (simp only: mult_less_cancel2) simp
    then show ?thesis by simp
  qed
  ultimately show ?thesis
    by (simp add: unat_word_ariths)
qed
lemma u8_and_7f: "unat ((b::u8) AND 0x7f) = unat b mod 128"
  using unat_and_mask [of b 7] by (simp add: mask_eq_exp_minus_1)

lemma u8_and_1f: "unat ((b::u8) AND 0x1f) = unat b mod 32"
  using unat_and_mask [of b 5] by (simp add: mask_eq_exp_minus_1)

lemma odd_div_128: "n < 256 \<Longrightarrow> odd (n div 128) \<longleftrightarrow> 128 \<le> (n::nat)"
  by (cases "n < 128") (auto simp: div_if)

lemma u8_and_80: "(b::u8) AND 0x80 = 0 \<longleftrightarrow> unat b < 128"
proof -
  have "(b AND 0x80 = 0) \<longleftrightarrow> \<not> bit b 7"
    using bit_iff_and_push_bit_not_eq_0 [of b 7] by simp
  also have "bit b 7 \<longleftrightarrow> odd (unat b div 128)"
    using bit_unsigned_iff [where ?'a=nat, of b 7] by (simp add: bit_iff_odd)
  finally show ?thesis using odd_div_128 [OF unat_u8_less, of b] by (simp add: not_le)
qed

text \<open>A fact about one byte can be checked at all 256 values.\<close>

lemma u8_all:
  assumes "\<forall>n\<in>set [0..<256]. P (of_nat n)"
  shows "P (b :: u8)"
proof -
  have "P (of_nat (unat b))"
    by (rule bspec [OF assms]) (simp only: set_upt atLeastLessThan_iff unat_u8_less zero_le simp_thms)
  then show ?thesis by simp
qed

section \<open>Big-endian numbers\<close>

definition be_val :: "bytes \<Rightarrow> nat" where
  "be_val bs = foldl (\<lambda>a b. 256 * a + unat b) 0 bs"

fun be_bytes :: "nat \<Rightarrow> nat \<Rightarrow> bytes" where
  "be_bytes 0 v = []"
| "be_bytes (Suc n) v = be_bytes n (v div 256) @ [of_nat v]"

lemma be_val_Nil [simp]: "be_val [] = 0"
  by (simp add: be_val_def)

lemma be_val_snoc [simp]: "be_val (bs @ [b]) = 256 * be_val bs + unat b"
  by (simp add: be_val_def)

lemma length_be_bytes [simp]: "length (be_bytes n v) = n"
  by (induction n arbitrary: v) auto

lemma be_val_be_bytes [codec_simps]: "be_val (be_bytes n v) = v mod 256 ^ n"
proof (induction n arbitrary: v)
  case (Suc n)
  have "be_val (be_bytes (Suc n) v) = 256 * (v div 256 mod 256 ^ n) + v mod 256"
    by (simp add: Suc.IH)
  also have "\<dots> = v mod (256 * 256 ^ n)"
    by (simp add: mod_mult2_eq)
  finally show ?case by simp
qed simp

lemma be_val_less: "be_val bs < 256 ^ length bs"
proof (induction bs rule: rev_induct)
  case (snoc b bs)
  have "unat b < 256" by simp
  with snoc have "256 * be_val bs + unat b < 256 * 256 ^ length bs" by linarith
  then show ?case by simp
qed simp

lemma be_bytes_be_val [codec_simps]: "be_bytes (length bs) (be_val bs) = bs"
proof (induction bs rule: rev_induct)
  case (snoc b bs)
  have "(256 * be_val bs + unat b) div 256 = be_val bs"
    by simp
  moreover have "(of_nat (256 * be_val bs + unat b) :: u8) = b"
  proof -
    have "unat (of_nat (256 * be_val bs + unat b) :: u8) = unat b"
      by (simp only: unat_of_nat_u8 mod_mult_self4 mod_less unat_u8_less)
    then show ?thesis by (simp only: word_unat_eq_iff)
  qed
  ultimately show ?case using snoc by simp
qed simp

lemma be_bytes_inj:
  "v < 256 ^ n \<Longrightarrow> w < 256 ^ n \<Longrightarrow> be_bytes n v = be_bytes n w \<Longrightarrow> v = w"
  by (metis be_val_be_bytes mod_less)

lemma unat_be_fold:
  "length data \<le> 8 \<Longrightarrow> unat (foldl (\<lambda>r b. push_bit 8 r OR ucast b) (0::u64) data) = be_val data"
proof (induction data rule: rev_induct)
  case (snoc b bs)
  let ?r = "foldl (\<lambda>r b. push_bit 8 r OR ucast b) (0::u64) bs"
  have IH: "unat ?r = be_val bs" using snoc by simp
  have "be_val bs < 256 ^ 7"
    using be_val_less [of bs] snoc.prems power_increasing [of "length bs" 7 "256::nat"] by simp
  then have "unat (push_bit 8 ?r OR ucast b) = unat ?r * 2 ^ 8 + unat (ucast b :: u64)"
    by (intro unat_shift_or) (simp_all add: IH unat_ucast_up)
  then show ?case by (simp add: IH unat_ucast_up)
qed simp

section \<open>The allocator\<close>

text \<open>
  The C library's \<^verbatim>\<open>malloc\<close> is a parameter of every operation that allocates: \<open>M n\<close> is
  \<open>None\<close> when a request of \<open>n\<close> bytes is refused, and otherwise the (indeterminate) contents
  of the new region. \<open>malloc_ok\<close> is the documented contract: a granted region has the size asked for.
\<close>

type_synonym allocator = "nat \<Rightarrow> bytes option"

definition malloc_ok :: "allocator \<Rightarrow> bool" where
  "malloc_ok M \<longleftrightarrow> (\<forall>n b. M n = Some b \<longrightarrow> length b = n)"

lemma malloc_okD: "malloc_ok M \<Longrightarrow> M n = Some b \<Longrightarrow> length b = n"
  by (simp add: malloc_ok_def)

text \<open>An allocator that grants every request, for concrete runs of the model.\<close>

definition plentiful :: allocator where
  "plentiful n = Some (replicate n 0)"

lemma malloc_ok_plentiful [simp]: "malloc_ok plentiful"
  by (simp add: malloc_ok_def plentiful_def)

end
