(* ===== verification/Mem.thy ===== *)
theory Mem
  imports Prelude
begin

text \<open>
  \<^verbatim>\<open>crypto/mem.c\<close>: the allocation wrappers over the C library's \<^verbatim>\<open>malloc\<close>, the
  constant-time comparison, the FNV-1a hash and the string helpers. A pointer to a block is an
  \<open>option\<close> of the block's contents (\<open>None\<close> is \<^verbatim>\<open>NULL\<close>); the size that \<^verbatim>\<open>OPENSSL_malloc\<close>
  stores in the eight bytes before a block is the length of its contents. The build does not define
  the \<^verbatim>\<open>OPENSSL_memory_*\<close> hooks nor \<^verbatim>\<open>BORINGSSL_MALLOC_FAILURE_TESTING\<close>. A C string is the
  region that holds it, its terminator included; \<open>None\<close> as the result of a string function means
  that the code would read or write outside the regions it was given. Plain \<^verbatim>\<open>char\<close> is signed.
\<close>

section \<open>Allocation\<close>

definition OPENSSL_MALLOC_PREFIX :: nat where
  "OPENSSL_MALLOC_PREFIX = 8"

definition OPENSSL_malloc :: "allocator \<Rightarrow> allocator" where
  "OPENSSL_malloc M sz =
     (if size_add sz OPENSSL_MALLOC_PREFIX < sz then None
      else case M (size_add sz OPENSSL_MALLOC_PREFIX) of
             None \<Rightarrow> None
           | Some ptr \<Rightarrow> Some (drop OPENSSL_MALLOC_PREFIX ptr))"

definition OPENSSL_zalloc :: "allocator \<Rightarrow> allocator" where
  "OPENSSL_zalloc M sz =
     (case OPENSSL_malloc M sz of None \<Rightarrow> None | Some ret \<Rightarrow> Some (write_at ret 0 (replicate sz 0)))"

definition OPENSSL_calloc :: "allocator \<Rightarrow> nat \<Rightarrow> nat \<Rightarrow> bytes option" where
  "OPENSSL_calloc M num sz =
     (if sz \<noteq> 0 \<and> SIZE_MAX div sz < num then None
      else OPENSSL_zalloc M (size_mul num sz))"

definition OPENSSL_realloc :: "allocator \<Rightarrow> bytes option \<Rightarrow> nat \<Rightarrow> bytes option" where
  "OPENSSL_realloc M orig_ptr new_size =
     (case orig_ptr of
        None \<Rightarrow> OPENSSL_malloc M new_size
      | Some old \<Rightarrow>
          (case OPENSSL_malloc M new_size of
             None \<Rightarrow> None
           | Some ret \<Rightarrow>
               (let old_size = length old;
                    to_copy = (if old_size < new_size then old_size else new_size)
                in Some (write_at ret 0 (take to_copy old)))))"

definition OPENSSL_memdup :: "allocator \<Rightarrow> bytes \<Rightarrow> bytes option" where
  "OPENSSL_memdup M data =
     (if length data = 0 then None
      else case OPENSSL_malloc M (length data) of
             None \<Rightarrow> None
           | Some ret \<Rightarrow> Some (write_at ret 0 data))"

lemma OPENSSL_malloc_length:
  assumes "malloc_ok M" and "sz < 2 ^ 64" and "OPENSSL_malloc M sz = Some b"
  shows "length b = sz"
proof -
  from assms(3) have no_wrap: "\<not> size_add sz 8 < sz"
    and "M (size_add sz 8) \<noteq> None"
    by (auto simp: OPENSSL_malloc_def OPENSSL_MALLOC_PREFIX_def split: if_splits option.splits)
  then obtain p where p: "M (size_add sz 8) = Some p" and b: "b = drop 8 p"
    using assms(3) by (auto simp: OPENSSL_malloc_def OPENSSL_MALLOC_PREFIX_def)
  have "sz + 8 < 2 ^ 64"
  proof (rule ccontr)
    assume "\<not> sz + 8 < 2 ^ 64"
    with assms(2) have "size_add sz 8 < sz"
      by (simp add: size_add_def mod_if)
    with no_wrap show False by simp
  qed
  then have "length p = sz + 8"
    using malloc_okD [OF assms(1) p] by (simp add: size_add_def)
  then show ?thesis by (simp add: b)
qed

lemma OPENSSL_zalloc_zeros:
  assumes "malloc_ok M" and "sz < 2 ^ 64" and "OPENSSL_zalloc M sz = Some b"
  shows "b = replicate sz 0"
  using assms
  by (auto simp: OPENSSL_zalloc_def write_at_def dest!: OPENSSL_malloc_length split: option.splits)

lemma OPENSSL_calloc_zeros:
  assumes "malloc_ok M" and "num < 2 ^ 64" and "OPENSSL_calloc M num sz = Some b"
  shows "num * sz \<le> SIZE_MAX \<and> b = replicate (num * sz) 0"
proof -
  have le: "num * sz \<le> SIZE_MAX"
  proof (cases "sz = 0")
    case False
    with assms(3) have "num \<le> SIZE_MAX div sz"
      by (auto simp: OPENSSL_calloc_def split: if_splits)
    then show ?thesis using False by (simp add: less_eq_div_iff_mult_less_eq)
  qed simp
  then have "size_mul num sz = num * sz" and "num * sz < 2 ^ 64"
    by (simp_all add: size_mul_def SIZE_MAX_def)
  then show ?thesis
    using assms OPENSSL_zalloc_zeros [of M "num * sz" b] le
    by (auto simp: OPENSSL_calloc_def split: if_splits)
qed

lemma OPENSSL_realloc_keeps:
  assumes "malloc_ok M" and "new_size < 2 ^ 64" and "OPENSSL_realloc M (Some old) new_size = Some new"
  shows "length new = new_size \<and> take (length old) new = take new_size old"
proof -
  from assms(3) obtain ret where ret: "OPENSSL_malloc M new_size = Some ret"
    by (auto simp: OPENSSL_realloc_def split: option.splits)
  have "length ret = new_size"
    by (rule OPENSSL_malloc_length [OF assms(1,2) ret])
  then show ?thesis
    using assms(3) ret by (auto simp: OPENSSL_realloc_def Let_def write_at_def min_def)
qed

lemma OPENSSL_memdup_copy:
  assumes "malloc_ok M" and "length data < 2 ^ 64" and "OPENSSL_memdup M data = Some p"
  shows "p = data"
  using assms by (auto simp: OPENSSL_memdup_def write_at_def dest!: OPENSSL_malloc_length
      split: if_splits option.splits)

section \<open>Comparison and hashing\<close>

fun CRYPTO_memcmp_loop :: "u8 \<Rightarrow> bytes \<Rightarrow> bytes \<Rightarrow> u8" where
  "CRYPTO_memcmp_loop x (a # as) (b # bs) = CRYPTO_memcmp_loop (x OR (a XOR b)) as bs"
| "CRYPTO_memcmp_loop x _ _ = x"

definition CRYPTO_memcmp :: "bytes \<Rightarrow> bytes \<Rightarrow> u8" where
  "CRYPTO_memcmp a b = CRYPTO_memcmp_loop 0 a b"

definition OPENSSL_hash32 :: "bytes \<Rightarrow> u32" where
  "OPENSSL_hash32 bs = foldl (\<lambda>h b. (h XOR ucast b) * 16777619) 2166136261 bs"

definition strlen :: "bytes \<Rightarrow> nat option" where
  "strlen s = memchr s 0"

definition OPENSSL_strhash :: "bytes \<Rightarrow> u32 option" where
  "OPENSSL_strhash s = map_option (\<lambda>n. OPENSSL_hash32 (take n s)) (strlen s)"

lemma word_or_eq_0: "(x OR y = (0 :: 'a::len word)) \<longleftrightarrow> x = 0 \<and> y = 0"
  by (auto simp: bit_eq_iff bit_or_iff)

lemma word_xor_eq_0: "(x XOR y = (0 :: 'a::len word)) \<longleftrightarrow> x = y"
  by (auto simp: bit_eq_iff bit_xor_iff)

lemma CRYPTO_memcmp_loop_zero:
  "length as = length bs \<Longrightarrow> CRYPTO_memcmp_loop x as bs = 0 \<longleftrightarrow> x = 0 \<and> as = bs"
  by (induction x as bs rule: CRYPTO_memcmp_loop.induct) (auto simp: word_or_eq_0 word_xor_eq_0)

section \<open>Characters\<close>

definition OPENSSL_isalpha :: "int \<Rightarrow> bool" where
  "OPENSSL_isalpha c \<longleftrightarrow> (97 \<le> c \<and> c \<le> 122) \<or> (65 \<le> c \<and> c \<le> 90)"

definition OPENSSL_isdigit :: "int \<Rightarrow> bool" where
  "OPENSSL_isdigit c \<longleftrightarrow> 48 \<le> c \<and> c \<le> 57"

definition OPENSSL_isxdigit :: "int \<Rightarrow> bool" where
  "OPENSSL_isxdigit c \<longleftrightarrow> OPENSSL_isdigit c \<or> (97 \<le> c \<and> c \<le> 102) \<or> (65 \<le> c \<and> c \<le> 70)"

definition OPENSSL_fromxdigit :: "int \<Rightarrow> u8 option" where
  "OPENSSL_fromxdigit c =
     (if OPENSSL_isdigit c then Some (of_int (c - 48))
      else if 97 \<le> c \<and> c \<le> 102 then Some (of_int (c - 97 + 10))
      else if 65 \<le> c \<and> c \<le> 70 then Some (of_int (c - 65 + 10))
      else None)"

definition OPENSSL_isalnum :: "int \<Rightarrow> bool" where
  "OPENSSL_isalnum c \<longleftrightarrow> OPENSSL_isalpha c \<or> OPENSSL_isdigit c"

definition OPENSSL_tolower :: "int \<Rightarrow> int" where
  "OPENSSL_tolower c = (if 65 \<le> c \<and> c \<le> 90 then c + (97 - 65) else c)"

definition OPENSSL_isspace :: "int \<Rightarrow> bool" where
  "OPENSSL_isspace c \<longleftrightarrow> c = 9 \<or> c = 10 \<or> c = 11 \<or> c = 12 \<or> c = 13 \<or> c = 32"

section \<open>Strings\<close>

fun OPENSSL_strnlen :: "bytes \<Rightarrow> nat \<Rightarrow> nat option" where
  "OPENSSL_strnlen s 0 = Some 0"
| "OPENSSL_strnlen [] (Suc n) = None"
| "OPENSSL_strnlen (c # s) (Suc n) = (if c = 0 then Some 0 else map_option Suc (OPENSSL_strnlen s n))"

definition OPENSSL_strdup :: "allocator \<Rightarrow> bytes option \<Rightarrow> bytes option option" where
  "OPENSSL_strdup M s =
     (case s of
        None \<Rightarrow> Some None
      | Some s \<Rightarrow> map_option (\<lambda>n. OPENSSL_memdup M (take (n + 1) s)) (strlen s))"

text \<open>The result is \<open>Some None\<close> when the allocation is refused.\<close>

definition OPENSSL_strndup :: "allocator \<Rightarrow> bytes \<Rightarrow> nat \<Rightarrow> bytes option option" where
  "OPENSSL_strndup M str sz =
     (case OPENSSL_strnlen str sz of
        None \<Rightarrow> None
      | Some n \<Rightarrow>
          (let alloc_size = size_add n 1 in
           if alloc_size < n then Some None
           else case OPENSSL_malloc M alloc_size of
                  None \<Rightarrow> Some None
                | Some ret \<Rightarrow> Some (Some ((write_at ret 0 (take n str))[n := 0]))))"

fun OPENSSL_strcasecmp :: "bytes \<Rightarrow> bytes \<Rightarrow> int option" where
  "OPENSSL_strcasecmp (a # as) (b # bs) =
     (let aa = OPENSSL_tolower (sint a); bb = OPENSSL_tolower (sint b) in
      if aa < bb then Some (-1)
      else if aa > bb then Some 1
      else if aa = 0 then Some 0
      else OPENSSL_strcasecmp as bs)"
| "OPENSSL_strcasecmp _ _ = None"

fun OPENSSL_strncasecmp :: "bytes \<Rightarrow> bytes \<Rightarrow> nat \<Rightarrow> int option" where
  "OPENSSL_strncasecmp as bs 0 = Some 0"
| "OPENSSL_strncasecmp (a # as) (b # bs) (Suc n) =
     (let aa = OPENSSL_tolower (sint a); bb = OPENSSL_tolower (sint b) in
      if aa < bb then Some (-1)
      else if aa > bb then Some 1
      else if aa = 0 then Some 0
      else OPENSSL_strncasecmp as bs n)"
| "OPENSSL_strncasecmp _ _ (Suc n) = None"

text \<open>The copy loop of \<^verbatim>\<open>OPENSSL_strlcpy\<close>: \<open>i\<close> is the position of \<^verbatim>\<open>dst\<close>.\<close>

fun strlcpy_loop ::
    "bytes \<Rightarrow> nat \<Rightarrow> bytes \<Rightarrow> nat \<Rightarrow> nat \<Rightarrow> (bytes \<times> nat \<times> bytes \<times> nat \<times> nat) option" where
  "strlcpy_loop dst i src dst_size l =
     (if dst_size > 1 then
        (case src of
           [] \<Rightarrow> None
         | c # src' \<Rightarrow>
             if c \<noteq> 0 then
               if i < length dst then strlcpy_loop (dst[i := c]) (Suc i) src' (dst_size - 1) (Suc l)
               else None
             else Some (dst, i, src, dst_size, l))
      else Some (dst, i, src, dst_size, l))"

declare strlcpy_loop.simps [simp del]

definition OPENSSL_strlcpy_at :: "bytes \<Rightarrow> nat \<Rightarrow> bytes \<Rightarrow> nat \<Rightarrow> (bytes \<times> nat) option" where
  "OPENSSL_strlcpy_at dst i src dst_size =
     (case strlcpy_loop dst i src dst_size 0 of
        None \<Rightarrow> None
      | Some (dst, i, src, dst_size, l) \<Rightarrow>
          (if dst_size \<noteq> 0 \<and> length dst \<le> i then None
           else case strlen src of
                  None \<Rightarrow> None
                | Some n \<Rightarrow> Some (if dst_size \<noteq> 0 then dst[i := 0] else dst, l + n)))"

definition OPENSSL_strlcpy :: "bytes \<Rightarrow> bytes \<Rightarrow> nat \<Rightarrow> (bytes \<times> nat) option" where
  "OPENSSL_strlcpy dst src dst_size = OPENSSL_strlcpy_at dst 0 src dst_size"

fun strlcat_loop :: "bytes \<Rightarrow> nat \<Rightarrow> nat \<Rightarrow> nat \<Rightarrow> (nat \<times> nat \<times> nat) option" where
  "strlcat_loop dst i 0 l = Some (i, 0, l)"
| "strlcat_loop dst i (Suc n) l =
     (if length dst \<le> i then None
      else if dst ! i \<noteq> 0 then strlcat_loop dst (Suc i) n (Suc l)
      else Some (i, Suc n, l))"

definition OPENSSL_strlcat :: "bytes \<Rightarrow> bytes \<Rightarrow> nat \<Rightarrow> (bytes \<times> nat) option" where
  "OPENSSL_strlcat dst src dst_size =
     (case strlcat_loop dst 0 dst_size 0 of
        None \<Rightarrow> None
      | Some (i, n, l) \<Rightarrow>
          map_option (\<lambda>(dst', r). (dst', l + r)) (OPENSSL_strlcpy_at dst i src n))"

lemma strlen_Some: "strlen s = Some n \<Longrightarrow> n < length s \<and> s ! n = 0 \<and> 0 \<notin> set (take n s)"
  by (auto simp: strlen_def dest: memchr_Some)

lemma strlen_append_0: "0 \<notin> set s \<Longrightarrow> strlen (s @ 0 # r) = Some (length s)"
  by (induction s) (auto simp: strlen_def)

lemma OPENSSL_strnlen_Some:
  "OPENSSL_strnlen s n = Some k \<Longrightarrow> k \<le> n \<and> k \<le> length s \<and> 0 \<notin> set (take k s)"
proof (induction s n arbitrary: k rule: OPENSSL_strnlen.induct)
  case (3 c s n)
  then show ?case by (fastforce split: if_splits)
qed auto

lemma OPENSSL_strnlen_no_zero: "0 \<notin> set s \<Longrightarrow> OPENSSL_strnlen s (length s) = Some (length s)"
  by (induction s) auto

text \<open>The copy loop writes the longest prefix of the source that leaves room for the terminator.\<close>

lemma strlcpy_loop_result:
  assumes "0 \<notin> set s" and "i + dst_size \<le> length dst"
  shows "strlcpy_loop dst i (s @ 0 # r) dst_size l =
    (let k = min (length s) (dst_size - 1) in
     Some (write_at dst i (take k s), i + k, drop k s @ 0 # r, dst_size - k, l + k))"
  using assms
proof (induction s arbitrary: dst i dst_size l)
  case Nil
  then show ?case by (simp add: strlcpy_loop.simps)
next
  case (Cons c s)
  show ?case
  proof (cases "dst_size > 1")
    case True
    then obtain m where m: "dst_size = Suc (Suc m)"
      by (auto simp: less_iff_Suc_add)
    have step: "strlcpy_loop dst i (c # s @ 0 # r) (Suc (Suc m)) l =
      strlcpy_loop (dst[i := c]) (Suc i) (s @ 0 # r) (Suc m) (Suc l)"
      using Cons.prems by (subst strlcpy_loop.simps) (auto simp: m)
    have "i < length dst" using Cons.prems m by simp
    then have "write_at (dst[i := c]) (Suc i) xs = write_at dst i (c # xs)" for xs
      by (simp add: write_at_Cons)
    then show ?thesis
      using Cons by (simp add: step m Let_def)
  next
    case False
    then show ?thesis by (cases dst_size) (auto simp: strlcpy_loop.simps)
  qed
qed

lemma OPENSSL_strlcpy_result:
  assumes "0 \<notin> set s" and "0 < dst_size" and "dst_size \<le> length dst"
  shows "OPENSSL_strlcpy dst (s @ 0 # r) dst_size =
    Some (write_at dst 0 (take (dst_size - 1) s @ [0]), length s)"
proof -
  define k where "k = min (length s) (dst_size - 1)"
  have nz: "0 \<notin> set (drop k s)"
    using assms(1) by (meson in_set_dropD)
  have k: "k < dst_size" "k < length dst" "k \<le> length s" using assms by (auto simp: k_def)
  have tk: "take (dst_size - 1) s = take k s" by (simp add: k_def min_def)
  have loop: "strlcpy_loop dst 0 (s @ 0 # r) dst_size 0 =
      Some (write_at dst 0 (take k s), k, drop k s @ 0 # r, dst_size - k, k)"
    using strlcpy_loop_result [OF assms(1), of 0 dst_size dst r 0] assms(3)
    by (simp add: k_def Let_def)
  have "(write_at dst 0 (take k s))[k := 0] = write_at dst 0 (take k s @ [0])"
    using k write_at_snoc [of 0 "take k s" dst 0] by simp
  then show ?thesis
    unfolding tk using k by (simp add: OPENSSL_strlcpy_def OPENSSL_strlcpy_at_def loop
        strlen_append_0 [OF nz] length_write_at)
qed

section \<open>Properties\<close>

text \<open>
  C39: \<^verbatim>\<open>OPENSSL_calloc\<close> never returns a block that is too small because \<^verbatim>\<open>num * size\<close> wrapped: a
  block it returns has exactly \<open>num * sz\<close> zero bytes, and a product beyond \<^verbatim>\<open>SIZE_MAX\<close> gives \<^verbatim>\<open>NULL\<close>.
\<close>

theorem calloc_no_overflow:
  assumes "malloc_ok M" and "num < 2 ^ 64" and "sz < 2 ^ 64"
  shows "case OPENSSL_calloc M num sz of None \<Rightarrow> True | Some b \<Rightarrow> num * sz \<le> SIZE_MAX \<and> b = replicate (num * sz) 0"
  using OPENSSL_calloc_zeros [OF assms(1,2)] by (simp split: option.split)

theorem calloc_no_overflow_witness:
  "OPENSSL_calloc plentiful (2 ^ 63) 2 = None \<and> OPENSSL_calloc plentiful 2 3 = Some (replicate 6 0)"
proof -
  have "OPENSSL_calloc plentiful 2 3 \<noteq> None"
    by (simp add: OPENSSL_calloc_def OPENSSL_zalloc_def OPENSSL_malloc_def plentiful_def size_add_def size_mul_def
        SIZE_MAX_def OPENSSL_MALLOC_PREFIX_def)
  then show ?thesis
    using calloc_no_overflow [of plentiful 2 3] calloc_no_overflow [of plentiful "2 ^ 63" 2]
    by (auto simp: SIZE_MAX_def split: option.splits)
qed

text \<open>
  \<^verbatim>\<open>OPENSSL_strlcpy\<close> into a destination of at least \<open>dst_size > 0\<close> bytes stays inside it, writes
  the longest prefix of the source that fits together with a terminator, leaves the rest of the
  destination alone, and returns the length of the source.
\<close>

theorem strlcpy_terminated:
  assumes "0 \<notin> set s" and "0 < dst_size" and "dst_size \<le> length dst"
  shows "OPENSSL_strlcpy dst (s @ 0 # r) dst_size =
    Some (take (dst_size - 1) s @ [0] @ drop (length (take (dst_size - 1) s) + 1) dst, length s)"
  using OPENSSL_strlcpy_result [OF assms, of r] by (simp add: write_at_def)

theorem strlcpy_terminated_witness:
  "OPENSSL_strlcpy [9, 9, 9, 9] [1, 2, 3, 0] 3 = Some ([1, 2, 0, 9], 3)"
  using strlcpy_terminated [of "[1, 2, 3]" 3 "[9, 9, 9, 9]" "[]"] by simp

end
