(* ===== verification/Codec.thy ===== *)
theory Codec
  imports Prelude
begin

text \<open>
  The interface between the reader and the encodings it reads. A parser takes the bytes of a
  \<^verbatim>\<open>CBS\<close> and returns the value it stores (\<open>None\<close> when the C function returns zero) and the
  bytes it leaves. A \<^emph>\<open>codec\<close> is an encoding with a parser that reads it back in front of any
  other data; it is \<^emph>\<open>canonical\<close> when the parser accepts nothing else. What holds of every codec
  (prefix-freeness, injectivity, sequences of values) is proved once here.
\<close>

type_synonym CBS = bytes
type_synonym 'a parser = "CBS \<Rightarrow> 'a option \<times> CBS"

text \<open>Reading \<open>n\<close> values one after the other, stopping at the first failure.\<close>

fun parse_n :: "'a parser \<Rightarrow> nat \<Rightarrow> 'a list parser" where
  "parse_n p 0 cbs = (Some [], cbs)"
| "parse_n p (Suc n) cbs =
     (case p cbs of
        (None, cbs) \<Rightarrow> (None, cbs)
      | (Some x, cbs) \<Rightarrow>
          (case parse_n p n cbs of (None, cbs) \<Rightarrow> (None, cbs) | (Some xs, cbs) \<Rightarrow> (Some (x # xs), cbs)))"

locale codec =
  fixes enc :: "'a \<Rightarrow> bytes"
    and dec :: "'a parser"
    and valid :: "'a \<Rightarrow> bool"
  assumes dec_enc: "valid x \<Longrightarrow> dec (enc x @ r) = (Some x, r)"
begin

lemma prefix_free:
  assumes "valid x" and "valid y" and "enc x @ r = enc y @ s"
  shows "x = y \<and> r = s"
proof -
  have "(Some x, r) = (Some y, s)"
    using dec_enc [OF assms(1), of r] dec_enc [OF assms(2), of s] unfolding assms(3) by (rule trans [OF sym])
  then show ?thesis by simp
qed

lemma enc_inj: "valid x \<Longrightarrow> valid y \<Longrightarrow> enc x = enc y \<Longrightarrow> x = y"
  by (rule conjunct1 [OF prefix_free [where r = "[]" and s = "[]"]]) simp_all

lemma parse_n_enc:
  "list_all valid xs \<Longrightarrow> parse_n dec (length xs) (concat (map enc xs) @ r) = (Some xs, r)"
  by (induction xs) (auto simp: dec_enc)

end

locale canonical_codec = codec +
  assumes enc_dec: "dec cbs = (Some x, r) \<Longrightarrow> valid x \<and> cbs = enc x @ r"
begin

lemma dec_iff: "dec cbs = (Some x, r) \<longleftrightarrow> valid x \<and> cbs = enc x @ r"
  using dec_enc enc_dec by auto

lemma dec_length: "dec cbs = (Some x, r) \<Longrightarrow> length cbs = length (enc x) + length r"
  by (auto dest: enc_dec)

lemma parse_n_canonical:
  "parse_n dec n cbs = (Some xs, r) \<Longrightarrow>
     length xs = n \<and> list_all valid xs \<and> cbs = concat (map enc xs) @ r"
proof (induction n arbitrary: cbs xs r)
  case (Suc n)
  then obtain x ys where x: "dec cbs = (Some x, concat (map enc ys) @ r)"
    and ys: "length ys = n" "list_all valid ys" and xs: "xs = x # ys"
    by (fastforce split: prod.splits option.splits)
  from enc_dec [OF x] ys xs show ?case by simp
qed simp

end

end
