(* ===== verification/Cbs.thy ===== *)
theory Cbs
  imports Mem Codec
begin

text \<open>
  \<^verbatim>\<open>crypto/bytestring/cbs.c\<close>: the byte-string reader. A \<^verbatim>\<open>CBS\<close> is a non-owning view
  (\<^verbatim>\<open>data\<close>, \<^verbatim>\<open>len\<close>); it is modelled by the bytes it covers. Every reading function takes the
  view and returns the value it stores through its out-parameter (\<open>None\<close> when the C function
  returns zero) together with the view it leaves behind, which on failure is the view as the code
  leaves it and not always the original one. Out-parameters of a failed call are not modelled.
\<close>

section \<open>Byte swapping and constants (internal.h, bytestring.h)\<close>

definition CRYPTO_bswap2 :: "u16 \<Rightarrow> u16" where
  "CRYPTO_bswap2 x = drop_bit 8 x OR push_bit 8 x"

definition CRYPTO_bswap4 :: "u32 \<Rightarrow> u32" where
  "CRYPTO_bswap4 x =
     (let x = (drop_bit 16 x) OR (push_bit 16 x);
          x = (drop_bit 8 (x AND 0xff00ff00)) OR (push_bit 8 (x AND 0x00ff00ff))
      in x)"

definition CRYPTO_bswap8 :: "u64 \<Rightarrow> u64" where
  "CRYPTO_bswap8 x =
     (ucast (CRYPTO_bswap4 (ucast (drop_bit 32 x)))) OR push_bit 32 (ucast (CRYPTO_bswap4 (ucast x)))"

type_synonym CBS_ASN1_TAG = u32

definition CBS_ASN1_TAG_SHIFT :: nat where
  "CBS_ASN1_TAG_SHIFT = 24"

definition CBS_ASN1_CONSTRUCTED :: CBS_ASN1_TAG where
  "CBS_ASN1_CONSTRUCTED = push_bit CBS_ASN1_TAG_SHIFT 0x20"

definition CBS_ASN1_TAG_NUMBER_MASK :: CBS_ASN1_TAG where
  "CBS_ASN1_TAG_NUMBER_MASK = push_bit (5 + CBS_ASN1_TAG_SHIFT) 1 - 1"

definition CBS_ASN1_BOOLEAN :: CBS_ASN1_TAG where "CBS_ASN1_BOOLEAN = 0x1"
definition CBS_ASN1_INTEGER :: CBS_ASN1_TAG where "CBS_ASN1_INTEGER = 0x2"
definition CBS_ASN1_OCTETSTRING :: CBS_ASN1_TAG where "CBS_ASN1_OCTETSTRING = 0x4"

section \<open>Reading bytes\<close>

definition cbs_get :: "CBS \<Rightarrow> nat \<Rightarrow> bytes option \<times> CBS" where
  "cbs_get cbs n = (if length cbs < n then (None, cbs) else (Some (take n cbs), drop n cbs))"

definition CBS_skip :: "CBS \<Rightarrow> nat \<Rightarrow> bool \<times> CBS" where
  "CBS_skip cbs len = (case cbs_get cbs len of (p, cbs') \<Rightarrow> (p \<noteq> None, cbs'))"

text \<open>\<^verbatim>\<open>CBS_stow\<close> frees the old block and returns the new one and its length.\<close>

definition CBS_stow :: "allocator \<Rightarrow> CBS \<Rightarrow> bool \<times> bytes option \<times> nat" where
  "CBS_stow M cbs =
     (if length cbs = 0 then (True, None, 0)
      else case OPENSSL_memdup M cbs of
             None \<Rightarrow> (False, None, 0)
           | Some p \<Rightarrow> (True, Some p, length cbs))"

definition CBS_strdup :: "allocator \<Rightarrow> CBS \<Rightarrow> bytes option" where
  "CBS_strdup M cbs = (case OPENSSL_strndup M cbs (length cbs) of None \<Rightarrow> None | Some p \<Rightarrow> p)"

definition CBS_contains_zero_byte :: "CBS \<Rightarrow> bool" where
  "CBS_contains_zero_byte cbs \<longleftrightarrow> memchr cbs 0 \<noteq> None"

definition CBS_mem_equal :: "CBS \<Rightarrow> bytes \<Rightarrow> bool" where
  "CBS_mem_equal cbs data \<longleftrightarrow>
     (if length data \<noteq> length cbs then False else CRYPTO_memcmp cbs data = 0)"

definition cbs_get_u :: "CBS \<Rightarrow> nat \<Rightarrow> u64 option \<times> CBS" where
  "cbs_get_u cbs len =
     (case cbs_get cbs len of
        (None, cbs') \<Rightarrow> (None, cbs')
      | (Some data, cbs') \<Rightarrow> (Some (foldl (\<lambda>result b. push_bit 8 result OR ucast b) 0 data), cbs'))"

definition CBS_get_u8 :: "u8 parser" where
  "CBS_get_u8 cbs =
     (case cbs_get cbs 1 of (None, cbs') \<Rightarrow> (None, cbs') | (Some v, cbs') \<Rightarrow> (Some (v ! 0), cbs'))"

definition CBS_get_u16 :: "u16 parser" where
  "CBS_get_u16 cbs = (case cbs_get_u cbs 2 of (v, cbs') \<Rightarrow> (map_option ucast v, cbs'))"

definition CBS_get_u16le :: "u16 parser" where
  "CBS_get_u16le cbs = (case CBS_get_u16 cbs of (v, cbs') \<Rightarrow> (map_option CRYPTO_bswap2 v, cbs'))"

definition CBS_get_u24 :: "u32 parser" where
  "CBS_get_u24 cbs = (case cbs_get_u cbs 3 of (v, cbs') \<Rightarrow> (map_option ucast v, cbs'))"

definition CBS_get_u32 :: "u32 parser" where
  "CBS_get_u32 cbs = (case cbs_get_u cbs 4 of (v, cbs') \<Rightarrow> (map_option ucast v, cbs'))"

definition CBS_get_u32le :: "u32 parser" where
  "CBS_get_u32le cbs = (case CBS_get_u32 cbs of (v, cbs') \<Rightarrow> (map_option CRYPTO_bswap4 v, cbs'))"

definition CBS_get_u64 :: "u64 parser" where
  "CBS_get_u64 cbs = cbs_get_u cbs 8"

definition CBS_get_u64le :: "u64 parser" where
  "CBS_get_u64le cbs = (case cbs_get_u cbs 8 of (v, cbs') \<Rightarrow> (map_option CRYPTO_bswap8 v, cbs'))"

definition CBS_get_last_u8 :: "u8 parser" where
  "CBS_get_last_u8 cbs =
     (if length cbs = 0 then (None, cbs)
      else (Some (cbs ! (length cbs - 1)), take (length cbs - 1) cbs))"

definition CBS_get_bytes :: "CBS \<Rightarrow> nat \<Rightarrow> CBS option \<times> CBS" where
  "CBS_get_bytes cbs len = cbs_get cbs len"

text \<open>\<^verbatim>\<open>CBS_copy_bytes\<close> copies into the caller's buffer, given here as the region at \<^verbatim>\<open>out\<close>.\<close>

definition CBS_copy_bytes :: "CBS \<Rightarrow> bytes \<Rightarrow> nat \<Rightarrow> bytes option \<times> CBS" where
  "CBS_copy_bytes cbs out len =
     (case cbs_get cbs len of (None, cbs') \<Rightarrow> (None, cbs') | (Some v, cbs') \<Rightarrow> (Some (write_at out 0 v), cbs'))"

definition cbs_get_length_prefixed :: "CBS \<Rightarrow> nat \<Rightarrow> CBS option \<times> CBS" where
  "cbs_get_length_prefixed cbs len_len =
     (case cbs_get_u cbs len_len of
        (None, cbs') \<Rightarrow> (None, cbs')
      | (Some len, cbs') \<Rightarrow> CBS_get_bytes cbs' (unat len))"

definition CBS_get_u8_length_prefixed :: "CBS parser" where
  "CBS_get_u8_length_prefixed cbs = cbs_get_length_prefixed cbs 1"

definition CBS_get_u16_length_prefixed :: "CBS parser" where
  "CBS_get_u16_length_prefixed cbs = cbs_get_length_prefixed cbs 2"

definition CBS_get_u24_length_prefixed :: "CBS parser" where
  "CBS_get_u24_length_prefixed cbs = cbs_get_length_prefixed cbs 3"

definition CBS_get_until_first :: "u8 \<Rightarrow> CBS parser" where
  "CBS_get_until_first c cbs =
     (case memchr cbs c of None \<Rightarrow> (None, cbs) | Some split \<Rightarrow> CBS_get_bytes cbs split)"

text \<open>The digit loop of \<^verbatim>\<open>CBS_get_u64_decimal\<close>, with its two local variables.\<close>

fun u64_decimal_loop :: "u64 \<Rightarrow> bool \<Rightarrow> u64 parser" where
  "u64_decimal_loop v seen_digit [] = (if seen_digit then Some v else None, [])"
| "u64_decimal_loop v seen_digit (c # cbs) =
     (if \<not> OPENSSL_isdigit (uint c) then (if seen_digit then Some v else None, c # cbs)
      else if (v = 0 \<and> seen_digit) \<or> v > 0xffffffffffffffff div 10
              \<or> v * 10 > 0xffffffffffffffff - (ucast c - 48) then (None, cbs)
      else u64_decimal_loop (v * 10 + (ucast c - 48)) True cbs)"

definition CBS_get_u64_decimal :: "u64 parser" where
  "CBS_get_u64_decimal cbs = u64_decimal_loop 0 False cbs"

section \<open>ASN.1 identifiers and elements\<close>

fun base128_loop :: "u64 \<Rightarrow> u64 parser" where
  "base128_loop v [] = (None, [])"
| "base128_loop v (b # cbs) =
     (if drop_bit (64 - 7) v \<noteq> 0 then (None, cbs)
      else if v = 0 \<and> b = 0x80 then (None, cbs)
      else let v = push_bit 7 v OR ucast (b AND 0x7f)
           in if b AND 0x80 \<noteq> 0 then base128_loop v cbs else (Some v, cbs))"

definition parse_base128_integer :: "u64 parser" where
  "parse_base128_integer cbs = base128_loop 0 cbs"

definition parse_asn1_tag :: "CBS_ASN1_TAG parser" where
  "parse_asn1_tag cbs =
     (case CBS_get_u8 cbs of
        (None, cbs) \<Rightarrow> (None, cbs)
      | (Some tag_byte, cbs) \<Rightarrow>
          (let tag = push_bit CBS_ASN1_TAG_SHIFT (ucast tag_byte AND 0xe0) :: CBS_ASN1_TAG;
               tag_number = ucast (tag_byte AND 0x1f) :: CBS_ASN1_TAG;
               finish = (\<lambda>tag_number cbs.
                 let tag = tag OR tag_number in
                 if tag AND NOT CBS_ASN1_CONSTRUCTED = 0 then (None, cbs) else (Some tag, cbs))
           in if tag_number = 0x1f then
                (case parse_base128_integer cbs of
                   (None, cbs) \<Rightarrow> (None, cbs)
                 | (Some v, cbs) \<Rightarrow>
                     if v > ucast CBS_ASN1_TAG_NUMBER_MASK \<or> v < 0x1f then (None, cbs)
                     else finish (ucast v) cbs)
              else finish tag_number cbs))"

text \<open>What a successful \<^verbatim>\<open>cbs_get_any_asn1_element\<close> stores through its out-parameters.\<close>

record asn1_element =
  elt_out :: CBS
  elt_tag :: CBS_ASN1_TAG
  elt_header_len :: nat
  elt_ber_found :: bool
  elt_indefinite :: bool

definition asn1_element_of ::
    "CBS \<Rightarrow> nat \<Rightarrow> CBS_ASN1_TAG \<Rightarrow> nat \<Rightarrow> bool \<Rightarrow> bool \<Rightarrow> asn1_element option \<times> CBS" where
  "asn1_element_of cbs len tag header_len ber_found indefinite =
     (case CBS_get_bytes cbs len of
        (None, cbs') \<Rightarrow> (None, cbs')
      | (Some out, cbs') \<Rightarrow>
          (Some \<lparr>elt_out = out, elt_tag = tag, elt_header_len = header_len,
                 elt_ber_found = ber_found, elt_indefinite = indefinite\<rparr>, cbs'))"

definition cbs_get_any_asn1_element :: "bool \<Rightarrow> asn1_element parser" where
  "cbs_get_any_asn1_element ber_ok cbs =
     (case parse_asn1_tag cbs of
        (None, _) \<Rightarrow> (None, cbs)
      | (Some tag, header) \<Rightarrow>
     (case CBS_get_u8 header of
        (None, _) \<Rightarrow> (None, cbs)
      | (Some length_byte, header) \<Rightarrow>
     (let header_len = length cbs - length header in
      if length_byte AND 0x80 = 0 then
        asn1_element_of cbs (unat length_byte + header_len) tag header_len False False
      else
        let num_bytes = unat (length_byte AND 0x7f) in
        if ber_ok \<and> tag AND CBS_ASN1_CONSTRUCTED \<noteq> 0 \<and> num_bytes = 0 then
          asn1_element_of cbs header_len tag header_len True True
        else if num_bytes = 0 \<or> num_bytes > 4 then (None, cbs)
        else
          (case cbs_get_u header num_bytes of
             (None, _) \<Rightarrow> (None, cbs)
           | (Some len64, header) \<Rightarrow>
               (let not_short = len64 < 128;
                    not_minimal = drop_bit ((num_bytes - 1) * 8) len64 = 0;
                    len = unat len64
                in if (not_short \<or> not_minimal) \<and> \<not> ber_ok then (None, cbs)
                   else if size_add len (header_len + num_bytes) < len then (None, cbs)
                   else asn1_element_of cbs (size_add len (header_len + num_bytes)) tag
                          (header_len + num_bytes) (not_short \<or> not_minimal) False)))))"

definition CBS_get_any_asn1_element :: "asn1_element parser" where
  "CBS_get_any_asn1_element cbs = cbs_get_any_asn1_element False cbs"

definition CBS_get_any_ber_asn1_element :: "asn1_element parser" where
  "CBS_get_any_ber_asn1_element cbs = cbs_get_any_asn1_element True cbs"

definition CBS_get_any_asn1 :: "(CBS \<times> CBS_ASN1_TAG) parser" where
  "CBS_get_any_asn1 cbs =
     (case CBS_get_any_asn1_element cbs of
        (None, cbs') \<Rightarrow> (None, cbs')
      | (Some e, cbs') \<Rightarrow>
          (case CBS_skip (elt_out e) (elt_header_len e) of
             (False, _) \<Rightarrow> (None, cbs')
           | (True, out) \<Rightarrow> (Some (out, elt_tag e), cbs')))"

definition cbs_get_asn1 :: "CBS_ASN1_TAG \<Rightarrow> bool \<Rightarrow> CBS parser" where
  "cbs_get_asn1 tag_value skip_header cbs =
     (case CBS_get_any_asn1_element cbs of
        (None, cbs') \<Rightarrow> (None, cbs')
      | (Some e, cbs') \<Rightarrow>
          if elt_tag e \<noteq> tag_value then (None, cbs')
          else if skip_header then
            (case CBS_skip (elt_out e) (elt_header_len e) of
               (False, _) \<Rightarrow> (None, cbs')
             | (True, out) \<Rightarrow> (Some out, cbs'))
          else (Some (elt_out e), cbs'))"

definition CBS_get_asn1 :: "CBS_ASN1_TAG \<Rightarrow> CBS parser" where
  "CBS_get_asn1 tag_value cbs = cbs_get_asn1 tag_value True cbs"

definition CBS_get_asn1_element :: "CBS_ASN1_TAG \<Rightarrow> CBS parser" where
  "CBS_get_asn1_element tag_value cbs = cbs_get_asn1 tag_value False cbs"

definition CBS_peek_asn1_tag :: "CBS \<Rightarrow> CBS_ASN1_TAG \<Rightarrow> bool" where
  "CBS_peek_asn1_tag cbs tag_value \<longleftrightarrow>
     (case parse_asn1_tag cbs of (None, _) \<Rightarrow> False | (Some actual_tag, _) \<Rightarrow> tag_value = actual_tag)"

section \<open>ASN.1 contents\<close>

definition CBS_is_valid_asn1_integer :: "CBS \<Rightarrow> bool option" where
  \<comment> \<open>\<open>Some is_negative\<close> when the function returns one\<close>
  "CBS_is_valid_asn1_integer cbs =
     (case CBS_get_u8 cbs of
        (None, _) \<Rightarrow> None
      | (Some first_byte, copy) \<Rightarrow>
          (let is_negative = (first_byte AND 0x80 \<noteq> 0) in
           case CBS_get_u8 copy of
             (None, _) \<Rightarrow> Some is_negative
           | (Some second_byte, _) \<Rightarrow>
               if (first_byte = 0x00 \<and> second_byte AND 0x80 = 0)
                  \<or> (first_byte = 0xff \<and> second_byte AND 0x80 \<noteq> 0)
               then None else Some is_negative))"

definition CBS_is_unsigned_asn1_integer :: "CBS \<Rightarrow> bool" where
  "CBS_is_unsigned_asn1_integer cbs \<longleftrightarrow> CBS_is_valid_asn1_integer cbs = Some False"

fun asn1_uint64_loop :: "u64 \<Rightarrow> bytes \<Rightarrow> u64 option" where
  "asn1_uint64_loop out [] = Some out"
| "asn1_uint64_loop out (b # data) =
     (if drop_bit 56 out \<noteq> 0 then None else asn1_uint64_loop (push_bit 8 out OR ucast b) data)"

definition CBS_get_asn1_uint64 :: "u64 parser" where
  "CBS_get_asn1_uint64 cbs =
     (case CBS_get_asn1 CBS_ASN1_INTEGER cbs of
        (None, cbs') \<Rightarrow> (None, cbs')
      | (Some bytes, cbs') \<Rightarrow>
          if \<not> CBS_is_unsigned_asn1_integer bytes then (None, cbs')
          else (asn1_uint64_loop 0 bytes, cbs'))"

text \<open>\<^verbatim>\<open>CRYPTO_load_u64_be\<close> reads eight bytes, on the little-endian targets by a load and a swap.\<close>

definition CRYPTO_load_u64_be :: "bytes \<Rightarrow> u64" where
  "CRYPTO_load_u64_be bs = CRYPTO_bswap8 (foldr (\<lambda>b v. push_bit 8 v OR ucast b) (take 8 bs) 0)"

definition CBS_get_asn1_int64 :: "u64 parser" where
  \<comment> \<open>the result is the \<^verbatim>\<open>int64_t\<close>'s bit pattern; its value is \<open>sint\<close> of it\<close>
  "CBS_get_asn1_int64 cbs =
     (case CBS_get_asn1 CBS_ASN1_INTEGER cbs of
        (None, cbs') \<Rightarrow> (None, cbs')
      | (Some bytes, cbs') \<Rightarrow>
          (case CBS_is_valid_asn1_integer bytes of
             None \<Rightarrow> (None, cbs')
           | Some is_negative \<Rightarrow>
               (let len = length bytes in
                if len > 8 then (None, cbs')
                else let sign_extend = replicate 8 (if is_negative then 0xff else 0);
                         sign_extend = write_at sign_extend (8 - len) bytes
                     in (Some (CRYPTO_load_u64_be sign_extend), cbs'))))"

definition CBS_get_asn1_bool :: "bool parser" where
  "CBS_get_asn1_bool cbs =
     (case CBS_get_asn1 CBS_ASN1_BOOLEAN cbs of
        (None, cbs') \<Rightarrow> (None, cbs')
      | (Some bytes, cbs') \<Rightarrow>
          if length bytes \<noteq> 1 then (None, cbs')
          else let v = bytes ! 0 in
               if v \<noteq> 0 \<and> v \<noteq> 0xff then (None, cbs') else (Some (v \<noteq> 0), cbs'))"

text \<open>\<open>Some None\<close>: the call succeeds and the optional element is absent.\<close>

definition CBS_get_optional_asn1 :: "CBS_ASN1_TAG \<Rightarrow> CBS option parser" where
  "CBS_get_optional_asn1 tag cbs =
     (if CBS_peek_asn1_tag cbs tag then
        (case CBS_get_asn1 tag cbs of (None, cbs') \<Rightarrow> (None, cbs') | (Some out, cbs') \<Rightarrow> (Some (Some out), cbs'))
      else (Some None, cbs))"

definition CBS_get_optional_asn1_octet_string :: "CBS_ASN1_TAG \<Rightarrow> CBS option parser" where
  "CBS_get_optional_asn1_octet_string tag cbs =
     (case CBS_get_optional_asn1 tag cbs of
        (None, cbs') \<Rightarrow> (None, cbs')
      | (Some None, cbs') \<Rightarrow> (Some None, cbs')
      | (Some (Some child), cbs') \<Rightarrow>
          (case CBS_get_asn1 CBS_ASN1_OCTETSTRING child of
             (None, _) \<Rightarrow> (None, cbs')
           | (Some out, child) \<Rightarrow> if length child \<noteq> 0 then (None, cbs') else (Some (Some out), cbs')))"

definition CBS_get_optional_asn1_uint64 :: "CBS_ASN1_TAG \<Rightarrow> u64 \<Rightarrow> u64 parser" where
  "CBS_get_optional_asn1_uint64 tag default_value cbs =
     (case CBS_get_optional_asn1 tag cbs of
        (None, cbs') \<Rightarrow> (None, cbs')
      | (Some None, cbs') \<Rightarrow> (Some default_value, cbs')
      | (Some (Some child), cbs') \<Rightarrow>
          (case CBS_get_asn1_uint64 child of
             (None, _) \<Rightarrow> (None, cbs')
           | (Some out, child) \<Rightarrow> if length child \<noteq> 0 then (None, cbs') else (Some out, cbs')))"

definition CBS_get_optional_asn1_bool :: "CBS_ASN1_TAG \<Rightarrow> int \<Rightarrow> int parser" where
  "CBS_get_optional_asn1_bool tag default_value cbs =
     (case CBS_get_optional_asn1 tag cbs of
        (None, cbs') \<Rightarrow> (None, cbs')
      | (Some None, cbs') \<Rightarrow> (Some default_value, cbs')
      | (Some (Some child), cbs') \<Rightarrow>
          (case CBS_get_asn1 CBS_ASN1_BOOLEAN child of
             (None, _) \<Rightarrow> (None, cbs')
           | (Some child2, child) \<Rightarrow>
               if length child2 \<noteq> 1 \<or> length child \<noteq> 0 then (None, cbs')
               else let boolean = child2 ! 0 in
                    if boolean = 0 then (Some 0, cbs')
                    else if boolean = 0xff then (Some 1, cbs')
                    else (None, cbs')))"

definition CBS_is_valid_asn1_bitstring :: "CBS \<Rightarrow> bool" where
  "CBS_is_valid_asn1_bitstring cbs \<longleftrightarrow>
     (case CBS_get_u8 cbs of
        (None, _) \<Rightarrow> False
      | (Some num_unused_bits, inp) \<Rightarrow>
          if num_unused_bits > 7 then False
          else if num_unused_bits = 0 then True
          else (case CBS_get_last_u8 inp of
                  (None, _) \<Rightarrow> False
                | (Some last_byte, _) \<Rightarrow> last_byte AND (push_bit (unat num_unused_bits) 1 - 1) = 0))"

definition CBS_asn1_bitstring_has_bit :: "CBS \<Rightarrow> u32 \<Rightarrow> bool" where
  "CBS_asn1_bitstring_has_bit cbs b \<longleftrightarrow>
     (if \<not> CBS_is_valid_asn1_bitstring cbs then False
      else let byte_num = unat (drop_bit 3 b + 1);
               bit_num = 7 - unat (b AND 7)
           in byte_num < length cbs \<and> (cbs ! byte_num) AND push_bit bit_num 1 \<noteq> 0)"

fun valid_oid_loop :: "u8 \<Rightarrow> CBS \<Rightarrow> bool" where
  "valid_oid_loop prev [] = (prev AND 0x80 = 0)"
| "valid_oid_loop prev (v # copy) =
     (if prev AND 0x80 = 0 \<and> v = 0x80 then False else valid_oid_loop v copy)"

definition CBS_is_valid_asn1_oid :: "CBS \<Rightarrow> bool" where
  "CBS_is_valid_asn1_oid cbs \<longleftrightarrow> (if length cbs = 0 then False else valid_oid_loop 0 cbs)"

end
