(* ===== verification/Cbs_Ints.thy ===== *)
theory Cbs_Ints
  imports Cbs
begin

text \<open>
  The fixed-width integers and length-prefixed strings of the reader are codecs: each is read back
  from its big-endian (or little-endian) encoding, and from nothing else. The interpretations below
  give prefix-freeness and sequence parsing for each of them from the interface in \<open>Codec\<close>.
\<close>

lemma cbs_get_append [simp]: "length bs = n \<Longrightarrow> cbs_get (bs @ r) n = (Some bs, r)"
  by (simp add: cbs_get_def)

lemma cbs_get_Some: "cbs_get cbs n = (Some bs, r) \<longleftrightarrow> length bs = n \<and> cbs = bs @ r"
  by (auto simp: cbs_get_def)

lemma cbs_get_None: "cbs_get cbs n = (None, r) \<longleftrightarrow> length cbs < n \<and> r = cbs"
  by (auto simp: cbs_get_def)

lemma cbs_get_cases:
  obtains (short) "length cbs < n" "cbs_get cbs n = (None, cbs)"
  | (ok) bs r where "length bs = n" "cbs = bs @ r" "cbs_get cbs n = (Some bs, r)"
proof (cases "length cbs < n")
  case False
  then show ?thesis by (intro ok [of "take n cbs" "drop n cbs"]) (auto simp: cbs_get_def)
qed (auto simp: cbs_get_def intro: short)

lemma CBS_get_u8_Cons [simp]: "CBS_get_u8 (b # r) = (Some b, r)"
  by (simp add: CBS_get_u8_def cbs_get_def)

lemma CBS_get_u8_Nil [simp]: "CBS_get_u8 [] = (None, [])"
  by (simp add: CBS_get_u8_def cbs_get_def)

lemma cbs_get_u_iff:
  assumes "n \<le> 8"
  shows "cbs_get_u cbs n = (Some v, r) \<longleftrightarrow> unat v < 256 ^ n \<and> cbs = be_bytes n (unat v) @ r"
proof
  assume "cbs_get_u cbs n = (Some v, r)"
  then obtain bs where bs: "length bs = n" "cbs = bs @ r"
    and v: "v = foldl (\<lambda>r b. push_bit 8 r OR ucast b) 0 bs"
    by (auto simp: cbs_get_u_def cbs_get_def split: prod.splits option.splits if_splits
        intro: that [of "take n cbs"])
  with assms have "unat v = be_val bs" by (simp add: unat_be_fold)
  with bs show "unat v < 256 ^ n \<and> cbs = be_bytes n (unat v) @ r"
    using be_val_less [of bs] be_bytes_be_val [of bs] by simp
next
  assume a: "unat v < 256 ^ n \<and> cbs = be_bytes n (unat v) @ r"
  have "unat (foldl (\<lambda>r b. push_bit 8 r OR ucast b) (0::u64) (be_bytes n (unat v))) = unat v"
    using a assms by (simp add: unat_be_fold be_val_be_bytes)
  then show "cbs_get_u cbs n = (Some v, r)"
    using a by (simp add: cbs_get_u_def word_unat_eq_iff)
qed

lemma cbs_get_u_None: "cbs_get_u cbs n = (None, r) \<longleftrightarrow> length cbs < n \<and> r = cbs"
  by (auto simp: cbs_get_u_def cbs_get_def split: if_splits)

text \<open>A fixed-width reader is \<open>cbs_get_u\<close> followed by a truncation that loses nothing.\<close>

lemma fixed_width_iff:
  fixes v :: "'a::len word"
  assumes "n \<le> 8" and "LENGTH('a) \<le> 64" and "256 ^ n \<le> (2::nat) ^ LENGTH('a)"
  shows "(case cbs_get_u cbs n of (v, cbs') \<Rightarrow> (map_option ucast v, cbs')) = (Some v, r)
    \<longleftrightarrow> unat v < 256 ^ n \<and> cbs = be_bytes n (unat v) @ r" (is "?l \<longleftrightarrow> ?r")
proof
  assume ?l
  then obtain w where w: "cbs_get_u cbs n = (Some w, r)" and v: "v = ucast w"
    by (auto split: prod.splits)
  have uw: "unat w < 256 ^ n" "cbs = be_bytes n (unat w) @ r"
    using w cbs_get_u_iff [OF assms(1)] by auto
  then have "unat v = unat w"
    unfolding v unat_ucast_mod using assms(3) by (intro mod_less) linarith
  with uw show ?r by simp
next
  assume r: ?r
  have u: "unat (ucast v :: u64) = unat v"
    by (rule unat_ucast_up) (use assms(2) in simp)
  with r have "cbs_get_u cbs n = (Some (ucast v), r)"
    using cbs_get_u_iff [OF assms(1)] by simp
  moreover have "(ucast (ucast v :: u64) :: 'a word) = v"
    unfolding word_unat_eq_iff unat_ucast_mod [of "ucast v :: u64"] u by simp
  ultimately show ?l by simp
qed

lemma CBS_get_u16_iff: "CBS_get_u16 cbs = (Some v, r) \<longleftrightarrow> cbs = be_bytes 2 (unat v) @ r"
  unfolding CBS_get_u16_def using unsigned_less [of v] by (subst fixed_width_iff) auto

lemma CBS_get_u24_iff:
  "CBS_get_u24 cbs = (Some v, r) \<longleftrightarrow> unat v < 2 ^ 24 \<and> cbs = be_bytes 3 (unat v) @ r"
  unfolding CBS_get_u24_def by (subst fixed_width_iff) auto

lemma CBS_get_u32_iff: "CBS_get_u32 cbs = (Some v, r) \<longleftrightarrow> cbs = be_bytes 4 (unat v) @ r"
  unfolding CBS_get_u32_def using unsigned_less [of v] by (subst fixed_width_iff) auto

lemma CBS_get_u64_iff: "CBS_get_u64 cbs = (Some v, r) \<longleftrightarrow> cbs = be_bytes 8 (unat v) @ r"
  unfolding CBS_get_u64_def using unsigned_less [of v] by (subst cbs_get_u_iff) auto

interpretation u8c: canonical_codec "\<lambda>b. [b]" CBS_get_u8 "\<lambda>_. True"
proof unfold_locales
  fix cbs x r
  assume "CBS_get_u8 cbs = (Some x, r)"
  then show "True \<and> cbs = [x] @ r" by (cases cbs) auto
qed simp

interpretation u16c: canonical_codec "\<lambda>v. be_bytes 2 (unat v)" CBS_get_u16 "\<lambda>_. True"
  by unfold_locales (simp_all only: CBS_get_u16_iff simp_thms)

interpretation u24c: canonical_codec "\<lambda>v. be_bytes 3 (unat v)" CBS_get_u24 "\<lambda>v. unat v < 2 ^ 24"
  by unfold_locales (simp_all only: CBS_get_u24_iff simp_thms)

interpretation u32c: canonical_codec "\<lambda>v. be_bytes 4 (unat v)" CBS_get_u32 "\<lambda>_. True"
  by unfold_locales (simp_all only: CBS_get_u32_iff simp_thms)

interpretation u64c: canonical_codec "\<lambda>v. be_bytes 8 (unat v)" CBS_get_u64 "\<lambda>_. True"
  by unfold_locales (simp_all only: CBS_get_u64_iff simp_thms)

section \<open>Length-prefixed strings\<close>

lemma length_prefixed_iff:
  assumes "n \<le> 3"
  shows "cbs_get_length_prefixed cbs n = (Some out, r)
    \<longleftrightarrow> length out < 256 ^ n \<and> cbs = be_bytes n (length out) @ out @ r" (is "?l \<longleftrightarrow> ?r")
proof
  assume ?l
  then obtain v c where v: "cbs_get_u cbs n = (Some v, c)" and c: "CBS_get_bytes c (unat v) = (Some out, r)"
    by (auto simp: cbs_get_length_prefixed_def split: prod.splits option.splits)
  have "n \<le> 8" using assms by simp
  with v c show ?r by (auto simp: cbs_get_u_iff CBS_get_bytes_def cbs_get_Some)
next
  assume r: ?r
  have "(256::nat) ^ n \<le> 256 ^ 3" using assms by (intro power_increasing) auto
  with r have "length out < 2 ^ 64" by simp
  then have "unat (of_nat (length out) :: u64) = length out" by (simp add: unat_of_nat)
  with r assms have "cbs_get_u cbs n = (Some (of_nat (length out)), out @ r)"
    by (simp add: cbs_get_u_iff)
  with \<open>unat _ = length out\<close> show ?l
    by (simp add: cbs_get_length_prefixed_def CBS_get_bytes_def)
qed

interpretation u8lp: canonical_codec "\<lambda>bs. be_bytes 1 (length bs) @ bs" CBS_get_u8_length_prefixed
  "\<lambda>bs. length bs < 2 ^ 8"
  by unfold_locales (simp_all add: CBS_get_u8_length_prefixed_def length_prefixed_iff del: be_bytes.simps)

interpretation u16lp: canonical_codec "\<lambda>bs. be_bytes 2 (length bs) @ bs" CBS_get_u16_length_prefixed
  "\<lambda>bs. length bs < 2 ^ 16"
  by unfold_locales (simp_all add: CBS_get_u16_length_prefixed_def length_prefixed_iff del: be_bytes.simps)

interpretation u24lp: canonical_codec "\<lambda>bs. be_bytes 3 (length bs) @ bs" CBS_get_u24_length_prefixed
  "\<lambda>bs. length bs < 2 ^ 24"
  by unfold_locales (simp_all add: CBS_get_u24_length_prefixed_def length_prefixed_iff del: be_bytes.simps)

section \<open>Properties\<close>

text \<open>
  A sequence of 16-bit length-prefixed strings, the form of the vectors of TLS, is read as \<open>xs\<close>
  with \<open>r\<close> left over exactly when the input is the concatenation of the encodings of \<open>xs\<close>
  followed by \<open>r\<close>: the reader loses nothing, accepts nothing else, and never reads past the input.
\<close>

theorem u16_length_prefixed_sequence:
  "parse_n CBS_get_u16_length_prefixed n cbs = (Some xs, r) \<longleftrightarrow>
     length xs = n \<and> list_all (\<lambda>x. length x < 2 ^ 16) xs \<and>
     cbs = concat (map (\<lambda>x. be_bytes 2 (length x) @ x) xs) @ r"
  using u16lp.parse_n_canonical u16lp.parse_n_enc [of xs r] by blast

end
