(* ===== verification/Der.thy ===== *)
theory Der
  imports Cbs_Ints
begin

text \<open>
  The DER reference encoding (ITU-T X.690) and the proof that the reader of \<^verbatim>\<open>cbs.c\<close> accepts
  exactly it: base-128 integers, identifier octets, length octets and whole elements are canonical
  codecs.
\<close>

section \<open>Base-128 integers\<close>

fun b128_hi :: "nat \<Rightarrow> bytes" where
  "b128_hi v = (if v = 0 then [] else b128_hi (v div 128) @ [of_nat (128 + v mod 128)])"

declare b128_hi.simps [simp del]

definition b128 :: "nat \<Rightarrow> bytes" where
  "b128 v = b128_hi (v div 128) @ [of_nat (v mod 128)]"

lemma b128_hi_0 [simp]: "b128_hi 0 = []"
  by (simp add: b128_hi.simps)

lemma b128_hi_snoc:
  "0 < v \<or> 0 < d \<Longrightarrow> d < 128 \<Longrightarrow> b128_hi (128 * v + d) = b128_hi v @ [of_nat (128 + d)]"
  by (subst b128_hi.simps) simp

lemma base128_step_unat:
  fixes v :: u64 and b :: u8
  assumes "unat v < 2 ^ 57"
  shows "unat (push_bit 7 v OR ucast (b AND 0x7f) :: u64) = 128 * unat v + unat b mod 128"
proof -
  have "unat (push_bit 7 v OR ucast (b AND 0x7f) :: u64) = unat v * 2 ^ 7 + unat (ucast (b AND 0x7f) :: u64)"
    using assms by (intro unat_shift_or) (simp_all add: unat_ucast_up u8_and_7f)
  then show ?thesis by (simp add: unat_ucast_up u8_and_7f)
qed

lemma drop_57_eq_0: "drop_bit 57 (v :: u64) = 0 \<longleftrightarrow> unat v < 2 ^ 57"
  by (simp add: unat_eq_0 [symmetric] unat_drop_bit div_eq_0_iff)

lemma base128_loop_hi:
  "v < 2 ^ 64 \<Longrightarrow> base128_loop 0 (b128_hi v @ r) = base128_loop (of_nat v) r"
proof (induction v arbitrary: r rule: b128_hi.induct)
  case (1 v)
  show ?case
  proof (cases "v = 0")
    case False
    let ?d = "of_nat (128 + v mod 128) :: u8"
    have d: "unat ?d = 128 + v mod 128" by (simp del: of_nat_add)
    have w: "unat (of_nat (v div 128) :: u64) = v div 128" "v div 128 < 2 ^ 57"
      using "1.prems" by (simp_all add: unat_of_nat)
    have nz: "\<not> ((of_nat (v div 128) :: u64) = 0 \<and> ?d = 0x80)"
      using False d w(1) by (auto simp: word_unat_eq_iff [of ?d])
    have "base128_loop 0 (b128_hi v @ r) = base128_loop (of_nat (v div 128)) (?d # r)"
      using "1.IH" [OF False] "1.prems" False by (simp add: b128_hi.simps [of v])
    also have "\<dots> = base128_loop (push_bit 7 (of_nat (v div 128)) OR ucast (?d AND 0x7f)) r"
      using nz w d by (auto simp: drop_57_eq_0 u8_and_80 Let_def simp del: of_nat_add)
    also have "push_bit 7 (of_nat (v div 128)) OR ucast (?d AND 0x7f) = (of_nat v :: u64)"
      using base128_step_unat [of "of_nat (v div 128)" ?d] w d "1.prems"
      by (simp only: word_unat_eq_iff unat_of_nat) (simp add: unat_of_nat)
    finally show ?thesis .
  qed simp
qed

lemma base128_loop_canonical:
  "base128_loop w cbs = (Some v, r) \<Longrightarrow> b128_hi (unat w) @ cbs = b128 (unat v) @ r"
proof (induction w cbs rule: base128_loop.induct)
  case (2 w b cbs)
  let ?w = "push_bit 7 w OR ucast (b AND 0x7f) :: u64"
  have w: "unat w < 2 ^ 57" and nz: "\<not> (w = 0 \<and> b = 0x80)"
    using "2.prems" by (auto simp: drop_57_eq_0 split: if_splits)
  have u: "unat ?w = 128 * unat w + unat b mod 128"
    by (rule base128_step_unat [OF w])
  show ?case
  proof (cases "b AND 0x80 = 0")
    case True
    then have b: "unat b < 128" by (simp add: u8_and_80)
    have v: "v = ?w" and "r = cbs"
      using "2.prems" True w nz by (auto simp: drop_57_eq_0 Let_def split: if_splits)
    moreover have "b128 (128 * unat w + unat b) = b128_hi (unat w) @ [b]"
      using b by (simp add: b128_def)
    ultimately show ?thesis using u b by simp
  next
    case False
    then have b: "128 \<le> unat b" by (simp add: u8_and_80)
    have "unat b - 128 < 128" using unat_u8_less [of b] by linarith
    then have m: "unat b = 128 + unat b mod 128"
      using b by (simp only: le_mod_geq [OF b] mod_less)
    have "0 < unat w \<or> 0 < unat b mod 128"
    proof (rule ccontr)
      assume "\<not> ?thesis"
      with m have "w = 0" and "b = 0x80" by (auto simp: word_unat_eq_iff)
      with nz show False by simp
    qed
    then have "b128_hi (unat ?w) = b128_hi (unat w) @ [of_nat (128 + unat b mod 128)]"
      unfolding u by (rule b128_hi_snoc) simp
    also have "of_nat (128 + unat b mod 128) = b"
      unfolding m [symmetric] by simp
    finally show ?thesis
      using 2 False w nz by (auto simp: drop_57_eq_0 Let_def)
  qed
qed simp

lemma parse_base128_integer_b128:
  assumes "v < 2 ^ 64"
  shows "parse_base128_integer (b128 v @ r) = (Some (of_nat v), r)"
proof -
  let ?d = "of_nat (v mod 128) :: u8" and ?w = "of_nat (v div 128) :: u64"
  have d: "unat ?d = v mod 128" and w: "unat ?w = v div 128" "v div 128 < 2 ^ 57"
    using assms by (simp_all add: unat_of_nat)
  have "parse_base128_integer (b128 v @ r) = base128_loop ?w (?d # r)"
    using assms base128_loop_hi [of "v div 128" "?d # r"]
    by (simp add: parse_base128_integer_def b128_def)
  also have "\<dots> = (Some (push_bit 7 ?w OR ucast (?d AND 0x7f)), r)"
    using w d by (auto simp: drop_57_eq_0 u8_and_80 Let_def word_unat_eq_iff [of ?d])
  also have "push_bit 7 ?w OR ucast (?d AND 0x7f) = (of_nat v :: u64)"
    using base128_step_unat [of ?w ?d] w d assms
    by (simp only: word_unat_eq_iff unat_of_nat) (simp add: unat_of_nat)
  finally show ?thesis .
qed

lemma parse_base128_integer_iff:
  "parse_base128_integer cbs = (Some v, r) \<longleftrightarrow> cbs = b128 (unat v) @ r"
proof
  assume "parse_base128_integer cbs = (Some v, r)"
  then show "cbs = b128 (unat v) @ r"
    using base128_loop_canonical [of 0 cbs v r] by (simp add: parse_base128_integer_def)
qed (use parse_base128_integer_b128 [of "unat v" r] unsigned_less [of v] in simp)

interpretation b128c: canonical_codec "\<lambda>v. b128 (unat v)" parse_base128_integer "\<lambda>_. True"
  by unfold_locales (simp_all only: parse_base128_integer_iff simp_thms)

section \<open>Identifier octets\<close>

definition tag_ok :: "CBS_ASN1_TAG \<Rightarrow> bool" where
  "tag_ok t \<longleftrightarrow> t AND NOT CBS_ASN1_CONSTRUCTED \<noteq> 0"

definition der_tag :: "CBS_ASN1_TAG \<Rightarrow> bytes" where
  "der_tag t =
     (let bits = unat t div 2 ^ 29 * 32; num = unat t mod 2 ^ 29
      in if num < 31 then [of_nat (bits + num)] else of_nat (bits + 31) # b128 num)"

lemma length_b128_hi: "v < 128 ^ n \<Longrightarrow> length (b128_hi v) \<le> n"
proof (induction n arbitrary: v)
  case (Suc n)
  then have "v div 128 < 128 ^ n" by (simp add: less_mult_imp_div_less mult.commute)
  from Suc.IH [OF this] show ?case by (subst b128_hi.simps) simp
qed simp

lemma length_der_tag: "1 \<le> length (der_tag t) \<and> length (der_tag t) \<le> 6"
proof -
  have "unat t mod 2 ^ 29 div 128 < 128 ^ 4" by (simp add: less_mult_imp_div_less)
  from length_b128_hi [OF this] show ?thesis by (simp add: der_tag_def b128_def Let_def)
qed

lemma tag_bits_shift: "push_bit 24 (ucast (b :: u8) AND 0xe0) = (push_bit 29 (ucast (drop_bit 5 b)) :: u32)"
proof (rule bit_word_eqI)
  fix n assume "n < LENGTH(32)"
  then have n: "n < 32" by simp
  have e: "(0xe0 :: u32) = push_bit 5 (mask 3)" by (simp add: mask_eq_exp_minus_1)
  show "bit (push_bit 24 (ucast b AND 0xe0) :: u32) n = bit (push_bit 29 (ucast (drop_bit 5 b)) :: u32) n"
    unfolding e using n by (auto simp: bit_simps le_diff_conv2 dest: bit_imp_le_length)
qed

lemma tag_or_unat:
  fixes b :: u8 and n :: u32
  assumes "unat n < 2 ^ 29"
  shows "unat (push_bit 24 (ucast b AND 0xe0) OR n) = unat b div 32 * 2 ^ 29 + unat n"
proof -
  have d: "unat b div 32 < 8" using unat_u8_less [of b] by (simp add: less_mult_imp_div_less)
  have u: "unat (ucast (drop_bit 5 b) :: u32) = unat b div 32"
    using unat_drop_bit [of 5 b] unat_ucast_up [where ?'b = 32, of "drop_bit 5 b"] by simp
  show ?thesis
    unfolding tag_bits_shift using unat_shift_or [of "ucast (drop_bit 5 b) :: u32" 29 n] d u assms
    by simp
qed

lemma tag_number_mask: "unat (ucast CBS_ASN1_TAG_NUMBER_MASK :: u64) = 2 ^ 29 - 1"
  by (simp add: CBS_ASN1_TAG_NUMBER_MASK_def CBS_ASN1_TAG_SHIFT_def)

lemma u8_split: "of_nat (unat (b :: u8) div 32 * 32 + unat b mod 32) = b"
  by (simp only: div_mult_mod_eq of_nat_unat) simp

lemma parse_asn1_tag_sound:
  assumes "parse_asn1_tag cbs = (Some t, r)"
  shows "tag_ok t \<and> cbs = der_tag t @ r"
proof -
  from assms obtain b c where cbs: "cbs = b # c"
    by (cases cbs) (auto simp: parse_asn1_tag_def)
  have n31: "(ucast (b AND 0x1f) :: u32) = 0x1f \<longleftrightarrow> unat b mod 32 = 31"
    by (simp add: word_unat_eq_iff unat_ucast_up u8_and_1f)
  show ?thesis
  proof (cases "unat b mod 32 = 31")
    case True
    then obtain v where v: "parse_base128_integer c = (Some v, r)"
      and bound: "unat v < 2 ^ 29" "31 \<le> unat v"
      and t: "t = push_bit 24 (ucast b AND 0xe0) OR ucast v" and ok: "tag_ok t"
      using assms n31 unfolding cbs parse_asn1_tag_def
      by (auto simp: Let_def CBS_ASN1_TAG_SHIFT_def tag_ok_def not_less word_less_nat_alt
          word_le_nat_alt tag_number_mask split: if_splits prod.splits option.splits)
    have uv: "unat (ucast v :: u32) = unat v" using bound by (simp add: unat_ucast_mod)
    have "unat t = unat b div 32 * 2 ^ 29 + unat v"
      unfolding t using tag_or_unat [of "ucast v" b] bound uv by simp
    then have "der_tag t = of_nat (unat b div 32 * 32 + 31) # b128 (unat v)"
      using bound by (simp add: der_tag_def Let_def)
    then show ?thesis
      using ok v u8_split [of b] True cbs by (simp add: parse_base128_integer_iff)
  next
    case False
    then have t: "t = push_bit 24 (ucast b AND 0xe0) OR ucast (b AND 0x1f)" and ok: "tag_ok t" and "r = c"
      using assms n31 unfolding cbs parse_asn1_tag_def
      by (auto simp: Let_def CBS_ASN1_TAG_SHIFT_def tag_ok_def split: if_splits)
    have un: "unat (ucast (b AND 0x1f) :: u32) = unat b mod 32" by (simp add: unat_ucast_up u8_and_1f)
    have "unat b mod 32 < 32" by simp
    then have "unat t = unat b div 32 * 2 ^ 29 + unat b mod 32"
      unfolding t using tag_or_unat [of "ucast (b AND 0x1f)" b] un by simp
    moreover have "unat b mod 32 < 31" using False \<open>unat b mod 32 < 32\<close> by linarith
    ultimately have "der_tag t = [of_nat (unat b div 32 * 32 + unat b mod 32)]"
      by (simp add: der_tag_def Let_def del: of_nat_add of_nat_mult)
    then show ?thesis using ok \<open>r = c\<close> cbs by (simp only: u8_split) simp
  qed
qed

lemma parse_asn1_tag_complete:
  assumes "tag_ok t"
  shows "parse_asn1_tag (der_tag t @ r) = (Some t, r)"
proof -
  define hi num where "hi = unat t div 2 ^ 29" and "num = unat t mod 2 ^ 29"
  have hi: "hi < 8" unfolding hi_def using unat_less [of t] by (simp add: less_mult_imp_div_less)
  have num: "num < 2 ^ 29" by (simp add: num_def)
  have t: "unat t = hi * 2 ^ 29 + num" by (simp add: hi_def num_def)
  show ?thesis
  proof (cases "num < 31")
    case True
    define b where "b = (of_nat (hi * 32 + num) :: u8)"
    have "hi * 32 + num < 256" using hi True by linarith
    then have ub: "unat b = hi * 32 + num"
      unfolding b_def by (simp only: unat_of_nat_u8 mod_less)
    then have b: "unat b div 32 = hi" "unat b mod 32 = num" using True by simp_all
    have n: "unat (ucast (b AND 0x1f) :: u32) = num" by (simp add: unat_ucast_up u8_and_1f b)
    have teq: "push_bit 24 (ucast b AND 0xe0) OR ucast (b AND 0x1f) = t"
      using tag_or_unat [of "ucast (b AND 0x1f)" b] n b num t by (simp add: word_unat_eq_iff)
    have "der_tag t = [b]"
      using True by (simp add: der_tag_def b_def hi_def num_def del: of_nat_add of_nat_mult)
    moreover have "(ucast (b AND 0x1f) :: u32) \<noteq> 0x1f"
      using n True by (auto simp: word_unat_eq_iff)
    ultimately show ?thesis
      using assms teq by (simp add: parse_asn1_tag_def Let_def CBS_ASN1_TAG_SHIFT_def tag_ok_def)
  next
    case False
    define b where "b = (of_nat (hi * 32 + 31) :: u8)"
    have "hi * 32 + 31 < 256" using hi by linarith
    then have ub: "unat b = hi * 32 + 31"
      unfolding b_def by (simp only: unat_of_nat_u8 mod_less)
    then have b: "unat b div 32 = hi" "unat b mod 32 = 31" by simp_all
    have n31: "(ucast (b AND 0x1f) :: u32) = 0x1f"
      by (simp add: word_unat_eq_iff unat_ucast_up u8_and_1f b)
    define v where "v = (of_nat num :: u64)"
    have uv: "unat v = num" unfolding v_def using num by (simp add: unat_of_nat)
    have uv32: "unat (ucast v :: u32) = num" using num uv by (simp add: unat_ucast_mod)
    have teq: "push_bit 24 (ucast b AND 0xe0) OR ucast v = t"
      using tag_or_unat [of "ucast v" b] uv32 b num t by (simp add: word_unat_eq_iff)
    have "der_tag t = b # b128 num"
      using False by (simp add: der_tag_def b_def hi_def num_def del: of_nat_add of_nat_mult)
    moreover have "parse_base128_integer (b128 num @ r) = (Some v, r)"
      by (simp add: parse_base128_integer_iff uv)
    moreover have "\<not> (v > ucast CBS_ASN1_TAG_NUMBER_MASK \<or> v < 0x1f)"
      using False num by (auto simp: word_less_nat_alt tag_number_mask uv)
    ultimately show ?thesis
      using assms teq n31 by (simp add: parse_asn1_tag_def Let_def CBS_ASN1_TAG_SHIFT_def tag_ok_def)
  qed
qed

interpretation tagc: canonical_codec der_tag parse_asn1_tag tag_ok
  by unfold_locales (use parse_asn1_tag_complete parse_asn1_tag_sound in auto)

section \<open>Length octets and elements\<close>

definition len_octets :: "nat \<Rightarrow> nat" where
  "len_octets n = (if n < 2 ^ 8 then 1 else if n < 2 ^ 16 then 2 else if n < 2 ^ 24 then 3 else 4)"

definition der_len :: "nat \<Rightarrow> bytes" where
  "der_len n = (if n < 128 then [of_nat n] else of_nat (128 + len_octets n) # be_bytes (len_octets n) n)"

definition der :: "CBS_ASN1_TAG \<Rightarrow> bytes \<Rightarrow> bytes" where
  "der t c = der_tag t @ der_len (length c) @ c"

definition der_element :: "CBS_ASN1_TAG \<Rightarrow> bytes \<Rightarrow> asn1_element" where
  "der_element t c =
     \<lparr>elt_out = der t c, elt_tag = t, elt_header_len = length (der_tag t) + length (der_len (length c)),
      elt_ber_found = False, elt_indefinite = False\<rparr>"

lemma len_octets_bounds: "1 \<le> len_octets n \<and> len_octets n \<le> 4"
  by (simp add: len_octets_def)

lemma len_octets_less: "n < 2 ^ 32 \<Longrightarrow> n < 256 ^ len_octets n"
  by (simp add: len_octets_def)

lemma len_octets_ge: "128 \<le> n \<Longrightarrow> 256 ^ (len_octets n - 1) \<le> n"
  by (simp add: len_octets_def)

lemma len_octets_unique:
  assumes "1 \<le> k" and "k \<le> 4" and "n < 256 ^ k" and "256 ^ (k - 1) \<le> n"
  shows "len_octets n = k"
proof -
  from assms(1,2) consider "k = 1" | "k = 2" | "k = 3" | "k = 4" by linarith
  then show ?thesis using assms(3,4) by cases (simp_all add: len_octets_def)
qed

lemma length_der_len: "1 \<le> length (der_len n) \<and> length (der_len n) \<le> 5"
  using len_octets_bounds [of n] by (simp add: der_len_def)

lemma der_length: "length (der t c) = length (der_tag t) + length (der_len (length c)) + length c"
  by (simp add: der_def)

lemma minimal_len_iff:
  "drop_bit ((k - 1) * 8) (v :: u64) = 0 \<longleftrightarrow> unat v < 256 ^ (k - 1)"
proof -
  have "(256::nat) ^ (k - 1) = 2 ^ (8 * (k - 1))" by (simp only: power_mult) simp
  then show ?thesis by (simp add: unat_eq_0 [symmetric] unat_drop_bit div_eq_0_iff mult.commute)
qed

text \<open>
  What the long form of the length reads: \<open>k\<close> octets that hold \<open>v\<close> minimally are the reference
  encoding of \<open>v\<close>.
\<close>

lemma der_len_long:
  assumes "1 \<le> k" and "k \<le> 4" and "n < 256 ^ k" and "128 \<le> n" and "256 ^ (k - 1) \<le> n"
  shows "der_len n = of_nat (128 + k) # be_bytes k n"
  using assms len_octets_unique [OF assms(1,2,3,5)] by (simp add: der_len_def)

lemma asn1_element_of_Some:
  "asn1_element_of cbs len tag h bf ind = (Some e, r) \<longleftrightarrow>
     len \<le> length cbs \<and> r = drop len cbs \<and>
     e = \<lparr>elt_out = take len cbs, elt_tag = tag, elt_header_len = h, elt_ber_found = bf, elt_indefinite = ind\<rparr>"
  by (auto simp: asn1_element_of_def CBS_get_bytes_def cbs_get_def)

lemma CBS_get_any_asn1_element_complete:
  assumes "tag_ok t" and "length c < 2 ^ 32"
  shows "CBS_get_any_asn1_element (der t c @ r) = (Some (der_element t c), r)"
proof -
  have tag: "parse_asn1_tag (der t c @ r) = (Some t, der_len (length c) @ c @ r)"
    using parse_asn1_tag_complete [OF assms(1)] by (simp add: der_def)
  show ?thesis
  proof (cases "length c < 128")
    case True
    define b where "b = (of_nat (length c) :: u8)"
    have b: "unat b = length c" using True by (simp add: b_def)
    then have "b AND 0x80 = 0" using True by (simp add: u8_and_80)
    moreover have "der_len (length c) = [b]" using True by (simp add: der_len_def b_def)
    ultimately show ?thesis
      using tag b
      by (simp add: CBS_get_any_asn1_element_def cbs_get_any_asn1_element_def asn1_element_of_Some
          der_element_def der_def)
  next
    case False
    define k where "k = len_octets (length c)"
    define b where "b = (of_nat (128 + k) :: u8)"
    define v where "v = (of_nat (length c) :: u64)"
    have k: "1 \<le> k" "k \<le> 4" using len_octets_bounds [of "length c"] by (simp_all add: k_def)
    then have b: "unat b = 128 + k" by (simp add: b_def del: of_nat_add)
    then have bk: "b AND 0x80 \<noteq> 0" "unat (b AND 0x7f) = k"
      using k by (simp_all add: u8_and_80 u8_and_7f)
    have v: "unat v = length c" using assms(2) by (simp add: v_def unat_of_nat)
    have dl: "der_len (length c) = b # be_bytes k (length c)"
      using False by (simp add: der_len_def b_def k_def)
    have u: "cbs_get_u (be_bytes k (length c) @ c @ r) k = (Some v, c @ r)"
      using k len_octets_less [OF assms(2)] by (simp add: cbs_get_u_iff v k_def)
    have nm: "\<not> v < 128" "drop_bit ((k - 1) * 8) v \<noteq> 0"
      using False len_octets_ge [of "length c"] unfolding minimal_len_iff
      by (simp_all add: word_less_nat_alt v k_def not_less)
    have h: "size_add (length c) (Suc (length (der_tag t)) + k) = length (der t c)"
      using assms(2) k length_der_tag [of t] by (simp add: size_add_def der_length dl)
    then have "\<not> size_add (length c) (Suc (length (der_tag t)) + k) < length c"
      by (simp add: der_length)
    then show ?thesis
      using tag k bk u nm v h
      by (simp add: CBS_get_any_asn1_element_def cbs_get_any_asn1_element_def dl asn1_element_of_Some
          der_element_def der_length Let_def del: One_nat_def)
  qed
qed

lemma CBS_get_any_asn1_element_sound:
  assumes "CBS_get_any_asn1_element cbs = (Some e, r)"
  shows "\<exists>t c. tag_ok t \<and> length c < 2 ^ 32 \<and> cbs = der t c @ r \<and> e = der_element t c"
proof -
  from assms obtain t h b h' where tag: "parse_asn1_tag cbs = (Some t, h)"
    and len: "CBS_get_u8 h = (Some b, h')"
    by (auto simp: CBS_get_any_asn1_element_def cbs_get_any_asn1_element_def
        split: prod.splits option.splits)
  have t: "tag_ok t" and cbs: "cbs = der_tag t @ b # h'"
    using parse_asn1_tag_sound [OF tag] len by (cases h; auto)+
  let ?n = "Suc (length (der_tag t))"
  show ?thesis
  proof (cases "b AND 0x80 = 0")
    case True
    then have b: "unat b < 128" by (simp add: u8_and_80)
    have "asn1_element_of cbs (unat b + ?n) t ?n False False = (Some e, r)"
      using assms tag len True
      by (simp add: CBS_get_any_asn1_element_def cbs_get_any_asn1_element_def cbs)
    then have "unat b \<le> length h'" "r = drop (unat b) h'"
      and e: "e = \<lparr>elt_out = der_tag t @ b # take (unat b) h', elt_tag = t, elt_header_len = ?n,
               elt_ber_found = False, elt_indefinite = False\<rparr>"
      by (auto simp: asn1_element_of_Some cbs)
    moreover from this b have "der t (take (unat b) h') = der_tag t @ b # take (unat b) h'"
      by (simp add: der_def der_len_def min_def)
    ultimately show ?thesis
      using t b by (intro exI [of _ t] exI [of _ "take (unat b) h'"])
        (simp add: cbs der_element_def der_len_def min_def)
  next
    case False
    define k where "k = unat (b AND 0x7f)"
    have bk: "unat b = 128 + k"
    proof -
      have ge: "128 \<le> unat b" using False by (simp add: u8_and_80)
      have "unat b - 128 < 128" using unat_u8_less [of b] by linarith
      then show ?thesis using ge by (simp add: k_def u8_and_7f le_mod_geq)
    qed
    from assms tag len False obtain v h'' where k: "1 \<le> k" "k \<le> 4"
      and u: "cbs_get_u h' k = (Some v, h'')"
      and mins: "128 \<le> unat v" "256 ^ (k - 1) \<le> unat v"
      and el: "asn1_element_of cbs (size_add (unat v) (?n + k)) t (?n + k) False False = (Some e, r)"
      by (auto simp: CBS_get_any_asn1_element_def cbs_get_any_asn1_element_def cbs Let_def
          k_def [symmetric] minimal_len_iff [unfolded One_nat_def] word_less_nat_alt not_less
          split: if_splits prod.splits option.splits)
    have v: "unat v < 256 ^ k" "h' = be_bytes k (unat v) @ h''"
      using u k by (simp_all add: cbs_get_u_iff)
    have "(256::nat) ^ k \<le> 256 ^ 4" using k(2) by (intro power_increasing) auto
    with v(1) have v32: "unat v < 2 ^ 32" by simp
    then have sz: "size_add (unat v) (?n + k) = ?n + k + unat v"
      using k length_der_tag [of t] by (simp add: size_add_def)
    have dl: "der_len (unat v) = b # be_bytes k (unat v)"
      using der_len_long [OF k v(1) mins] bk [symmetric] by simp
    have "unat v \<le> length h''" "r = drop (unat v) h''"
      and e: "e = \<lparr>elt_out = der_tag t @ b # be_bytes k (unat v) @ take (unat v) h'', elt_tag = t,
               elt_header_len = ?n + k, elt_ber_found = False, elt_indefinite = False\<rparr>"
      using el unfolding sz by (auto simp: asn1_element_of_Some cbs v(2))
    moreover from this have "der t (take (unat v) h'') = der_tag t @ b # be_bytes k (unat v) @ take (unat v) h''"
      by (simp add: der_def dl min_def)
    ultimately show ?thesis
      using t v32 by (intro exI [of _ t] exI [of _ "take (unat v) h''"])
        (simp add: cbs v(2) der_element_def dl min_def)
  qed
qed

lemma CBS_get_any_asn1_iff:
  "CBS_get_any_asn1 cbs = (Some (c, t), r) \<longleftrightarrow> tag_ok t \<and> length c < 2 ^ 32 \<and> cbs = der t c @ r"
proof
  assume a: "CBS_get_any_asn1 cbs = (Some (c, t), r)"
  then obtain e where e: "CBS_get_any_asn1_element cbs = (Some e, r)"
    by (auto simp: CBS_get_any_asn1_def split: prod.splits option.splits bool.splits)
  from CBS_get_any_asn1_element_sound [OF e] obtain t' c' where
    *: "tag_ok t'" "length c' < 2 ^ 32" "cbs = der t' c' @ r" "e = der_element t' c'" by blast
  then show "tag_ok t \<and> length c < 2 ^ 32 \<and> cbs = der t c @ r"
    using a e by (simp add: CBS_get_any_asn1_def der_element_def CBS_skip_def cbs_get_def der_def
        split: bool.splits)
next
  assume "tag_ok t \<and> length c < 2 ^ 32 \<and> cbs = der t c @ r"
  then show "CBS_get_any_asn1 cbs = (Some (c, t), r)"
    using CBS_get_any_asn1_element_complete [of t c r]
    by (simp add: CBS_get_any_asn1_def der_element_def CBS_skip_def cbs_get_def der_def)
qed

interpretation derc: canonical_codec "\<lambda>(c, t). der t c" CBS_get_any_asn1 "\<lambda>(c, t). tag_ok t \<and> length c < 2 ^ 32"
  by unfold_locales (auto simp: CBS_get_any_asn1_iff)

lemma CBS_get_asn1_iff:
  "CBS_get_asn1 t cbs = (Some c, r) \<longleftrightarrow> tag_ok t \<and> length c < 2 ^ 32 \<and> cbs = der t c @ r"
proof -
  have "CBS_get_asn1 t cbs = (Some c, r) \<longleftrightarrow> CBS_get_any_asn1 cbs = (Some (c, t), r)"
    by (auto simp: CBS_get_asn1_def cbs_get_asn1_def CBS_get_any_asn1_def
        split: prod.splits option.splits bool.splits if_splits)
  then show ?thesis by (simp add: CBS_get_any_asn1_iff)
qed

lemma CBS_get_asn1_element_iff:
  "CBS_get_asn1_element t cbs = (Some out, r)
     \<longleftrightarrow> (\<exists>c. tag_ok t \<and> length c < 2 ^ 32 \<and> cbs = der t c @ r \<and> out = der t c)"
proof
  assume "CBS_get_asn1_element t cbs = (Some out, r)"
  then obtain e where e: "CBS_get_any_asn1_element cbs = (Some e, r)" and "elt_tag e = t" "elt_out e = out"
    by (auto simp: CBS_get_asn1_element_def cbs_get_asn1_def split: prod.splits option.splits if_splits)
  then show "\<exists>c. tag_ok t \<and> length c < 2 ^ 32 \<and> cbs = der t c @ r \<and> out = der t c"
    using CBS_get_any_asn1_element_sound [OF e] by (auto simp: der_element_def)
next
  assume "\<exists>c. tag_ok t \<and> length c < 2 ^ 32 \<and> cbs = der t c @ r \<and> out = der t c"
  then show "CBS_get_asn1_element t cbs = (Some out, r)"
    using CBS_get_any_asn1_element_complete [of t _ r]
    by (auto simp: CBS_get_asn1_element_def cbs_get_asn1_def der_element_def)
qed

lemma asn1_element_of_None: "asn1_element_of cbs n t h f i = (None, r) \<Longrightarrow> r = cbs"
  by (auto simp: asn1_element_of_def CBS_get_bytes_def cbs_get_def split: if_splits)

text \<open>What the element readers have in common once the identifier and the first length octet are read.\<close>

definition element_consumed :: "CBS \<Rightarrow> asn1_element option \<times> CBS \<Rightarrow> bool" where
  "element_consumed cbs res =
     (case res of
        (None, r) \<Rightarrow> r = cbs
      | (Some e, r) \<Rightarrow> cbs = elt_out e @ r \<and> 2 \<le> elt_header_len e \<and> elt_header_len e \<le> length (elt_out e))"

lemma element_consumed_None: "element_consumed cbs (None, cbs)"
  by (simp add: element_consumed_def)

lemma element_consumed_of:
  "2 \<le> h \<Longrightarrow> h \<le> n \<Longrightarrow> element_consumed cbs (asn1_element_of cbs n t h f i)"
  by (cases "asn1_element_of cbs n t h f i")
    (auto simp: element_consumed_def asn1_element_of_Some dest: asn1_element_of_None split: option.split)

lemma asn1_header_len:
  assumes "parse_asn1_tag cbs = (Some t, h)" and "CBS_get_u8 h = (Some b, h')"
  shows "2 \<le> length cbs - length h' \<and> length cbs - length h' \<le> 7"
proof -
  have "h = b # h'" using assms(2) by (cases h) auto
  then show ?thesis
    using parse_asn1_tag_sound [OF assms(1)] length_der_tag [of t] by simp
qed

lemma length_octets_no_wrap:
  assumes "cbs_get_u h k = (Some v, r)" and "k \<le> 4" and "n \<le> 11"
  shows "size_add (unat v) n = unat v + n"
proof -
  have "unat v < 256 ^ k" using cbs_get_u_iff [of k h v r] assms by simp
  also have "\<dots> \<le> 256 ^ 4" using assms(2) by (intro power_increasing) auto
  finally show ?thesis using assms(3) by (simp add: size_add_def)
qed

lemma cbs_get_any_asn1_element_consumed: "element_consumed cbs (cbs_get_any_asn1_element ber_ok cbs)"
proof (cases "parse_asn1_tag cbs")
  case (Pair t_opt h)
  show ?thesis
  proof (cases "t_opt = None \<or> fst (CBS_get_u8 h) = None")
    case True
    then show ?thesis
      by (cases "CBS_get_u8 h") (auto simp: cbs_get_any_asn1_element_def Pair element_consumed_None split: option.split)
  next
    case False
    then obtain t b h' where t: "parse_asn1_tag cbs = (Some t, h)" and b: "CBS_get_u8 h = (Some b, h')"
      using Pair by (cases "CBS_get_u8 h") auto
    define hl where "hl = length cbs - length h'"
    have hl: "2 \<le> hl" "hl \<le> 7" using asn1_header_len [OF t b] by (simp_all add: hl_def)
    have long: "element_consumed cbs (asn1_element_of cbs (size_add (unat v) (hl + k)) t (hl + k) f i)"
      if "cbs_get_u h' k = (Some v, r)" "k \<le> 4" for k v r f i
      using length_octets_no_wrap [OF that, of "hl + k"] hl that(2) by (simp add: element_consumed_of)
    show ?thesis
      unfolding cbs_get_any_asn1_element_def t prod.case option.case b Let_def hl_def [symmetric]
      using hl by (auto simp: not_less element_consumed_None element_consumed_of long split: prod.split option.split)
  qed
qed

lemma der_reader_iff:
  "CBS_get_any_asn1_element cbs = (Some e, r) \<longleftrightarrow>
     CBS_get_any_ber_asn1_element cbs = (Some e, r) \<and> \<not> elt_ber_found e"
  by (auto simp: CBS_get_any_asn1_element_def CBS_get_any_ber_asn1_element_def cbs_get_any_asn1_element_def
      asn1_element_of_Some Let_def split: prod.splits option.splits if_splits)

text \<open>What a BER element promises to a caller that walks into it.\<close>

definition element_shape :: "asn1_element \<Rightarrow> bool" where
  "element_shape e \<longleftrightarrow> tag_ok (elt_tag e) \<and> length (der_tag (elt_tag e)) < elt_header_len e \<and>
     length (elt_out e) < elt_header_len e + 2 ^ 32 \<and>
     (elt_indefinite e \<longrightarrow> elt_tag e AND CBS_ASN1_CONSTRUCTED \<noteq> 0 \<and> length (elt_out e) = elt_header_len e)"

lemma element_shape_of:
  assumes "tag_ok t" and "length (der_tag t) < h" and "n < h + 2 ^ 32" and "i \<longrightarrow> t AND CBS_ASN1_CONSTRUCTED \<noteq> 0 \<and> n = h"
  shows "pred_option element_shape (fst (asn1_element_of cbs n t h f i))"
  using assms by (cases "asn1_element_of cbs n t h f i")
    (auto simp: element_shape_def asn1_element_of_Some pred_option_def elim!: option.set_cases)

lemma ber_element_shape:
  assumes "CBS_get_any_ber_asn1_element cbs = (Some e, r)"
  shows "element_shape e"
proof -
  obtain t h b h' where t: "parse_asn1_tag cbs = (Some t, h)" and b: "CBS_get_u8 h = (Some b, h')"
    using assms by (auto simp: CBS_get_any_ber_asn1_element_def cbs_get_any_asn1_element_def split: prod.splits option.splits)
  have hb: "h = b # h'" using b by (cases h) auto
  define hl where "hl = length cbs - length h'"
  have s: "tag_ok t" "length (der_tag t) < hl" "hl \<le> 7"
    using parse_asn1_tag_sound [OF t] hb length_der_tag [of t] by (simp_all add: hl_def)
  have "unat b < 256" by simp
  then have "unat b < 2 ^ 32" by (rule less_trans) simp
  then have lb: "unat b + hl < hl + 2 ^ 32" by simp
  have long: "pred_option element_shape (fst (asn1_element_of cbs (size_add (unat v) (hl + k)) t (hl + k) f False))"
    if "cbs_get_u h' k = (Some v, x)" "k \<le> 4" for v k x f
  proof -
    have "unat v < 256 ^ k" using cbs_get_u_iff [of k h' v x] that by simp
    also have "\<dots> \<le> 256 ^ 4" using that(2) by (intro power_increasing) auto
    finally show ?thesis using length_octets_no_wrap [OF that, of "hl + k"] s that(2) by (simp add: element_shape_of)
  qed
  have "pred_option element_shape (fst (CBS_get_any_ber_asn1_element cbs))"
    unfolding CBS_get_any_ber_asn1_element_def cbs_get_any_asn1_element_def t prod.case option.case b Let_def hl_def [symmetric]
    using s lb by (auto simp: not_less element_shape_of long split: prod.split option.split)
  with assms show ?thesis by simp
qed

section \<open>Properties\<close>

text \<open>
  C1: the reader of one element accepts exactly its Distinguished Encoding: it returns the contents
  \<open>c\<close>, the tag \<open>t\<close> and the rest \<open>r\<close> if and only if the tag is one the library represents, the
  length fits four octets, and the input is the shortest identifier octets, the shortest length
  octets and \<open>c\<close>, followed by \<open>r\<close>.
\<close>

theorem CBS_get_any_asn1_canonical:
  "CBS_get_any_asn1 cbs = (Some (c, t), r) \<longleftrightarrow> tag_ok t \<and> length c < 2 ^ 32 \<and> cbs = der t c @ r"
  by (rule CBS_get_any_asn1_iff)

text \<open>
  C31: the BER reader extends the DER reader: it accepts every element the DER reader accepts, with
  the same result, and what it accepts without reporting a BER-only form is accepted by the DER
  reader with the same result.
\<close>

theorem ber_reader_extends_der:
  "CBS_get_any_asn1_element cbs = (Some e, r) \<longleftrightarrow>
     CBS_get_any_ber_asn1_element cbs = (Some e, r) \<and> \<not> elt_ber_found e"
  by (rule der_reader_iff)

text \<open>
  C32: a failed read of an element, under DER or BER rules, leaves the input where it was, and a
  successful one consumes it by exactly the element it returns, whose header is at least two bytes
  and lies inside it.
\<close>

theorem asn1_element_consumes:
  "case cbs_get_any_asn1_element ber_ok cbs of
     (None, r) \<Rightarrow> r = cbs
   | (Some e, r) \<Rightarrow> cbs = elt_out e @ r \<and> 2 \<le> elt_header_len e \<and> elt_header_len e \<le> length (elt_out e)"
  using cbs_get_any_asn1_element_consumed [of cbs ber_ok] by (simp add: element_consumed_def)


end
