(* ===== verification/Cbb.thy ===== *)
theory Cbb
  imports Der
begin

text \<open>
  \<^verbatim>\<open>crypto/bytestring/cbb.c\<close>: the byte-string builder. All \<^verbatim>\<open>CBB\<close>s that write to one buffer
  form a chain: the top-level one, its pending child, that child's pending child and so on (each
  \<^verbatim>\<open>CBB\<close> has one \<^verbatim>\<open>child\<close> pointer). The model keeps the buffer and the pending children in
  that order; a \<^verbatim>\<open>CBB *\<close> argument is the depth of the \<^verbatim>\<open>CBB\<close> in the chain, 0 for the top-level
  one. A depth beyond the chain is a \<^verbatim>\<open>CBB\<close> whose \<^verbatim>\<open>base\<close> is \<^verbatim>\<open>NULL\<close>: a child that has
  been flushed or discarded. Setting \<^verbatim>\<open>cbb->child = NULL\<close> cuts the chain at that depth. A
  \<^verbatim>\<open>NULL\<close> \<^verbatim>\<open>buf\<close> is the empty region. \<open>M\<close> is the allocator.
\<close>

record cbb_buffer_st =
  cb_buf :: bytes
  cb_len :: nat
  cb_cap :: nat
  cb_can_resize :: bool
  cb_error :: bool

record cbb_child_st =
  ch_offset :: nat
  ch_pending_len_len :: nat
  ch_pending_is_asn1 :: bool

record CBB =
  cbb_base :: cbb_buffer_st
  cbb_chain :: "cbb_child_st list"

section \<open>The buffer\<close>

definition CBB_zero :: CBB where
  "CBB_zero = \<lparr>cbb_base = \<lparr>cb_buf = [], cb_len = 0, cb_cap = 0, cb_can_resize = False, cb_error = False\<rparr>,
               cbb_chain = []\<rparr>"

definition cbb_init :: "bytes \<Rightarrow> nat \<Rightarrow> bool \<Rightarrow> CBB" where
  "cbb_init buf cap can_resize =
     \<lparr>cbb_base = \<lparr>cb_buf = buf, cb_len = 0, cb_cap = cap, cb_can_resize = can_resize, cb_error = False\<rparr>,
      cbb_chain = []\<rparr>"

definition CBB_init :: "allocator \<Rightarrow> nat \<Rightarrow> bool \<times> CBB" where
  "CBB_init M initial_capacity =
     (case OPENSSL_malloc M initial_capacity of
        None \<Rightarrow> if initial_capacity > 0 then (False, CBB_zero) else (True, cbb_init [] initial_capacity True)
      | Some buf \<Rightarrow> (True, cbb_init buf initial_capacity True))"

definition CBB_init_fixed :: "bytes \<Rightarrow> nat \<Rightarrow> bool \<times> CBB" where
  "CBB_init_fixed buf len = (True, cbb_init buf len False)"

text \<open>\<^verbatim>\<open>CBB_cleanup\<close> frees the block it returns, if any.\<close>

definition CBB_cleanup :: "CBB \<Rightarrow> bytes option" where
  "CBB_cleanup c = (if cb_can_resize (cbb_base c) then Some (cb_buf (cbb_base c)) else None)"

text \<open>On success the out-pointer is the index \<open>cb_len\<close> into the (possibly new) buffer.\<close>

definition cbb_buffer_reserve :: "allocator \<Rightarrow> cbb_buffer_st \<Rightarrow> nat \<Rightarrow> nat option \<times> cbb_buffer_st" where
  "cbb_buffer_reserve M b len =
     (let newlen = size_add (cb_len b) len in
      if newlen < cb_len b then (None, b\<lparr>cb_error := True\<rparr>)
      else if newlen > cb_cap b then
        (if \<not> cb_can_resize b then (None, b\<lparr>cb_error := True\<rparr>)
         else let newcap = size_mul (cb_cap b) 2;
                  newcap = (if newcap < cb_cap b \<or> newcap < newlen then newlen else newcap)
              in case OPENSSL_realloc M (Some (cb_buf b)) newcap of
                   None \<Rightarrow> (None, b\<lparr>cb_error := True\<rparr>)
                 | Some newbuf \<Rightarrow> (Some (cb_len b), b\<lparr>cb_buf := newbuf, cb_cap := newcap\<rparr>))
      else (Some (cb_len b), b))"

definition cbb_buffer_add :: "allocator \<Rightarrow> cbb_buffer_st \<Rightarrow> nat \<Rightarrow> nat option \<times> cbb_buffer_st" where
  "cbb_buffer_add M b len =
     (case cbb_buffer_reserve M b len of
        (None, b) \<Rightarrow> (None, b)
      | (Some out, b) \<Rightarrow> (Some out, b\<lparr>cb_len := size_add (cb_len b) len\<rparr>))"

section \<open>Flushing pending length prefixes\<close>

definition cbb_live :: "CBB \<Rightarrow> nat \<Rightarrow> bool" where
  \<comment> \<open>\<^verbatim>\<open>cbb_get_base(cbb) != NULL\<close>\<close>
  "cbb_live c k \<longleftrightarrow> k \<le> length (cbb_chain c)"

definition cbb_on_error :: "CBB \<Rightarrow> nat \<Rightarrow> CBB" where
  "cbb_on_error c k =
     c\<lparr>cbb_base := (cbb_base c)\<lparr>cb_error := True\<rparr>, cbb_chain := take k (cbb_chain c)\<rparr>"

text \<open>
  The loop that writes a big-endian number, most significant byte last:
  \<^verbatim>\<open>for (i = n - 1; i < n; i--) { buf[off + i] = v; v >>= 8; }\<close>
\<close>

fun put_be :: "bytes \<Rightarrow> nat \<Rightarrow> nat \<Rightarrow> u64 \<Rightarrow> bytes \<times> u64" where
  "put_be buf off 0 v = (buf, v)"
| "put_be buf off (Suc i) v = put_be (buf[off + i := ucast v]) off i (drop_bit 8 v)"

text \<open>\<^verbatim>\<open>len_len\<close>, \<^verbatim>\<open>initial_length_byte\<close> and the new \<^verbatim>\<open>len\<close>, or \<open>None\<close> when too large.\<close>

definition asn1_length_form :: "nat \<Rightarrow> (nat \<times> u8 \<times> nat) option" where
  "asn1_length_form len =
     (if len > 0xfffffffe then None
      else if len > 0xffffff then Some (5, 0x80 OR 4, len)
      else if len > 0xffff then Some (4, 0x80 OR 3, len)
      else if len > 0xff then Some (3, 0x80 OR 2, len)
      else if len > 0x7f then Some (2, 0x80 OR 1, len)
      else Some (1, of_nat len, 0))"

text \<open>The part of \<^verbatim>\<open>CBB_flush\<close> after the child's own children are flushed.\<close>

definition cbb_flush_child :: "allocator \<Rightarrow> cbb_buffer_st \<Rightarrow> cbb_child_st \<Rightarrow> bool \<times> cbb_buffer_st" where
  "cbb_flush_child M b child =
     (let child_start = size_add (ch_offset child) (ch_pending_len_len child);
          len = cb_len b - child_start;
          write_prefix = (\<lambda>b offset pending_len_len len.
            case put_be (cb_buf b) offset pending_len_len (of_nat len) of
              (buf, rest) \<Rightarrow> (rest = 0, b\<lparr>cb_buf := buf\<rparr>))
      in if child_start < ch_offset child \<or> cb_len b < child_start then (False, b)
         else if \<not> ch_pending_is_asn1 child then
           write_prefix b (ch_offset child) (ch_pending_len_len child) len
         else
           case asn1_length_form len of
             None \<Rightarrow> (False, b)
           | Some (len_len, initial_length_byte, len') \<Rightarrow>
               (case (if len_len \<noteq> 1 then
                        (case cbb_buffer_add M b (len_len - 1) of
                           (None, b) \<Rightarrow> (False, b)
                         | (Some _, b) \<Rightarrow>
                             (True, b\<lparr>cb_buf := memmove_at (cb_buf b) (child_start + (len_len - 1))
                                                            child_start len'\<rparr>))
                      else (True, b)) of
                  (False, b) \<Rightarrow> (False, b)
                | (True, b) \<Rightarrow>
                    write_prefix (b\<lparr>cb_buf := (cb_buf b)[ch_offset child := initial_length_byte]\<rparr>)
                      (ch_offset child + 1) (len_len - 1) len'))"

function CBB_flush :: "allocator \<Rightarrow> CBB \<Rightarrow> nat \<Rightarrow> bool \<times> CBB" where
  "CBB_flush M c k =
     (if \<not> cbb_live c k \<or> cb_error (cbb_base c) then (False, c)
      else if k = length (cbb_chain c) then (True, c)
      else case CBB_flush M c (Suc k) of
             (False, c) \<Rightarrow> (False, cbb_on_error c k)
           | (True, c) \<Rightarrow>
               (case cbb_flush_child M (cbb_base c) (cbb_chain c ! k) of
                  (False, b) \<Rightarrow> (False, cbb_on_error (c\<lparr>cbb_base := b\<rparr>) k)
                | (True, b) \<Rightarrow> (True, c\<lparr>cbb_base := b, cbb_chain := take k (cbb_chain c)\<rparr>)))"
  by pat_completeness auto
termination
  by (relation "measure (\<lambda>(M, c, k). length (cbb_chain c) - k)") (auto simp: cbb_live_def)

declare CBB_flush.simps [simp del]

text \<open>
  \<^verbatim>\<open>CBB_finish\<close>: \<open>out\<close> says whether \<^verbatim>\<open>out_data\<close> and \<^verbatim>\<open>out_len\<close> are given. The result is
  the buffer handed to the caller and its length.
\<close>

definition CBB_finish :: "allocator \<Rightarrow> bool \<Rightarrow> CBB \<Rightarrow> nat \<Rightarrow> (bytes \<times> nat) option \<times> CBB" where
  "CBB_finish M out c k =
     (if k \<noteq> 0 then (None, c)
      else case CBB_flush M c k of
             (False, c) \<Rightarrow> (None, c)
           | (True, c) \<Rightarrow>
               if cb_can_resize (cbb_base c) \<and> \<not> out then (None, c)
               else (Some (cb_buf (cbb_base c), cb_len (cbb_base c)),
                     c\<lparr>cbb_base := (cbb_base c)\<lparr>cb_buf := []\<rparr>\<rparr>))"

text \<open>\<^verbatim>\<open>CBB_data\<close> is an index into the buffer; both functions require that no child is pending.\<close>

definition CBB_data :: "CBB \<Rightarrow> nat \<Rightarrow> nat" where
  "CBB_data c k =
     (if k = 0 then 0
      else ch_offset (cbb_chain c ! (k - 1)) + ch_pending_len_len (cbb_chain c ! (k - 1)))"

definition CBB_len :: "CBB \<Rightarrow> nat \<Rightarrow> nat" where
  "CBB_len c k =
     (if k = 0 then cb_len (cbb_base c)
      else cb_len (cbb_base c) - ch_offset (cbb_chain c ! (k - 1))
             - ch_pending_len_len (cbb_chain c ! (k - 1)))"

section \<open>Children\<close>

text \<open>On success the new child is at depth \<open>k + 1\<close>.\<close>

definition cbb_add_child :: "allocator \<Rightarrow> CBB \<Rightarrow> nat \<Rightarrow> nat \<Rightarrow> bool \<Rightarrow> bool \<times> CBB" where
  "cbb_add_child M c k len_len is_asn1 =
     (let offset = cb_len (cbb_base c) in
      case cbb_buffer_add M (cbb_base c) len_len of
        (None, b) \<Rightarrow> (False, c\<lparr>cbb_base := b\<rparr>)
      | (Some prefix_bytes, b) \<Rightarrow>
          (True, c\<lparr>cbb_base := b\<lparr>cb_buf := write_at (cb_buf b) prefix_bytes (replicate len_len 0)\<rparr>,
                   cbb_chain := take k (cbb_chain c) @
                     [\<lparr>ch_offset = offset, ch_pending_len_len = len_len, ch_pending_is_asn1 = is_asn1\<rparr>]\<rparr>))"

definition cbb_add_length_prefixed :: "allocator \<Rightarrow> CBB \<Rightarrow> nat \<Rightarrow> nat \<Rightarrow> bool \<times> CBB" where
  "cbb_add_length_prefixed M c k len_len =
     (case CBB_flush M c k of (False, c) \<Rightarrow> (False, c) | (True, c) \<Rightarrow> cbb_add_child M c k len_len False)"

definition CBB_add_u8_length_prefixed :: "allocator \<Rightarrow> CBB \<Rightarrow> nat \<Rightarrow> bool \<times> CBB" where
  "CBB_add_u8_length_prefixed M c k = cbb_add_length_prefixed M c k 1"

definition CBB_add_u16_length_prefixed :: "allocator \<Rightarrow> CBB \<Rightarrow> nat \<Rightarrow> bool \<times> CBB" where
  "CBB_add_u16_length_prefixed M c k = cbb_add_length_prefixed M c k 2"

definition CBB_add_u24_length_prefixed :: "allocator \<Rightarrow> CBB \<Rightarrow> nat \<Rightarrow> bool \<times> CBB" where
  "CBB_add_u24_length_prefixed M c k = cbb_add_length_prefixed M c k 3"

section \<open>Appending\<close>

definition CBB_add_space :: "allocator \<Rightarrow> CBB \<Rightarrow> nat \<Rightarrow> nat \<Rightarrow> nat option \<times> CBB" where
  "CBB_add_space M c k len =
     (case CBB_flush M c k of
        (False, c) \<Rightarrow> (None, c)
      | (True, c) \<Rightarrow>
          (case cbb_buffer_add M (cbb_base c) len of (out, b) \<Rightarrow> (out, c\<lparr>cbb_base := b\<rparr>)))"

definition CBB_reserve :: "allocator \<Rightarrow> CBB \<Rightarrow> nat \<Rightarrow> nat \<Rightarrow> nat option \<times> CBB" where
  "CBB_reserve M c k len =
     (case CBB_flush M c k of
        (False, c) \<Rightarrow> (None, c)
      | (True, c) \<Rightarrow>
          (case cbb_buffer_reserve M (cbb_base c) len of (out, b) \<Rightarrow> (out, c\<lparr>cbb_base := b\<rparr>)))"

definition CBB_did_write :: "CBB \<Rightarrow> nat \<Rightarrow> nat \<Rightarrow> bool \<times> CBB" where
  "CBB_did_write c k len =
     (let newlen = size_add (cb_len (cbb_base c)) len in
      if k < length (cbb_chain c) \<or> newlen < cb_len (cbb_base c) \<or> newlen > cb_cap (cbb_base c)
      then (False, c)
      else (True, c\<lparr>cbb_base := (cbb_base c)\<lparr>cb_len := newlen\<rparr>\<rparr>))"

definition cbb_set_buf :: "CBB \<Rightarrow> bytes \<Rightarrow> CBB" where
  "cbb_set_buf c buf = c\<lparr>cbb_base := (cbb_base c)\<lparr>cb_buf := buf\<rparr>\<rparr>"

definition CBB_add_bytes :: "allocator \<Rightarrow> CBB \<Rightarrow> nat \<Rightarrow> bytes \<Rightarrow> bool \<times> CBB" where
  "CBB_add_bytes M c k data =
     (case CBB_add_space M c k (length data) of
        (None, c) \<Rightarrow> (False, c)
      | (Some out, c) \<Rightarrow> (True, cbb_set_buf c (write_at (cb_buf (cbb_base c)) out data)))"

definition CBB_add_zeros :: "allocator \<Rightarrow> CBB \<Rightarrow> nat \<Rightarrow> nat \<Rightarrow> bool \<times> CBB" where
  "CBB_add_zeros M c k len =
     (case CBB_add_space M c k len of
        (None, c) \<Rightarrow> (False, c)
      | (Some out, c) \<Rightarrow> (True, cbb_set_buf c (write_at (cb_buf (cbb_base c)) out (replicate len 0))))"

definition cbb_add_u :: "allocator \<Rightarrow> CBB \<Rightarrow> nat \<Rightarrow> u64 \<Rightarrow> nat \<Rightarrow> bool \<times> CBB" where
  "cbb_add_u M c k v len_len =
     (case CBB_add_space M c k len_len of
        (None, c) \<Rightarrow> (False, c)
      | (Some out, c) \<Rightarrow>
          (case put_be (cb_buf (cbb_base c)) out len_len v of
             (buf, v) \<Rightarrow> let c = cbb_set_buf c buf in
                         if v \<noteq> 0 then (False, cbb_on_error c k) else (True, c)))"

definition CBB_add_u8 :: "allocator \<Rightarrow> CBB \<Rightarrow> nat \<Rightarrow> u8 \<Rightarrow> bool \<times> CBB" where
  "CBB_add_u8 M c k v = cbb_add_u M c k (ucast v) 1"

definition CBB_add_u16 :: "allocator \<Rightarrow> CBB \<Rightarrow> nat \<Rightarrow> u16 \<Rightarrow> bool \<times> CBB" where
  "CBB_add_u16 M c k v = cbb_add_u M c k (ucast v) 2"

definition CBB_add_u16le :: "allocator \<Rightarrow> CBB \<Rightarrow> nat \<Rightarrow> u16 \<Rightarrow> bool \<times> CBB" where
  "CBB_add_u16le M c k v = CBB_add_u16 M c k (CRYPTO_bswap2 v)"

definition CBB_add_u24 :: "allocator \<Rightarrow> CBB \<Rightarrow> nat \<Rightarrow> u32 \<Rightarrow> bool \<times> CBB" where
  "CBB_add_u24 M c k v = cbb_add_u M c k (ucast v) 3"

definition CBB_add_u32 :: "allocator \<Rightarrow> CBB \<Rightarrow> nat \<Rightarrow> u32 \<Rightarrow> bool \<times> CBB" where
  "CBB_add_u32 M c k v = cbb_add_u M c k (ucast v) 4"

definition CBB_add_u32le :: "allocator \<Rightarrow> CBB \<Rightarrow> nat \<Rightarrow> u32 \<Rightarrow> bool \<times> CBB" where
  "CBB_add_u32le M c k v = CBB_add_u32 M c k (CRYPTO_bswap4 v)"

definition CBB_add_u64 :: "allocator \<Rightarrow> CBB \<Rightarrow> nat \<Rightarrow> u64 \<Rightarrow> bool \<times> CBB" where
  "CBB_add_u64 M c k v = cbb_add_u M c k v 8"

definition CBB_add_u64le :: "allocator \<Rightarrow> CBB \<Rightarrow> nat \<Rightarrow> u64 \<Rightarrow> bool \<times> CBB" where
  "CBB_add_u64le M c k v = CBB_add_u64 M c k (CRYPTO_bswap8 v)"

definition CBB_discard_child :: "CBB \<Rightarrow> nat \<Rightarrow> CBB" where
  "CBB_discard_child c k =
     (if k < length (cbb_chain c) then
        c\<lparr>cbb_base := (cbb_base c)\<lparr>cb_len := ch_offset (cbb_chain c ! k)\<rparr>,
          cbb_chain := take k (cbb_chain c)\<rparr>
      else c)"

end
