(* ===== verification/Cbb_Refine.thy ===== *)
theory Cbb_Refine
  imports Cbb
begin

text \<open>
  The builder against its specification. The specification of a \<^verbatim>\<open>CBB\<close> at depth \<open>k\<close> is the
  byte string it stands for: what it has written itself, followed by the length prefix and the
  contents of its pending child. Every operation keeps the invariant \<open>cbb_wf\<close> (no write outside
  the allocated region, pending prefixes inside the written part), and flushing does not change what
  any \<^verbatim>\<open>CBB\<close> of the chain stands for.
\<close>

section \<open>The buffer\<close>

definition buf_wf :: "cbb_buffer_st \<Rightarrow> bool" where
  "buf_wf b \<longleftrightarrow> length (cb_buf b) = cb_cap b \<and> cb_len b \<le> cb_cap b \<and> cb_cap b < 2 ^ 64"

definition granted :: "allocator \<Rightarrow> bool" where
  "granted M \<longleftrightarrow> (\<forall>n < 2 ^ 64. M n \<noteq> None)"

text \<open>The buffer has or can get room for \<open>n\<close> bytes in all.\<close>

definition room :: "allocator \<Rightarrow> cbb_buffer_st \<Rightarrow> nat \<Rightarrow> bool" where
  "room M b n \<longleftrightarrow> n \<le> cb_cap b \<or> (cb_can_resize b \<and> granted M \<and> n \<le> 2 ^ 62)"

lemma cbb_buffer_reserve_Some:
  assumes wf: "buf_wf b" and M: "malloc_ok M" and len: "len < 2 ^ 64"
    and res: "cbb_buffer_reserve M b len = (Some off, b')"
  shows "off = cb_len b \<and> buf_wf b' \<and> cb_len b' = cb_len b \<and> cb_len b + len \<le> cb_cap b' \<and>
    take (cb_len b) (cb_buf b') = take (cb_len b) (cb_buf b) \<and>
    cb_can_resize b' = cb_can_resize b \<and> cb_error b' = cb_error b \<and> cb_cap b \<le> cb_cap b'"
proof -
  have nl: "size_add (cb_len b) len = cb_len b + len"
  proof (rule ccontr)
    assume "size_add (cb_len b) len \<noteq> cb_len b + len"
    then have "2 ^ 64 \<le> cb_len b + len" by (auto simp: size_add_def intro: ccontr)
    moreover have "cb_len b < 2 ^ 64" using wf by (simp add: buf_wf_def)
    ultimately have "size_add (cb_len b) len < cb_len b"
      using len by (simp add: size_add_def le_mod_geq)
    then show False using res by (simp add: cbb_buffer_reserve_def)
  qed
  show ?thesis
  proof (cases "cb_len b + len > cb_cap b")
    case False
    then show ?thesis using res wf by (auto simp: cbb_buffer_reserve_def nl)
  next
    case True
    define nc where "nc = (if size_mul (cb_cap b) 2 < cb_cap b \<or> size_mul (cb_cap b) 2 < cb_len b + len
      then cb_len b + len else size_mul (cb_cap b) 2)"
    have n64: "cb_len b + len < 2 ^ 64" using nl by (simp add: size_add_def)
    then have nc: "nc < 2 ^ 64" "cb_len b + len \<le> nc" "cb_cap b \<le> nc"
      using True by (auto simp: nc_def size_mul_def)
    from res True have "cb_can_resize b" and "(case OPENSSL_realloc M (Some (cb_buf b)) nc of
        None \<Rightarrow> (None, b\<lparr>cb_error := True\<rparr>)
      | Some nb \<Rightarrow> (Some (cb_len b), b\<lparr>cb_buf := nb, cb_cap := nc\<rparr>)) = (Some off, b')"
      by (simp_all only: cbb_buffer_reserve_def nl Let_def nc_def) (auto split: if_splits)
    then obtain nb where nb: "OPENSSL_realloc M (Some (cb_buf b)) nc = Some nb"
      and b': "b' = b\<lparr>cb_buf := nb, cb_cap := nc\<rparr>" and "off = cb_len b"
      by (auto split: option.splits)
    from OPENSSL_realloc_keeps [OF M nc(1) nb] wf nc
    have "length nb = nc" "take (cb_cap b) nb = cb_buf b"
      by (auto simp: buf_wf_def)
    moreover from this have "take (cb_len b) nb = take (cb_len b) (cb_buf b)"
      using wf by (metis buf_wf_def min.absorb1 take_take)
    ultimately show ?thesis
      using b' \<open>off = cb_len b\<close> wf nc by (simp add: buf_wf_def)
  qed
qed

lemma cbb_buffer_reserve_room:
  assumes wf: "buf_wf b" and r: "room M b (cb_len b + len)"
  shows "\<exists>off b'. cbb_buffer_reserve M b len = (Some off, b')"
proof (cases "cb_len b + len \<le> cb_cap b")
  case True
  then have "size_add (cb_len b) len = cb_len b + len"
    using wf by (simp add: size_add_def buf_wf_def)
  with True show ?thesis by (simp add: cbb_buffer_reserve_def)
next
  case False
  then have *: "cb_can_resize b" "granted M" "cb_len b + len \<le> 2 ^ 62"
    using r by (auto simp: room_def)
  then have nl: "size_add (cb_len b) len = cb_len b + len" by (simp add: size_add_def)
  have cap: "size_mul (cb_cap b) 2 = cb_cap b * 2" "cb_cap b * 2 < 2 ^ 63"
    using False * by (simp_all add: size_mul_def)
  define nc where "nc = (if size_mul (cb_cap b) 2 < cb_cap b \<or> size_mul (cb_cap b) 2 < cb_len b + len
      then cb_len b + len else size_mul (cb_cap b) 2)"
  have "nc + 8 < 2 ^ 64" using cap * by (auto simp: nc_def)
  then have "OPENSSL_realloc M (Some (cb_buf b)) nc \<noteq> None"
    using *(2) by (simp add: OPENSSL_realloc_def OPENSSL_malloc_def size_add_def
        OPENSSL_MALLOC_PREFIX_def granted_def Let_def split: option.splits)
  then show ?thesis
    using False * by (auto simp: cbb_buffer_reserve_def nl Let_def nc_def [symmetric] split: option.splits)
qed

lemma cbb_buffer_reserve_None:
  "cbb_buffer_reserve M b len = (None, b') \<Longrightarrow> b' = b\<lparr>cb_error := True\<rparr>"
  by (auto simp: cbb_buffer_reserve_def Let_def split: if_splits option.splits)

lemma cbb_buffer_add_Some:
  assumes "buf_wf b" and "malloc_ok M" and "len < 2 ^ 64"
    and "cbb_buffer_add M b len = (Some off, b')"
  shows "off = cb_len b \<and> buf_wf b' \<and> cb_len b' = cb_len b + len \<and>
    take (cb_len b) (cb_buf b') = take (cb_len b) (cb_buf b) \<and>
    cb_can_resize b' = cb_can_resize b \<and> cb_error b' = cb_error b \<and> cb_cap b \<le> cb_cap b'"
proof -
  from assms(4) obtain b1 where r: "cbb_buffer_reserve M b len = (Some off, b1)"
    and b': "b' = b1\<lparr>cb_len := size_add (cb_len b1) len\<rparr>"
    by (auto simp: cbb_buffer_add_def split: prod.splits option.splits)
  from cbb_buffer_reserve_Some [OF assms(1-3) r]
  show ?thesis by (auto simp: b' buf_wf_def size_add_def)
qed

lemma cbb_buffer_add_room:
  "buf_wf b \<Longrightarrow> room M b (cb_len b + len) \<Longrightarrow> \<exists>off b'. cbb_buffer_add M b len = (Some off, b')"
  using cbb_buffer_reserve_room [of b M len] by (auto simp: cbb_buffer_add_def)

lemma cbb_buffer_add_None:
  "cbb_buffer_add M b len = (None, b') \<Longrightarrow> b' = b\<lparr>cb_error := True\<rparr>"
  by (auto simp: cbb_buffer_add_def dest: cbb_buffer_reserve_None split: prod.splits option.splits)

lemma ucast_u64_u8: "(ucast (v :: u64) :: u8) = of_nat (unat v)"
  by (simp add: word_unat_eq_iff unat_ucast_mod)

lemma put_be_write:
  "off + n \<le> length buf \<Longrightarrow>
     put_be buf off n v = (write_at buf off (be_bytes n (unat v)), drop_bit (8 * n) v)"
proof (induction n arbitrary: buf v)
  case (Suc n)
  have "write_at (buf[off + n := ucast v]) off (be_bytes n (unat v div 256)) =
      write_at buf off (be_bytes (Suc n) (unat v))"
  proof -
    let ?bs = "be_bytes n (unat v div 256)" and ?b = "of_nat (unat v) :: u8"
    have l: "off + length ?bs < length buf" using Suc.prems by simp
    have "write_at (buf[off + n := ?b]) off ?bs = (write_at buf off ?bs)[off + n := ?b]"
      using write_at_update [OF l, of ?b] by (simp only: length_be_bytes)
    also have "\<dots> = write_at buf off (?bs @ [?b])"
      using write_at_snoc [OF l, of ?b] by (simp only: length_be_bytes)
    finally show ?thesis by (simp only: ucast_u64_u8 be_bytes.simps)
  qed
  moreover have "put_be (buf[off + n := ucast v]) off n (drop_bit 8 v) =
      (write_at (buf[off + n := ucast v]) off (be_bytes n (unat (drop_bit 8 v))), drop_bit (8 * n) (drop_bit 8 v))"
    by (rule Suc.IH) (use Suc.prems in simp)
  moreover have "unat (drop_bit 8 v) = unat v div 256" by (simp only: unat_drop_bit) simp
  moreover have "drop_bit (8 * n) (drop_bit 8 v) = drop_bit (8 * Suc n) v"
    by (simp only: drop_bit_drop_bit) (simp add: add.commute)
  ultimately show ?case by (simp only: put_be.simps)
qed simp

lemma drop_bit_eq_0_iff: "drop_bit (8 * n) (v :: u64) = 0 \<longleftrightarrow> unat v < 256 ^ n"
proof -
  have "(256::nat) ^ n = 2 ^ (8 * n)" by (simp only: power_mult) simp
  then show ?thesis by (simp add: unat_eq_0 [symmetric] unat_drop_bit div_eq_0_iff)
qed

section \<open>One child\<close>

text \<open>The length prefix a child gets for contents of \<open>n\<close> bytes.\<close>

definition child_prefix :: "cbb_child_st \<Rightarrow> nat \<Rightarrow> bytes option" where
  "child_prefix ch n =
     (if ch_pending_is_asn1 ch then (if n \<le> 0xfffffffe then Some (der_len n) else None)
      else if n < 256 ^ ch_pending_len_len ch then Some (be_bytes (ch_pending_len_len ch) n) else None)"

definition child_ok :: "cbb_child_st \<Rightarrow> bool" where
  "child_ok ch \<longleftrightarrow> ch_pending_len_len ch \<le> 8 \<and> (ch_pending_is_asn1 ch \<longrightarrow> ch_pending_len_len ch = 1)"

definition buf_written :: "cbb_buffer_st \<Rightarrow> bytes" where
  "buf_written b = take (cb_len b) (cb_buf b)"

lemma asn1_length_form_cases:
  "len \<le> 127 \<Longrightarrow> asn1_length_form len = Some (1, of_nat len, 0)"
  "127 < len \<Longrightarrow> len \<le> 0xfffffffe \<Longrightarrow>
     asn1_length_form len = Some (Suc (len_octets len), of_nat (128 + len_octets len), len)"
  "0xfffffffe < len \<Longrightarrow> asn1_length_form len = None"
  by (auto simp: asn1_length_form_def len_octets_def)

text \<open>Moving the contents along by \<open>k\<close> bytes and writing the long-form prefix before them.\<close>

lemma asn1_shift_contents:
  assumes "length pre = off" and "length be = k" and "length pay = n" and "k \<le> length rest"
  shows "\<exists>zs. write_at ((memmove_at (pre @ [x] @ pay @ rest) (off + 1 + k) (off + 1) n)[off := b]) (off + 1) be
    = pre @ [b] @ be @ pay @ zs"
proof -
  let ?buf = "pre @ [x] @ pay @ rest"
  have rd: "read_at ?buf (off + 1) n = pay" using assms by (simp add: read_at_def)
  have "off + 1 + k + n \<le> length ?buf" using assms by simp
  then obtain xs ys zs where buf: "?buf = xs @ ys @ zs" and len: "length xs = off + 1 + k" "length ys = n"
    by (rule split3)
  have xs: "xs = pre @ [x] @ drop (off + 1) xs"
  proof -
    have "take (off + 1) xs = take (off + 1) ?buf" unfolding buf using len by simp
    also have "\<dots> = pre @ [x]" using assms by simp
    finally show ?thesis by (metis append_assoc append_take_drop_id)
  qed
  define m where "m = drop (off + 1) xs"
  have m: "length m = k" "xs = pre @ [x] @ m" using len xs by (simp_all add: m_def)
  have "memmove_at ?buf (off + 1 + k) (off + 1) n = xs @ pay @ zs"
    unfolding memmove_at_def rd using write_at_mid [of ys pay xs zs] len assms buf by simp
  then have "(memmove_at ?buf (off + 1 + k) (off + 1) n)[off := b] = (pre @ [b]) @ m @ pay @ zs"
    using m assms by (simp add: list_update_append)
  moreover have "write_at ((pre @ [b]) @ m @ pay @ zs) (off + 1) be = (pre @ [b]) @ be @ pay @ zs"
    using write_at_mid [of m be "pre @ [b]" "pay @ zs"] m assms by simp
  ultimately show ?thesis by auto
qed

lemma buf_split:
  assumes "buf_wf b" and "off + 1 \<le> cb_len b"
  obtains x where "buf_written b = take off (buf_written b) @ [x] @ drop (off + 1) (buf_written b)"
    "length (take off (buf_written b)) = off" "length (drop (off + 1) (buf_written b)) = cb_len b - (off + 1)"
proof -
  have "off < length (buf_written b)" using assms by (simp add: buf_written_def buf_wf_def)
  then have "buf_written b = take off (buf_written b) @ [buf_written b ! off] @ drop (off + 1) (buf_written b)"
    by (simp add: id_take_nth_drop)
  then show ?thesis using that assms by (simp add: buf_written_def buf_wf_def)
qed

text \<open>What a flushed child leaves in the buffer, for each kind of prefix.\<close>

definition flushed :: "cbb_buffer_st \<Rightarrow> cbb_child_st \<Rightarrow> bytes \<Rightarrow> cbb_buffer_st \<Rightarrow> bool" where
  "flushed b ch p b' \<longleftrightarrow>
     buf_wf b' \<and> cb_can_resize b' = cb_can_resize b \<and> cb_error b' = cb_error b \<and> cb_cap b \<le> cb_cap b' \<and>
     buf_written b' = take (ch_offset ch) (buf_written b) @ p @
       drop (ch_offset ch + ch_pending_len_len ch) (buf_written b)"

lemma flush_child_plain:
  assumes wf: "buf_wf b" and "\<not> ch_pending_is_asn1 ch"
    and le: "ch_offset ch + ch_pending_len_len ch \<le> cb_len b"
  shows "\<exists>b'. cbb_flush_child M b ch =
      (cb_len b - (ch_offset ch + ch_pending_len_len ch) < 256 ^ ch_pending_len_len ch, b') \<and>
    flushed b ch (be_bytes (ch_pending_len_len ch) (cb_len b - (ch_offset ch + ch_pending_len_len ch))) b'"
proof -
  let ?o = "ch_offset ch" and ?k = "ch_pending_len_len ch"
  define n where "n = cb_len b - (?o + ?k)"
  have n64: "n < 2 ^ 64" and buf: "cb_len b \<le> length (cb_buf b)"
    using wf by (auto simp: n_def buf_wf_def)
  then have u: "unat (of_nat n :: u64) = n" by (simp add: unat_of_nat)
  have st: "size_add ?o ?k = ?o + ?k" using wf le by (simp add: size_add_def buf_wf_def)
  have put: "put_be (cb_buf b) ?o ?k (of_nat n) = (write_at (cb_buf b) ?o (be_bytes ?k n), drop_bit (8 * ?k) (of_nat n))"
    using put_be_write [of ?o ?k "cb_buf b" "of_nat n"] le buf u by simp
  have zero: "drop_bit (8 * ?k) (of_nat n :: u64) = 0 \<longleftrightarrow> n < 256 ^ ?k"
    by (simp only: drop_bit_eq_0_iff u)
  have res: "cbb_flush_child M b ch = (n < 256 ^ ?k, b\<lparr>cb_buf := write_at (cb_buf b) ?o (be_bytes ?k n)\<rparr>)"
    using assms(2) le st zero by (simp add: cbb_flush_child_def Let_def put n_def [symmetric])
  have "flushed b ch (be_bytes ?k n) (b\<lparr>cb_buf := write_at (cb_buf b) ?o (be_bytes ?k n)\<rparr>)"
    using wf le buf
    by (simp add: flushed_def buf_wf_def buf_written_def length_write_at take_write_at_over min.absorb1)
  with res show ?thesis unfolding n_def by blast
qed

lemma flush_child_short:
  assumes wf: "buf_wf b" and "ch_pending_is_asn1 ch" and ok: "child_ok ch"
    and le: "ch_offset ch + 1 \<le> cb_len b" and short: "cb_len b - (ch_offset ch + 1) \<le> 127"
  shows "\<exists>b'. cbb_flush_child M b ch = (True, b') \<and> flushed b ch (der_len (cb_len b - (ch_offset ch + 1))) b'"
proof -
  let ?o = "ch_offset ch"
  define n where "n = cb_len b - (?o + 1)"
  have pll: "ch_pending_len_len ch = 1" using ok assms(2) by (simp add: child_ok_def)
  have buf: "cb_len b \<le> length (cb_buf b)" using wf by (simp add: buf_wf_def)
  have st: "size_add ?o 1 = ?o + 1" using wf le by (simp add: size_add_def buf_wf_def)
  have res: "cbb_flush_child M b ch = (True, b\<lparr>cb_buf := (cb_buf b)[?o := of_nat n]\<rparr>)"
    using assms(2) le st short pll
    by (simp add: cbb_flush_child_def Let_def asn1_length_form_cases n_def)
  have "(cb_buf b)[?o := of_nat n] = write_at (cb_buf b) ?o [of_nat n]"
    using le buf by (simp add: write_at_single)
  then have "flushed b ch [of_nat n] (b\<lparr>cb_buf := (cb_buf b)[?o := of_nat n]\<rparr>)"
    using wf le buf pll
    by (simp add: flushed_def buf_wf_def buf_written_def length_write_at take_write_at_over min.absorb1)
  moreover have "der_len n = [of_nat n]" using short by (simp add: der_len_def n_def)
  ultimately show ?thesis using res unfolding n_def by auto
qed

lemma flush_child_long:
  assumes wf: "buf_wf b" and M: "malloc_ok M" and asn1: "ch_pending_is_asn1 ch" and ok: "child_ok ch"
    and le: "ch_offset ch + 1 \<le> cb_len b" and n: "n = cb_len b - (ch_offset ch + 1)"
    and range: "127 < n" "n \<le> 0xfffffffe"
    and add: "cbb_buffer_add M b (len_octets n) = (Some out, b1)"
  shows "\<exists>b'. cbb_flush_child M b ch = (True, b') \<and> flushed b ch (der_len n) b'"
proof -
  let ?o = "ch_offset ch" and ?k = "len_octets n" and ?be = "be_bytes (len_octets n) n"
  let ?ib = "of_nat (128 + len_octets n) :: u8"
  have pll: "ch_pending_len_len ch = 1" using ok asn1 by (simp add: child_ok_def)
  have st: "size_add ?o 1 = ?o + 1" using wf le by (simp add: size_add_def buf_wf_def)
  have k: "1 \<le> ?k" "?k \<le> 4" "n < 256 ^ ?k"
    using len_octets_bounds [of n] len_octets_less [of n] range by auto
  then have k64: "?k < 2 ^ 64" by simp
  note b1 = cbb_buffer_add_Some [OF wf M k64 add]
  obtain x where w: "buf_written b = take ?o (buf_written b) @ [x] @ drop (?o + 1) (buf_written b)"
      "length (take ?o (buf_written b)) = ?o" "length (drop (?o + 1) (buf_written b)) = n"
    using buf_split [OF wf le] n by metis
  define pre pay where "pre = take ?o (buf_written b)" and "pay = drop (?o + 1) (buf_written b)"
  have wr: "buf_written b = pre @ [x] @ pay"
    using w(1) unfolding pre_def pay_def .
  have "cb_buf b1 = buf_written b @ drop (cb_len b) (cb_buf b1)"
    using b1 by (metis append_take_drop_id buf_written_def)
  also have "\<dots> = pre @ [x] @ pay @ drop (cb_len b) (cb_buf b1)"
    unfolding wr by simp
  finally have buf1: "cb_buf b1 = pre @ [x] @ pay @ drop (cb_len b) (cb_buf b1)" .
  have rest: "?k \<le> length (drop (cb_len b) (cb_buf b1))"
    using b1 by (auto simp: buf_wf_def)
  have lens: "length pre = ?o" "length pay = n" using w by (simp_all add: pre_def pay_def)
  obtain zs where zs: "write_at ((memmove_at (cb_buf b1) (?o + 1 + ?k) (?o + 1) n)[?o := ?ib]) (?o + 1) ?be
      = pre @ [?ib] @ ?be @ pay @ zs"
    using asn1_shift_contents [OF lens(1) length_be_bytes lens(2) rest, of x ?ib n] buf1 by metis
  let ?buf2 = "(memmove_at (cb_buf b1) (?o + 1 + ?k) (?o + 1) n)[?o := ?ib]"
  have lb1: "length (cb_buf b1) = cb_cap b1" "cb_len b1 = cb_len b + ?k" "cb_len b1 \<le> cb_cap b1"
    using b1 by (simp_all add: buf_wf_def)
  have l2: "length ?buf2 = cb_cap b1"
    using lb1 le n by (simp add: memmove_at_def length_write_at length_read_at)
  have u: "unat (of_nat n :: u64) = n" using range by (simp add: unat_of_nat)
  have put: "put_be ?buf2 (?o + 1) ?k (of_nat n) = (pre @ [?ib] @ ?be @ pay @ zs, 0)"
    using put_be_write [of "?o + 1" ?k ?buf2 "of_nat n"] l2 lb1 le n u k zs
      drop_bit_eq_0_iff [of ?k "of_nat n"] by simp
  let ?b' = "b1\<lparr>cb_buf := pre @ [?ib] @ ?be @ pay @ zs\<rparr>"
  have "cbb_flush_child M b ch = (True, ?b')"
    using asn1 le st pll n range put k add
    by (simp add: cbb_flush_child_def Let_def asn1_length_form_cases del: of_nat_add)
  moreover have "length (pre @ [?ib] @ ?be @ pay @ zs) = cb_cap b1"
  proof -
    have "?o + 1 + length ?be \<le> length ?buf2" using l2 lb1 le n by simp
    then show ?thesis unfolding zs [symmetric] by (simp only: length_write_at l2)
  qed
  moreover have "der_len n = ?ib # ?be" using range by (simp add: der_len_def)
  moreover have "buf_written ?b' = pre @ (?ib # ?be) @ pay"
  proof -
    have "cb_len b1 = length (pre @ (?ib # ?be) @ pay)" using lens lb1 le n by simp
    then show ?thesis by (simp add: buf_written_def del: of_nat_add)
  qed
  ultimately have "flushed b ch (der_len n) ?b'"
    using b1 pll by (simp add: flushed_def buf_wf_def pre_def pay_def del: of_nat_add)
  then show ?thesis using \<open>cbb_flush_child M b ch = (True, ?b')\<close> by blast
qed

lemma cbb_flush_child_True:
  assumes wf: "buf_wf b" and M: "malloc_ok M" and ok: "child_ok ch"
    and le: "ch_offset ch + ch_pending_len_len ch \<le> cb_len b"
    and res: "cbb_flush_child M b ch = (True, b')"
  shows "\<exists>p. child_prefix ch (cb_len b - (ch_offset ch + ch_pending_len_len ch)) = Some p \<and> flushed b ch p b'"
proof (cases "ch_pending_is_asn1 ch")
  case False
  from flush_child_plain [OF wf False le, of M] res False show ?thesis by (auto simp: child_prefix_def)
next
  case True
  then have pll: "ch_pending_len_len ch = 1" using ok by (simp add: child_ok_def)
  define n where "n = cb_len b - (ch_offset ch + 1)"
  have st: "size_add (ch_offset ch) 1 = ch_offset ch + 1" using wf le pll by (simp add: size_add_def buf_wf_def)
  consider "n \<le> 127" | "127 < n" "n \<le> 0xfffffffe" | "0xfffffffe < n" by linarith
  then show ?thesis
  proof cases
    case 1
    then show ?thesis
      using flush_child_short [OF wf True ok, of M] le pll res True by (auto simp: child_prefix_def n_def)
  next
    case 2
    obtain out b1 where add: "cbb_buffer_add M b (len_octets n) = (Some out, b1)"
    proof (cases "cbb_buffer_add M b (len_octets n)")
      case (Pair a b1)
      then show ?thesis
        using that res True le st 2 pll len_octets_bounds [of n] unfolding n_def
        by (cases a) (simp_all add: cbb_flush_child_def Let_def asn1_length_form_cases)
    qed
    with flush_child_long [OF wf M True ok _ n_def 2 add] le pll res True 2 show ?thesis
      by (auto simp: child_prefix_def n_def)
  next
    case 3
    then show ?thesis
      using res True le st pll by (simp add: cbb_flush_child_def Let_def asn1_length_form_cases n_def)
  qed
qed

lemma cbb_flush_child_room:
  assumes wf: "buf_wf b" and M: "malloc_ok M" and ok: "child_ok ch"
    and le: "ch_offset ch + ch_pending_len_len ch \<le> cb_len b"
    and p: "child_prefix ch (cb_len b - (ch_offset ch + ch_pending_len_len ch)) = Some p"
    and r: "room M b (cb_len b + 4)"
  shows "\<exists>b'. cbb_flush_child M b ch = (True, b')"
proof (cases "ch_pending_is_asn1 ch")
  case False
  from flush_child_plain [OF wf False le, of M] p False show ?thesis
    by (auto simp: child_prefix_def split: if_splits)
next
  case True
  then have pll: "ch_pending_len_len ch = 1" using ok by (simp add: child_ok_def)
  define n where "n = cb_len b - (ch_offset ch + 1)"
  have n: "n \<le> 0xfffffffe" using p True pll by (auto simp: child_prefix_def n_def split: if_splits)
  show ?thesis
  proof (cases "n \<le> 127")
    case True
    then show ?thesis
      using flush_child_short [OF wf \<open>ch_pending_is_asn1 ch\<close> ok, of M] le pll by (auto simp: n_def)
  next
    case False
    then have "room M b (cb_len b + len_octets n)"
      using r len_octets_bounds [of n] by (auto simp: room_def)
    from cbb_buffer_add_room [OF wf this] obtain out b1
      where "cbb_buffer_add M b (len_octets n) = (Some out, b1)" by blast
    from flush_child_long [OF wf M True ok _ n_def _ n this] False le pll show ?thesis by auto
  qed
qed

section \<open>The chain\<close>

fun chain_wf :: "nat \<Rightarrow> cbb_child_st list \<Rightarrow> nat \<Rightarrow> bool" where
  "chain_wf st [] n \<longleftrightarrow> st \<le> n"
| "chain_wf st (ch # chs) n \<longleftrightarrow>
     st \<le> ch_offset ch \<and> child_ok ch \<and> chain_wf (ch_offset ch + ch_pending_len_len ch) chs n"

definition cbb_wf :: "CBB \<Rightarrow> bool" where
  "cbb_wf c \<longleftrightarrow> buf_wf (cbb_base c) \<and> chain_wf 0 (cbb_chain c) (cb_len (cbb_base c))"

text \<open>
  The byte string that a \<^verbatim>\<open>CBB\<close> stands for: its contents start at \<open>st\<close> and \<open>chs\<close> are the
  pending children below it. It is undefined when some contents are too long for their prefix.
\<close>

fun contents :: "bytes \<Rightarrow> nat \<Rightarrow> cbb_child_st list \<Rightarrow> bytes option" where
  "contents bs st [] = Some (drop st bs)"
| "contents bs st (ch # chs) =
     (case contents bs (ch_offset ch + ch_pending_len_len ch) chs of
        None \<Rightarrow> None
      | Some t \<Rightarrow>
          (case child_prefix ch (length t) of
             None \<Rightarrow> None
           | Some p \<Rightarrow> Some (take (ch_offset ch - st) (drop st bs) @ p @ t)))"

definition CBB_contents :: "CBB \<Rightarrow> nat \<Rightarrow> bytes option" where
  "CBB_contents c k = contents (buf_written (cbb_base c)) (CBB_data c k) (drop k (cbb_chain c))"

lemma chain_wf_start: "chain_wf st chs n \<Longrightarrow> st \<le> n"
  by (induction st chs n rule: chain_wf.induct) auto

lemma chain_wf_nth:
  assumes "chain_wf 0 (cbb_chain c) n" and "k < length (cbb_chain c)"
  shows "child_ok (cbb_chain c ! k) \<and> CBB_data c k \<le> ch_offset (cbb_chain c ! k) \<and> CBB_data c (Suc k) \<le> n"
proof -
  have gen: "chain_wf st chs n \<Longrightarrow> k < length chs \<Longrightarrow>
      child_ok (chs ! k) \<and>
      (if k = 0 then st else ch_offset (chs ! (k - 1)) + ch_pending_len_len (chs ! (k - 1))) \<le> ch_offset (chs ! k) \<and>
      ch_offset (chs ! k) + ch_pending_len_len (chs ! k) \<le> n" for st chs
  proof (induction st chs n arbitrary: k rule: chain_wf.induct)
    case (2 st ch chs n)
    show ?case
    proof (cases k)
      case 0
      then show ?thesis using "2.prems" chain_wf_start by auto
    next
      case (Suc j)
      then show ?thesis using "2.IH" [of j] "2.prems" by (cases j) auto
    qed
  qed simp
  show ?thesis using gen [OF assms] by (simp add: CBB_data_def)
qed

lemma chain_wf_take:
  assumes "chain_wf 0 (cbb_chain c) n" and "k \<le> length (cbb_chain c)" and "CBB_data c k \<le> m"
  shows "chain_wf 0 (take k (cbb_chain c)) m"
proof -
  have gen: "chain_wf st chs n \<Longrightarrow> k \<le> length chs \<Longrightarrow>
      (if k = 0 then st else ch_offset (chs ! (k - 1)) + ch_pending_len_len (chs ! (k - 1))) \<le> m \<Longrightarrow>
      chain_wf st (take k chs) m" for st chs
  proof (induction st chs n arbitrary: k rule: chain_wf.induct)
    case (2 st ch chs n)
    then show ?case by (cases k; cases "k - 1") auto
  qed simp
  show ?thesis using gen [OF assms(1,2)] assms(3) by (simp add: CBB_data_def)
qed

text \<open>
  The result of flushing depth \<open>k\<close>: the chain is cut there, the bytes before the contents of that
  \<^verbatim>\<open>CBB\<close> are untouched, and what follows is exactly what it stood for.
\<close>

definition flush_result :: "CBB \<Rightarrow> nat \<Rightarrow> CBB \<Rightarrow> bool" where
  "flush_result c k c' \<longleftrightarrow>
     cbb_chain c' = take k (cbb_chain c) \<and> buf_wf (cbb_base c') \<and> \<not> cb_error (cbb_base c') \<and>
     cb_can_resize (cbb_base c') = cb_can_resize (cbb_base c) \<and> cb_cap (cbb_base c) \<le> cb_cap (cbb_base c') \<and>
     CBB_data c k \<le> cb_len (cbb_base c') \<and>
     take (CBB_data c k) (buf_written (cbb_base c')) = take (CBB_data c k) (buf_written (cbb_base c)) \<and>
     CBB_contents c k = Some (drop (CBB_data c k) (buf_written (cbb_base c')))"

lemma length_buf_written [simp]: "buf_wf b \<Longrightarrow> length (buf_written b) = cb_len b"
  by (simp add: buf_written_def buf_wf_def)

lemma flush_result_self:
  assumes "cbb_wf c" and "k = length (cbb_chain c)" and "\<not> cb_error (cbb_base c)"
  shows "flush_result c k c"
proof -
  have "CBB_data c k \<le> cb_len (cbb_base c)"
  proof (cases k)
    case 0
    then show ?thesis by (simp add: CBB_data_def)
  next
    case (Suc j)
    then show ?thesis using chain_wf_nth [of c "cb_len (cbb_base c)" j] assms by (simp add: cbb_wf_def)
  qed
  then show ?thesis using assms by (simp add: flush_result_def cbb_wf_def CBB_contents_def)
qed

lemma flush_result_step:
  assumes wf: "cbb_wf c" and k: "k < length (cbb_chain c)" and r1: "flush_result c (Suc k) c1"
    and p: "child_prefix ch (cb_len (cbb_base c1) - CBB_data c (Suc k)) = Some p"
    and fl: "flushed (cbb_base c1) ch p b" and ch: "ch = cbb_chain c ! k"
  shows "flush_result c k (c1\<lparr>cbb_base := b, cbb_chain := take k (cbb_chain c1)\<rparr>)"
proof -
  let ?w = "buf_written (cbb_base c)" and ?w1 = "buf_written (cbb_base c1)"
  let ?st = "CBB_data c k" and ?o = "ch_offset ch" and ?s1 = "CBB_data c (Suc k)"
  have s1: "?s1 = ?o + ch_pending_len_len ch" by (simp add: CBB_data_def ch)
  have o: "?st \<le> ?o" using chain_wf_nth [of c "cb_len (cbb_base c)" k] wf k ch by (simp add: cbb_wf_def)
  have r: "take ?s1 ?w1 = take ?s1 ?w" "?s1 \<le> cb_len (cbb_base c1)" "buf_wf (cbb_base c1)"
    using r1 by (simp_all add: flush_result_def)
  have tk: "take ?o ?w1 = take ?o ?w" using r(1) s1
    by (metis le_add1 min.absorb1 take_take)
  have wb: "buf_written b = take ?o ?w @ p @ drop ?s1 ?w1"
    using fl tk s1 by (simp add: flushed_def)
  have len_o: "length (take ?o ?w) = ?o" using tk r s1 by (metis le_add1 le_trans length_buf_written length_take min.absorb2)
  have "drop k (cbb_chain c) = ch # drop (Suc k) (cbb_chain c)"
    using k ch by (simp add: Cons_nth_drop_Suc)
  moreover have "contents ?w ?s1 (drop (Suc k) (cbb_chain c)) = Some (drop ?s1 ?w1)"
    using r1 by (simp add: flush_result_def CBB_contents_def)
  moreover have "length (drop ?s1 ?w1) = cb_len (cbb_base c1) - ?s1" using r by simp
  ultimately have "CBB_contents c k = Some (take (?o - ?st) (drop ?st ?w) @ p @ drop ?s1 ?w1)"
    using p s1 by (simp add: CBB_contents_def)
  also have "take (?o - ?st) (drop ?st ?w) @ p @ drop ?s1 ?w1 = drop ?st (buf_written b)"
    unfolding wb using o len_o by (simp add: drop_take)
  finally have con: "CBB_contents c k = Some (drop ?st (buf_written b))" .
  have "buf_wf b" using fl by (simp add: flushed_def)
  then have "cb_len b = length (buf_written b)" by simp
  then have le: "?st \<le> cb_len b" unfolding wb using o len_o by simp
  have "take ?st (buf_written b) = take ?st ?w"
    unfolding wb using o len_o by (simp add: min.absorb1)
  then show ?thesis
    using con le fl r1 k by (auto simp: flush_result_def flushed_def min.absorb1)
qed

theorem CBB_flush_refines:
  "cbb_wf c \<Longrightarrow> malloc_ok M \<Longrightarrow> CBB_flush M c k = (True, c') \<Longrightarrow> flush_result c k c'"
proof (induction M c k arbitrary: c' rule: CBB_flush.induct)
  case (1 M c k)
  have live: "k \<le> length (cbb_chain c)" and ok: "\<not> cb_error (cbb_base c)"
    using "1.prems"(3) by (subst (asm) CBB_flush.simps; simp add: cbb_live_def split: if_splits)+
  show ?case
  proof (cases "k = length (cbb_chain c)")
    case True
    then have "c' = c" using "1.prems"(3) ok by (subst (asm) CBB_flush.simps) (simp add: cbb_live_def)
    then show ?thesis using flush_result_self [OF "1.prems"(1) True ok] by simp
  next
    case False
    then have k: "k < length (cbb_chain c)" using live by simp
    let ?ch = "cbb_chain c ! k"
    obtain c1 where c1: "CBB_flush M c (Suc k) = (True, c1)"
      using "1.prems"(3) False live ok
      by (subst (asm) CBB_flush.simps) (auto simp: cbb_live_def split: prod.splits bool.splits)
    have r1: "flush_result c (Suc k) c1"
      using "1.IH" [OF _ False "1.prems"(1,2) c1] live ok by (simp add: cbb_live_def)
    then have nth: "cbb_chain c1 ! k = ?ch" using k by (simp add: flush_result_def)
    obtain b where b: "cbb_flush_child M (cbb_base c1) ?ch = (True, b)"
      and c': "c' = c1\<lparr>cbb_base := b, cbb_chain := take k (cbb_chain c1)\<rparr>"
      using "1.prems"(3) False live ok c1 nth
      by (subst (asm) CBB_flush.simps) (auto simp: cbb_live_def split: prod.splits bool.splits)
    have s1: "CBB_data c (Suc k) = ch_offset ?ch + ch_pending_len_len ?ch"
      by (simp add: CBB_data_def)
    have "child_ok ?ch" using chain_wf_nth [of c "cb_len (cbb_base c)" k] "1.prems"(1) k by (simp add: cbb_wf_def)
    then obtain p where "child_prefix ?ch (cb_len (cbb_base c1) - CBB_data c (Suc k)) = Some p"
        "flushed (cbb_base c1) ?ch p b"
      using cbb_flush_child_True [OF _ "1.prems"(2) _ _ b] r1 s1 by (auto simp: flush_result_def)
    then show ?thesis
      unfolding c' by (rule flush_result_step [OF "1.prems"(1) k r1 _ _ refl])
  qed
qed

section \<open>The abstract builder\<close>

text \<open>
  The specification sees a builder as a stack of open frames: the bytes each \<^verbatim>\<open>CBB\<close> of the chain
  has written itself, and for each but the first the kind of length prefix it will get (its width,
  and whether it is a DER length). Closing the frames below depth \<open>k\<close> puts each prefix in front of
  the contents it counts.
\<close>

type_synonym kind = "nat \<times> bool"
type_synonym builder = "bytes list \<times> kind list"

definition kind_of :: "cbb_child_st \<Rightarrow> kind" where
  "kind_of ch = (ch_pending_len_len ch, ch_pending_is_asn1 ch)"

fun kind_prefix :: "kind \<Rightarrow> nat \<Rightarrow> bytes option" where
  "kind_prefix (w, asn1) n =
     (if asn1 then (if n \<le> 0xfffffffe then Some (der_len n) else None)
      else if n < 256 ^ w then Some (be_bytes w n) else None)"

fun collapse :: "kind list \<Rightarrow> bytes list \<Rightarrow> bytes option" where
  "collapse [] fs = Some (hd fs)"
| "collapse (k # ks) fs =
     (case collapse ks (tl fs) of
        None \<Rightarrow> None
      | Some t \<Rightarrow> (case kind_prefix k (length t) of None \<Rightarrow> None | Some p \<Rightarrow> Some (hd fs @ p @ t)))"

fun spec_flush :: "nat \<Rightarrow> builder \<Rightarrow> builder option" where
  "spec_flush k (fs, ks) =
     (if k \<le> length ks
      then map_option (\<lambda>t. (take k fs @ [t], take k ks)) (collapse (drop k ks) (drop k fs))
      else None)"

definition spec_append :: "nat \<Rightarrow> bytes \<Rightarrow> builder \<Rightarrow> builder option" where
  "spec_append k d B = map_option (\<lambda>(fs, ks). (butlast fs @ [last fs @ d], ks)) (spec_flush k B)"

definition spec_open :: "nat \<Rightarrow> kind \<Rightarrow> builder \<Rightarrow> builder option" where
  "spec_open k kd B = map_option (\<lambda>(fs, ks). (fs @ [[]], ks @ [kd])) (spec_flush k B)"

fun spec_discard :: "nat \<Rightarrow> builder \<Rightarrow> builder" where
  "spec_discard k (fs, ks) = (take (Suc k) fs, take k ks)"

fun frames :: "bytes \<Rightarrow> nat \<Rightarrow> cbb_child_st list \<Rightarrow> bytes list" where
  "frames bs st [] = [drop st bs]"
| "frames bs st (ch # chs) =
     take (ch_offset ch - st) (drop st bs) # frames bs (ch_offset ch + ch_pending_len_len ch) chs"

definition CBB_abs :: "CBB \<Rightarrow> builder" where
  "CBB_abs c = (frames (buf_written (cbb_base c)) 0 (cbb_chain c), map kind_of (cbb_chain c))"

lemma child_prefix_kind: "child_prefix ch n = kind_prefix (kind_of ch) n"
  by (simp add: child_prefix_def kind_of_def)

lemma length_frames [simp]: "length (frames bs st chs) = Suc (length chs)"
  by (induction chs arbitrary: st) auto

lemma frames_nonempty [simp]: "frames bs st chs \<noteq> []"
  by (cases chs) auto

lemma contents_collapse: "contents bs st chs = collapse (map kind_of chs) (frames bs st chs)"
  by (induction bs st chs rule: contents.induct) (simp_all add: child_prefix_kind split: option.splits)

definition chain_data :: "nat \<Rightarrow> cbb_child_st list \<Rightarrow> nat \<Rightarrow> nat" where
  "chain_data st chs k = (if k = 0 then st else ch_offset (chs ! (k - 1)) + ch_pending_len_len (chs ! (k - 1)))"

lemma chain_data_simps [simp]:
  "chain_data st chs 0 = st"
  "chain_data st (ch # chs) (Suc k) = chain_data (ch_offset ch + ch_pending_len_len ch) chs k"
  by (cases k; simp add: chain_data_def)+

lemma CBB_data_chain: "CBB_data c k = chain_data 0 (cbb_chain c) k"
  by (simp add: CBB_data_def chain_data_def)

lemma drop_frames: "k \<le> length chs \<Longrightarrow> drop k (frames bs st chs) = frames bs (chain_data st chs k) (drop k chs)"
proof (induction k arbitrary: st chs)
  case (Suc k)
  then show ?case by (cases chs) auto
qed simp

lemma chain_data_mono: "chain_wf st chs n \<Longrightarrow> k \<le> length chs \<Longrightarrow> st \<le> chain_data st chs k"
proof (induction st chs n arbitrary: k rule: chain_wf.induct)
  case (2 st ch chs n)
  then show ?case by (cases k) (auto intro: order_trans [OF _ "2.IH"])
qed simp

lemma take_frames:
  assumes "chain_wf st chs n" and "k \<le> length chs"
    and "take (chain_data st chs k) w' = take (chain_data st chs k) w"
  shows "frames w' st (take k chs) = take k (frames w st chs) @ [drop (chain_data st chs k) w']"
  using assms
proof (induction st chs n arbitrary: k rule: chain_wf.induct)
  case (2 st ch chs n)
  show ?case
  proof (cases k)
    case (Suc j)
    let ?d = "chain_data (ch_offset ch + ch_pending_len_len ch) chs j"
    have "ch_offset ch \<le> ?d"
      using chain_data_mono [of _ chs n j] "2.prems" Suc by fastforce
    then have "take (ch_offset ch) w' = take (ch_offset ch) w"
      using "2.prems"(3) Suc by (simp, metis min.absorb1 take_take)
    then have "take (ch_offset ch - st) (drop st w') = take (ch_offset ch - st) (drop st w)"
      by (metis drop_take)
    then show ?thesis using Suc "2.IH" [of j] "2.prems" by simp
  qed simp
qed simp

lemma CBB_contents_abs:
  "k \<le> length (cbb_chain c) \<Longrightarrow>
     CBB_contents c k = collapse (drop k (snd (CBB_abs c))) (drop k (fst (CBB_abs c)))"
  by (simp add: CBB_contents_def CBB_abs_def contents_collapse drop_frames CBB_data_chain drop_map)

lemma flush_result_abs:
  assumes wf: "cbb_wf c" and k: "k \<le> length (cbb_chain c)" and r: "flush_result c k c'"
  shows "cbb_wf c' \<and> spec_flush k (CBB_abs c) = Some (CBB_abs c')"
proof -
  let ?w = "buf_written (cbb_base c)" and ?w' = "buf_written (cbb_base c')"
  have ch: "cbb_chain c' = take k (cbb_chain c)" using r by (simp add: flush_result_def)
  have cw: "chain_wf 0 (cbb_chain c) (cb_len (cbb_base c))" using wf by (simp add: cbb_wf_def)
  have wf': "cbb_wf c'"
    using r chain_wf_take [OF cw k] by (simp add: cbb_wf_def flush_result_def)
  have "collapse (drop k (snd (CBB_abs c))) (drop k (fst (CBB_abs c))) = Some (drop (CBB_data c k) ?w')"
    using r CBB_contents_abs [OF k] by (simp add: flush_result_def)
  moreover have "fst (CBB_abs c') = take k (fst (CBB_abs c)) @ [drop (CBB_data c k) ?w']"
    using take_frames [OF cw k, of ?w' ?w] r by (simp add: CBB_abs_def ch flush_result_def CBB_data_chain)
  moreover have "snd (CBB_abs c') = take k (snd (CBB_abs c))"
    by (simp add: CBB_abs_def ch take_map)
  ultimately show ?thesis using wf' k by (cases "CBB_abs c", cases "CBB_abs c'") (auto simp: CBB_abs_def)
qed

end
