(* ===== verification/Cbb_Spec.thy ===== *)
theory Cbb_Spec
  imports Cbb_Refine
begin

text \<open>
  Every operation of the builder against the abstract builder of \<^verbatim>\<open>Cbb_Refine\<close>: when it
  succeeds its effect is the abstract operation, when it fails the builder stays well formed with its
  error flag set, it cannot fail when there is room, and after an error nothing succeeds.
\<close>

section \<open>Flushing\<close>

definition grown :: "CBB \<Rightarrow> CBB \<Rightarrow> bool" where
  "grown c c' \<longleftrightarrow> cbb_wf c' \<and> \<not> cb_error (cbb_base c') \<and>
     cb_can_resize (cbb_base c') = cb_can_resize (cbb_base c) \<and> cb_cap (cbb_base c) \<le> cb_cap (cbb_base c')"

lemma grown_trans: "grown a b \<Longrightarrow> grown b c \<Longrightarrow> grown a c"
  by (auto simp: grown_def)

lemma CBB_flush_live:
  assumes "CBB_flush M c k = (True, c')"
  shows "cbb_live c k \<and> \<not> cb_error (cbb_base c)"
  using assms by (subst (asm) CBB_flush.simps) (simp split: if_splits)

lemma CBB_flush_True:
  assumes wf: "cbb_wf c" and M: "malloc_ok M" and fl: "CBB_flush M c k = (True, c')"
  shows "grown c c' \<and> length (cbb_chain c') = k \<and> cbb_chain c' = take k (cbb_chain c) \<and>
    spec_flush k (CBB_abs c) = Some (CBB_abs c')"
proof -
  have k: "k \<le> length (cbb_chain c)" using CBB_flush_live [OF fl] by (simp add: cbb_live_def)
  note r = CBB_flush_refines [OF wf M fl]
  from flush_result_abs [OF wf k r] r k show ?thesis
    by (simp add: flush_result_def grown_def)
qed

lemma cbb_flush_child_False:
  assumes wf: "buf_wf b" and M: "malloc_ok M" and ok: "child_ok ch"
    and le: "ch_offset ch + ch_pending_len_len ch \<le> cb_len b"
    and res: "cbb_flush_child M b ch = (False, b')"
  shows "buf_wf b' \<and> cb_len b' = cb_len b"
proof (cases "ch_pending_is_asn1 ch")
  case False
  from flush_child_plain [OF wf False le, of M] res
  have "flushed b ch (be_bytes (ch_pending_len_len ch) (cb_len b - (ch_offset ch + ch_pending_len_len ch))) b'"
    by auto
  then have "buf_wf b'" and "length (buf_written b') = cb_len b"
    using wf le by (simp_all add: flushed_def)
  then show ?thesis by simp
next
  case True
  then have pll: "ch_pending_len_len ch = 1" using ok by (simp add: child_ok_def)
  define n where "n = cb_len b - (ch_offset ch + 1)"
  have st: "size_add (ch_offset ch) 1 = ch_offset ch + 1" using wf le pll by (simp add: size_add_def buf_wf_def)
  consider "n \<le> 127" | "127 < n" "n \<le> 0xfffffffe" | "0xfffffffe < n" by linarith
  then show ?thesis
  proof cases
    case 1
    then show ?thesis using flush_child_short [OF wf True ok, of M] le pll res by (auto simp: n_def)
  next
    case 2
    show ?thesis
    proof (cases "cbb_buffer_add M b (len_octets n)")
      case (Pair a b1)
      show ?thesis
      proof (cases a)
        case None
        then have "b' = b1" using Pair res True le st 2 pll len_octets_bounds [of n] unfolding n_def
          by (simp add: cbb_flush_child_def Let_def asn1_length_form_cases)
        then show ?thesis using Pair None wf cbb_buffer_add_None by (fastforce simp: buf_wf_def)
      next
        case (Some out)
        then show ?thesis using flush_child_long [OF wf M True ok _ n_def 2] Pair le pll res by fastforce
      qed
    qed
  next
    case 3
    then show ?thesis
      using res True le st pll wf by (simp add: cbb_flush_child_def Let_def asn1_length_form_cases n_def)
  qed
qed

lemma CBB_data_le: "cbb_wf c \<Longrightarrow> k \<le> length (cbb_chain c) \<Longrightarrow> CBB_data c k \<le> cb_len (cbb_base c)"
  using chain_wf_nth [of c "cb_len (cbb_base c)" "k - 1"] by (cases k) (auto simp: cbb_wf_def CBB_data_def)

lemma cbb_wf_on_error:
  assumes wf: "cbb_wf c"
  shows "cbb_wf (cbb_on_error c k)"
proof (cases "k \<le> length (cbb_chain c)")
  case True
  then show ?thesis
    using wf chain_wf_take [of c _ k, OF _ True] CBB_data_le [OF wf True]
    by (auto simp: cbb_on_error_def cbb_wf_def buf_wf_def)
next
  case False
  then show ?thesis using wf by (simp add: cbb_on_error_def cbb_wf_def buf_wf_def)
qed

lemma CBB_flush_False:
  "cbb_wf c \<Longrightarrow> malloc_ok M \<Longrightarrow> CBB_flush M c k = (False, c') \<Longrightarrow>
     cbb_wf c' \<and> (cbb_live c k \<longrightarrow> cb_error (cbb_base c'))"
proof (induction M c k arbitrary: c' rule: CBB_flush.induct)
  case (1 M c k)
  show ?case
  proof (cases "\<not> cbb_live c k \<or> cb_error (cbb_base c)")
    case True
    then show ?thesis using "1.prems" by (subst (asm) CBB_flush.simps) auto
  next
    case stuck: False
    then have neq: "k \<noteq> length (cbb_chain c)"
      using "1.prems"(3) by (subst (asm) CBB_flush.simps) auto
    obtain ok c1 where fl: "CBB_flush M c (Suc k) = (ok, c1)" by fastforce
    show ?thesis
    proof (cases ok)
      case False
      then have "c' = cbb_on_error c1 k"
        using "1.prems"(3) stuck neq fl by (subst (asm) CBB_flush.simps) simp
      then show ?thesis
        using "1.IH" [OF stuck neq "1.prems"(1,2)] fl False cbb_wf_on_error [of c1 k] by (simp add: cbb_on_error_def)
    next
      case True
      note r = CBB_flush_True [OF "1.prems"(1,2) fl [unfolded eqTrueI [OF True]]]
      then have wf1: "cbb_wf c1" and k: "k < length (cbb_chain c1)" by (simp add: grown_def, linarith)
      obtain b where b: "cbb_flush_child M (cbb_base c1) (cbb_chain c1 ! k) = (False, b)"
        and c': "c' = cbb_on_error (c1\<lparr>cbb_base := b\<rparr>) k"
        using "1.prems"(3) stuck neq fl True
        by (subst (asm) CBB_flush.simps) (auto split: prod.splits bool.splits)
      have "child_ok (cbb_chain c1 ! k)" "buf_wf (cbb_base c1)" "CBB_data c1 (Suc k) \<le> cb_len (cbb_base c1)"
        using chain_wf_nth [of c1 "cb_len (cbb_base c1)" k] wf1 k by (simp_all add: cbb_wf_def)
      then have "buf_wf b \<and> cb_len b = cb_len (cbb_base c1)"
        using cbb_flush_child_False [OF _ "1.prems"(2) _ _ b] by (simp add: CBB_data_def)
      then have "cbb_wf (c1\<lparr>cbb_base := b\<rparr>)" using wf1 by (simp add: cbb_wf_def)
      from cbb_wf_on_error [OF this, of k] show ?thesis unfolding c' by (simp add: cbb_on_error_def)
    qed
  qed
qed

lemma length_der_len_max: "n \<le> 0xfffffffe \<Longrightarrow> length (der_len n) \<le> 5"
  using len_octets_bounds [of n] by (auto simp: der_len_def)

lemma flushed_growth:
  assumes "buf_wf b" and "child_ok ch" and "ch_offset ch + ch_pending_len_len ch \<le> cb_len b"
    and "child_prefix ch n = Some p" and "flushed b ch p b'"
  shows "cb_len b' \<le> cb_len b + 4"
proof -
  have "length p \<le> ch_pending_len_len ch + 4"
    using assms(2,4) length_der_len_max [of n] by (auto simp: child_prefix_def child_ok_def split: if_splits)
  moreover have "cb_len b' = length (buf_written b')"
    using assms(5) length_buf_written [of b'] unfolding flushed_def by metis
  ultimately show ?thesis using assms by (simp add: flushed_def)
qed

lemma room_mono:
  "room M b n \<Longrightarrow> m \<le> n \<Longrightarrow> cb_can_resize b' = cb_can_resize b \<Longrightarrow> cb_cap b \<le> cb_cap b' \<Longrightarrow> room M b' m"
  by (auto simp: room_def)

lemma spec_flush_inner:
  assumes "spec_flush k (CBB_abs c) \<noteq> None" and "k < length (cbb_chain c)"
  shows "spec_flush (Suc k) (CBB_abs c) \<noteq> None"
proof -
  obtain fs ks where B: "CBB_abs c = (fs, ks)" and l: "length ks = length (cbb_chain c)"
    "length fs = Suc (length ks)" by (simp add: CBB_abs_def)
  then have "drop k ks = ks ! k # drop (Suc k) ks" "tl (drop k fs) = drop (Suc k) fs"
    using assms(2) by (simp only: Cons_nth_drop_Suc, simp only: tl_drop drop_Suc)
  then show ?thesis using assms B l by (auto split: option.splits)
qed

text \<open>The prefix of the child that is flushed next is defined when the whole flush is.\<close>

lemma spec_flush_prefix:
  assumes wf: "cbb_wf c" and "spec_flush k (CBB_abs c) \<noteq> None" and k: "k < length (cbb_chain c)"
    and r: "flush_result c (Suc k) c1"
  shows "child_prefix (cbb_chain c ! k) (cb_len (cbb_base c1) - CBB_data c (Suc k)) \<noteq> None"
proof -
  have "CBB_contents c k \<noteq> None"
    using assms(2) k CBB_contents_abs [of k c] by (cases "CBB_abs c") (auto simp: CBB_abs_def)
  moreover have "drop k (cbb_chain c) = cbb_chain c ! k # drop (Suc k) (cbb_chain c)"
    using k by (simp add: Cons_nth_drop_Suc)
  moreover have "CBB_contents c (Suc k) = Some (drop (CBB_data c (Suc k)) (buf_written (cbb_base c1)))"
    and "buf_wf (cbb_base c1)"
    using r by (simp_all add: flush_result_def)
  ultimately show ?thesis by (auto simp: CBB_contents_def CBB_data_def split: option.splits)
qed

lemma CBB_flush_room:
  "cbb_wf c \<Longrightarrow> malloc_ok M \<Longrightarrow> cbb_live c k \<Longrightarrow> \<not> cb_error (cbb_base c) \<Longrightarrow>
   spec_flush k (CBB_abs c) \<noteq> None \<Longrightarrow>
   room M (cbb_base c) (cb_len (cbb_base c) + 4 * (length (cbb_chain c) - k)) \<Longrightarrow>
   \<exists>c'. CBB_flush M c k = (True, c') \<and>
     cb_len (cbb_base c') \<le> cb_len (cbb_base c) + 4 * (length (cbb_chain c) - k)"
proof (induction M c k rule: CBB_flush.induct)
  case (1 M c k)
  show ?case
  proof (cases "k = length (cbb_chain c)")
    case True
    then show ?thesis using "1.prems" by (subst CBB_flush.simps) simp
  next
    case False
    then have k: "k < length (cbb_chain c)" using "1.prems"(3) by (simp add: cbb_live_def)
    let ?m = "length (cbb_chain c) - Suc k" and ?ch = "cbb_chain c ! k"
    have m: "length (cbb_chain c) - k = Suc ?m" using k by simp
    obtain c1 where c1: "CBB_flush M c (Suc k) = (True, c1)"
      and l1: "cb_len (cbb_base c1) \<le> cb_len (cbb_base c) + 4 * ?m"
      using "1.IH" [OF _ False "1.prems"(1,2)] "1.prems" k spec_flush_inner [of k c] room_mono m
      by (fastforce simp: cbb_live_def)
    note r1 = CBB_flush_refines [OF "1.prems"(1,2) c1]
    then have nth: "cbb_chain c1 ! k = ?ch" and wf1: "buf_wf (cbb_base c1)" using k by (simp_all add: flush_result_def)
    have ok: "child_ok ?ch" using chain_wf_nth [of c "cb_len (cbb_base c)" k] "1.prems"(1) k by (simp add: cbb_wf_def)
    have s1: "CBB_data c (Suc k) = ch_offset ?ch + ch_pending_len_len ?ch" by (simp add: CBB_data_def)
    then have le: "ch_offset ?ch + ch_pending_len_len ?ch \<le> cb_len (cbb_base c1)" using r1 by (simp add: flush_result_def)
    obtain p where p: "child_prefix ?ch (cb_len (cbb_base c1) - (ch_offset ?ch + ch_pending_len_len ?ch)) = Some p"
      using spec_flush_prefix [OF "1.prems"(1,5) k r1] s1 by auto
    have "room M (cbb_base c1) (cb_len (cbb_base c1) + 4)"
      by (rule room_mono [OF "1.prems"(6)]) (use l1 r1 m in \<open>simp_all add: flush_result_def\<close>)
    from cbb_flush_child_room [OF wf1 "1.prems"(2) ok le p this]
    obtain b where b: "cbb_flush_child M (cbb_base c1) ?ch = (True, b)" by blast
    from cbb_flush_child_True [OF wf1 "1.prems"(2) ok le b] p have "flushed (cbb_base c1) ?ch p b" by simp
    from flushed_growth [OF wf1 ok le p this] l1 m have "cb_len b \<le> cb_len (cbb_base c) + 4 * Suc ?m" by simp
    moreover have "CBB_flush M c k = (True, c1\<lparr>cbb_base := b, cbb_chain := take k (cbb_chain c1)\<rparr>)"
      using "1.prems" False c1 b nth by (subst CBB_flush.simps) simp
    ultimately show ?thesis by (simp add: m)
  qed
qed

section \<open>Appending\<close>

lemma frames_append:
  "chain_wf st chs (length w) \<Longrightarrow>
     frames (w @ d) st chs = butlast (frames w st chs) @ [last (frames w st chs) @ d]"
proof (induction st chs "length w" rule: chain_wf.induct)
  case (2 st ch chs)
  then have "ch_offset ch \<le> length w" using chain_wf_start by fastforce
  then show ?case using 2 by simp
qed simp

lemma chain_wf_mono: "chain_wf st chs n \<Longrightarrow> n \<le> m \<Longrightarrow> chain_wf st chs m"
  by (induction st chs n rule: chain_wf.induct) auto

text \<open>Writing \<open>d\<close> right behind what is written appends \<open>d\<close> to the innermost frame.\<close>

lemma buffer_append_abs:
  assumes wf: "cbb_wf c" and b: "buf_wf b" and w: "buf_written b = buf_written (cbb_base c) @ d"
  shows "cbb_wf (c\<lparr>cbb_base := b\<rparr>) \<and>
    CBB_abs (c\<lparr>cbb_base := b\<rparr>) = (butlast (fst (CBB_abs c)) @ [last (fst (CBB_abs c)) @ d], snd (CBB_abs c))"
proof -
  have wfb: "buf_wf (cbb_base c)" using wf by (simp add: cbb_wf_def)
  have cw: "chain_wf 0 (cbb_chain c) (length (buf_written (cbb_base c)))"
    using wf wfb by (simp add: cbb_wf_def)
  have "cb_len b = cb_len (cbb_base c) + length d"
    using arg_cong [OF w, of length] b wfb by simp
  then have "cbb_wf (c\<lparr>cbb_base := b\<rparr>)"
    using wf b chain_wf_mono [of 0 "cbb_chain c" "cb_len (cbb_base c)"] by (simp add: cbb_wf_def)
  then show ?thesis by (simp add: CBB_abs_def w frames_append [OF cw])
qed

text \<open>Claiming \<open>length d\<close> bytes at the end of the buffer and filling them with \<open>d\<close>.\<close>

lemma buffer_add_write:
  assumes wf: "buf_wf b" and M: "malloc_ok M" and len: "length d < 2 ^ 64"
    and add: "cbb_buffer_add M b (length d) = (Some out, b')"
  shows "buf_wf (b'\<lparr>cb_buf := write_at (cb_buf b') out d\<rparr>) \<and>
    buf_written (b'\<lparr>cb_buf := write_at (cb_buf b') out d\<rparr>) = buf_written b @ d"
proof -
  from cbb_buffer_add_Some [OF wf M len add]
  have *: "out = cb_len b" "buf_wf b'" "cb_len b' = cb_len b + length d"
    "take (cb_len b) (cb_buf b') = take (cb_len b) (cb_buf b)" by auto
  then have "length (write_at (cb_buf b') out d) = cb_cap b'"
    by (simp add: buf_wf_def length_write_at)
  moreover have "take (cb_len b + length d) (write_at (cb_buf b') out d) = take (cb_len b) (cb_buf b) @ d"
    using * by (subst take_write_at_end) (auto simp: buf_wf_def)
  ultimately show ?thesis using * by (simp add: buf_wf_def buf_written_def)
qed

lemma CBB_add_space_Some:
  assumes wf: "cbb_wf c" and M: "malloc_ok M" and len: "length d < 2 ^ 64"
    and res: "CBB_add_space M c k (length d) = (Some out, c')"
  shows "out + length d \<le> length (cb_buf (cbb_base c')) \<and> cbb_chain c' = take k (cbb_chain c) \<and>
    (let c'' = cbb_set_buf c' (write_at (cb_buf (cbb_base c')) out d)
     in grown c c'' \<and> spec_append k d (CBB_abs c) = Some (CBB_abs c''))"
proof -
  obtain c1 b where fl: "CBB_flush M c k = (True, c1)"
    and add: "cbb_buffer_add M (cbb_base c1) (length d) = (Some out, b)" and c': "c' = c1\<lparr>cbb_base := b\<rparr>"
    using res by (auto simp: CBB_add_space_def split: prod.splits bool.splits)
  note f = CBB_flush_True [OF wf M fl]
  then have wf1: "cbb_wf c1" "buf_wf (cbb_base c1)" by (auto simp: grown_def cbb_wf_def)
  note a = cbb_buffer_add_Some [OF wf1(2) M len add]
  let ?b = "b\<lparr>cb_buf := write_at (cb_buf b) out d\<rparr>"
  have w: "buf_wf ?b" "buf_written ?b = buf_written (cbb_base c1) @ d"
    using buffer_add_write [OF wf1(2) M len add] by auto
  from buffer_append_abs [OF wf1(1) w] f
  have "grown c (c1\<lparr>cbb_base := ?b\<rparr>) \<and> spec_append k d (CBB_abs c) = Some (CBB_abs (c1\<lparr>cbb_base := ?b\<rparr>))"
    using a by (auto simp: grown_def spec_append_def split: prod.splits)
  then show ?thesis using a c' f by (simp add: cbb_set_buf_def buf_wf_def)
qed

lemma CBB_add_space_None:
  assumes wf: "cbb_wf c" and M: "malloc_ok M" and res: "CBB_add_space M c k len = (None, c')"
  shows "cbb_wf c' \<and> (cbb_live c k \<longrightarrow> cb_error (cbb_base c'))"
proof (cases "CBB_flush M c k")
  case (Pair ok c1)
  show ?thesis
  proof (cases ok)
    case False
    then have "c' = c1" using res Pair by (simp add: CBB_add_space_def)
    then show ?thesis using CBB_flush_False [OF wf M] Pair False by simp
  next
    case True
    then have "cbb_wf c1" using CBB_flush_True [OF wf M] Pair by (simp add: grown_def)
    moreover have "c' = c1\<lparr>cbb_base := (cbb_base c1)\<lparr>cb_error := True\<rparr>\<rparr>"
      using res Pair True cbb_buffer_add_None by (auto simp: CBB_add_space_def split: prod.splits)
    ultimately show ?thesis by (simp add: cbb_wf_def buf_wf_def)
  qed
qed

section \<open>The contract of an operation\<close>

declare spec_flush.simps [simp del]

text \<open>
  What every appending operation promises, for the abstract effect \<open>B\<close> and at most \<open>need\<close> new
  bytes: success is the abstract effect; failure leaves a well-formed builder with the error flag
  set; and there is no failure when the abstract effect is defined, the builder has no error and the
  buffer has room for the new bytes and for the longest form of the pending length prefixes.
\<close>

definition budget :: "CBB \<Rightarrow> nat \<Rightarrow> nat" where
  "budget c k = cb_len (cbb_base c) + 4 * (length (cbb_chain c) - k)"

definition refines :: "allocator \<Rightarrow> CBB \<Rightarrow> nat \<Rightarrow> nat \<Rightarrow> builder option \<Rightarrow> bool \<times> CBB \<Rightarrow> bool" where
  "refines M c k need B r \<longleftrightarrow>
     (fst r \<longrightarrow> cbb_live c k \<and> \<not> cb_error (cbb_base c) \<and> cbb_live (snd r) k \<and> grown c (snd r) \<and>
        B = Some (CBB_abs (snd r))) \<and>
     (\<not> fst r \<longrightarrow> cbb_wf (snd r) \<and> (cbb_live c k \<longrightarrow> cb_error (cbb_base (snd r)))) \<and>
     (cbb_live c k \<and> \<not> cb_error (cbb_base c) \<and> B \<noteq> None \<and> room M (cbb_base c) (budget c k + need) \<longrightarrow>
        fst r \<and> budget (snd r) k \<le> budget c k + need)"

lemma refines_True:
  "refines M c k n B (True, c') \<Longrightarrow> cbb_live c k \<and> \<not> cb_error (cbb_base c) \<and> cbb_live c' k \<and> grown c c' \<and> B = Some (CBB_abs c')"
  by (simp add: refines_def)

lemma refines_False:
  "refines M c k n B (False, c') \<Longrightarrow> cbb_wf c' \<and> (cbb_live c k \<longrightarrow> cb_error (cbb_base c'))"
  by (simp add: refines_def)

lemma refines_room:
  "refines M c k n B r \<Longrightarrow> cbb_live c k \<Longrightarrow> \<not> cb_error (cbb_base c) \<Longrightarrow> B \<noteq> None \<Longrightarrow>
     room M (cbb_base c) (budget c k + n) \<Longrightarrow> \<exists>c'. r = (True, c') \<and> budget c' k \<le> budget c k + n"
  by (cases r) (simp add: refines_def)

lemma refines_wf: "refines M c k n B r \<Longrightarrow> cbb_wf (snd r)"
  by (cases "fst r") (simp_all add: refines_def grown_def)

lemma refines_error:
  "refines M c k n B r \<Longrightarrow> cb_error (cbb_base c) \<Longrightarrow> cbb_live c k \<Longrightarrow> \<not> fst r \<and> cb_error (cbb_base (snd r))"
  by (cases "fst r") (simp_all add: refines_def)

lemma CBB_flush_contract:
  assumes "cbb_wf c" and "malloc_ok M"
  shows "refines M c k 0 (spec_flush k (CBB_abs c)) (CBB_flush M c k)"
proof (cases "CBB_flush M c k")
  case (Pair ok c')
  have "fst (CBB_flush M c k) \<and> budget (snd (CBB_flush M c k)) k \<le> budget c k"
    if "cbb_live c k" "\<not> cb_error (cbb_base c)" "spec_flush k (CBB_abs c) \<noteq> None" "room M (cbb_base c) (budget c k)"
  proof -
    from CBB_flush_room [OF assms that(1-3)] that(4) obtain c2 where c2: "CBB_flush M c k = (True, c2)"
      and l2: "cb_len (cbb_base c2) \<le> budget c k" by (auto simp: budget_def)
    then show ?thesis using CBB_flush_True [OF assms c2] by (simp add: budget_def)
  qed
  then show ?thesis
    using Pair CBB_flush_True [OF assms, of k c'] CBB_flush_False [OF assms, of k c'] CBB_flush_live [of M c k c']
    by (cases ok) (auto simp: refines_def cbb_live_def)
qed

lemma spec_append_flush: "spec_append k d B \<noteq> None \<longleftrightarrow> spec_flush k B \<noteq> None"
  by (simp add: spec_append_def)

lemma CBB_add_space_room:
  assumes wf: "cbb_wf c" and M: "malloc_ok M" and len: "len < 2 ^ 64"
    and live: "cbb_live c k" and err: "\<not> cb_error (cbb_base c)"
    and sp: "spec_flush k (CBB_abs c) \<noteq> None" and r: "room M (cbb_base c) (budget c k + len)"
  shows "\<exists>out c'. CBB_add_space M c k len = (Some out, c') \<and> budget c' k \<le> budget c k + len"
proof -
  have "room M (cbb_base c) (budget c k)" using r by (auto simp: room_def)
  with CBB_flush_contract [OF wf M, of k] obtain c1 where fl: "CBB_flush M c k = (True, c1)"
    and l1: "budget c1 k \<le> budget c k"
    using live err sp by (cases "CBB_flush M c k") (auto simp: refines_def)
  note f = CBB_flush_True [OF wf M fl]
  then have b1: "cb_len (cbb_base c1) = budget c1 k" and wf1: "buf_wf (cbb_base c1)"
    by (simp_all add: budget_def grown_def cbb_wf_def)
  have "room M (cbb_base c1) (cb_len (cbb_base c1) + len)"
    by (rule room_mono [OF r]) (use f l1 b1 in \<open>simp_all add: grown_def\<close>)
  then obtain out b where a: "cbb_buffer_add M (cbb_base c1) len = (Some out, b)"
    using cbb_buffer_add_room [OF wf1] by blast
  then have "CBB_add_space M c k len = (Some out, c1\<lparr>cbb_base := b\<rparr>)"
    using fl by (simp add: CBB_add_space_def)
  moreover have "budget (c1\<lparr>cbb_base := b\<rparr>) k = budget c1 k + len"
    using cbb_buffer_add_Some [OF wf1 M len a] by (simp add: budget_def)
  ultimately show ?thesis using l1 by simp
qed

text \<open>Operations that claim space and fill it with \<open>d\<close>, failing when \<open>ok\<close> does not hold.\<close>

lemma fill_contract:
  assumes wf: "cbb_wf c" and M: "malloc_ok M" and len: "length d < 2 ^ 64"
    and None: "\<And>c1. CBB_add_space M c k (length d) = (None, c1) \<Longrightarrow> r = (False, c1)"
    and Some: "\<And>out c1. CBB_add_space M c k (length d) = (Some out, c1) \<Longrightarrow>
      r = (let c2 = cbb_set_buf c1 (write_at (cb_buf (cbb_base c1)) out d)
           in if ok then (True, c2) else (False, cbb_on_error c2 k))"
  shows "refines M c k (length d) (if ok then spec_append k d (CBB_abs c) else None) r"
proof (cases "CBB_add_space M c k (length d)")
  case (Pair out c1)
  show ?thesis
  proof (cases out)
    case None
    then show ?thesis
      using assms(4) Pair CBB_add_space_None [OF wf M] CBB_add_space_room [OF wf M len, of k]
        spec_append_flush [of k d "CBB_abs c"]
      by (auto simp: refines_def)
  next
    case (Some off)
    note s = CBB_add_space_Some [OF wf M len] and r = assms(5) [OF Pair [unfolded Some]]
    have s': "CBB_add_space M c k (length d) = (Some off, c1)" using Pair Some by simp
    have lv: "cbb_live c k \<and> \<not> cb_error (cbb_base c)"
      using s' CBB_flush_live [of M c k] by (auto simp: CBB_add_space_def split: prod.splits bool.splits)
    let ?c2 = "cbb_set_buf c1 (write_at (cb_buf (cbb_base c1)) off d)"
    have "budget ?c2 k = budget c1 k" by (simp add: budget_def cbb_set_buf_def)
    moreover have "cbb_wf ?c2" using s [OF s'] by (simp add: Let_def grown_def)
    ultimately show ?thesis
      using s [OF s'] r lv CBB_add_space_room [OF wf M len, of k]
        spec_append_flush [of k d "CBB_abs c"] s' cbb_wf_on_error [of ?c2 k]
      by (auto simp: refines_def Let_def cbb_on_error_def cbb_live_def cbb_set_buf_def)
  qed
qed

lemma CBB_add_bytes_contract:
  assumes "cbb_wf c" and "malloc_ok M" and "length data < 2 ^ 64"
  shows "refines M c k (length data) (spec_append k data (CBB_abs c)) (CBB_add_bytes M c k data)"
  using fill_contract [OF assms, where ok = True] by (simp add: CBB_add_bytes_def)

lemma CBB_add_zeros_contract:
  assumes "cbb_wf c" and "malloc_ok M" and "len < 2 ^ 64"
  shows "refines M c k len (spec_append k (replicate len 0) (CBB_abs c)) (CBB_add_zeros M c k len)"
  using fill_contract [OF assms(1,2), of "replicate len 0" k _ True] assms(3) by (simp add: CBB_add_zeros_def)

lemma cbb_add_u_contract:
  assumes "cbb_wf c" and "malloc_ok M" and "n < 2 ^ 64"
  shows "refines M c k n
    (if unat v < 256 ^ n then spec_append k (be_bytes n (unat v)) (CBB_abs c) else None) (cbb_add_u M c k v n)"
proof -
  have "refines M c k (length (be_bytes n (unat v)))
    (if unat v < 256 ^ n then spec_append k (be_bytes n (unat v)) (CBB_abs c) else None) (cbb_add_u M c k v n)"
  proof (rule fill_contract [OF assms(1,2)])
    fix out c1
    assume a: "CBB_add_space M c k (length (be_bytes n (unat v))) = (Some out, c1)"
    have "out + n \<le> length (cb_buf (cbb_base c1))"
      using CBB_add_space_Some [OF assms(1,2) _ a] assms(3) by simp
    then show "cbb_add_u M c k v n =
        (let c2 = cbb_set_buf c1 (write_at (cb_buf (cbb_base c1)) out (be_bytes n (unat v)))
         in if unat v < 256 ^ n then (True, c2) else (False, cbb_on_error c2 k))"
      using a by (simp add: cbb_add_u_def put_be_write drop_bit_eq_0_iff Let_def)
  qed (use assms(3) in \<open>simp_all add: cbb_add_u_def\<close>)
  then show ?thesis by simp
qed

section \<open>Opening a child\<close>

lemma frames_open:
  "chain_wf st chs (length w) \<Longrightarrow> ch_offset ch = length w \<Longrightarrow> ch_pending_len_len ch = length z \<Longrightarrow>
     frames (w @ z) st (chs @ [ch]) = frames w st chs @ [[]]"
proof (induction st chs "length w" rule: chain_wf.induct)
  case (2 st ch' chs)
  then have "ch_offset ch' \<le> length w" using chain_wf_start by fastforce
  then show ?case using 2 by simp
qed simp

lemma chain_wf_open:
  "chain_wf st chs n \<Longrightarrow> ch_offset ch = n \<Longrightarrow> child_ok ch \<Longrightarrow> chain_wf st (chs @ [ch]) (n + ch_pending_len_len ch)"
  by (induction st chs n rule: chain_wf.induct) auto

lemma spec_flush_innermost:
  assumes "k = length (cbb_chain c)"
  shows "spec_flush k (CBB_abs c) = Some (CBB_abs c)"
proof -
  let ?fs = "frames (buf_written (cbb_base c)) 0 (cbb_chain c)"
  have "take k ?fs @ [hd (drop k ?fs)] = ?fs"
    using assms by (simp add: hd_drop_conv_nth take_Suc_conv_app_nth [symmetric])
  then show ?thesis using assms by (simp add: CBB_abs_def spec_flush.simps)
qed

lemma cbb_add_child_contract:
  assumes wf: "cbb_wf c" and M: "malloc_ok M" and k: "length (cbb_chain c) = k" and err: "\<not> cb_error (cbb_base c)"
    and ok: "n \<le> 8" "asn1 \<longrightarrow> n = 1"
  shows "refines M c k (n + 4) (spec_open k (n, asn1) (CBB_abs c)) (cbb_add_child M c k n asn1)"
proof (cases "cbb_buffer_add M (cbb_base c) n")
  case (Pair out b)
  have wfb: "buf_wf (cbb_base c)" and cw: "chain_wf 0 (cbb_chain c) (cb_len (cbb_base c))"
    using wf by (simp_all add: cbb_wf_def)
  show ?thesis
  proof (cases out)
    case None
    then have b: "b = (cbb_base c)\<lparr>cb_error := True\<rparr>" using Pair cbb_buffer_add_None by simp
    have "\<not> room M (cbb_base c) (cb_len (cbb_base c) + n)"
      using cbb_buffer_add_room [OF wfb] Pair None by fastforce
    then have "\<not> room M (cbb_base c) (budget c k + (n + 4))"
      by (auto simp: room_def budget_def)
    then show ?thesis using wf Pair None b by (auto simp: refines_def cbb_add_child_def cbb_wf_def buf_wf_def)
  next
    case (Some off)
    let ?ch = "\<lparr>ch_offset = cb_len (cbb_base c), ch_pending_len_len = n, ch_pending_is_asn1 = asn1\<rparr>"
    let ?b = "b\<lparr>cb_buf := write_at (cb_buf b) off (replicate n 0)\<rparr>"
    let ?c = "c\<lparr>cbb_base := ?b, cbb_chain := cbb_chain c @ [?ch]\<rparr>"
    have n64: "n < 2 ^ 64" using ok by simp
    have a: "cbb_buffer_add M (cbb_base c) n = (Some off, b)" using Pair Some by simp
    note b = cbb_buffer_add_Some [OF wfb M n64 a]
    have w: "buf_wf ?b" "buf_written ?b = buf_written (cbb_base c) @ replicate n 0"
      using buffer_add_write [OF wfb M, of "replicate n 0"] a n64 by simp_all
    have res: "cbb_add_child M c k n asn1 = (True, ?c)"
      using a k by (simp add: cbb_add_child_def)
    have "child_ok ?ch" using ok by (simp add: child_ok_def)
    then have "cbb_wf ?c"
      using w(1) b chain_wf_open [OF cw, of ?ch] by (simp add: cbb_wf_def)
    moreover have "CBB_abs ?c = (fst (CBB_abs c) @ [[]], snd (CBB_abs c) @ [(n, asn1)])"
      using frames_open [of 0 "cbb_chain c" "buf_written (cbb_base c)" ?ch "replicate n 0"] cw wfb w(2)
      by (simp add: CBB_abs_def kind_of_def)
    moreover have "budget ?c k = budget c k + (n + 4)" using b k by (simp add: budget_def)
    ultimately show ?thesis
      using res b err k spec_flush_innermost [of k c]
      by (simp add: refines_def grown_def spec_open_def cbb_live_def split: prod.splits)
  qed
qed

text \<open>Operations that call one another and stop at the first failure.\<close>

lemma refines_seq:
  assumes r1: "refines M c k n1 B1 r1"
    and r2: "\<And>c1. r1 = (True, c1) \<Longrightarrow> grown c c1 \<Longrightarrow> cbb_live c1 k \<Longrightarrow> refines M c1 k n2 (S (CBB_abs c1)) (op c1)"
  shows "refines M c k (n1 + n2) (Option.bind B1 S) (case r1 of (False, c) \<Rightarrow> (False, c) | (True, c) \<Rightarrow> op c)"
proof (cases r1)
  case (Pair ok c1)
  show ?thesis
  proof (cases ok)
    case False
    then have "\<not> (cbb_live c k \<and> \<not> cb_error (cbb_base c) \<and> B1 \<noteq> None \<and> room M (cbb_base c) (budget c k + n1))"
      using r1 Pair by (auto simp: refines_def)
    then have "\<not> (cbb_live c k \<and> \<not> cb_error (cbb_base c) \<and> B1 \<noteq> None \<and> room M (cbb_base c) (budget c k + (n1 + n2)))"
      by (auto simp: room_def)
    then show ?thesis using r1 Pair False by (cases B1) (auto simp: refines_def)
  next
    case True
    then have g: "cbb_live c k" "\<not> cb_error (cbb_base c)" "cbb_live c1 k" "grown c c1" "B1 = Some (CBB_abs c1)"
      using r1 Pair by (auto simp: refines_def)
    note r2' = r2 [OF Pair [unfolded eqTrueI [OF True]] g(4,3)]
    have room: "room M (cbb_base c1) (budget c1 k + n2)" and le: "budget c1 k \<le> budget c k + n1"
      if "room M (cbb_base c) (budget c k + (n1 + n2))"
    proof -
      have "room M (cbb_base c) (budget c k + n1)" using that by (auto simp: room_def)
      then show "budget c1 k \<le> budget c k + n1" using r1 Pair g by (simp add: refines_def)
      then show "room M (cbb_base c1) (budget c1 k + n2)"
        by (intro room_mono [OF that]) (use g in \<open>simp_all add: grown_def\<close>)
    qed
    have "refines M c k (n1 + n2) (S (CBB_abs c1)) (op c1)"
    proof (cases "op c1")
      case (Pair ok2 c2)
      show ?thesis
      proof (cases ok2)
        case True
        note t = refines_True [OF r2' [unfolded Pair eqTrueI [OF True]]]
        have "budget c2 k \<le> budget c k + (n1 + n2)" if "room M (cbb_base c) (budget c k + (n1 + n2))"
          using refines_room [OF r2' _ _ _ room [OF that]] le [OF that] t Pair by auto
        with t Pair True grown_trans [OF g(4), of c2] g
        show ?thesis by (simp add: refines_def)
      next
        case False
        then have f: "cbb_wf c2 \<and> cb_error (cbb_base c2)"
          using refines_False [of M c1 k n2 _ c2] r2' Pair g by simp
        have "S (CBB_abs c1) = None" if "room M (cbb_base c) (budget c k + (n1 + n2))"
          using refines_room [OF r2' _ _ _ room [OF that]] g Pair False
          by (cases "S (CBB_abs c1)") (auto simp: grown_def)
        with f Pair False show ?thesis by (auto simp: refines_def)
      qed
    qed
    then show ?thesis using Pair True g by simp
  qed
qed

lemma flush_then_open:
  assumes wf: "cbb_wf c" and M: "malloc_ok M"
    and op: "\<And>c1. cbb_wf c1 \<Longrightarrow> length (cbb_chain c1) = k \<Longrightarrow> \<not> cb_error (cbb_base c1) \<Longrightarrow>
      refines M c1 k n (map_option f (spec_flush k (CBB_abs c1))) (op c1)"
  shows "refines M c k n (map_option f (spec_flush k (CBB_abs c)))
    (case CBB_flush M c k of (False, c) \<Rightarrow> (False, c) | (True, c) \<Rightarrow> op c)"
proof -
  have "refines M c k (0 + n) (Option.bind (spec_flush k (CBB_abs c)) (\<lambda>B. Some (f B)))
      (case CBB_flush M c k of (False, c) \<Rightarrow> (False, c) | (True, c) \<Rightarrow> op c)"
  proof (rule refines_seq [OF CBB_flush_contract [OF wf M]])
    fix c1
    assume "CBB_flush M c k = (True, c1)"
    note f = CBB_flush_True [OF wf M this]
    then have "length (cbb_chain c1) = k" by blast
    then have "refines M c1 k n (map_option f (spec_flush k (CBB_abs c1))) (op c1)"
      using f by (intro op) (simp_all only: grown_def simp_thms)
    then show "refines M c1 k n (Some (f (CBB_abs c1))) (op c1)"
      using spec_flush_innermost [of k c1] \<open>length (cbb_chain c1) = k\<close> by simp
  qed
  then show ?thesis by (cases "spec_flush k (CBB_abs c)") simp_all
qed

lemma cbb_add_length_prefixed_contract:
  assumes "cbb_wf c" and "malloc_ok M" and "n \<le> 8"
  shows "refines M c k (n + 4) (spec_open k (n, False) (CBB_abs c)) (cbb_add_length_prefixed M c k n)"
  unfolding cbb_add_length_prefixed_def spec_open_def
  by (rule flush_then_open [OF assms(1,2)])
     (use cbb_add_child_contract [of _ M k n False] assms in \<open>simp add: spec_open_def\<close>)

section \<open>Sequences of operations\<close>

fun run_ops :: "('a \<Rightarrow> allocator \<Rightarrow> CBB \<Rightarrow> nat \<Rightarrow> bool \<times> CBB) \<Rightarrow> 'a list \<Rightarrow> allocator \<Rightarrow> CBB \<Rightarrow> nat \<Rightarrow> bool \<times> CBB" where
  "run_ops op [] M c k = CBB_flush M c k"
| "run_ops op (x # xs) M c k =
     (case op x M c k of (False, c) \<Rightarrow> (False, c) | (True, c) \<Rightarrow> run_ops op xs M c k)"

fun spec_run :: "('a \<Rightarrow> nat \<Rightarrow> builder \<Rightarrow> builder option) \<Rightarrow> 'a list \<Rightarrow> nat \<Rightarrow> builder \<Rightarrow> builder option" where
  "spec_run sp [] k B = spec_flush k B"
| "spec_run sp (x # xs) k B = Option.bind (sp x k B) (spec_run sp xs k)"

text \<open>
  The interface between the builder and the code that writes with it: an operation with an argument
  \<open>x\<close>, its abstract effect, and how many bytes it may need.
\<close>

locale cbb_op =
  fixes op :: "'a \<Rightarrow> allocator \<Rightarrow> CBB \<Rightarrow> nat \<Rightarrow> bool \<times> CBB"
    and spec :: "'a \<Rightarrow> nat \<Rightarrow> builder \<Rightarrow> builder option"
    and need :: "'a \<Rightarrow> nat"
    and valid :: "'a \<Rightarrow> bool"
  assumes contract: "cbb_wf c \<Longrightarrow> malloc_ok M \<Longrightarrow> valid x \<Longrightarrow>
    refines M c k (need x) (spec x k (CBB_abs c)) (op x M c k)"
begin

lemma wf_preserved: "cbb_wf c \<Longrightarrow> malloc_ok M \<Longrightarrow> valid x \<Longrightarrow> cbb_wf (snd (op x M c k))"
  by (rule refines_wf [OF contract])

lemma error_sticky:
  "cbb_wf c \<Longrightarrow> malloc_ok M \<Longrightarrow> valid x \<Longrightarrow> cbb_live c k \<Longrightarrow> cb_error (cbb_base c) \<Longrightarrow>
     \<not> fst (op x M c k) \<and> cb_error (cbb_base (snd (op x M c k)))"
  by (rule refines_error [OF contract])

lemma run_contract:
  assumes "cbb_wf c" and M: "malloc_ok M" and "list_all valid xs"
  shows "refines M c k (sum_list (map need xs)) (spec_run spec xs k (CBB_abs c)) (run_ops op xs M c k)"
  using assms(1,3)
proof (induction xs arbitrary: c)
  case Nil
  then show ?case using CBB_flush_contract [OF _ M] by simp
next
  case (Cons x xs)
  have "refines M c k (need x + sum_list (map need xs)) (Option.bind (spec x k (CBB_abs c)) (spec_run spec xs k))
      (case op x M c k of (False, c) \<Rightarrow> (False, c) | (True, c) \<Rightarrow> run_ops op xs M c k)"
    by (rule refines_seq [OF contract]) (use Cons M in \<open>simp_all add: grown_def\<close>)
  then show ?case by simp
qed

end

text \<open>An operation that appends the encoding of its argument.\<close>

locale cbb_append =
  fixes op :: "'a \<Rightarrow> allocator \<Rightarrow> CBB \<Rightarrow> nat \<Rightarrow> bool \<times> CBB"
    and enc :: "'a \<Rightarrow> bytes"
    and need :: "'a \<Rightarrow> nat"
    and valid :: "'a \<Rightarrow> bool"
  assumes append_contract: "cbb_wf c \<Longrightarrow> malloc_ok M \<Longrightarrow> valid x \<Longrightarrow>
    refines M c k (need x) (spec_append k (enc x) (CBB_abs c)) (op x M c k)"

sublocale cbb_append \<subseteq> as_op: cbb_op op "\<lambda>x k. spec_append k (enc x)" need valid
  by unfold_locales (rule append_contract)

lemma spec_append_top [simp]: "spec_append 0 d ([x], []) = Some ([x @ d], [])"
  by (simp add: spec_append_def spec_flush.simps)

lemma spec_run_appends:
  "spec_run (\<lambda>x k. spec_append k (enc x)) xs 0 ([y], []) = Some ([y @ concat (map enc xs)], [])"
  by (induction xs arbitrary: y) (simp_all add: spec_flush.simps)

section \<open>The operations of the builder as instances\<close>

interpretation add_bytes: cbb_append "\<lambda>data M c k. CBB_add_bytes M c k data" "\<lambda>data. data"
  length "\<lambda>data. length data < 2 ^ 64"
  by unfold_locales (rule CBB_add_bytes_contract)

interpretation add_zeros: cbb_append "\<lambda>len M c k. CBB_add_zeros M c k len" "\<lambda>len. replicate len 0"
  "\<lambda>len. length (replicate len 0)" "\<lambda>len. len < 2 ^ 64"
  by unfold_locales (use CBB_add_zeros_contract in simp)

lemma cbb_add_u_word:
  assumes "cbb_wf c" and "malloc_ok M" and "n \<le> 8" and "unat v < 256 ^ n"
  shows "refines M c k (length (be_bytes n (unat v))) (spec_append k (be_bytes n (unat v)) (CBB_abs c)) (cbb_add_u M c k v n)"
  using cbb_add_u_contract [OF assms(1,2), of n k v] assms(3,4) by simp

interpretation add_u8: cbb_append "\<lambda>v M c k. CBB_add_u8 M c k v" "\<lambda>v. be_bytes 1 (unat v)"
  "\<lambda>v. length (be_bytes 1 (unat v))" "\<lambda>_. True"
proof
  fix c M k and v :: u8
  assume "cbb_wf c" "malloc_ok M"
  from cbb_add_u_word [OF this, of 1 "ucast v" k]
  show "refines M c k (length (be_bytes 1 (unat v))) (spec_append k (be_bytes 1 (unat v)) (CBB_abs c)) (CBB_add_u8 M c k v)"
    by (simp add: CBB_add_u8_def unat_ucast_up)
qed

interpretation add_u16: cbb_append "\<lambda>v M c k. CBB_add_u16 M c k v" "\<lambda>v. be_bytes 2 (unat v)"
  "\<lambda>v. length (be_bytes 2 (unat v))" "\<lambda>_. True"
proof
  fix c M k and v :: u16
  assume "cbb_wf c" "malloc_ok M"
  from cbb_add_u_word [OF this, of 2 "ucast v" k] unat_less [of v]
  show "refines M c k (length (be_bytes 2 (unat v))) (spec_append k (be_bytes 2 (unat v)) (CBB_abs c)) (CBB_add_u16 M c k v)"
    by (simp add: CBB_add_u16_def unat_ucast_up)
qed

interpretation add_u24: cbb_append "\<lambda>v M c k. CBB_add_u24 M c k v" "\<lambda>v. be_bytes 3 (unat v)"
  "\<lambda>v. length (be_bytes 3 (unat v))" "\<lambda>v. unat v < 2 ^ 24"
proof
  fix c M k and v :: u32
  assume "cbb_wf c" "malloc_ok M" and v: "unat v < 2 ^ 24"
  from cbb_add_u_word [OF this(1,2), of 3 "ucast v" k] v
  show "refines M c k (length (be_bytes 3 (unat v))) (spec_append k (be_bytes 3 (unat v)) (CBB_abs c)) (CBB_add_u24 M c k v)"
    by (simp add: CBB_add_u24_def unat_ucast_up)
qed

interpretation add_u32: cbb_append "\<lambda>v M c k. CBB_add_u32 M c k v" "\<lambda>v. be_bytes 4 (unat v)"
  "\<lambda>v. length (be_bytes 4 (unat v))" "\<lambda>_. True"
proof
  fix c M k and v :: u32
  assume "cbb_wf c" "malloc_ok M"
  from cbb_add_u_word [OF this, of 4 "ucast v" k] unat_less [of v]
  show "refines M c k (length (be_bytes 4 (unat v))) (spec_append k (be_bytes 4 (unat v)) (CBB_abs c)) (CBB_add_u32 M c k v)"
    by (simp add: CBB_add_u32_def unat_ucast_up)
qed

interpretation add_u64: cbb_append "\<lambda>v M c k. CBB_add_u64 M c k v" "\<lambda>v. be_bytes 8 (unat v)"
  "\<lambda>v. length (be_bytes 8 (unat v))" "\<lambda>_. True"
proof
  fix c M k and v :: u64
  assume "cbb_wf c" "malloc_ok M"
  from cbb_add_u_word [OF this, of 8 v k] unat_less [of v]
  show "refines M c k (length (be_bytes 8 (unat v))) (spec_append k (be_bytes 8 (unat v)) (CBB_abs c)) (CBB_add_u64 M c k v)"
    by (simp add: CBB_add_u64_def)
qed

interpretation add_prefixed: cbb_op "\<lambda>n M c k. cbb_add_length_prefixed M c k n" "\<lambda>n k. spec_open k (n, False)" "\<lambda>n. n + 4" "\<lambda>n. n \<le> 8"
  by unfold_locales (rule cbb_add_length_prefixed_contract)

section \<open>Starting, discarding and finishing\<close>

lemma CBB_init_abs:
  assumes "malloc_ok M" and "cap < 2 ^ 64" and "CBB_init M cap = (True, c)"
  shows "cbb_wf c \<and> \<not> cb_error (cbb_base c) \<and> CBB_abs c = ([[]], []) \<and> cb_can_resize (cbb_base c) \<and>
    cb_len (cbb_base c) = 0 \<and> cbb_chain c = [] \<and> cb_cap (cbb_base c) = cap"
proof -
  have "length buf = cap" if "OPENSSL_malloc M cap = Some buf" for buf
    using OPENSSL_malloc_length [OF assms(1,2) that] .
  then show ?thesis
    using assms by (auto simp: CBB_init_def cbb_init_def cbb_wf_def buf_wf_def CBB_abs_def buf_written_def
        split: option.splits if_splits)
qed

lemma CBB_init_fixed_abs:
  assumes "length buf < 2 ^ 64" and "CBB_init_fixed buf (length buf) = (True, c)"
  shows "cbb_wf c \<and> \<not> cb_error (cbb_base c) \<and> CBB_abs c = ([[]], []) \<and> \<not> cb_can_resize (cbb_base c) \<and>
    cb_len (cbb_base c) = 0 \<and> cbb_chain c = [] \<and> cb_cap (cbb_base c) = length buf"
  using assms by (auto simp: CBB_init_fixed_def cbb_init_def cbb_wf_def buf_wf_def CBB_abs_def buf_written_def)

lemma CBB_finish_abs:
  assumes wf: "cbb_wf c" and M: "malloc_ok M" and fin: "CBB_finish M out c k = (Some (buf, len), c')"
  shows "k = 0 \<and> len \<le> length buf \<and> spec_flush 0 (CBB_abs c) = Some ([take len buf], [])"
proof -
  have k: "k = 0" using fin by (simp add: CBB_finish_def split: if_splits)
  obtain c1 where fl: "CBB_flush M c 0 = (True, c1)" and b: "buf = cb_buf (cbb_base c1)" "len = cb_len (cbb_base c1)"
    using fin k by (auto simp: CBB_finish_def split: prod.splits bool.splits if_splits)
  note f = CBB_flush_True [OF wf M fl]
  then have "CBB_abs c1 = ([take len buf], [])" and "buf_wf (cbb_base c1)"
    using b by (auto simp: CBB_abs_def buf_written_def grown_def cbb_wf_def)
  then show ?thesis using f k b by (simp add: buf_wf_def)
qed

lemma CBB_finish_room:
  assumes wf: "cbb_wf c" and M: "malloc_ok M" and "\<not> cb_error (cbb_base c)"
    and "spec_flush 0 (CBB_abs c) \<noteq> None" and "room M (cbb_base c) (budget c 0)"
  shows "\<exists>buf len c'. CBB_finish M True c 0 = (Some (buf, len), c')"
  using refines_room [OF CBB_flush_contract [OF wf M, of 0]] assms by (auto simp: CBB_finish_def cbb_live_def)

lemma CBB_finish_error:
  "cbb_wf c \<Longrightarrow> malloc_ok M \<Longrightarrow> cb_error (cbb_base c) \<Longrightarrow> fst (CBB_finish M out c k) = None"
  by (auto simp: CBB_finish_def dest: CBB_flush_live split: prod.splits bool.splits)

lemma CBB_discard_child_abs:
  assumes wf: "cbb_wf c" and k: "k \<le> length (cbb_chain c)"
  shows "cbb_wf (CBB_discard_child c k) \<and> CBB_abs (CBB_discard_child c k) = spec_discard k (CBB_abs c)"
proof (cases "k = length (cbb_chain c)")
  case True
  then show ?thesis using wf by (simp add: CBB_discard_child_def CBB_abs_def)
next
  case False
  then have k': "k < length (cbb_chain c)" using k by simp
  let ?o = "ch_offset (cbb_chain c ! k)" and ?b = "cbb_base c" and ?d = "CBB_data c k"
  have cw: "chain_wf 0 (cbb_chain c) (cb_len ?b)" and wfb: "buf_wf ?b" using wf by (simp_all add: cbb_wf_def)
  have o: "?d \<le> ?o" "?o \<le> cb_len ?b"
    using chain_wf_nth [OF cw k'] by (auto simp: CBB_data_def)
  let ?b' = "?b\<lparr>cb_len := ?o\<rparr>"
  have wfb': "buf_wf ?b'" using wfb o by (simp add: buf_wf_def)
  have w: "buf_written ?b' = take ?o (buf_written ?b)" using o by (simp add: buf_written_def min_def)
  have "take ?d (buf_written ?b') = take ?d (buf_written ?b)" unfolding w using o by (simp add: min_def)
  then have fr: "frames (buf_written ?b') 0 (take k (cbb_chain c)) =
      take k (frames (buf_written ?b) 0 (cbb_chain c)) @ [drop ?d (buf_written ?b')]"
    using take_frames [OF cw k, of "buf_written ?b'" "buf_written ?b"] by (simp add: CBB_data_chain)
  have "drop k (frames (buf_written ?b) 0 (cbb_chain c)) =
      drop ?d (take ?o (buf_written ?b)) # drop (Suc k) (frames (buf_written ?b) 0 (cbb_chain c))"
    using k' drop_frames [OF k, of "buf_written ?b" 0] drop_frames [of "Suc k" "cbb_chain c" "buf_written ?b" 0]
    by (simp add: CBB_data_chain [symmetric] Cons_nth_drop_Suc [symmetric] drop_take CBB_data_def)
  then have "take (Suc k) (frames (buf_written ?b) 0 (cbb_chain c)) =
      take k (frames (buf_written ?b) 0 (cbb_chain c)) @ [drop ?d (buf_written ?b')]"
    unfolding w by (metis append.right_neutral length_drop length_frames k' drop_eq_Nil hd_drop_conv_nth
        list.sel(1) not_less_eq take_hd_drop less_SucI)
  then show ?thesis
    using wfb' fr chain_wf_take [OF cw k] o k' by (simp add: CBB_discard_child_def cbb_wf_def CBB_abs_def take_map)
qed

section \<open>Properties\<close>

text \<open>A builder over a fixed buffer of four bytes, with a one-byte length prefix open in front of two bytes.\<close>

definition sample_child :: CBB where
  "sample_child = \<lparr>cbb_base = \<lparr>cb_buf = [0, 7, 9, 0], cb_len = 3, cb_cap = 4, cb_can_resize = False, cb_error = False\<rparr>,
     cbb_chain = [\<lparr>ch_offset = 0, ch_pending_len_len = 1, ch_pending_is_asn1 = False\<rparr>]\<rparr>"

definition sample_done :: "bytes \<Rightarrow> nat \<Rightarrow> CBB" where
  "sample_done buf len = \<lparr>cbb_base = \<lparr>cb_buf = buf, cb_len = len, cb_cap = 4, cb_can_resize = False, cb_error = False\<rparr>,
     cbb_chain = []\<rparr>"

lemma sample_child_wf: "cbb_wf sample_child"
  by (simp add: sample_child_def cbb_wf_def buf_wf_def child_ok_def)

lemma sample_flush: "CBB_flush plentiful sample_child 0 = (True, sample_done [2, 7, 9, 0] 3)"
  by (simp add: sample_child_def sample_done_def CBB_flush.simps [of _ _ 0] CBB_flush.simps [of _ _ "Suc 0"]
      cbb_live_def cbb_flush_child_def size_add_def Let_def)

lemma sample_add: "CBB_add_bytes plentiful sample_child 0 [5] = (True, sample_done [2, 7, 9, 5] 4)"
  by (simp add: CBB_add_bytes_def CBB_add_space_def sample_flush sample_done_def cbb_buffer_add_def
      cbb_buffer_reserve_def size_add_def Let_def cbb_set_buf_def write_at_def)

lemma sample_finish: "CBB_finish plentiful True sample_child 0 = (Some ([2, 7, 9, 0], 3), sample_done [] 3)"
  by (simp add: CBB_finish_def sample_flush sample_done_def)

lemma refines_outcome:
  assumes "refines M c k n B (ok, c')"
  shows "(ok \<longrightarrow> cbb_wf c' \<and> \<not> cb_error (cbb_base c') \<and> B = Some (CBB_abs c')) \<and>
    (\<not> ok \<longrightarrow> cbb_wf c' \<and> (cbb_live c k \<longrightarrow> cb_error (cbb_base c'))) \<and>
    (cbb_live c k \<and> \<not> cb_error (cbb_base c) \<and> B \<noteq> None \<and> room M (cbb_base c) (budget c k + n) \<longrightarrow> ok)"
  using assms unfolding refines_def grown_def fst_conv snd_conv by blast

lemma granted_plentiful [simp]: "granted plentiful"
  by (simp add: granted_def plentiful_def)

lemma CBB_init_plentiful:
  "cap \<le> 2 ^ 62 \<Longrightarrow> CBB_init plentiful cap = (True, cbb_init (replicate cap 0) cap True)"
  by (simp add: CBB_init_def OPENSSL_malloc_def plentiful_def size_add_def OPENSSL_MALLOC_PREFIX_def)

lemma cbb_wf_init [simp]: "length buf = cap \<Longrightarrow> cap < 2 ^ 64 \<Longrightarrow> cbb_wf (cbb_init buf cap r)"
  by (simp add: cbb_wf_def cbb_init_def buf_wf_def)

text \<open>
  C3: \<^verbatim>\<open>CBB_flush\<close> implements flushing in the abstract builder, a stack of open frames. When it
  returns one, the handle was live and the frames above it have been closed with their length prefixes
  written; when it returns zero, the builder is still well formed and carries the error; and it does
  return one whenever the abstract operation is defined and the buffer has, or may get, the bytes.
\<close>

theorem CBB_flush_refinement:
  assumes "cbb_wf c" and "malloc_ok M" and "CBB_flush M c k = (ok, c')"
  shows "(ok \<longrightarrow> cbb_wf c' \<and> \<not> cb_error (cbb_base c') \<and> spec_flush k (CBB_abs c) = Some (CBB_abs c')) \<and>
    (\<not> ok \<longrightarrow> cbb_wf c' \<and> (cbb_live c k \<longrightarrow> cb_error (cbb_base c'))) \<and>
    (cbb_live c k \<and> \<not> cb_error (cbb_base c) \<and> spec_flush k (CBB_abs c) \<noteq> None \<and>
       room M (cbb_base c) (budget c k) \<longrightarrow> ok)"
  using refines_outcome [OF CBB_flush_contract [OF assms(1,2), of k, unfolded assms(3)]] unfolding add_0_right .

theorem CBB_flush_refinement_witness:
  "cbb_wf sample_child \<and> CBB_flush plentiful sample_child 0 = (True, sample_done [2, 7, 9, 0] 3) \<and>
     spec_flush 0 (CBB_abs sample_child) = Some (CBB_abs (sample_done [2, 7, 9, 0] 3))"
  using CBB_flush_refinement [OF sample_child_wf malloc_ok_plentiful sample_flush] sample_child_wf sample_flush by blast

text \<open>
  C27: \<^verbatim>\<open>CBB_add_bytes\<close> appends exactly its argument to the innermost frame left open after
  flushing to the handle, and nothing else of the builder changes; it fails only when the builder had
  failed before, the handle is stale, a length prefix does not fit, or memory runs out.
\<close>

theorem CBB_add_bytes_refinement:
  assumes "cbb_wf c" and "malloc_ok M" and "length data < 2 ^ 64" and "CBB_add_bytes M c k data = (ok, c')"
  shows "(ok \<longrightarrow> cbb_wf c' \<and> \<not> cb_error (cbb_base c') \<and> spec_append k data (CBB_abs c) = Some (CBB_abs c')) \<and>
    (\<not> ok \<longrightarrow> cbb_wf c' \<and> (cbb_live c k \<longrightarrow> cb_error (cbb_base c'))) \<and>
    (cbb_live c k \<and> \<not> cb_error (cbb_base c) \<and> spec_append k data (CBB_abs c) \<noteq> None \<and>
       room M (cbb_base c) (budget c k + length data) \<longrightarrow> ok)"
  by (rule refines_outcome [OF CBB_add_bytes_contract [OF assms(1-3), of k, unfolded assms(4)]])

theorem CBB_add_bytes_refinement_witness:
  "CBB_add_bytes plentiful sample_child 0 [5] = (True, sample_done [2, 7, 9, 5] 4) \<and>
     spec_append 0 [5] (CBB_abs sample_child) = Some (CBB_abs (sample_done [2, 7, 9, 5] 4))"
proof -
  have "length [5 :: u8] < 2 ^ 64" by simp
  from CBB_add_bytes_refinement [OF sample_child_wf malloc_ok_plentiful this sample_add] sample_add
  show ?thesis by blast
qed

text \<open>
  C28: \<^verbatim>\<open>CBB_finish\<close> is only accepted on the top-level handle, and returns the message of the abstract
  builder: every open child closed, each with its length in front of it.
\<close>

theorem CBB_finish_result:
  assumes "cbb_wf c" and "malloc_ok M" and "CBB_finish M out c k = (Some (buf, len), c')"
  shows "k = 0 \<and> len \<le> length buf \<and> spec_flush 0 (CBB_abs c) = Some ([take len buf], [])"
  by (rule CBB_finish_abs [OF assms])

theorem CBB_finish_result_witness:
  "CBB_finish plentiful True sample_child 0 = (Some ([2, 7, 9, 0], 3), sample_done [] 3) \<and>
     spec_flush 0 (CBB_abs sample_child) = Some ([take 3 [2, 7, 9, 0]], [])"
  using CBB_finish_result [OF sample_child_wf malloc_ok_plentiful sample_finish] sample_finish by blast

text \<open>
  \<^verbatim>\<open>CBB_discard_child\<close> drops the frames opened above the handle and keeps everything written
  below them.
\<close>

theorem CBB_discard_child_refinement:
  assumes "cbb_wf c" and "k \<le> length (cbb_chain c)"
  shows "cbb_wf (CBB_discard_child c k) \<and> CBB_abs (CBB_discard_child c k) = spec_discard k (CBB_abs c)"
  by (rule CBB_discard_child_abs [OF assms])

theorem CBB_discard_child_refinement_witness:
  "CBB_discard_child sample_child 0 = sample_done [0, 7, 9, 0] 0 \<and>
     CBB_abs (sample_done [0, 7, 9, 0] 0) = spec_discard 0 (CBB_abs sample_child)"
proof -
  have "CBB_discard_child sample_child 0 = sample_done [0, 7, 9, 0] 0"
    by (simp add: CBB_discard_child_def sample_child_def sample_done_def)
  with CBB_discard_child_refinement [OF sample_child_wf, of 0] show ?thesis by simp
qed

end
