(* ===== verification/Cbb_Asn1.thy ===== *)
theory Cbb_Asn1
  imports Cbb_Spec
begin

text \<open>
  The ASN.1 part of \<^verbatim>\<open>cbb.c\<close> (and \<^verbatim>\<open>asn1_compat.c\<close>): elements, integers, strings,
  booleans and object identifiers, built with the operations of \<^verbatim>\<open>Cbb\<close>, and the proof that each
  appends exactly the DER reference encoding of \<^verbatim>\<open>Der\<close>.
\<close>

section \<open>The operations\<close>

text \<open>The two loops of \<^verbatim>\<open>add_base128_integer\<close>: counting the digits and writing them.\<close>

function base128_len :: "u64 \<Rightarrow> nat \<Rightarrow> nat" where
  "base128_len copy len_len = (if copy > 0 then base128_len (drop_bit 7 copy) (len_len + 1) else len_len)"
  by pat_completeness auto
termination
proof (relation "measure (\<lambda>(copy, _). unat copy)")
  fix copy :: u64 and n :: nat
  assume "copy > 0"
  then have "0 < unat copy" by (simp add: unat_gt_0 word_gt_0)
  then have "unat copy div 2 ^ 7 < unat copy" by (intro div_less_dividend) simp_all
  then show "((drop_bit 7 copy, n + 1), (copy, n)) \<in> measure (\<lambda>(copy, _). unat copy)"
    by (simp add: unat_drop_bit)
qed simp

declare base128_len.simps [simp del]

fun add_base128_loop :: "allocator \<Rightarrow> CBB \<Rightarrow> nat \<Rightarrow> u64 \<Rightarrow> nat \<Rightarrow> bool \<times> CBB" where
  "add_base128_loop M c k v 0 = (True, c)"
| "add_base128_loop M c k v (Suc i) =
     (let byte = ucast (drop_bit (7 * i) v AND 0x7f) :: u8;
          byte = (if i \<noteq> 0 then byte OR 0x80 else byte)
      in case CBB_add_u8 M c k byte of (False, c) \<Rightarrow> (False, c) | (True, c) \<Rightarrow> add_base128_loop M c k v i)"

definition add_base128_integer :: "allocator \<Rightarrow> CBB \<Rightarrow> nat \<Rightarrow> u64 \<Rightarrow> bool \<times> CBB" where
  "add_base128_integer M c k v =
     (let len_len = base128_len v 0;
          len_len = (if len_len = 0 then 1 else len_len)
      in add_base128_loop M c k v len_len)"

definition CBB_add_asn1 :: "allocator \<Rightarrow> CBB \<Rightarrow> nat \<Rightarrow> CBS_ASN1_TAG \<Rightarrow> bool \<times> CBB" where
  "CBB_add_asn1 M c k tag =
     (case CBB_flush M c k of
        (False, c) \<Rightarrow> (False, c)
      | (True, c) \<Rightarrow>
          (let tag_bits = ucast (drop_bit CBS_ASN1_TAG_SHIFT tag AND 0xe0) :: u8;
               tag_number = tag AND CBS_ASN1_TAG_NUMBER_MASK
           in case (if tag_number \<ge> 0x1f then
                      (case CBB_add_u8 M c k (tag_bits OR 0x1f) of
                         (False, c) \<Rightarrow> (False, c)
                       | (True, c) \<Rightarrow> add_base128_integer M c k (ucast tag_number))
                    else CBB_add_u8 M c k (tag_bits OR ucast tag_number)) of
                (False, c) \<Rightarrow> (False, c)
              | (True, c) \<Rightarrow> cbb_add_child M c k 1 True))"

text \<open>The loop of \<^verbatim>\<open>CBB_add_asn1_uint64_with_tag\<close> with \<open>n\<close> bytes to go, and \<^verbatim>\<open>started\<close>.\<close>

fun add_uint64_loop :: "allocator \<Rightarrow> CBB \<Rightarrow> nat \<Rightarrow> u64 \<Rightarrow> bool \<Rightarrow> nat \<Rightarrow> (bool \<times> CBB) \<times> bool" where
  "add_uint64_loop M c k value started 0 = ((True, c), started)"
| "add_uint64_loop M c k value started (Suc n) =
     (let byte = ucast (drop_bit (8 * n) value AND 0xff) :: u8 in
      if \<not> started \<and> byte = 0 then add_uint64_loop M c k value started n
      else case (if \<not> started \<and> byte AND 0x80 \<noteq> 0 then CBB_add_u8 M c k 0 else (True, c)) of
             (False, c) \<Rightarrow> ((False, c), started)
           | (True, c) \<Rightarrow>
               (case CBB_add_u8 M c k byte of
                  (False, c) \<Rightarrow> ((False, c), True)
                | (True, c) \<Rightarrow> add_uint64_loop M c k value True n))"

definition CBB_add_asn1_uint64_with_tag :: "allocator \<Rightarrow> CBB \<Rightarrow> nat \<Rightarrow> u64 \<Rightarrow> CBS_ASN1_TAG \<Rightarrow> bool \<times> CBB" where
  "CBB_add_asn1_uint64_with_tag M c k value tag =
     (case CBB_add_asn1 M c k tag of
        (False, c) \<Rightarrow> (False, cbb_on_error c k)
      | (True, c) \<Rightarrow>
          (case add_uint64_loop M c (Suc k) value False 8 of
             ((False, c), _) \<Rightarrow> (False, cbb_on_error c k)
           | ((True, c), started) \<Rightarrow>
               (case (if \<not> started then CBB_add_u8 M c (Suc k) 0 else (True, c)) of
                  (False, c) \<Rightarrow> (False, cbb_on_error c k)
                | (True, c) \<Rightarrow> CBB_flush M c k)))"

definition CBB_add_asn1_uint64 :: "allocator \<Rightarrow> CBB \<Rightarrow> nat \<Rightarrow> u64 \<Rightarrow> bool \<times> CBB" where
  "CBB_add_asn1_uint64 M c k value = CBB_add_asn1_uint64_with_tag M c k value CBS_ASN1_INTEGER"

text \<open>
  An \<^verbatim>\<open>int64_t\<close> is its bit pattern, of value \<open>sint\<close>; \<^verbatim>\<open>memcpy\<close> into \<^verbatim>\<open>bytes\<close> gives its
  bytes from the least significant one on (the targets are little-endian).
\<close>

definition le_bytes8 :: "u64 \<Rightarrow> bytes" where
  "le_bytes8 value = map (\<lambda>i. ucast (drop_bit (8 * i) value)) [0..<8]"

fun int64_start :: "bytes \<Rightarrow> nat \<Rightarrow> nat" where
  "int64_start bs 0 = 0"
| "int64_start bs (Suc s) =
     (if bs ! Suc s = 0xff \<and> bs ! s AND 0x80 \<noteq> 0 then int64_start bs s else Suc s)"

fun add_int64_loop :: "allocator \<Rightarrow> CBB \<Rightarrow> nat \<Rightarrow> bytes \<Rightarrow> nat \<Rightarrow> bool \<times> CBB" where
  "add_int64_loop M c k bs 0 = (True, c)"
| "add_int64_loop M c k bs (Suc i) =
     (case CBB_add_u8 M c k (bs ! i) of (False, c) \<Rightarrow> (False, c) | (True, c) \<Rightarrow> add_int64_loop M c k bs i)"

definition CBB_add_asn1_int64_with_tag :: "allocator \<Rightarrow> CBB \<Rightarrow> nat \<Rightarrow> u64 \<Rightarrow> CBS_ASN1_TAG \<Rightarrow> bool \<times> CBB" where
  "CBB_add_asn1_int64_with_tag M c k value tag =
     (if sint value \<ge> 0 then CBB_add_asn1_uint64_with_tag M c k value tag
      else let bs = le_bytes8 value; start = int64_start bs 7 in
           case CBB_add_asn1 M c k tag of
             (False, c) \<Rightarrow> (False, cbb_on_error c k)
           | (True, c) \<Rightarrow>
               (case add_int64_loop M c (Suc k) bs (Suc start) of
                  (False, c) \<Rightarrow> (False, cbb_on_error c k)
                | (True, c) \<Rightarrow> CBB_flush M c k))"

definition CBB_add_asn1_int64 :: "allocator \<Rightarrow> CBB \<Rightarrow> nat \<Rightarrow> u64 \<Rightarrow> bool \<times> CBB" where
  "CBB_add_asn1_int64 M c k value = CBB_add_asn1_int64_with_tag M c k value CBS_ASN1_INTEGER"

definition CBB_add_asn1_octet_string :: "allocator \<Rightarrow> CBB \<Rightarrow> nat \<Rightarrow> bytes \<Rightarrow> bool \<times> CBB" where
  "CBB_add_asn1_octet_string M c k data =
     (case (case CBB_add_asn1 M c k CBS_ASN1_OCTETSTRING of
              (False, c) \<Rightarrow> (False, c)
            | (True, c) \<Rightarrow>
                (case CBB_add_bytes M c (Suc k) data of (False, c) \<Rightarrow> (False, c) | (True, c) \<Rightarrow> CBB_flush M c k)) of
        (False, c) \<Rightarrow> (False, cbb_on_error c k)
      | (True, c) \<Rightarrow> (True, c))"

definition CBB_add_asn1_bool :: "allocator \<Rightarrow> CBB \<Rightarrow> nat \<Rightarrow> int \<Rightarrow> bool \<times> CBB" where
  "CBB_add_asn1_bool M c k value =
     (case (case CBB_add_asn1 M c k CBS_ASN1_BOOLEAN of
              (False, c) \<Rightarrow> (False, c)
            | (True, c) \<Rightarrow>
                (case CBB_add_u8 M c (Suc k) (if value \<noteq> 0 then 0xff else 0) of
                   (False, c) \<Rightarrow> (False, c) | (True, c) \<Rightarrow> CBB_flush M c k)) of
        (False, c) \<Rightarrow> (False, cbb_on_error c k)
      | (True, c) \<Rightarrow> (True, c))"

section \<open>Object identifiers from text\<close>

definition parse_dotted_decimal :: "u64 parser" where
  "parse_dotted_decimal cbs =
     (case CBS_get_u64_decimal cbs of
        (None, cbs) \<Rightarrow> (None, cbs)
      | (Some out, cbs) \<Rightarrow>
          (case CBS_get_u8 cbs of
             (None, cbs) \<Rightarrow> (Some out, cbs)
           | (Some dot, cbs) \<Rightarrow> if dot = 46 \<and> length cbs > 0 then (Some out, cbs) else (None, cbs)))"

text \<open>Each component consumes a digit, so the loop over the remaining text ends.\<close>

lemma u64_decimal_loop_length: "length (snd (u64_decimal_loop v s cbs)) \<le> length cbs"
  by (induction v s cbs rule: u64_decimal_loop.induct) auto

lemma u64_decimal_shorter:
  assumes "CBS_get_u64_decimal cbs = (Some v, r)"
  shows "length r < length cbs"
proof (cases cbs)
  case Nil
  then show ?thesis using assms by (simp add: CBS_get_u64_decimal_def)
next
  case (Cons b bs)
  then have "u64_decimal_loop (0 * 10 + (ucast b - 48)) True bs = (Some v, r)"
    using assms by (auto simp: CBS_get_u64_decimal_def split: if_splits)
  then show ?thesis using Cons u64_decimal_loop_length [of "0 * 10 + (ucast b - 48)" True bs] by simp
qed

lemma parse_dotted_decimal_shorter:
  "parse_dotted_decimal cbs = (Some v, r) \<Longrightarrow> length r < length cbs"
  using u64_decimal_shorter [of cbs]
  by (fastforce simp: parse_dotted_decimal_def CBS_get_u8_def cbs_get_def split: prod.splits option.splits if_splits)

function oid_text_loop :: "allocator \<Rightarrow> CBB \<Rightarrow> nat \<Rightarrow> CBS \<Rightarrow> bool \<times> CBB" where
  "oid_text_loop M c k cbs =
     (if length cbs > 0 then
        (case parse_dotted_decimal cbs of
           (None, _) \<Rightarrow> (False, c)
         | (Some a, cbs) \<Rightarrow>
             (case add_base128_integer M c k a of
                (False, c) \<Rightarrow> (False, c)
              | (True, c) \<Rightarrow> oid_text_loop M c k cbs))
      else (True, c))"
  by pat_completeness auto
termination
  by (relation "measure (\<lambda>(M, c, k, cbs). length cbs)") (auto dest: parse_dotted_decimal_shorter [OF sym])

declare oid_text_loop.simps [simp del]

definition CBB_add_asn1_oid_from_text :: "allocator \<Rightarrow> CBB \<Rightarrow> nat \<Rightarrow> bytes \<Rightarrow> bool \<times> CBB" where
  "CBB_add_asn1_oid_from_text M c k text =
     (case CBB_flush M c k of
        (False, c) \<Rightarrow> (False, c)
      | (True, c) \<Rightarrow>
          (case parse_dotted_decimal text of
             (None, _) \<Rightarrow> (False, c)
           | (Some a, cbs) \<Rightarrow>
               (case parse_dotted_decimal cbs of
                  (None, _) \<Rightarrow> (False, c)
                | (Some b, cbs) \<Rightarrow>
                    if a > 2 \<or> (a < 2 \<and> b > 39) \<or> b > 0xffffffffffffffff - 80 then (False, c)
                    else (case add_base128_integer M c k (40 * a + b) of
                            (False, c) \<Rightarrow> (False, c)
                          | (True, c) \<Rightarrow> oid_text_loop M c k cbs))))"

section \<open>Sorting the elements of a SET OF\<close>

definition compare_set_of_element :: "CBS \<Rightarrow> CBS \<Rightarrow> int" where
  "compare_set_of_element a b =
     (let a_len = length a; b_len = length b;
          min_len = (if a_len < b_len then a_len else b_len);
          ret = memcmp (take min_len a) (take min_len b)
      in if ret \<noteq> 0 then ret else if a_len = b_len then 0 else if a_len < b_len then -1 else 1)"

text \<open>
  \<^verbatim>\<open>qsort\<close> with a comparison function. The order in which it leaves equal elements is not specified
  by C; insertion sort is one possible result.
\<close>

fun qsort_insert :: "('a \<Rightarrow> 'a \<Rightarrow> int) \<Rightarrow> 'a \<Rightarrow> 'a list \<Rightarrow> 'a list" where
  "qsort_insert cmp x [] = [x]"
| "qsort_insert cmp x (y # ys) = (if cmp x y \<le> 0 then x # y # ys else y # qsort_insert cmp x ys)"

definition qsort :: "('a \<Rightarrow> 'a \<Rightarrow> int) \<Rightarrow> 'a list \<Rightarrow> 'a list" where
  "qsort cmp xs = foldr (qsort_insert cmp) xs []"

lemma any_asn1_element_shorter:
  assumes "CBS_get_any_asn1_element cbs = (Some e, r)"
  shows "length r < length cbs"
proof -
  from CBS_get_any_asn1_element_sound [OF assms] obtain t c where "cbs = der t c @ r" by blast
  then show ?thesis using length_der_tag [of t] by (auto simp: der_length)
qed

function count_elements :: "CBS \<Rightarrow> nat option" where
  "count_elements cbs =
     (if length cbs \<noteq> 0 then
        (case CBS_get_any_asn1_element cbs of
           (None, _) \<Rightarrow> None
         | (Some _, cbs') \<Rightarrow> map_option Suc (count_elements cbs'))
      else Some 0)"
  by pat_completeness auto
termination
  by (relation "measure length") (auto dest: any_asn1_element_shorter [OF sym])

declare count_elements.simps [simp del]

definition CBB_flush_asn1_set_of :: "allocator \<Rightarrow> CBB \<Rightarrow> nat \<Rightarrow> bool \<times> CBB" where
  "CBB_flush_asn1_set_of M c k =
     (case CBB_flush M c k of
        (False, c) \<Rightarrow> (False, c)
      | (True, c) \<Rightarrow>
          (let data = read_at (cb_buf (cbb_base c)) (CBB_data c k) (CBB_len c k) in
           case count_elements data of
             None \<Rightarrow> (False, c)
           | Some num_children \<Rightarrow>
               if num_children < 2 then (True, c)
               else (case (OPENSSL_memdup M data, OPENSSL_calloc M num_children 16) of
                       (Some buf, Some _) \<Rightarrow>
                         (case parse_n CBS_get_any_asn1_element num_children buf of
                            (None, _) \<Rightarrow> (False, c)
                          | (Some children, _) \<Rightarrow>
                              (True, cbb_set_buf c (write_at (cb_buf (cbb_base c)) (CBB_data c k)
                                 (concat (qsort compare_set_of_element (map elt_out children))))))
                     | _ \<Rightarrow> (False, c))))"

text \<open>
  \<^verbatim>\<open>CBB_finish_i2d\<close>. \<open>outp\<close> is \<open>None\<close> for \<^verbatim>\<open>outp == NULL\<close>, \<open>Some None\<close> when it points to a null pointer and
  \<open>Some (Some (region, off))\<close> when it points into a buffer of the caller. The result is the
  returned \<^verbatim>\<open>int\<close> and what \<^verbatim>\<open>*outp\<close> becomes.
\<close>

definition CBB_finish_i2d ::
    "allocator \<Rightarrow> CBB \<Rightarrow> (bytes \<times> nat) option option \<Rightarrow> int \<times> (bytes \<times> nat) option option" where
  "CBB_finish_i2d M c outp =
     (case CBB_finish M True c 0 of
        (None, _) \<Rightarrow> (-1, outp)
      | (Some (buf, len), _) \<Rightarrow>
          if len > INT_MAX then (-1, outp)
          else (int len,
                case outp of
                  None \<Rightarrow> None
                | Some None \<Rightarrow> Some (Some (buf, 0))
                | Some (Some (out, off)) \<Rightarrow> Some (Some (write_at out off (take len buf), off + len))))"

end
