(* ===== verification/Cbb_Der.thy ===== *)
theory Cbb_Der
  imports Cbb_Asn1
begin

text \<open>
  The ASN.1 operations of the builder append the DER reference encoding: base-128 integers, tags,
  whole elements, and the contents of integers, booleans, octet strings and object identifiers.
\<close>

section \<open>Composing operations\<close>

lemma refines_id: "cbb_wf c \<Longrightarrow> \<not> cb_error (cbb_base c) \<Longrightarrow> cbb_live c k \<Longrightarrow> refines M c k 0 (Some (CBB_abs c)) (True, c)"
  by (simp add: refines_def grown_def)

lemma refines_on_error:
  assumes "refines M c k n B r"
  shows "refines M c k n B (case r of (False, c) \<Rightarrow> (False, cbb_on_error c k) | (True, c) \<Rightarrow> (True, c))"
proof (cases r)
  case (Pair ok c')
  then show ?thesis using assms cbb_wf_on_error [of c' k]
    by (cases ok) (simp_all add: refines_def cbb_on_error_def)
qed

lemma refinesI:
  assumes "fst r \<Longrightarrow> cbb_live c k \<and> \<not> cb_error (cbb_base c) \<and> cbb_live (snd r) k \<and> grown c (snd r) \<and>
      B = Some (CBB_abs (snd r))"
    and "\<not> fst r \<Longrightarrow> cbb_wf (snd r) \<and> (cbb_live c k \<longrightarrow> cb_error (cbb_base (snd r)))"
    and "cbb_live c k \<Longrightarrow> \<not> cb_error (cbb_base c) \<Longrightarrow> B \<noteq> None \<Longrightarrow>
      room M (cbb_base c) (budget c k + n) \<Longrightarrow> fst r \<and> budget (snd r) k \<le> budget c k + n"
  shows "refines M c k n B r"
  using assms unfolding refines_def by blast

lemma refines_parent:
  assumes r: "refines M c (Suc k) n B r" and live: "cbb_live c (Suc k)"
  shows "refines M c k n B r"
proof (rule refinesI)
  have c: "cbb_live c k" "budget c k = budget c (Suc k) + 4" using live by (simp_all add: cbb_live_def budget_def)
  assume ok: "\<not> cb_error (cbb_base c)" "B \<noteq> None" "room M (cbb_base c) (budget c k + n)"
  then have "room M (cbb_base c) (budget c (Suc k) + n)" using c by (auto simp: room_def)
  from refines_room [OF r live ok(1,2) this] obtain c' where c': "r = (True, c')"
    "budget c' (Suc k) \<le> budget c (Suc k) + n" by blast
  with refines_True [of M c "Suc k" n B c'] r have "cbb_live c' (Suc k)" by simp
  then show "fst r \<and> budget (snd r) k \<le> budget c k + n" using c c' by (simp add: cbb_live_def budget_def)
qed (use r live in \<open>simp_all add: refines_def cbb_live_def\<close>)

lemma refines_weaken:
  assumes r: "refines M c k n B r" and le: "n \<le> n'"
  shows "refines M c k n' B r"
proof (rule refinesI)
  assume ok: "cbb_live c k" "\<not> cb_error (cbb_base c)" "B \<noteq> None" "room M (cbb_base c) (budget c k + n')"
  then have "room M (cbb_base c) (budget c k + n)" using le by (auto simp: room_def)
  from refines_room [OF r ok(1-3) this] le show "fst r \<and> budget (snd r) k \<le> budget c k + n'" by auto
qed (use r in \<open>simp_all add: refines_def\<close>)

definition builder_wf :: "builder \<Rightarrow> bool" where
  "builder_wf B \<longleftrightarrow> length (fst B) = Suc (length (snd B))"

lemma builder_wf_abs [simp]: "builder_wf (CBB_abs c)"
  by (simp add: builder_wf_def CBB_abs_def)

lemma spec_flush_idem:
  assumes "builder_wf B" and "spec_flush k B = Some B'"
  shows "k \<le> length (snd B) \<and> length (snd B') = k \<and> builder_wf B' \<and> spec_flush k B' = Some B'"
  using assms by (cases B) (auto simp: spec_flush.simps builder_wf_def min_def split: if_splits)

lemma spec_append_append:
  assumes "builder_wf B"
  shows "Option.bind (spec_append k a B) (spec_append k b) = spec_append k (a @ b) B"
proof (cases "spec_flush k B")
  case (Some B')
  note w = spec_flush_idem [OF assms Some]
  obtain fs ks where B': "B' = (fs, ks)" and l: "length fs = Suc k" "length ks = k"
    using w by (cases B') (auto simp: builder_wf_def)
  have "spec_flush k (butlast fs @ [last fs @ a], ks) = Some (butlast fs @ [last fs @ a], ks)"
    using l by (simp add: spec_flush.simps butlast_conv_take)
  then show ?thesis using Some B' by (simp add: spec_append_def)
qed (simp add: spec_append_def)

lemma spec_append_depth:
  assumes "builder_wf B" and "spec_append k d B = Some B'"
  shows "length (snd B') = k"
proof -
  obtain B1 where "spec_flush k B = Some B1" and "snd B' = snd B1"
    using assms(2) by (auto simp: spec_append_def)
  then show ?thesis using spec_flush_idem [OF assms(1)] by simp
qed

text \<open>Two appends in a row are one.\<close>

lemma append_seq_need:
  assumes "refines M c k n1 (spec_append k a (CBB_abs c)) r1"
    and "\<And>c1. r1 = (True, c1) \<Longrightarrow> cbb_wf c1 \<Longrightarrow> \<not> cb_error (cbb_base c1) \<Longrightarrow> length (cbb_chain c1) = k \<Longrightarrow>
      refines M c1 k n2 (spec_append k b (CBB_abs c1)) (op c1)"
  shows "refines M c k (n1 + n2) (spec_append k (a @ b) (CBB_abs c)) (case r1 of (False, c) \<Rightarrow> (False, c) | (True, c) \<Rightarrow> op c)"
proof -
  have "refines M c k (n1 + n2) (Option.bind (spec_append k a (CBB_abs c)) (spec_append k b))
      (case r1 of (False, c) \<Rightarrow> (False, c) | (True, c) \<Rightarrow> op c)"
  proof (rule refines_seq [OF assms(1)])
    fix c1
    assume r1: "r1 = (True, c1)" and g: "grown c c1"
    have "spec_append k a (CBB_abs c) = Some (CBB_abs c1)"
      using refines_True [of M c k _ _ c1] assms(1) r1 by simp
    then have "length (cbb_chain c1) = k"
      using spec_append_depth [OF builder_wf_abs, of k a c] by (fastforce simp: CBB_abs_def)
    then show "refines M c1 k n2 (spec_append k b (CBB_abs c1)) (op c1)"
      using assms(2) [OF r1] g by (simp add: grown_def)
  qed
  then show ?thesis by (simp add: spec_append_append)
qed

lemma append_seq:
  assumes "refines M c k (length a) (spec_append k a (CBB_abs c)) r1"
    and "\<And>c1. r1 = (True, c1) \<Longrightarrow> cbb_wf c1 \<Longrightarrow> \<not> cb_error (cbb_base c1) \<Longrightarrow> length (cbb_chain c1) = k \<Longrightarrow>
      refines M c1 k (length b) (spec_append k b (CBB_abs c1)) (op c1)"
  shows "refines M c k (length (a @ b)) (spec_append k (a @ b) (CBB_abs c))
    (case r1 of (False, c) \<Rightarrow> (False, c) | (True, c) \<Rightarrow> op c)"
  unfolding length_append by (rule append_seq_need [OF assms])

section \<open>Base-128 integers\<close>

text \<open>The bytes the writing loop emits for \<open>n\<close> digits.\<close>

fun b128_digits :: "nat \<Rightarrow> nat \<Rightarrow> bytes" where
  "b128_digits v 0 = []"
| "b128_digits v (Suc i) = of_nat ((if i \<noteq> 0 then 128 else 0) + v div 128 ^ i mod 128) # b128_digits v i"

lemma u8_or_80: "unat ((b::u8) OR 0x80) = 128 + unat b mod 128"
proof -
  have "\<forall>n\<in>set [0..<256]. unat ((of_nat n :: u8) OR 0x80) = 128 + unat (of_nat n :: u8) mod 128"
    by code_simp
  from u8_all [OF this] show ?thesis .
qed

lemma b128_byte:
  "(let byte = ucast (drop_bit (7 * i) (v :: u64) AND 0x7f) :: u8 in if i \<noteq> 0 then byte OR 0x80 else byte) =
     of_nat ((if i \<noteq> 0 then 128 else 0) + unat v div 128 ^ i mod 128)"
proof -
  let ?b = "ucast (drop_bit (7 * i) v AND 0x7f) :: u8"
  have "unat (drop_bit (7 * i) v AND 0x7f) = unat v div 2 ^ (7 * i) mod 128"
    using unat_and_mask [of "drop_bit (7 * i) v" 7] by (simp add: mask_eq_exp_minus_1 unat_drop_bit)
  then have b: "unat ?b = unat v div 128 ^ i mod 128"
    by (simp add: unat_ucast_mod power_mult)
  then have b0: "i = 0 \<Longrightarrow> unat (ucast (v AND 0x7f) :: u8) = unat v mod 128" by simp
  then show ?thesis
    by (cases "i = 0") (simp_all add: Let_def word_unat_eq_iff u8_or_80 b b0 del: of_nat_add)
qed

lemma add_base128_loop_contract:
  assumes M: "malloc_ok M"
  shows "cbb_wf c \<Longrightarrow> refines M c k (length (b128_digits (unat v) (Suc n)))
    (spec_append k (b128_digits (unat v) (Suc n)) (CBB_abs c)) (add_base128_loop M c k v (Suc n))"
proof (induction n arbitrary: c)
  case (0 c)
  let ?b = "of_nat (unat v mod 128) :: u8"
  have "refines M c k (1 + 0) (Option.bind (spec_append k [?b] (CBB_abs c)) Some)
      (case CBB_add_u8 M c k ?b of (False, c) \<Rightarrow> (False, c) | (True, c) \<Rightarrow> add_base128_loop M c k v 0)"
    by (rule refines_seq) (use add_u8.append_contract [OF 0 M, where x = ?b and k = k] refines_id in \<open>simp_all add: grown_def\<close>)
  then show ?case using b128_byte [of 0 v] by (simp add: Let_def)
next
  case (Suc n)
  let ?b = "of_nat (128 + unat v div 128 ^ Suc n mod 128) :: u8"
  have "refines M c k (length ([?b] @ b128_digits (unat v) (Suc n)))
      (spec_append k ([?b] @ b128_digits (unat v) (Suc n)) (CBB_abs c))
      (case CBB_add_u8 M c k ?b of (False, c) \<Rightarrow> (False, c) | (True, c) \<Rightarrow> add_base128_loop M c k v (Suc n))"
    by (rule append_seq)
       (use add_u8.append_contract [OF Suc.prems M, where x = ?b and k = k] Suc.IH in \<open>simp_all del: b128_digits.simps add_base128_loop.simps of_nat_add power_Suc\<close>)
  moreover have "add_base128_loop M c k v (Suc (Suc n)) =
      (case CBB_add_u8 M c k ?b of (False, c) \<Rightarrow> (False, c) | (True, c) \<Rightarrow> add_base128_loop M c k v (Suc n))"
    using b128_byte [of "Suc n" v] by (subst add_base128_loop.simps) (simp add: Let_def del: of_nat_add power_Suc add_base128_loop.simps)
  moreover have "b128_digits (unat v) (Suc (Suc n)) = [?b] @ b128_digits (unat v) (Suc n)"
    by (subst b128_digits.simps) simp
  ultimately show ?case by (simp only:)
qed

lemma base128_len_bounds:
  "base128_len v n = n + m \<Longrightarrow> (if v = 0 then m = 0 else 0 < m \<and> 128 ^ (m - 1) \<le> unat v) \<and> unat v < 128 ^ m"
proof (induction v n arbitrary: m rule: base128_len.induct)
  case (1 v n)
  show ?case
  proof (cases "v = 0")
    case True
    then show ?thesis using "1.prems" by (simp add: base128_len.simps)
  next
    case False
    then have pos: "v > 0" by (simp add: word_gt_0)
    let ?w = "drop_bit 7 v"
    have step: "base128_len v n = base128_len ?w (n + 1)" using pos by (subst base128_len.simps) simp
    have ge: "n' \<le> base128_len w n'" for w n'
    proof (induction w n' rule: base128_len.induct)
      case (1 w n')
      then show ?case by (subst base128_len.simps) auto
    qed
    obtain m' where m: "m = Suc m'"
      using "1.prems" step ge [of "n + 1" ?w] by (cases m) auto
    then have "base128_len ?w (n + 1) = (n + 1) + m'" using "1.prems" step by simp
    note IH = "1.IH" [OF pos this]
    have w: "unat ?w = unat v div 128" using unat_drop_bit [of 7 v] by simp
    have v1: "1 \<le> unat v" using False by (metis less_one not_le unat_eq_0)
    have "128 ^ m' \<le> unat v"
    proof (cases "?w = 0")
      case True
      then show ?thesis using IH v1 by simp
    next
      case nz: False
      then obtain j where j: "m' = Suc j" "128 ^ j \<le> unat v div 128" using IH w by (cases m') auto
      then have "128 ^ j * 128 \<le> unat v" by (simp add: less_eq_div_iff_mult_less_eq)
      then show ?thesis using j by simp
    qed
    moreover have "unat v < 128 ^ Suc m'"
      using IH w by (simp add: div_less_iff_less_mult mult.commute)
    ultimately show ?thesis using False m by simp
  qed
qed

lemma b128_hi_digits:
  "v < 128 ^ m \<Longrightarrow> m = 0 \<or> 128 ^ (m - 1) \<le> v \<Longrightarrow>
     b128_hi v = map (\<lambda>i. of_nat (128 + v div 128 ^ i mod 128)) (rev [0..<m])"
proof (induction m arbitrary: v)
  case (Suc m)
  then have v0: "v \<noteq> 0" by (metis diff_Suc_1 le_zero_eq nat.distinct(1) power_not_zero zero_neq_numeral)
  have lt: "v div 128 < 128 ^ m" using Suc.prems(1) by (simp add: div_less_iff_less_mult mult.commute)
  have ge: "m = 0 \<or> 128 ^ (m - 1) \<le> v div 128"
    using Suc.prems(2) by (cases m) (auto simp: less_eq_div_iff_mult_less_eq mult.commute)
  have "rev [0..<Suc m] = map Suc (rev [0..<m]) @ [0]"
    by (simp only: rev_map [symmetric] map_Suc_upt upt_conv_Cons zero_less_Suc rev.simps)
  moreover have "v div 128 div 128 ^ i = v div 128 ^ Suc i" for i by (simp add: div_mult2_eq)
  ultimately show ?case
    using Suc.IH [OF lt ge] v0 by (subst b128_hi.simps) (simp del: upt_Suc of_nat_add)
qed simp

lemma b128_digits_map:
  "b128_digits v (Suc n) = map (\<lambda>i. of_nat (128 + v div 128 div 128 ^ i mod 128)) (rev [0..<n]) @ [of_nat (v mod 128)]"
  by (induction n) (simp_all add: div_mult2_eq del: of_nat_add)

lemma b128_digits_len:
  assumes "0 < m" and "unat v < 128 ^ m" and "m = 1 \<or> 128 ^ (m - 1) \<le> unat v"
  shows "b128_digits (unat v) m = b128 (unat v)"
proof -
  obtain n where m: "m = Suc n" using assms(1) by (cases m) auto
  have "unat v div 128 < 128 ^ n" using assms(2) m by (simp add: div_less_iff_less_mult mult.commute)
  moreover have "n = 0 \<or> 128 ^ (n - 1) \<le> unat v div 128"
    using assms(3) m by (cases n) (auto simp: less_eq_div_iff_mult_less_eq mult.commute)
  ultimately show ?thesis
    using b128_hi_digits [of "unat v div 128" n] by (simp only: m b128_def b128_digits_map)
qed

lemma add_base128_integer_contract:
  assumes "cbb_wf c" and "malloc_ok M"
  shows "refines M c k (length (b128 (unat v))) (spec_append k (b128 (unat v)) (CBB_abs c)) (add_base128_integer M c k v)"
proof -
  define m where "m = (if base128_len v 0 = 0 then 1 else base128_len v 0)"
  have "0 < m" "unat v < 128 ^ m" "m = 1 \<or> 128 ^ (m - 1) \<le> unat v"
    using base128_len_bounds [of v 0 "base128_len v 0"] by (auto simp: m_def split: if_splits)
  then have d: "b128_digits (unat v) m = b128 (unat v)" by (rule b128_digits_len)
  obtain n where n: "m = Suc n" using \<open>0 < m\<close> by (cases m) auto
  show ?thesis
    using add_base128_loop_contract [OF assms(2,1), of k v n] d
    by (simp only: add_base128_integer_def Let_def m_def [symmetric] n)
qed

interpretation add_base128: cbb_append "\<lambda>v M c k. add_base128_integer M c k v" "\<lambda>v. b128 (unat v)"
  "\<lambda>v. length (b128 (unat v))" "\<lambda>_. True"
  by unfold_locales (rule add_base128_integer_contract)

section \<open>Tags and elements\<close>

lemma tag_bits_unat: "unat (ucast (drop_bit 24 (t :: u32) AND 0xe0) :: u8) = unat t div 2 ^ 29 * 32"
proof -
  have e: "(drop_bit 24 t AND 0xe0) = push_bit 5 (drop_bit 29 t)"
  proof (rule bit_word_eqI)
    fix n assume "n < LENGTH(32)"
    have e0: "(0xe0 :: u32) = push_bit 5 (mask 3)" by (simp add: mask_eq_exp_minus_1)
    show "bit (drop_bit 24 t AND 0xe0) n = bit (push_bit 5 (drop_bit 29 t)) n"
      unfolding e0 using \<open>n < LENGTH(32)\<close>
      by (auto simp: bit_simps le_diff_conv2 dest: bit_imp_le_length)
  qed
  have d: "unat t div 2 ^ 29 < 8" using unat_less [of t] by (simp add: less_mult_imp_div_less)
  have "unat (push_bit 5 (drop_bit 29 t)) = unat t div 2 ^ 29 * 32"
    using unat_shift_or [of "drop_bit 29 t" 5 0] d by (simp add: unat_drop_bit)
  then show ?thesis using d unfolding e by (simp add: unat_ucast_mod)
qed

lemma u8_or_low:
  assumes "unat (a::u8) mod 32 = 0" and "unat b < 32"
  shows "unat (a OR b) = unat a + unat b"
proof -
  have d: "unat a div 32 < 8" using unat_u8_less [of a] by (simp add: div_less_iff_less_mult del: unat_u8_less)
  have m: "unat a div 32 * 32 = unat a" using assms(1) by (metis add.right_neutral div_mult_mod_eq)
  then have a: "a = push_bit 5 (drop_bit 5 a)"
    using assms(1) unat_drop_bit [of 5 a] unat_shift_or [of "drop_bit 5 a" 5 0] d
    by (simp add: word_unat_eq_iff)
  have "unat (push_bit 5 (drop_bit 5 a) OR b) = unat (drop_bit 5 a) * 2 ^ 5 + unat b"
    using assms(2) d by (intro unat_shift_or) (simp_all add: unat_drop_bit)
  moreover have "unat (drop_bit 5 a) * 2 ^ 5 = unat a"
    using m by (simp add: unat_drop_bit)
  ultimately show ?thesis by (metis a)
qed

lemma tag_number_unat: "unat (t AND CBS_ASN1_TAG_NUMBER_MASK) = unat t mod 2 ^ 29"
  using unat_and_mask [of t 29] by (simp add: mask_eq_exp_minus_1 CBS_ASN1_TAG_NUMBER_MASK_def CBS_ASN1_TAG_SHIFT_def)

text \<open>The two branches of \<^verbatim>\<open>CBB_add_asn1\<close> before the child is opened write the identifier octets.\<close>

lemma u8_eq_of_nat: "unat (b::u8) = n \<Longrightarrow> b = of_nat n"
  by (metis of_nat_unat ucast_id)

lemma add_tag_contract:
  assumes wf: "cbb_wf c" and M: "malloc_ok M"
    and bits: "tag_bits = (ucast (drop_bit CBS_ASN1_TAG_SHIFT tag AND 0xe0) :: u8)"
    and number: "tag_number = tag AND CBS_ASN1_TAG_NUMBER_MASK"
  shows "refines M c k (length (der_tag tag)) (spec_append k (der_tag tag) (CBB_abs c))
    (if tag_number \<ge> 0x1f then
       (case CBB_add_u8 M c k (tag_bits OR 0x1f) of
          (False, c) \<Rightarrow> (False, c)
        | (True, c) \<Rightarrow> add_base128_integer M c k (ucast tag_number))
     else CBB_add_u8 M c k (tag_bits OR ucast tag_number))"
proof -
  let ?bits = "unat tag div 2 ^ 29 * 32" and ?num = "unat tag mod 2 ^ 29"
  have tb: "unat tag_bits = ?bits" unfolding bits CBS_ASN1_TAG_SHIFT_def by (rule tag_bits_unat)
  have tn: "unat tag_number = ?num" unfolding number by (rule tag_number_unat)
  have ge: "tag_number \<ge> 0x1f \<longleftrightarrow> 31 \<le> ?num" by (simp add: word_le_nat_alt tn)
  have m32: "unat tag_bits mod 32 = 0" by (simp add: tb)
  show ?thesis
  proof (cases "31 \<le> ?num")
    case True
    have hi: "tag_bits OR 0x1f = of_nat (?bits + 31)"
      by (rule u8_eq_of_nat) (use u8_or_low [OF m32, of "0x1f"] tb in simp)
    have "refines M c k (length ([tag_bits OR 0x1f] @ b128 ?num)) (spec_append k ([tag_bits OR 0x1f] @ b128 ?num) (CBB_abs c))
        (case CBB_add_u8 M c k (tag_bits OR 0x1f) of (False, c) \<Rightarrow> (False, c)
         | (True, c) \<Rightarrow> add_base128_integer M c k (ucast tag_number))"
      by (rule append_seq) (use add_u8.append_contract [OF wf M, where x = "tag_bits OR 0x1f" and k = k]
          add_base128_integer_contract [OF _ M, of _ k "ucast tag_number"] tn
          in \<open>simp_all add: unat_ucast_up\<close>)
    moreover have "der_tag tag = [tag_bits OR 0x1f] @ b128 ?num"
      using True by (simp add: der_tag_def Let_def hi)
    ultimately show ?thesis using True ge by simp
  next
    case False
    have lo: "tag_bits OR ucast tag_number = of_nat (?bits + ?num)"
      by (rule u8_eq_of_nat) (use u8_or_low [OF m32, of "ucast tag_number"] tb tn False in \<open>simp add: unat_ucast_mod\<close>)
    have "der_tag tag = [tag_bits OR ucast tag_number]"
      using False by (simp add: der_tag_def Let_def lo)
    then show ?thesis
      using add_u8.append_contract [OF wf M, where x = "tag_bits OR ucast tag_number" and k = k] False ge by simp
  qed
qed

definition spec_open_asn1 :: "nat \<Rightarrow> CBS_ASN1_TAG \<Rightarrow> builder \<Rightarrow> builder option" where
  "spec_open_asn1 k tag B = Option.bind (spec_append k (der_tag tag) B) (spec_open k (1, True))"

lemma CBB_add_asn1_contract:
  assumes wf: "cbb_wf c" and M: "malloc_ok M"
  shows "refines M c k (length (der_tag tag) + 5) (spec_open_asn1 k tag (CBB_abs c)) (CBB_add_asn1 M c k tag)"
proof -
  let ?f = "\<lambda>B. the (spec_open_asn1 k tag B)"
  have inner: "refines M c1 k (length (der_tag tag) + 5) (spec_open_asn1 k tag (CBB_abs c1))
      (let tag_bits = ucast (drop_bit CBS_ASN1_TAG_SHIFT tag AND 0xe0) :: u8;
           tag_number = tag AND CBS_ASN1_TAG_NUMBER_MASK
       in case (if tag_number \<ge> 0x1f then
                  (case CBB_add_u8 M c1 k (tag_bits OR 0x1f) of
                     (False, c) \<Rightarrow> (False, c)
                   | (True, c) \<Rightarrow> add_base128_integer M c k (ucast tag_number))
                else CBB_add_u8 M c1 k (tag_bits OR ucast tag_number)) of
            (False, c) \<Rightarrow> (False, c)
          | (True, c) \<Rightarrow> cbb_add_child M c k 1 True)" (is "refines M c1 k _ _ (?op c1)")
    if "cbb_wf c1" "length (cbb_chain c1) = k" for c1
    unfolding Let_def spec_open_asn1_def
  proof (rule refines_seq [OF add_tag_contract [OF that(1) M refl refl]])
    fix c2
    assume r: "(if tag AND CBS_ASN1_TAG_NUMBER_MASK \<ge> 0x1f then
        (case CBB_add_u8 M c1 k (ucast (drop_bit CBS_ASN1_TAG_SHIFT tag AND 0xe0) OR 0x1f) of
           (False, c) \<Rightarrow> (False, c)
         | (True, c) \<Rightarrow> add_base128_integer M c k (ucast (tag AND CBS_ASN1_TAG_NUMBER_MASK)))
      else CBB_add_u8 M c1 k (ucast (drop_bit CBS_ASN1_TAG_SHIFT tag AND 0xe0) OR ucast (tag AND CBS_ASN1_TAG_NUMBER_MASK)))
      = (True, c2)" and g: "grown c1 c2"
    from refines_True [OF add_tag_contract [OF that(1) M refl refl, of k tag, unfolded r]]
    have "spec_append k (der_tag tag) (CBB_abs c1) = Some (CBB_abs c2)" by simp
    then have "length (snd (CBB_abs c2)) = k"
      using spec_append_depth [OF builder_wf_abs] by blast
    then have k2: "length (cbb_chain c2) = k" by (simp add: CBB_abs_def)
    show "refines M c2 k 5 (spec_open k (1, True) (CBB_abs c2)) (cbb_add_child M c2 k 1 True)"
      using cbb_add_child_contract [OF _ M k2, of 1 True] g by (simp add: grown_def)
  qed
  have "refines M c k (0 + (length (der_tag tag) + 5)) (Option.bind (spec_flush k (CBB_abs c)) (spec_open_asn1 k tag))
      (CBB_add_asn1 M c k tag)"
    unfolding CBB_add_asn1_def
  proof (rule refines_seq [OF CBB_flush_contract [OF wf M]])
    fix c1 assume "CBB_flush M c k = (True, c1)"
    from CBB_flush_True [OF wf M this] inner [of c1]
    show "refines M c1 k (length (der_tag tag) + 5) (spec_open_asn1 k tag (CBB_abs c1)) (?op c1)"
      unfolding grown_def by blast
  qed
  moreover have "Option.bind (spec_flush k (CBB_abs c)) (spec_open_asn1 k tag) = spec_open_asn1 k tag (CBB_abs c)"
  proof (cases "spec_flush k (CBB_abs c)")
    case (Some B)
    then show ?thesis using spec_flush_idem [OF builder_wf_abs Some] by (simp add: spec_open_asn1_def spec_append_def)
  qed (simp add: spec_open_asn1_def spec_append_def)
  ultimately show ?thesis by simp
qed

lemma spec_append_wf: "builder_wf B \<Longrightarrow> spec_append k d B = Some B' \<Longrightarrow> builder_wf B'"
proof -
  assume "builder_wf B" and "spec_append k d B = Some B'"
  then obtain fs ks where f: "spec_flush k B = Some (fs, ks)" and "B' = (butlast fs @ [last fs @ d], ks)"
    by (auto simp: spec_append_def)
  with spec_flush_idem [OF \<open>builder_wf B\<close> f] show ?thesis by (simp add: builder_wf_def)
qed

lemma spec_open_asn1_depth:
  assumes "builder_wf B" and "spec_open_asn1 k tag B = Some B'"
  shows "length (snd B') = Suc k"
proof -
  obtain B1 B2 where a: "spec_append k (der_tag tag) B = Some B1" and "spec_flush k B1 = Some B2"
      and "snd B' = snd B2 @ [(1, True)]"
    using assms(2) by (auto simp: spec_open_asn1_def spec_open_def bind_eq_Some_conv)
  then show ?thesis using spec_flush_idem [OF spec_append_wf [OF assms(1) a]] by simp
qed

lemma spec_asn1_element:
  assumes "builder_wf B"
  shows "Option.bind (spec_open_asn1 k tag B) (\<lambda>B. Option.bind (spec_append (Suc k) content B) (spec_flush k)) =
    (if length content \<le> 0xfffffffe then spec_append k (der tag content) B else None)"
proof (cases "spec_flush k B")
  case (Some B')
  note w = spec_flush_idem [OF assms Some]
  obtain fs ks where B': "B' = (fs, ks)" and l: "length fs = Suc k" "length ks = k"
    using w by (cases B') (auto simp: builder_wf_def)
  obtain gs t where fs: "fs = gs @ [t]" and gs: "length gs = k" using l
    by (metis length_append_singleton lessI list.size(3) nat.inject not_less_zero rev_exhaust)
  show ?thesis
    using Some by (simp add: B' fs gs l spec_open_asn1_def spec_append_def spec_open_def spec_flush.simps der_def butlast_append)
qed (simp add: spec_append_def spec_open_asn1_def)

text \<open>
  An operation that opens an element, lets \<open>body\<close> append the contents to the child and flushes,
  appends the DER element.
\<close>

lemma asn1_child_contract:
  assumes wf: "cbb_wf c" and M: "malloc_ok M"
    and body: "\<And>c1. cbb_wf c1 \<Longrightarrow> \<not> cb_error (cbb_base c1) \<Longrightarrow> length (cbb_chain c1) = Suc k \<Longrightarrow>
      refines M c1 (Suc k) n (spec_append (Suc k) content (CBB_abs c1)) (body c1)"
  shows "refines M c k (length (der_tag tag) + n + 5)
    (if length content \<le> 0xfffffffe then spec_append k (der tag content) (CBB_abs c) else None)
    (case CBB_add_asn1 M c k tag of
       (False, c) \<Rightarrow> (False, c)
     | (True, c) \<Rightarrow> (case body c of (False, c) \<Rightarrow> (False, c) | (True, c) \<Rightarrow> CBB_flush M c k))"
proof -
  have "refines M c k (length (der_tag tag) + 5 + (n + 0))
      (Option.bind (spec_open_asn1 k tag (CBB_abs c)) (\<lambda>B. Option.bind (spec_append (Suc k) content B) (spec_flush k)))
      (case CBB_add_asn1 M c k tag of
         (False, c) \<Rightarrow> (False, c)
       | (True, c) \<Rightarrow> (case body c of (False, c) \<Rightarrow> (False, c) | (True, c) \<Rightarrow> CBB_flush M c k))"
  proof (rule refines_seq [OF CBB_add_asn1_contract [OF wf M]])
    fix c1
    assume r1: "CBB_add_asn1 M c k tag = (True, c1)" and g: "grown c c1"
    have "spec_open_asn1 k tag (CBB_abs c) = Some (CBB_abs c1)"
      using refines_True [of M c k _ _ c1] CBB_add_asn1_contract [OF wf M, of k tag] r1 by simp
    then have "length (snd (CBB_abs c1)) = Suc k" by (rule spec_open_asn1_depth [OF builder_wf_abs])
    then have d1: "length (cbb_chain c1) = Suc k" by (simp add: CBB_abs_def)
    then have live: "cbb_live c1 (Suc k)" by (simp add: cbb_live_def)
    have w1: "cbb_wf c1" "\<not> cb_error (cbb_base c1)" using g by (simp_all add: grown_def)
    show "refines M c1 k (n + 0) (Option.bind (spec_append (Suc k) content (CBB_abs c1)) (spec_flush k))
        (case body c1 of (False, c) \<Rightarrow> (False, c) | (True, c) \<Rightarrow> CBB_flush M c k)"
      by (rule refines_seq [OF refines_parent [OF body [OF w1 d1] live]])
         (use CBB_flush_contract [OF _ M] in \<open>simp add: grown_def\<close>)
  qed
  then show ?thesis by (simp add: spec_asn1_element add_ac)
qed

lemma CBB_add_asn1_octet_string_contract:
  assumes "cbb_wf c" and M: "malloc_ok M" and "length data < 2 ^ 64"
  shows "refines M c k (length data + 6)
    (if length data \<le> 0xfffffffe then spec_append k (der CBS_ASN1_OCTETSTRING data) (CBB_abs c) else None)
    (CBB_add_asn1_octet_string M c k data)"
proof -
  have "length (der_tag CBS_ASN1_OCTETSTRING) = 1" by (simp add: der_tag_def CBS_ASN1_OCTETSTRING_def)
  then show ?thesis
    using refines_on_error [OF asn1_child_contract [OF assms(1) M CBB_add_bytes_contract [OF _ M assms(3)], of k CBS_ASN1_OCTETSTRING]]
    by (simp add: CBB_add_asn1_octet_string_def add_ac)
qed

definition bool_octet :: "int \<Rightarrow> u8" where
  "bool_octet v = (if v \<noteq> 0 then 0xff else 0)"

lemma CBB_add_asn1_bool_contract:
  assumes "cbb_wf c" and M: "malloc_ok M"
  shows "refines M c k 7 (spec_append k (der CBS_ASN1_BOOLEAN [bool_octet v]) (CBB_abs c)) (CBB_add_asn1_bool M c k v)"
proof -
  have u: "refines M c1 (Suc k) (length [bool_octet v]) (spec_append (Suc k) [bool_octet v] (CBB_abs c1))
      (CBB_add_u8 M c1 (Suc k) (bool_octet v))" if "cbb_wf c1" for c1
    using add_u8.append_contract [OF that M, where x = "bool_octet v" and k = "Suc k"] by simp
  have "length (der_tag CBS_ASN1_BOOLEAN) = 1" by (simp add: der_tag_def CBS_ASN1_BOOLEAN_def)
  then show ?thesis
    using refines_on_error [OF asn1_child_contract [OF assms(1) M u, of CBS_ASN1_BOOLEAN]]
    unfolding CBB_add_asn1_bool_def bool_octet_def [symmetric] by simp
qed

section \<open>Integers\<close>

text \<open>The shortest two's complement encodings: their number of octets, and the octets.\<close>

fun uint_octets :: "nat \<Rightarrow> nat" where
  "uint_octets v = (if v < 128 then 1 else Suc (uint_octets (v div 256)))"

declare uint_octets.simps [simp del]

definition uint_content :: "nat \<Rightarrow> bytes" where
  "uint_content v = be_bytes (uint_octets v) v"

lemma uint_octets_unique: "v < 128 * 256 ^ m \<Longrightarrow> m = 0 \<or> 128 * 256 ^ (m - 1) \<le> v \<Longrightarrow> uint_octets v = Suc m"
proof (induction m arbitrary: v)
  case (Suc m)
  have "128 * 256 ^ m \<le> v" using Suc.prems(2) by simp
  then have "128 \<le> v" by (rule le_trans [rotated]) simp
  moreover have "uint_octets (v div 256) = Suc m"
    by (rule Suc.IH) (use Suc.prems in \<open>cases m; auto simp: div_less_iff_less_mult less_eq_div_iff_mult_less_eq algebra_simps\<close>)+
  ultimately show ?case by (subst uint_octets.simps) simp
qed (simp add: uint_octets.simps)

lemma uint_octets_bounds:
  "0 < uint_octets v \<and> v < 128 * 256 ^ (uint_octets v - 1) \<and>
     (uint_octets v = 1 \<or> 128 * 256 ^ (uint_octets v - 2) \<le> v)"
proof (induction v rule: uint_octets.induct)
  case (1 v)
  show ?case
  proof (cases "v < 128")
    case False
    let ?m = "uint_octets (v div 256)"
    have IH: "0 < ?m" "v div 256 < 128 * 256 ^ (?m - 1)" "?m = 1 \<or> 128 * 256 ^ (?m - 2) \<le> v div 256"
      using "1.IH" False by auto
    then obtain j where j: "?m = Suc j" by (cases ?m) auto
    have "v < 128 * 256 ^ Suc j" using IH(2) j by (simp add: div_less_iff_less_mult algebra_simps)
    moreover have "128 * 256 ^ j \<le> v"
      using IH(3) j False by (cases j) (auto simp: less_eq_div_iff_mult_less_eq algebra_simps)
    ultimately show ?thesis using False j by (subst (1 2 3 4) uint_octets.simps) simp
  qed (simp add: uint_octets.simps)
qed

lemma be_bytes_Cons: "be_bytes (Suc n) v = of_nat (v div 256 ^ n) # be_bytes n v"
proof (induction n arbitrary: v)
  case (Suc n)
  have "be_bytes (Suc (Suc n)) v = be_bytes (Suc n) (v div 256) @ [of_nat v]" by simp
  also have "\<dots> = of_nat (v div 256 div 256 ^ n) # be_bytes (Suc n) v" by (subst Suc.IH) simp
  finally show ?case by (simp only: div_mult2_eq power_Suc)
qed simp

lemma u64_byte: "(ucast (drop_bit (8 * n) (v :: u64)) :: u8) = of_nat (unat v div 256 ^ n)"
  by (simp add: word_unat_eq_iff unat_ucast_mod unat_drop_bit power_mult)

lemma u64_byte_mask: "(ucast (drop_bit (8 * n) (v :: u64) AND 0xff) :: u8) = of_nat (unat v div 256 ^ n)"
proof -
  have "unat (drop_bit (8 * n) v AND 0xff) = unat v div 256 ^ n mod 256"
    using unat_and_mask [of "drop_bit (8 * n) v" 8] by (simp add: mask_eq_exp_minus_1 unat_drop_bit power_mult)
  then show ?thesis by (simp add: word_unat_eq_iff unat_ucast_mod)
qed

lemma spec_append_Nil: "length (cbb_chain c) = k \<Longrightarrow> spec_append k [] (CBB_abs c) = Some (CBB_abs c)"
  using spec_flush_innermost [of k c] by (cases "CBB_abs c") (auto simp: spec_append_def CBB_abs_def)

lemma append_nothing:
  "cbb_wf c \<Longrightarrow> \<not> cb_error (cbb_base c) \<Longrightarrow> length (cbb_chain c) = k \<Longrightarrow>
     refines M c k (length ([]::bytes)) (spec_append k [] (CBB_abs c)) (True, c)"
  using refines_id [of c k M] by (simp add: spec_append_Nil cbb_live_def)

lemma append_u8:
  assumes "cbb_wf c" and "malloc_ok M"
    and "\<And>c1. cbb_wf c1 \<Longrightarrow> \<not> cb_error (cbb_base c1) \<Longrightarrow> length (cbb_chain c1) = k \<Longrightarrow>
      refines M c1 k (length bs) (spec_append k bs (CBB_abs c1)) (op c1)"
  shows "refines M c k (length (b # bs)) (spec_append k (b # bs) (CBB_abs c))
    (case CBB_add_u8 M c k b of (False, c) \<Rightarrow> (False, c) | (True, c) \<Rightarrow> op c)"
proof -
  have "refines M c k (length ([b] @ bs)) (spec_append k ([b] @ bs) (CBB_abs c))
      (case CBB_add_u8 M c k b of (False, c) \<Rightarrow> (False, c) | (True, c) \<Rightarrow> op c)"
    by (rule append_seq)
       (use add_u8.append_contract [OF assms(1,2), where x = b and k = k] assms(3) in simp_all)
  then show ?thesis by simp
qed

lemma add_uint64_loop_started:
  assumes M: "malloc_ok M"
  shows "cbb_wf c \<Longrightarrow> \<not> cb_error (cbb_base c) \<Longrightarrow> length (cbb_chain c) = k \<Longrightarrow>
    refines M c k (length (be_bytes n (unat v))) (spec_append k (be_bytes n (unat v)) (CBB_abs c))
      (fst (add_uint64_loop M c k v True n)) \<and> snd (add_uint64_loop M c k v True n)"
proof (induction n arbitrary: c)
  case (0 c)
  then show ?case using append_nothing by simp
next
  case (Suc n)
  let ?b = "of_nat (unat v div 256 ^ n) :: u8"
  have "refines M c k (length (?b # be_bytes n (unat v))) (spec_append k (?b # be_bytes n (unat v)) (CBB_abs c))
      (case CBB_add_u8 M c k ?b of (False, c) \<Rightarrow> (False, c) | (True, c) \<Rightarrow> fst (add_uint64_loop M c k v True n))"
    by (rule append_u8 [OF Suc.prems(1) M]) (use Suc.IH in blast)
  moreover have "fst (add_uint64_loop M c k v True (Suc n)) =
      (case CBB_add_u8 M c k ?b of (False, c) \<Rightarrow> (False, c) | (True, c) \<Rightarrow> fst (add_uint64_loop M c k v True n))"
    by (simp add: u64_byte_mask Let_def split: prod.split bool.split)
  moreover have "snd (add_uint64_loop M c k v True n')" for c n'
    by (induction n' arbitrary: c) (simp_all add: Let_def split: prod.split bool.split)
  ultimately show ?case by (simp only: be_bytes_Cons simp_thms)
qed

lemma add_uint64_loop_zero: "add_uint64_loop M c k 0 False n = ((True, c), False)"
  by (induction n) simp_all

lemma of_nat_u8_0: "n < 256 \<Longrightarrow> (of_nat n :: u8) = 0 \<longleftrightarrow> n = 0"
  by (simp add: word_unat_eq_iff)

lemma add_uint64_loop_pad:
  assumes M: "malloc_ok M" and c: "cbb_wf c" "\<not> cb_error (cbb_base c)" "length (cbb_chain c) = k"
    and top: "unat v < 256 ^ Suc n" "256 ^ n \<le> unat v"
  shows "refines M c k (length (uint_content (unat v))) (spec_append k (uint_content (unat v)) (CBB_abs c))
      (fst (add_uint64_loop M c k v False (Suc n))) \<and>
    (fst (fst (add_uint64_loop M c k v False (Suc n))) \<longrightarrow> snd (add_uint64_loop M c k v False (Suc n)))"
proof -
  let ?t = "unat v div 256 ^ n" and ?bs = "be_bytes (Suc n) (unat v)"
  let ?b = "of_nat ?t :: u8"
  have t: "?t < 256" "0 < ?t" using top by (simp_all add: div_less_iff_less_mult div_greater_zero_iff mult.commute)
  then have b0: "?b \<noteq> 0" by (simp add: of_nat_u8_0)
  have b80: "?b AND 0x80 = 0 \<longleftrightarrow> ?t < 128" using t by (simp add: u8_and_80)
  let ?rest = "\<lambda>c. case CBB_add_u8 M c k ?b of (False, c) \<Rightarrow> ((False, c), True) | (True, c) \<Rightarrow> add_uint64_loop M c k v True n"
  have rest: "refines M c k (length ?bs) (spec_append k ?bs (CBB_abs c)) (fst (?rest c)) \<and> snd (?rest c)"
    if "cbb_wf c" "\<not> cb_error (cbb_base c)" "length (cbb_chain c) = k" for c
    using add_uint64_loop_started [OF M that, of "Suc n" v] b0 by (simp add: u64_byte_mask Let_def)
  have t128: "?t < 128 \<longleftrightarrow> unat v < 128 * 256 ^ n" by (simp add: div_less_iff_less_mult)
  show ?thesis
  proof (cases "?t < 128")
    case True
    have "(128::nat) * 256 ^ (n - 1) \<le> 256 ^ n \<or> n = 0" by (cases n) simp_all
    then have "uint_octets (unat v) = Suc n"
      using True t128 top by (intro uint_octets_unique) (auto intro: le_trans)
    moreover have "add_uint64_loop M c k v False (Suc n) = ?rest c"
      using True b0 b80 by (simp add: u64_byte_mask Let_def)
    ultimately show ?thesis using rest [OF c] by (simp only: uint_content_def simp_thms)
  next
    case False
    have "uint_octets (unat v) = Suc (Suc n)"
      using False t128 top by (intro uint_octets_unique) auto
    then have con: "uint_content (unat v) = 0 # ?bs"
      using top(1) by (simp add: uint_content_def be_bytes_Cons [of "Suc n"] del: be_bytes.simps)
    have eq: "add_uint64_loop M c k v False (Suc n) =
        (case CBB_add_u8 M c k 0 of (False, c) \<Rightarrow> ((False, c), False) | (True, c) \<Rightarrow> ?rest c)"
      using False b0 b80 by (simp add: u64_byte_mask Let_def)
    have "refines M c k (length (0 # ?bs)) (spec_append k (0 # ?bs) (CBB_abs c))
        (case CBB_add_u8 M c k 0 of (False, c) \<Rightarrow> (False, c) | (True, c) \<Rightarrow> fst (?rest c))"
      by (rule append_u8 [OF c(1) M]) (use rest in blast)
    moreover have "(case CBB_add_u8 M c k 0 of (False, c) \<Rightarrow> (False, c) | (True, c) \<Rightarrow> fst (?rest c)) =
        fst (add_uint64_loop M c k v False (Suc n))"
      unfolding eq by (simp split: prod.split bool.split)
    moreover have "fst (fst (add_uint64_loop M c k v False (Suc n))) \<longrightarrow> snd (add_uint64_loop M c k v False (Suc n))"
    proof (cases "CBB_add_u8 M c k 0")
      case (Pair ok c1)
      have "snd (add_uint64_loop M c k v True n')" for c n'
        by (induction n' arbitrary: c) (simp_all add: Let_def split: prod.split bool.split)
      then show ?thesis unfolding eq Pair by (cases ok) (simp_all split: prod.split bool.split)
    qed
    ultimately show ?thesis unfolding con by simp
  qed
qed

lemma add_uint64_loop_content:
  assumes M: "malloc_ok M" and c: "cbb_wf c" "\<not> cb_error (cbb_base c)" "length (cbb_chain c) = k"
    and v: "v \<noteq> 0" "unat v < 256 ^ n"
  shows "refines M c k (length (uint_content (unat v))) (spec_append k (uint_content (unat v)) (CBB_abs c))
      (fst (add_uint64_loop M c k v False n)) \<and>
    (fst (fst (add_uint64_loop M c k v False n)) \<longrightarrow> snd (add_uint64_loop M c k v False n))"
  using v
proof (induction n)
  case 0
  then show ?case by (simp add: unat_eq_0)
next
  case (Suc n)
  show ?case
  proof (cases "unat v < 256 ^ n")
    case True
    then have eq: "add_uint64_loop M c k v False (Suc n) = add_uint64_loop M c k v False n"
      by (simp add: u64_byte_mask Let_def)
    show ?thesis unfolding eq by (rule Suc.IH [OF Suc.prems(1) True])
  next
    case False
    then show ?thesis using add_uint64_loop_pad [OF M c Suc.prems(2)] by linarith
  qed
qed

definition uint64_body :: "allocator \<Rightarrow> nat \<Rightarrow> u64 \<Rightarrow> CBB \<Rightarrow> bool \<times> CBB" where
  "uint64_body M k v c =
     (case add_uint64_loop M c k v False 8 of
        ((False, c), _) \<Rightarrow> (False, c)
      | ((True, c), started) \<Rightarrow> if \<not> started then CBB_add_u8 M c k 0 else (True, c))"

lemma uint64_body_contract:
  assumes M: "malloc_ok M" and c: "cbb_wf c" "\<not> cb_error (cbb_base c)" "length (cbb_chain c) = k"
  shows "refines M c k (length (uint_content (unat v))) (spec_append k (uint_content (unat v)) (CBB_abs c)) (uint64_body M k v c)"
proof (cases "v = 0")
  case True
  then show ?thesis
    using add_u8.append_contract [OF c(1) M, where x = 0 and k = k]
    by (simp add: uint64_body_def add_uint64_loop_zero uint_content_def uint_octets.simps)
next
  case False
  have "unat v < 256 ^ 8" using unat_less [of v] by simp
  note l = add_uint64_loop_content [OF M c False this]
  have "uint64_body M k v c = fst (add_uint64_loop M c k v False 8)"
    using l by (cases "add_uint64_loop M c k v False 8"; cases "fst (add_uint64_loop M c k v False 8)";
        cases "fst (fst (add_uint64_loop M c k v False 8))") (auto simp: uint64_body_def)
  then show ?thesis using l by (simp only:)
qed

lemma length_uint_content: "n < 2 ^ 64 \<Longrightarrow> length (uint_content n) \<le> 9"
proof -
  assume "n < 2 ^ 64"
  have "uint_octets n \<le> 9"
  proof (rule ccontr)
    assume "\<not> uint_octets n \<le> 9"
    then have "(128::nat) * 256 ^ 8 \<le> 128 * 256 ^ (uint_octets n - 2)" by (intro mult_le_mono2 power_increasing) auto
    then have "(2::nat) ^ 64 \<le> 128 * 256 ^ (uint_octets n - 2)" by simp
    then show False using uint_octets_bounds [of n] \<open>n < 2 ^ 64\<close> \<open>\<not> uint_octets n \<le> 9\<close> by linarith
  qed
  then show ?thesis by (simp add: uint_content_def)
qed

text \<open>The error branches of the integer functions differ only in where \<^verbatim>\<open>cbb_on_error\<close> is called again.\<close>

lemma err_label_contract:
  assumes "refines M c k n B (case r1 of (False, c) \<Rightarrow> (False, c)
      | (True, c) \<Rightarrow> (case body c of (False, c) \<Rightarrow> (False, c) | (True, c) \<Rightarrow> fl c))"
  shows "refines M c k n B (case r1 of (False, c) \<Rightarrow> (False, cbb_on_error c k)
      | (True, c) \<Rightarrow> (case body c of (False, c) \<Rightarrow> (False, cbb_on_error c k) | (True, c) \<Rightarrow> fl c))"
  using assms refines_on_error [OF assms] by (auto split: prod.splits bool.splits)

lemma CBB_add_asn1_uint64_with_tag_contract:
  assumes wf: "cbb_wf c" and M: "malloc_ok M"
  shows "refines M c k (length (der_tag tag) + length (uint_content (unat v)) + 5)
    (spec_append k (der tag (uint_content (unat v))) (CBB_abs c)) (CBB_add_asn1_uint64_with_tag M c k v tag)"
proof -
  have eq: "CBB_add_asn1_uint64_with_tag M c k v tag =
      (case CBB_add_asn1 M c k tag of (False, c) \<Rightarrow> (False, cbb_on_error c k)
       | (True, c) \<Rightarrow> (case uint64_body M (Suc k) v c of (False, c) \<Rightarrow> (False, cbb_on_error c k) | (True, c) \<Rightarrow> CBB_flush M c k))"
    by (auto simp: CBB_add_asn1_uint64_with_tag_def uint64_body_def split: prod.split bool.split)
  have len: "length (uint_content (unat v)) \<le> 0xfffffffe"
    using length_uint_content [of "unat v"] unat_less [of v] by simp
  have "refines M c k (length (der_tag tag) + length (uint_content (unat v)) + 5)
      (if length (uint_content (unat v)) \<le> 0xfffffffe then spec_append k (der tag (uint_content (unat v))) (CBB_abs c) else None)
      (case CBB_add_asn1 M c k tag of (False, c) \<Rightarrow> (False, c)
       | (True, c) \<Rightarrow> (case uint64_body M (Suc k) v c of (False, c) \<Rightarrow> (False, c) | (True, c) \<Rightarrow> CBB_flush M c k))"
    by (rule asn1_child_contract [OF wf M]) (rule uint64_body_contract [OF M])
  from err_label_contract [OF this] show ?thesis unfolding eq by (simp only: len if_True)
qed

text \<open>Signed values: the number of octets of the shortest two's complement form, and the octets.\<close>

function int_octets :: "int \<Rightarrow> nat" where
  "int_octets i = (if -128 \<le> i \<and> i < 128 then 1 else Suc (int_octets (i div 256)))"
  by pat_completeness auto
termination
proof (relation "measure (\<lambda>i. nat \<bar>i\<bar>)")
  fix i :: int
  assume "\<not> (-128 \<le> i \<and> i < 128)"
  then have "\<bar>i div 256\<bar> < \<bar>i\<bar>" by linarith
  then show "(i div 256, i) \<in> measure (\<lambda>i. nat \<bar>i\<bar>)" by simp
qed simp

declare int_octets.simps [simp del]

definition int_content :: "u64 \<Rightarrow> bytes" where
  "int_content v = be_bytes (int_octets (sint v)) (unat v)"

lemma int_octets_nonneg: "int_octets (int n) = uint_octets n"
proof (induction n rule: uint_octets.induct)
  case (1 n)
  show ?case
  proof (cases "n < 128")
    case False
    have "int n div 256 = int (n div 256)" by (simp add: zdiv_int)
    then show ?thesis using 1 [OF False] False by (subst int_octets.simps, subst uint_octets.simps) simp
  qed (simp add: int_octets.simps uint_octets.simps)
qed

lemma int_octets_neg: "int_octets (- int n - 1) = uint_octets n"
proof (induction n rule: uint_octets.induct)
  case (1 n)
  show ?case
  proof (cases "n < 128")
    case False
    have "(- int n - 1) div 256 = - int (n div 256) - 1" by (simp add: zdiv_int)
    then show ?thesis using 1 [OF False] False by (subst int_octets.simps, subst uint_octets.simps) simp
  qed (simp add: int_octets.simps uint_octets.simps)
qed


lemma unat_not: "unat (NOT (v :: u64)) = 2 ^ 64 - 1 - unat v"
proof -
  have "NOT v = - 1 - v" by (simp add: not_eq_complement)
  moreover have "unat (- 1 - v) = unat (- 1 :: u64) - unat v" by (rule unat_sub) simp
  moreover have "unat (- 1 :: u64) = 2 ^ 64 - 1" by (simp add: unsigned_minus_1_eq_mask mask_eq_exp_minus_1)
  ultimately show ?thesis by simp
qed

lemma len64: "LENGTH(64) = 64" by simp

lemma u8_not_facts:
  fixes b :: u8
  shows "(NOT b = 0xff \<longleftrightarrow> b = 0) \<and> (NOT b AND 0x80 \<noteq> 0 \<longleftrightarrow> unat b < 128)"
proof -
  have "\<forall>n\<in>set [0..<256]. (NOT (of_nat n :: u8) = 0xff \<longleftrightarrow> (of_nat n :: u8) = 0) \<and>
      (NOT (of_nat n :: u8) AND 0x80 \<noteq> 0 \<longleftrightarrow> unat (of_nat n :: u8) < 128)"
    by code_simp
  from u8_all [OF this] show ?thesis .
qed

lemma sint_cases:
  fixes v :: u64
  shows "sint v = (if unat v < 2 ^ 63 then int (unat v) else - int (unat (NOT v)) - 1)"
proof -
  have u: "uint v = int (unat v)" by simp
  have "sint v = take_bit 64 (uint v + 2 ^ 63) - 2 ^ 63"
    by (simp only: sint_uint signed_take_bit_eq_take_bit_shift) simp
  also have "\<dots> = (int (unat v) + 2 ^ 63) mod 2 ^ 64 - 2 ^ 63"
    by (simp only: take_bit_eq_mod u)
  also have "\<dots> = (if unat v < 2 ^ 63 then int (unat v) else int (unat v) - 2 ^ 64)"
  proof -
    have "(int n + 2 ^ 63) mod 2 ^ 64 - 2 ^ 63 = (if n < 2 ^ 63 then int n else int n - 2 ^ 64)" if "n < 2 ^ 64" for n
      using that by (auto simp: mod_pos_pos_trivial mod_pos_geq)
    then show ?thesis using unat_less [of v] by (simp only: len64)
  qed
  finally show ?thesis using unat_less [of v] by (auto simp: unat_not of_nat_diff)
qed

lemma byte_not:
  fixes v :: u64
  assumes "n < 8"
  shows "(of_nat (unat v div 256 ^ n) :: u8) = NOT (of_nat (unat (NOT v) div 256 ^ n))"
proof -
  have "(ucast (drop_bit (8 * n) v) :: u8) = NOT (ucast (drop_bit (8 * n) (NOT v)))"
    by (rule bit_word_eqI) (use assms in \<open>auto simp: bit_simps\<close>)
  then show ?thesis by (simp only: u64_byte)
qed

lemma int64_start_octets:
  fixes v :: u64
  assumes "s < 8" and "unat (NOT v) < 128 * 256 ^ s"
  shows "Suc (int64_start (le_bytes8 v) s) = uint_octets (unat (NOT v))"
  using assms
proof (induction s)
  case 0
  then show ?case using uint_octets_unique [of "unat (NOT v)" 0] by simp
next
  case (Suc s)
  let ?w = "unat (NOT v)"
  have nth: "le_bytes8 v ! n = NOT (of_nat (?w div 256 ^ n))" if "n < 8" for n
    using that byte_not [OF that, of v] by (simp add: le_bytes8_def u64_byte)
  have w1: "?w div 256 ^ Suc s < 128" using Suc.prems(2) by (simp add: div_less_iff_less_mult)
  have "le_bytes8 v ! Suc s = 0xff \<longleftrightarrow> of_nat (?w div 256 ^ Suc s) = (0 :: u8)"
    using nth [of "Suc s"] Suc.prems u8_not_facts by (simp del: power_Suc)
  also have "\<dots> \<longleftrightarrow> ?w < 256 ^ Suc s"
    using w1 of_nat_u8_0 [of "?w div 256 ^ Suc s"] by (simp add: div_eq_0_iff)
  finally have ff: "le_bytes8 v ! Suc s = 0xff \<longleftrightarrow> ?w < 256 ^ Suc s" .
  have hi: "le_bytes8 v ! s AND 0x80 \<noteq> 0 \<longleftrightarrow> ?w < 128 * 256 ^ s" if "?w < 256 ^ Suc s"
  proof -
    have "?w div 256 ^ s < 256" using that by (simp add: div_less_iff_less_mult mult.commute)
    then have "le_bytes8 v ! s AND 0x80 \<noteq> 0 \<longleftrightarrow> ?w div 256 ^ s < 128"
      using nth [of s] Suc.prems u8_not_facts [of "of_nat (?w div 256 ^ s)"] by simp
    then show ?thesis by (simp add: div_less_iff_less_mult)
  qed
  have le: "128 * 256 ^ s \<le> (256::nat) ^ Suc s" by simp
  show ?case
  proof (cases "?w < 128 * 256 ^ s")
    case True
    then have "?w < 256 ^ Suc s" using le by linarith
    then show ?thesis using Suc True ff hi by simp
  next
    case False
    then have "int64_start (le_bytes8 v) (Suc s) = Suc s" using ff hi by auto
    moreover have "uint_octets ?w = Suc (Suc s)" using False Suc.prems(2) by (intro uint_octets_unique) auto
    ultimately show ?thesis by simp
  qed
qed

lemma add_int64_loop_contract:
  assumes M: "malloc_ok M"
  shows "cbb_wf c \<Longrightarrow> \<not> cb_error (cbb_base c) \<Longrightarrow> length (cbb_chain c) = k \<Longrightarrow> n \<le> 8 \<Longrightarrow>
    refines M c k (length (be_bytes n (unat v))) (spec_append k (be_bytes n (unat v)) (CBB_abs c))
      (add_int64_loop M c k (le_bytes8 v) n)"
proof (induction n arbitrary: c)
  case 0
  then show ?case using append_nothing by simp
next
  case (Suc n)
  have "le_bytes8 v ! n = of_nat (unat v div 256 ^ n)" using Suc.prems by (simp add: le_bytes8_def u64_byte)
  moreover have "refines M c k (length (le_bytes8 v ! n # be_bytes n (unat v)))
      (spec_append k (le_bytes8 v ! n # be_bytes n (unat v)) (CBB_abs c)) (add_int64_loop M c k (le_bytes8 v) (Suc n))"
    unfolding add_int64_loop.simps by (rule append_u8 [OF Suc.prems(1) M]) (use Suc in simp)
  ultimately show ?case by (simp only: be_bytes_Cons)
qed

lemma CBB_add_asn1_int64_with_tag_contract:
  assumes wf: "cbb_wf c" and M: "malloc_ok M"
  shows "refines M c k (length (der_tag tag) + length (int_content v) + 5)
    (spec_append k (der tag (int_content v)) (CBB_abs c)) (CBB_add_asn1_int64_with_tag M c k v tag)"
proof (cases "unat v < 2 ^ 63")
  case True
  then have "int_content v = uint_content (unat v)"
    by (simp only: int_content_def uint_content_def sint_cases if_True int_octets_nonneg)
  moreover have "sint v \<ge> 0" using True by (simp only: sint_cases if_True of_nat_0_le_iff)
  ultimately show ?thesis
    using CBB_add_asn1_uint64_with_tag_contract [OF wf M, of k tag v] by (simp only: CBB_add_asn1_int64_with_tag_def if_True)
next
  case False
  let ?w = "unat (NOT v)" and ?bs = "le_bytes8 v"
  have s: "sint v = - int ?w - 1" using False by (simp only: sint_cases if_False)
  have "?w < 128 * 256 ^ 7" using False by (simp add: unat_not)
  then have st: "Suc (int64_start ?bs 7) = uint_octets ?w" by (intro int64_start_octets) simp_all
  then have con: "int_content v = be_bytes (Suc (int64_start ?bs 7)) (unat v)"
    by (simp only: int_content_def s int_octets_neg)
  have le: "int64_start ?bs n \<le> n" for n by (induction n) auto
  have len: "length (int_content v) \<le> 0xfffffffe" using con le [of 7] by simp
  have eq: "CBB_add_asn1_int64_with_tag M c k v tag =
      (case CBB_add_asn1 M c k tag of (False, c) \<Rightarrow> (False, cbb_on_error c k)
       | (True, c) \<Rightarrow> (case add_int64_loop M c (Suc k) ?bs (Suc (int64_start ?bs 7)) of
           (False, c) \<Rightarrow> (False, cbb_on_error c k) | (True, c) \<Rightarrow> CBB_flush M c k))"
    using s by (simp add: CBB_add_asn1_int64_with_tag_def Let_def)
  have "refines M c k (length (der_tag tag) + length (int_content v) + 5)
      (if length (int_content v) \<le> 0xfffffffe then spec_append k (der tag (int_content v)) (CBB_abs c) else None)
      (case CBB_add_asn1 M c k tag of (False, c) \<Rightarrow> (False, c)
       | (True, c) \<Rightarrow> (case add_int64_loop M c (Suc k) ?bs (Suc (int64_start ?bs 7)) of
           (False, c) \<Rightarrow> (False, c) | (True, c) \<Rightarrow> CBB_flush M c k))"
    unfolding con by (rule asn1_child_contract [OF wf M], rule add_int64_loop_contract [OF M]) (use le [of 7] in simp_all)
  from err_label_contract [OF this] show ?thesis unfolding eq by (simp only: len if_True)
qed

lemma der_tag_universal: "length (der_tag CBS_ASN1_INTEGER) = 1" "length (der_tag CBS_ASN1_OCTETSTRING) = 1"
  by (simp_all add: der_tag_def CBS_ASN1_INTEGER_def CBS_ASN1_OCTETSTRING_def)

interpretation add_uint64: cbb_append "\<lambda>v M c k. CBB_add_asn1_uint64 M c k v"
  "\<lambda>v. der CBS_ASN1_INTEGER (uint_content (unat v))" "\<lambda>v. length (uint_content (unat v)) + 6" "\<lambda>_. True"
proof
  fix c M k and v :: u64
  assume "cbb_wf c" "malloc_ok M"
  from CBB_add_asn1_uint64_with_tag_contract [OF this, of k CBS_ASN1_INTEGER v]
  show "refines M c k (length (uint_content (unat v)) + 6)
      (spec_append k (der CBS_ASN1_INTEGER (uint_content (unat v))) (CBB_abs c)) (CBB_add_asn1_uint64 M c k v)"
    by (simp add: CBB_add_asn1_uint64_def der_tag_universal add.commute)
qed

interpretation add_int64: cbb_append "\<lambda>v M c k. CBB_add_asn1_int64 M c k v"
  "\<lambda>v. der CBS_ASN1_INTEGER (int_content v)" "\<lambda>v. length (int_content v) + 6" "\<lambda>_. True"
proof
  fix c M k and v :: u64
  assume "cbb_wf c" "malloc_ok M"
  from CBB_add_asn1_int64_with_tag_contract [OF this, of k CBS_ASN1_INTEGER v]
  show "refines M c k (length (int_content v) + 6)
      (spec_append k (der CBS_ASN1_INTEGER (int_content v)) (CBB_abs c)) (CBB_add_asn1_int64 M c k v)"
    by (simp add: CBB_add_asn1_int64_def der_tag_universal add.commute)
qed

interpretation add_octets: cbb_append "\<lambda>d M c k. CBB_add_asn1_octet_string M c k d"
  "\<lambda>d. der CBS_ASN1_OCTETSTRING d" "\<lambda>d. length d + 6" "\<lambda>d. length d < 2 ^ 32 - 1"
proof
  fix c M k and d :: bytes
  assume "cbb_wf c" "malloc_ok M" and l: "length d < 2 ^ 32 - 1"
  from CBB_add_asn1_octet_string_contract [OF this(1,2), of d k] l
  show "refines M c k (length d + 6) (spec_append k (der CBS_ASN1_OCTETSTRING d) (CBB_abs c)) (CBB_add_asn1_octet_string M c k d)"
    by simp
qed

section \<open>Properties\<close>

text \<open>A call that returns zero and leaves the builder in the failed state.\<close>

definition refused :: "bool \<times> CBB \<Rightarrow> bool" where
  "refused r \<longleftrightarrow> \<not> fst r \<and> cb_error (cbb_base (snd r))"

text \<open>
  C29: once a builder has failed, every function of \<^verbatim>\<open>cbb.c\<close> that appends to it or opens a child in it returns zero
  and leaves it failed: the fixed-width integers in both byte orders, byte strings, zeros, length-prefixed
  children, ASN.1 elements and values, object identifiers, SET OF flushing, \<^verbatim>\<open>CBB_flush\<close>, \<^verbatim>\<open>CBB_add_space\<close>
  and \<^verbatim>\<open>CBB_reserve\<close>; and \<^verbatim>\<open>CBB_finish\<close> fails. So no call that follows can make an incomplete
  message look complete. (The one exception among the calls that return a status is \<^verbatim>\<open>CBB_did_write\<close>, which only
  compares lengths and does not look at the error.)
\<close>

theorem CBB_error_sticky:
  fixes v8 :: u8 and v16 :: u16 and v32 :: u32 and v64 :: u64
  assumes "cbb_wf c" and "malloc_ok M" and "cbb_live c k" and "cb_error (cbb_base c)"
  shows "list_all refused
      [CBB_flush M c k, CBB_add_bytes M c k data, CBB_add_zeros M c k n,
       CBB_add_u8 M c k v8, CBB_add_u16 M c k v16, CBB_add_u24 M c k v32, CBB_add_u32 M c k v32, CBB_add_u64 M c k v64,
       CBB_add_u16le M c k v16, CBB_add_u32le M c k v32, CBB_add_u64le M c k v64,
       CBB_add_u8_length_prefixed M c k, CBB_add_u16_length_prefixed M c k, CBB_add_u24_length_prefixed M c k,
       CBB_add_asn1 M c k tag, CBB_add_asn1_uint64_with_tag M c k v64 tag, CBB_add_asn1_uint64 M c k v64,
       CBB_add_asn1_int64_with_tag M c k v64 tag, CBB_add_asn1_int64 M c k v64, CBB_add_asn1_octet_string M c k data,
       CBB_add_asn1_bool M c k i, CBB_add_asn1_oid_from_text M c k data, CBB_flush_asn1_set_of M c k] \<and>
    (fst (CBB_add_space M c k n) = None \<and> cb_error (cbb_base (snd (CBB_add_space M c k n)))) \<and>
    (fst (CBB_reserve M c k n) = None \<and> cb_error (cbb_base (snd (CBB_reserve M c k n)))) \<and>
    fst (CBB_finish M out c k) = None"
proof -
  obtain c1 where fl: "CBB_flush M c k = (False, c1)" and e: "cb_error (cbb_base c1)"
    using refines_error [OF CBB_flush_contract [OF assms(1,2)] assms(4,3)] by (cases "CBB_flush M c k") auto
  have err: "cb_error (cbb_base (cbb_on_error c1 k))" by (simp add: cbb_on_error_def)
  have sp: "CBB_add_space M c k n = (None, c1)" "CBB_reserve M c k n = (None, c1)" for n
    by (simp_all add: CBB_add_space_def CBB_reserve_def fl)
  have u: "cbb_add_u M c k v n = (False, c1)" for v n by (simp add: cbb_add_u_def sp)
  have a: "CBB_add_asn1 M c k t = (False, c1)" for t by (simp add: CBB_add_asn1_def fl)
  have "list_all refused
      [CBB_flush M c k, CBB_add_bytes M c k data, CBB_add_zeros M c k n,
       CBB_add_u8 M c k v8, CBB_add_u16 M c k v16, CBB_add_u24 M c k v32, CBB_add_u32 M c k v32, CBB_add_u64 M c k v64,
       CBB_add_u16le M c k v16, CBB_add_u32le M c k v32, CBB_add_u64le M c k v64,
       CBB_add_u8_length_prefixed M c k, CBB_add_u16_length_prefixed M c k, CBB_add_u24_length_prefixed M c k]"
    by (simp add: refused_def fl e sp u CBB_add_bytes_def CBB_add_zeros_def CBB_add_u8_def CBB_add_u16_def CBB_add_u24_def
        CBB_add_u32_def CBB_add_u64_def CBB_add_u16le_def CBB_add_u32le_def CBB_add_u64le_def CBB_add_u8_length_prefixed_def
        CBB_add_u16_length_prefixed_def CBB_add_u24_length_prefixed_def cbb_add_length_prefixed_def)
  moreover have "list_all refused
      [CBB_add_asn1 M c k tag, CBB_add_asn1_uint64_with_tag M c k v64 tag, CBB_add_asn1_uint64 M c k v64,
       CBB_add_asn1_int64_with_tag M c k v64 tag, CBB_add_asn1_int64 M c k v64, CBB_add_asn1_octet_string M c k data,
       CBB_add_asn1_bool M c k i, CBB_add_asn1_oid_from_text M c k data, CBB_flush_asn1_set_of M c k]"
    by (simp add: refused_def fl e a err CBB_add_asn1_uint64_def CBB_add_asn1_uint64_with_tag_def CBB_add_asn1_int64_def
        CBB_add_asn1_int64_with_tag_def CBB_add_asn1_octet_string_def CBB_add_asn1_bool_def CBB_add_asn1_oid_from_text_def
        CBB_flush_asn1_set_of_def Let_def)
  ultimately show ?thesis
    using CBB_finish_error [OF assms(1,2,4)] e by (simp add: sp)
qed

theorem CBB_error_sticky_witness:
  "fst (CBB_finish plentiful True (cbb_on_error sample_child 0) 0) = None \<and>
     refused (CBB_add_bytes plentiful (cbb_on_error sample_child 0) 0 [5])"
proof -
  let ?c = "cbb_on_error sample_child 0"
  have "cbb_wf ?c" "cbb_live ?c 0" "cb_error (cbb_base ?c)"
    by (simp_all add: sample_child_def cbb_on_error_def cbb_wf_def buf_wf_def cbb_live_def child_ok_def)
  from CBB_error_sticky [OF this(1) malloc_ok_plentiful this(2,3), of "[5]"] show ?thesis by simp
qed

end
