(* ===== verification/Cmp_Order.thy ===== *)
theory Cmp_Order
  imports Prelude "HOL-Library.Multiset"
begin

text \<open>
  The contract of a C comparison function (negative, zero or positive), and what holds of every
  function that meets it. Sorting and searching in \<^verbatim>\<open>stack.c\<close> and the SET OF sort of \<^verbatim>\<open>cbb.c\<close>
  rely on this interface only. The heap of \<^verbatim>\<open>stack.c\<close> is here too, as functions of the array.
\<close>

locale total_cmp =
  fixes cmp :: "'a \<Rightarrow> 'a \<Rightarrow> int"
  assumes cmp_flip: "cmp a b < 0 \<longleftrightarrow> 0 < cmp b a"
    and cmp_trans: "cmp a b \<le> 0 \<Longrightarrow> cmp b c \<le> 0 \<Longrightarrow> cmp a c \<le> 0"
begin

lemma cmp_refl: "cmp a a = 0"
  using cmp_flip [of a a] by linarith

lemma cmp_total: "cmp a b \<le> 0 \<or> cmp b a \<le> 0"
  using cmp_flip [of b a] by linarith

lemma cmp_not_less: "\<not> cmp a b < 0 \<longleftrightarrow> cmp b a \<le> 0"
  using cmp_flip by (simp add: not_less)

lemma cmp_le_less_trans: "cmp a b \<le> 0 \<Longrightarrow> cmp b c < 0 \<Longrightarrow> cmp a c < 0"
  using cmp_trans [of c a b] cmp_not_less [of a c] cmp_not_less [of b c] by linarith

lemma cmp_less_le_trans: "cmp a b < 0 \<Longrightarrow> cmp b c \<le> 0 \<Longrightarrow> cmp a c < 0"
  using cmp_trans [of b c a] cmp_not_less [of a c] cmp_not_less [of a b] by linarith

lemma cmp_eq_sym: "cmp a b = 0 \<longleftrightarrow> cmp b a = 0"
  using cmp_flip [of a b] cmp_flip [of b a] by linarith

end

section \<open>Sorted arrays\<close>

definition sorted_by :: "('a \<Rightarrow> 'a \<Rightarrow> int) \<Rightarrow> 'a list \<Rightarrow> bool" where
  "sorted_by cmp xs \<longleftrightarrow> (\<forall>j < length xs. \<forall>i \<le> j. cmp (xs ! i) (xs ! j) \<le> 0)"

text \<open>The first index whose element satisfies a test: what a search has to return.\<close>

fun first_index :: "('a \<Rightarrow> bool) \<Rightarrow> 'a list \<Rightarrow> nat option" where
  "first_index P [] = None"
| "first_index P (x # xs) = (if P x then Some 0 else map_option Suc (first_index P xs))"

lemma first_index_Some:
  "first_index P xs = Some i \<longleftrightarrow> i < length xs \<and> P (xs ! i) \<and> (\<forall>j < i. \<not> P (xs ! j))"
proof (induction xs arbitrary: i)
  case (Cons x xs)
  then show ?case by (cases i) (auto simp: less_Suc_eq_0_disj)
qed simp

lemma first_index_None: "first_index P xs = None \<longleftrightarrow> (\<forall>x\<in>set xs. \<not> P x)"
  by (induction xs) auto

section \<open>The heap of OPENSSL_sk_sort\<close>

definition parent_idx :: "nat \<Rightarrow> nat" where
  "parent_idx idx = (idx - 1) div 2"

definition left_idx :: "nat \<Rightarrow> nat" where
  "left_idx idx = 2 * idx + 1"

definition swap_at :: "'a list \<Rightarrow> nat \<Rightarrow> nat \<Rightarrow> 'a list" where
  "swap_at data i j = (let tmp = data ! i in (data[i := data ! j])[j := tmp])"

text \<open>The child that \<^verbatim>\<open>down_heap\<close> swaps with, or \<open>i\<close> itself.\<close>

definition heap_next :: "('a \<Rightarrow> 'a \<Rightarrow> int) \<Rightarrow> 'a list \<Rightarrow> nat \<Rightarrow> nat \<Rightarrow> nat" where
  "heap_next cmp data i num =
     (let left = left_idx i;
          next = (if cmp (data ! i) (data ! left) < 0 then left else i);
          right = left + 1
      in if right < num \<and> cmp (data ! next) (data ! right) < 0 then right else next)"

function down_heap :: "('a \<Rightarrow> 'a \<Rightarrow> int) \<Rightarrow> 'a list \<Rightarrow> nat \<Rightarrow> nat \<Rightarrow> 'a list" where
  "down_heap cmp data i num =
     (if left_idx i \<ge> num then data
      else let next = heap_next cmp data i num in
           if i = next then data else down_heap cmp (swap_at data i next) next num)"
  by pat_completeness auto
termination
  by (relation "measure (\<lambda>(cmp, data, i, num). num - i)")
     (auto simp: heap_next_def Let_def left_idx_def split: if_splits)

declare down_heap.simps [simp del]

text \<open>The two loops of \<^verbatim>\<open>OPENSSL_sk_sort\<close>; the argument counts the iterations left.\<close>

fun build_heap :: "('a \<Rightarrow> 'a \<Rightarrow> int) \<Rightarrow> 'a list \<Rightarrow> nat \<Rightarrow> nat \<Rightarrow> 'a list" where
  "build_heap cmp data 0 num = data"
| "build_heap cmp data (Suc i) num = build_heap cmp (down_heap cmp data i num) i num"

fun drain_heap :: "('a \<Rightarrow> 'a \<Rightarrow> int) \<Rightarrow> 'a list \<Rightarrow> nat \<Rightarrow> 'a list" where
  "drain_heap cmp data 0 = data"
| "drain_heap cmp data (Suc i) = drain_heap cmp (down_heap cmp (swap_at data 0 (Suc i)) 0 (Suc i)) i"

lemma length_swap_at [simp]: "length (swap_at xs i j) = length xs"
  by (simp add: swap_at_def Let_def)

lemma nth_swap_at:
  "i < length xs \<Longrightarrow> j < length xs \<Longrightarrow> swap_at xs i j ! k = (if k = j then xs ! i else if k = i then xs ! j else xs ! k)"
  by (auto simp: swap_at_def Let_def nth_list_update)

lemma mset_swap_at [simp]: "i < length xs \<Longrightarrow> j < length xs \<Longrightarrow> mset (swap_at xs i j) = mset xs"
  by (simp add: swap_at_def Let_def mset_swap)

lemma heap_next_bounds:
  assumes "left_idx i < num" and "heap_next cmp data i num \<noteq> i"
  shows "heap_next cmp data i num < num \<and> i < heap_next cmp data i num \<and> parent_idx (heap_next cmp data i num) = i"
  using assms by (auto simp: heap_next_def Let_def left_idx_def parent_idx_def split: if_splits)

lemma children: "0 < c \<Longrightarrow> parent_idx c = i \<longleftrightarrow> c = left_idx i \<or> c = left_idx i + 1"
  by (auto simp: parent_idx_def left_idx_def)

text \<open>\<^verbatim>\<open>down_heap\<close> permutes the elements of the heap and touches nothing outside it.\<close>

lemma down_heap_frame:
  "i < num \<Longrightarrow> num \<le> length data \<Longrightarrow>
     mset (down_heap cmp data i num) = mset data \<and> length (down_heap cmp data i num) = length data \<and>
     (\<forall>k. num \<le> k \<longrightarrow> down_heap cmp data i num ! k = data ! k)"
proof (induction cmp data i num rule: down_heap.induct)
  case (1 cmp data i num)
  show ?case
  proof (cases "left_idx i \<ge> num \<or> heap_next cmp data i num = i")
    case True
    then show ?thesis by (subst (1 2 3) down_heap.simps) auto
  next
    case False
    let ?n = "heap_next cmp data i num"
    have n: "?n < num" "i < ?n" using heap_next_bounds [of i num cmp data] False by auto
    then have "down_heap cmp data i num = down_heap cmp (swap_at data i ?n) ?n num"
      using False by (subst down_heap.simps) (simp add: Let_def)
    then show ?thesis
      using "1.IH" [of ?n] False n "1.prems" by (auto simp: nth_swap_at)
  qed
qed

text \<open>
  Every element below index \<open>num\<close> whose parent is at least \<open>lo\<close> is at most its parent, except
  the children of \<open>hole\<close>.
\<close>

definition heap_except :: "('a \<Rightarrow> 'a \<Rightarrow> int) \<Rightarrow> 'a list \<Rightarrow> nat \<Rightarrow> nat \<Rightarrow> nat option \<Rightarrow> bool" where
  "heap_except cmp data lo num hole \<longleftrightarrow>
     (\<forall>c. 0 < c \<and> c < num \<and> lo \<le> parent_idx c \<and> hole \<noteq> Some (parent_idx c) \<longrightarrow>
        cmp (data ! c) (data ! parent_idx c) \<le> 0)"

text \<open>The children of \<open>i\<close> are at most the parent of \<open>i\<close>.\<close>

definition grandparent_ok :: "('a \<Rightarrow> 'a \<Rightarrow> int) \<Rightarrow> 'a list \<Rightarrow> nat \<Rightarrow> nat \<Rightarrow> nat \<Rightarrow> bool" where
  "grandparent_ok cmp data lo num i \<longleftrightarrow>
     (0 < i \<and> lo \<le> parent_idx i \<longrightarrow>
        (\<forall>c. 0 < c \<and> c < num \<and> parent_idx c = i \<longrightarrow> cmp (data ! c) (data ! parent_idx i) \<le> 0))"

context total_cmp
begin

lemma heap_next_largest:
  assumes "left_idx i < num" and "0 < c" and "c < num" and "parent_idx c = i"
  shows "cmp (data ! c) (data ! heap_next cmp data i num) \<le> 0"
proof -
  have c: "c = left_idx i \<or> c = left_idx i + 1" using assms children by blast
  show ?thesis
    using c assms(3) cmp_refl cmp_not_less [of "data ! i"] cmp_not_less [of "data ! left_idx i"]
      cmp_trans [of "data ! left_idx i" "data ! i" "data ! Suc (left_idx i)"]
      cmp_not_less [of "data ! Suc (left_idx i)"]
    by (auto simp: heap_next_def Let_def)
qed

lemma heap_next_above:
  assumes "left_idx i < num"
  shows "cmp (data ! i) (data ! heap_next cmp data i num) \<le> 0"
  using assms cmp_refl cmp_trans [of "data ! i" "data ! left_idx i" "data ! Suc (left_idx i)"]
  by (auto simp: heap_next_def Let_def)

text \<open>One swap of \<^verbatim>\<open>down_heap\<close> moves the hole to the child.\<close>

lemma heap_swap_step:
  assumes h: "heap_except cmp data lo num (Some i)" and g: "grandparent_ok cmp data lo num i"
    and i: "lo \<le> i" "left_idx i < num" "num \<le> length data"
    and n: "n = heap_next cmp data i num" "n \<noteq> i"
  shows "heap_except cmp (swap_at data i n) lo num (Some n) \<and> grandparent_ok cmp (swap_at data i n) lo num n"
proof -
  have b: "n < num" "i < n" "parent_idx n = i" using heap_next_bounds [OF i(2)] n by auto
  have len: "i < length data" "n < length data" using b i by auto
  note nth = nth_swap_at [OF len]
  have pi: "0 < c \<Longrightarrow> parent_idx c < c" for c by (simp add: parent_idx_def)
  have "cmp (swap_at data i n ! c) (swap_at data i n ! parent_idx c) \<le> 0"
    if c: "0 < c" "c < num" "lo \<le> parent_idx c" "parent_idx c \<noteq> n" for c
  proof (cases "parent_idx c = i")
    case True
    then have "c \<noteq> i" using pi [OF c(1)] by auto
    have "swap_at data i n ! parent_idx c = data ! n" using True b by (simp add: nth)
    moreover have "cmp (data ! c) (data ! n) \<le> 0" using heap_next_largest [OF i(2) c(1,2) True] n by simp
    moreover have "cmp (data ! i) (data ! n) \<le> 0" using heap_next_above [OF i(2)] n by simp
    ultimately show ?thesis using \<open>c \<noteq> i\<close> by (simp add: nth)
  next
    case False
    then have cn: "c \<noteq> n" using b by auto
    have p: "swap_at data i n ! parent_idx c = data ! parent_idx c" using False c by (simp add: nth)
    show ?thesis
    proof (cases "c = i")
      case True
      then have "cmp (data ! n) (data ! parent_idx i) \<le> 0"
        using g b c by (simp add: grandparent_ok_def)
      then show ?thesis using True p b by (simp add: nth)
    next
      case ci: False
      then show ?thesis using h c False cn p by (simp add: heap_except_def nth)
    qed
  qed
  moreover have "cmp (swap_at data i n ! c) (swap_at data i n ! parent_idx n) \<le> 0"
    if c: "0 < c" "c < num" "parent_idx c = n" for c
  proof -
    have "c \<noteq> i" "c \<noteq> n" using pi [OF c(1)] c b by auto
    moreover have "cmp (data ! c) (data ! n) \<le> 0" using h c b i by (auto simp: heap_except_def)
    ultimately show ?thesis using b by (simp add: nth)
  qed
  ultimately show ?thesis by (simp add: heap_except_def grandparent_ok_def)
qed

lemma heap_no_hole:
  assumes h: "heap_except cmp data lo num (Some i)"
    and c: "\<And>c. 0 < c \<Longrightarrow> c < num \<Longrightarrow> parent_idx c = i \<Longrightarrow> cmp (data ! c) (data ! i) \<le> 0"
  shows "heap_except cmp data lo num None"
  using assms unfolding heap_except_def by (metis option.inject)

lemma down_heap_heap:
  assumes "heap_except cmp data lo num (Some i)" and "grandparent_ok cmp data lo num i"
    and "lo \<le> i" and "i < num" and "num \<le> length data"
  shows "heap_except cmp (down_heap cmp data i num) lo num None"
  using assms
proof (induction "num - i" arbitrary: data i rule: less_induct)
  case less
  show ?case
  proof (cases "num \<le> left_idx i")
    case True
    then have "down_heap cmp data i num = data" by (simp add: down_heap.simps)
    moreover have "\<not> (0 < c \<and> c < num \<and> parent_idx c = i)" for c
      using True children [of c i] by auto
    then have "heap_except cmp data lo num None"
      using less.prems(1) by (auto simp: heap_except_def)
    ultimately show ?thesis by simp
  next
    case left: False
    let ?n = "heap_next cmp data i num"
    show ?thesis
    proof (cases "?n = i")
      case True
      then have "down_heap cmp data i num = data" by (subst down_heap.simps) (simp add: Let_def)
      moreover have "heap_except cmp data lo num None"
      proof (rule heap_no_hole [OF less.prems(1)])
        fix c assume "0 < c" "c < num" "parent_idx c = i"
        then show "cmp (data ! c) (data ! i) \<le> 0" using heap_next_largest [of i num c data] True left by simp
      qed
      ultimately show ?thesis by simp
    next
      case False
      have b: "?n < num" "i < ?n" using heap_next_bounds [of i num cmp data] False left by auto
      have eq: "down_heap cmp data i num = down_heap cmp (swap_at data i ?n) ?n num"
        using left False by (subst down_heap.simps) (simp add: Let_def)
      note step = heap_swap_step [OF less.prems(1-3) _ less.prems(5) refl False]
      show ?thesis
        unfolding eq by (rule less.hyps) (use b step left less.prems in auto)
    qed
  qed
qed

lemma build_heap_heap:
  assumes "heap_except cmp data n num None" and "n \<le> num" and "num \<le> length data"
  shows "heap_except cmp (build_heap cmp data n num) 0 num None \<and>
    mset (build_heap cmp data n num) = mset data \<and> length (build_heap cmp data n num) = length data \<and>
    (\<forall>k. num \<le> k \<longrightarrow> build_heap cmp data n num ! k = data ! k)"
  using assms
proof (induction n arbitrary: data)
  case (Suc n)
  have n: "n < num" using Suc.prems by simp
  note f = down_heap_frame [OF n Suc.prems(3), of cmp]
  have "heap_except cmp data n num (Some n)" "grandparent_ok cmp data n num n"
    using Suc.prems(1) by (auto simp: heap_except_def grandparent_ok_def parent_idx_def)
  then have "heap_except cmp (down_heap cmp data n num) n num None"
    by (rule down_heap_heap) (use n Suc.prems in auto)
  with Suc.IH [of "down_heap cmp data n num"] f n Suc.prems show ?case by simp
qed simp

lemma heap_root_max: "heap_except cmp data 0 num None \<Longrightarrow> c < num \<Longrightarrow> cmp (data ! c) (data ! 0) \<le> 0"
proof (induction c rule: less_induct)
  case (less c)
  show ?case
  proof (cases "c = 0")
    case True
    then show ?thesis by (simp add: cmp_refl)
  next
    case False
    then have p: "parent_idx c < c" by (simp add: parent_idx_def)
    have "cmp (data ! c) (data ! parent_idx c) \<le> 0" using less.prems False by (simp add: heap_except_def)
    moreover have "cmp (data ! parent_idx c) (data ! 0) \<le> 0" using less.IH [OF p] less.prems p by simp
    ultimately show ?thesis by (rule cmp_trans)
  qed
qed

text \<open>The state of the second loop: a heap up to index \<open>i\<close>, below a sorted tail.\<close>

definition drained :: "'a list \<Rightarrow> nat \<Rightarrow> nat \<Rightarrow> bool" where
  "drained data i num \<longleftrightarrow> heap_except cmp data 0 (Suc i) None \<and>
     (\<forall>a b. a \<le> i \<and> i < b \<and> b < num \<longrightarrow> cmp (data ! a) (data ! b) \<le> 0) \<and>
     (\<forall>a b. i < a \<and> a \<le> b \<and> b < num \<longrightarrow> cmp (data ! a) (data ! b) \<le> 0)"

lemma mset_take_frame:
  assumes "mset xs = mset ys" and "length xs = length ys" and "\<forall>k. n \<le> k \<longrightarrow> xs ! k = ys ! k"
  shows "mset (take n xs) = mset (take n ys)"
proof -
  have "drop n xs = drop n ys" using assms(2,3) by (intro nth_equalityI) auto
  moreover have "mset xs = mset (take n xs) + mset (drop n xs)" "mset ys = mset (take n ys) + mset (drop n ys)"
    by (metis append_take_drop_id mset_append)+
  ultimately show ?thesis using assms(1) by simp
qed

lemma drain_step:
  assumes d: "drained data (Suc i) num" and num: "num \<le> length data" "Suc i < num"
  shows "drained (down_heap cmp (swap_at data 0 (Suc i)) 0 (Suc i)) i num \<and>
    mset (down_heap cmp (swap_at data 0 (Suc i)) 0 (Suc i)) = mset data \<and>
    length (down_heap cmp (swap_at data 0 (Suc i)) 0 (Suc i)) = length data \<and>
    (\<forall>k. num \<le> k \<longrightarrow> down_heap cmp (swap_at data 0 (Suc i)) 0 (Suc i) ! k = data ! k)"
proof -
  let ?s = "swap_at data 0 (Suc i)" and ?h = "down_heap cmp (swap_at data 0 (Suc i)) 0 (Suc i)"
  have len: "0 < length data" "Suc i < length data" using num by auto
  note nth = nth_swap_at [OF len]
  have f: "mset ?h = mset ?s" "length ?h = length ?s" "\<forall>k. Suc i \<le> k \<longrightarrow> ?h ! k = ?s ! k"
    using down_heap_frame [of 0 "Suc i" ?s cmp] len by auto
  have "heap_except cmp ?s 0 (Suc i) (Some 0)"
    using d by (auto simp: drained_def heap_except_def nth parent_idx_def)
  then have heap: "heap_except cmp ?h 0 (Suc i) None"
    by (rule down_heap_heap) (use len in \<open>auto simp: grandparent_ok_def\<close>)
  have top: "cmp (data ! a) (data ! 0) \<le> 0" if "a \<le> Suc i" for a
    using heap_root_max [of data "Suc (Suc i)" a] d that by (simp add: drained_def)
  have low: "\<exists>a' \<le> Suc i. ?h ! a = data ! a'" if "a \<le> i" for a
  proof -
    have "?h ! a \<in> set (take (Suc i) ?h)" using that f len by (auto simp: in_set_conv_nth intro!: exI [of _ a])
    then have "?h ! a \<in> set (take (Suc i) ?s)" using mset_take_frame [OF f] by (metis mset_eq_setD)
    then obtain k where "k < Suc i" "?h ! a = ?s ! k" by (auto simp: in_set_conv_nth)
    then show ?thesis by (cases "k = 0") (auto simp: nth intro: exI [of _ k])
  qed
  have hi: "?h ! b = (if b = Suc i then data ! 0 else data ! b)" if "i < b" for b
    using f(3) that by (auto simp: nth)
  have "cmp (?h ! a) (?h ! b) \<le> 0" if "a \<le> i" "i < b" "b < num" for a b
    using low [OF that(1)] top d that unfolding hi [OF that(2)] by (auto simp: drained_def)
  moreover have "cmp (?h ! a) (?h ! b) \<le> 0" if "i < a" "a \<le> b" "b < num" for a b
    using d that cmp_refl unfolding hi [OF that(1)] hi [OF less_le_trans [OF that(1,2)]] by (auto simp: drained_def)
  moreover have "\<forall>k. num \<le> k \<longrightarrow> ?h ! k = data ! k" using hi num by simp
  ultimately show ?thesis using heap f len by (simp add: drained_def)
qed

lemma drain_heap_sorted:
  "drained data i num \<Longrightarrow> num \<le> length data \<Longrightarrow> i < num \<Longrightarrow>
     drained (drain_heap cmp data i) 0 num \<and> mset (drain_heap cmp data i) = mset data \<and>
     length (drain_heap cmp data i) = length data \<and> (\<forall>k. num \<le> k \<longrightarrow> drain_heap cmp data i ! k = data ! k)"
proof (induction i arbitrary: data)
  case (Suc i)
  from drain_step [OF Suc.prems] Suc.IH [of "down_heap cmp (swap_at data 0 (Suc i)) 0 (Suc i)"] Suc.prems
  show ?case by simp
qed simp

text \<open>Heap sort as \<^verbatim>\<open>OPENSSL_sk_sort\<close> runs it on the first \<open>num\<close> cells of an array.\<close>

lemma heap_sort_sorted:
  assumes num: "2 \<le> num" "num \<le> length xs"
  defines "ys \<equiv> drain_heap cmp (build_heap cmp xs (Suc (parent_idx (num - 1))) num) (num - 1)"
  shows "length ys = length xs \<and> sorted_by cmp (take num ys) \<and> mset (take num ys) = mset (take num xs)"
proof -
  let ?b = "build_heap cmp xs (Suc (parent_idx (num - 1))) num"
  have "heap_except cmp xs (Suc (parent_idx (num - 1))) num None"
  proof -
    have "parent_idx c \<le> parent_idx (num - 1)" if "c < num" for c
      using that by (auto simp: parent_idx_def intro: div_le_mono)
    then show ?thesis by (fastforce simp: heap_except_def)
  qed
  from build_heap_heap [OF this] num
  have b: "heap_except cmp ?b 0 num None" "mset ?b = mset xs" "length ?b = length xs"
    "\<forall>k. num \<le> k \<longrightarrow> ?b ! k = xs ! k" by (auto simp: parent_idx_def)
  have "Suc (num - 1) = num" using num by simp
  then have "drained ?b (num - 1) num" using b(1) by (auto simp: drained_def)
  from drain_heap_sorted [OF this] b num
  have d: "drained ys 0 num" "mset ys = mset xs" "length ys = length xs" "\<forall>k. num \<le> k \<longrightarrow> ys ! k = xs ! k"
    unfolding ys_def by auto
  have "sorted_by cmp (take num ys)"
    unfolding sorted_by_def
  proof (intro allI impI)
    fix j i assume "j < length (take num ys)" "i \<le> j"
    then show "cmp (take num ys ! i) (take num ys ! j) \<le> 0"
      using d cmp_refl by (cases "i = 0"; cases "j = 0") (auto simp: drained_def)
  qed
  then show ?thesis using d mset_take_frame [OF d(2,3,4)] by simp
qed

lemma sorted_by_short:
  assumes "length xs < 2"
  shows "sorted_by cmp xs"
proof -
  have "i = j" if "j < length xs" "i \<le> j" for i j using assms that by linarith
  then show ?thesis unfolding sorted_by_def using cmp_refl by fastforce
qed

section \<open>Binary search\<close>

end

text \<open>The loop of \<^verbatim>\<open>OPENSSL_sk_find\<close> on a sorted stack.\<close>

function sk_bsearch :: "('a \<Rightarrow> 'a \<Rightarrow> int) \<Rightarrow> 'a \<Rightarrow> 'a list \<Rightarrow> nat \<Rightarrow> nat \<Rightarrow> nat option" where
  "sk_bsearch cmp p data lo hi =
     (if lo < hi then
        (let mid = lo + (hi - lo - 1) div 2;
             r = cmp p (data ! mid)
         in if r > 0 then sk_bsearch cmp p data (mid + 1) hi
            else if r < 0 then sk_bsearch cmp p data lo mid
            else if hi - lo = 1 then Some mid
            else sk_bsearch cmp p data lo (mid + 1))
      else None)"
  by pat_completeness auto
termination
  by (relation "measure (\<lambda>(cmp, p, data, lo, hi). hi - lo)") auto

declare sk_bsearch.simps [simp del]

text \<open>The search looks only at cells below \<open>hi\<close>.\<close>

lemma sk_bsearch_take:
  "hi \<le> n \<Longrightarrow> sk_bsearch cmp p (take n data) lo hi = sk_bsearch cmp p data lo hi"
proof (induction cmp p data lo hi rule: sk_bsearch.induct)
  case (1 cmp p data lo hi)
  show ?case
  proof (cases "lo < hi")
    case True
    define mid where "mid = lo + (hi - lo - 1) div 2"
    have mid: "mid < hi" using True unfolding mid_def by auto
    then have nth: "take n data ! mid = data ! mid" using "1.prems" by simp
    note IH = "1.IH" [OF True mid_def refl]
    show ?thesis
      unfolding sk_bsearch.simps [of cmp p _ lo hi] Let_def mid_def [symmetric] nth
      using IH "1.prems" mid True by auto
  next
    case False
    then show ?thesis by (subst (1 2) sk_bsearch.simps) simp
  qed
qed

context total_cmp
begin

lemma sk_bsearch_first:
  assumes s: "sorted_by cmp data" and inv: "\<forall>f. first_index (\<lambda>x. cmp p x = 0) data = Some f \<longrightarrow> lo \<le> f \<and> f < hi"
    and hi: "hi \<le> length data"
  shows "sk_bsearch cmp p data lo hi = first_index (\<lambda>x. cmp p x = 0) data"
  using inv hi
proof (induction "hi - lo" arbitrary: lo hi rule: less_induct)
  case less
  let ?F = "first_index (\<lambda>x. cmp p x = 0) data"
  show ?case
  proof (cases "lo < hi")
    case False
    then have "?F = None" using less.prems(1) by (cases ?F) auto
    then show ?thesis using False by (subst sk_bsearch.simps) simp
  next
    case True
    define mid where "mid = lo + (hi - lo - 1) div 2"
    have mid: "lo \<le> mid" "mid < hi" using True unfolding mid_def by auto
    have unf: "sk_bsearch cmp p data lo hi =
        (if cmp p (data ! mid) > 0 then sk_bsearch cmp p data (mid + 1) hi
         else if cmp p (data ! mid) < 0 then sk_bsearch cmp p data lo mid
         else if hi - lo = 1 then Some mid else sk_bsearch cmp p data lo (mid + 1))"
      by (subst sk_bsearch.simps) (simp only: True if_True Let_def mid_def)
    have le: "cmp (data ! i) (data ! j) \<le> 0" if "i \<le> j" "j < length data" for i j
      using s that by (simp add: sorted_by_def)
    have F: "f < length data \<and> cmp p (data ! f) = 0 \<and> (\<forall>j < f. cmp p (data ! j) \<noteq> 0)" if "?F = Some f" for f
      using that by (simp add: first_index_Some)
    consider "cmp p (data ! mid) > 0" | "cmp p (data ! mid) < 0" | "cmp p (data ! mid) = 0" by linarith
    then show ?thesis
    proof cases
      case 1
      have "mid < f" if "?F = Some f" for f
      proof (rule ccontr)
        assume "\<not> mid < f"
        then have "cmp (data ! f) (data ! mid) \<le> 0" using le mid less.prems(2) by simp
        moreover have "cmp (data ! mid) p < 0" using 1 cmp_flip by simp
        ultimately have "cmp (data ! f) p < 0" by (rule cmp_le_less_trans)
        then show False using F [OF that] cmp_flip [of "data ! f" p] by simp
      qed
      then have "sk_bsearch cmp p data (mid + 1) hi = ?F"
        using less.prems mid by (intro less.hyps) auto
      then show ?thesis using 1 unf by simp
    next
      case 2
      have "f < mid" if "?F = Some f" for f
      proof (rule ccontr)
        assume "\<not> f < mid"
        then have "cmp (data ! mid) (data ! f) \<le> 0" using le F [OF that] by simp
        with 2 have "cmp p (data ! f) < 0" by (rule cmp_less_le_trans)
        then show False using F [OF that] by simp
      qed
      then have "sk_bsearch cmp p data lo mid = ?F"
        using less.prems mid by (intro less.hyps) auto
      then show ?thesis using 2 unf by simp
    next
      case 3
      have ex: "\<exists>f. ?F = Some f"
      proof (cases ?F)
        case None
        have "data ! mid \<in> set data" using mid less.prems(2) by simp
        then show ?thesis using None 3 by (simp add: first_index_None)
      qed simp
      have fm: "f \<le> mid" if "?F = Some f" for f using F [OF that] 3 by (meson not_le)
      show ?thesis
      proof (cases "hi - lo = 1")
        case one: True
        then have "mid = lo" by (simp add: mid_def)
        then have "?F = Some mid" using ex fm less.prems(1) by fastforce
        then show ?thesis using 3 one unf by simp
      next
        case more: False
        then have lt: "mid + 1 < hi" using True unfolding mid_def by auto
        then have "sk_bsearch cmp p data lo (mid + 1) = ?F"
          using less.prems mid fm by (intro less.hyps) (auto simp: less_Suc_eq_le)
        then show ?thesis using 3 more unf by simp
      qed
    qed
  qed
qed

end

end
