(* ===== verification/Set_Of.thy ===== *)
theory Set_Of
  imports Cbb_Der Cmp_Order
begin

text \<open>
  \<^verbatim>\<open>CBB_flush_asn1_set_of\<close>: the comparison is a total order on byte strings, so it meets the
  contract of \<^verbatim>\<open>Cmp_Order\<close>; the elements come out as a sorted permutation, whatever \<^verbatim>\<open>qsort\<close>
  does with equal ones.
\<close>

section \<open>The order\<close>

lemma compare_set_of_element_simps [simp]:
  "compare_set_of_element [] [] = 0"
  "compare_set_of_element [] (b # bs) = -1"
  "compare_set_of_element (a # as) [] = 1"
  "compare_set_of_element (a # as) (b # bs) =
     (if a < b then -1 else if b < a then 1 else compare_set_of_element as bs)"
  by (auto simp: compare_set_of_element_def Let_def)

lemma compare_flip: "compare_set_of_element a b < 0 \<longleftrightarrow> 0 < compare_set_of_element b a"
proof (induction a arbitrary: b)
  case Nil
  then show ?case by (cases b) auto
next
  case (Cons x a)
  then show ?case by (cases b) auto
qed

lemma compare_trans:
  "compare_set_of_element a b \<le> 0 \<Longrightarrow> compare_set_of_element b c \<le> 0 \<Longrightarrow> compare_set_of_element a c \<le> 0"
proof (induction a arbitrary: b c)
  case Nil
  then show ?case by (cases c) auto
next
  case (Cons x a)
  then obtain y b' where b: "b = y # b'" by (cases b) auto
  then obtain z c' where c: "c = z # c'" using Cons.prems by (cases c) auto
  show ?case using Cons.prems Cons.IH [of b' c'] b c by (auto split: if_splits)
qed

interpretation set_of: total_cmp compare_set_of_element
  by unfold_locales (rule compare_flip, rule compare_trans)

lemma compare_eq_iff: "compare_set_of_element a b = 0 \<longleftrightarrow> a = b"
proof (induction a arbitrary: b)
  case Nil
  then show ?case by (cases b) auto
next
  case (Cons x a)
  then show ?case by (cases b) auto
qed

text \<open>
  The order that DER prescribes (X.690, 11.6), without reference to the code: a string comes before its extensions, and
  otherwise the first octet where two strings differ decides.
\<close>

definition precedes :: "bytes \<Rightarrow> bytes \<Rightarrow> bool" where
  "precedes a b \<longleftrightarrow> (\<exists>p. b = a @ p) \<or> (\<exists>p x y u v. a = p @ x # u \<and> b = p @ y # v \<and> x < y)"

lemma precedes_simps [simp]:
  "precedes [] b"
  "\<not> precedes (x # a) []"
  "precedes (x # a) (y # b) \<longleftrightarrow> x < y \<or> x = y \<and> precedes a b"
proof -
  show "precedes [] b" "\<not> precedes (x # a) []" by (simp_all add: precedes_def)
  have d: "(\<exists>p x' y' u v. x # a = p @ x' # u \<and> y # b = p @ y' # v \<and> x' < y') \<longleftrightarrow>
      x < y \<or> x = y \<and> (\<exists>p x y u v. a = p @ x # u \<and> b = p @ y # v \<and> x < y)" (is "?l = ?r")
  proof
    assume ?l
    then obtain p x' y' u v where "x # a = p @ x' # u" "y # b = p @ y' # v" "x' < y'" by blast
    then show ?r by (cases p) auto
  next
    assume ?r
    then show ?l
    proof (elim disjE exE conjE)
      assume "x < y"
      then show ?l by (intro exI [of _ "[]"]) auto
    next
      fix p x' y' u v assume "x = y" "a = p @ x' # u" "b = p @ y' # v" "x' < y'"
      then show ?l by (intro exI [of _ "x # p"]) auto
    qed
  qed
  show "precedes (x # a) (y # b) \<longleftrightarrow> x < y \<or> x = y \<and> precedes a b"
    unfolding precedes_def d by (simp add: ex_disj_distrib) blast
qed

lemma compare_precedes: "compare_set_of_element a b \<le> 0 \<longleftrightarrow> precedes a b"
proof (induction a arbitrary: b)
  case Nil
  then show ?case by (cases b) auto
next
  case (Cons x a)
  then show ?case by (cases b) auto
qed

section \<open>Sorting\<close>

context total_cmp
begin

lemma qsort_insert_sorted:
  "sorted_wrt (\<lambda>a b. cmp a b \<le> 0) xs \<Longrightarrow> sorted_wrt (\<lambda>a b. cmp a b \<le> 0) (qsort_insert cmp x xs) \<and>
     mset (qsort_insert cmp x xs) = add_mset x (mset xs)"
proof (induction xs)
  case (Cons y ys)
  show ?case
  proof (cases "cmp x y \<le> 0")
    case True
    then show ?thesis using Cons.prems cmp_trans by auto
  next
    case False
    then have yx: "cmp y x \<le> 0" using cmp_total by blast
    have IH: "sorted_wrt (\<lambda>a b. cmp a b \<le> 0) (qsort_insert cmp x ys)"
      "mset (qsort_insert cmp x ys) = add_mset x (mset ys)" using Cons by auto
    have "set (qsort_insert cmp x ys) = insert x (set ys)" using IH(2) by (metis set_mset_add_mset_insert set_mset_mset)
    then show ?thesis using False IH yx Cons.prems by auto
  qed
qed simp

lemma qsort_sorted: "sorted_wrt (\<lambda>a b. cmp a b \<le> 0) (qsort cmp xs) \<and> mset (qsort cmp xs) = mset xs"
  by (induction xs) (auto simp: qsort_def qsort_insert_sorted)

end

text \<open>Any sorted permutation of the elements is the one that the model computes.\<close>

lemma sorted_permutation_unique:
  "mset xs = mset ys \<Longrightarrow> sorted_wrt (\<lambda>a b. compare_set_of_element a b \<le> 0) xs \<Longrightarrow>
     sorted_wrt (\<lambda>a b. compare_set_of_element a b \<le> 0) ys \<Longrightarrow> xs = ys"
proof (induction xs arbitrary: ys)
  case (Cons x xs)
  then obtain y ys' where ys: "ys = y # ys'" by (cases ys) auto
  have "x \<in> set ys" "y \<in> set (x # xs)" using Cons.prems(1) ys by (metis list.set_intros(1) mset_eq_setD)+
  then have "compare_set_of_element x y \<le> 0" "compare_set_of_element y x \<le> 0"
    using Cons.prems(2,3) ys set_of.cmp_refl by auto
  then have "x = y" using set_of.cmp_flip [of x y] by (simp add: compare_eq_iff [symmetric])
  then show ?case using Cons ys by simp
qed simp

section \<open>The operation\<close>

definition is_der :: "bytes \<Rightarrow> bool" where
  "is_der e \<longleftrightarrow> (\<exists>t c. tag_ok t \<and> length c < 2 ^ 32 \<and> e = der t c)"

lemma count_elements_split:
  "count_elements cbs = Some n \<Longrightarrow>
     \<exists>children. parse_n CBS_get_any_asn1_element n cbs = (Some children, []) \<and> length children = n \<and>
       cbs = concat (map elt_out children) \<and> list_all is_der (map elt_out children)"
proof (induction cbs arbitrary: n rule: count_elements.induct)
  case (1 cbs)
  show ?case
  proof (cases "length cbs = 0")
    case True
    then show ?thesis using "1.prems" by (subst (asm) count_elements.simps) auto
  next
    case False
    obtain e r where g: "CBS_get_any_asn1_element cbs = (Some e, r)"
      using "1.prems" False by (subst (asm) count_elements.simps) (auto split: prod.splits option.splits)
    then obtain m where m: "count_elements r = Some m" "n = Suc m"
      using "1.prems" False by (subst (asm) count_elements.simps) auto
    from "1.IH" [OF False g [symmetric] refl m(1)] obtain ch where
      ch: "parse_n CBS_get_any_asn1_element m r = (Some ch, [])" "length ch = m" "r = concat (map elt_out ch)"
        "list_all is_der (map elt_out ch)" by blast
    from CBS_get_any_asn1_element_sound [OF g] obtain t c where
      e: "tag_ok t" "length c < 2 ^ 32" "cbs = der t c @ r" "e = der_element t c" by blast
    then have "elt_out e = der t c" "is_der (elt_out e)" by (auto simp: der_element_def is_der_def)
    then show ?thesis using g m ch e by (intro exI [of _ "e # ch"]) simp
  qed
qed

lemma qsort_short: "length xs < 2 \<Longrightarrow> qsort cmp xs = xs"
  by (cases xs; cases "tl xs") (auto simp: qsort_def)

text \<open>Rewriting the innermost contents with as many other bytes.\<close>

lemma rewrite_innermost:
  assumes wf: "cbb_wf c" and k: "length (cbb_chain c) = k" and len: "length d = cb_len (cbb_base c) - CBB_data c k"
  shows "cbb_wf (cbb_set_buf c (write_at (cb_buf (cbb_base c)) (CBB_data c k) d)) \<and>
    CBB_abs (cbb_set_buf c (write_at (cb_buf (cbb_base c)) (CBB_data c k) d)) =
      (butlast (fst (CBB_abs c)) @ [d], snd (CBB_abs c))"
proof -
  let ?b = "cbb_base c" and ?o = "CBB_data c k"
  let ?b' = "?b\<lparr>cb_buf := write_at (cb_buf ?b) ?o d\<rparr>"
  have o: "?o \<le> cb_len ?b" using CBB_data_le [OF wf, of k] k by simp
  have bw: "buf_wf ?b" and cw: "chain_wf 0 (cbb_chain c) (cb_len ?b)" using wf by (simp_all add: cbb_wf_def)
  then have fit: "?o + length d = cb_len ?b" "cb_len ?b \<le> length (cb_buf ?b)"
    using len o by (simp_all add: buf_wf_def)
  have bw': "buf_wf ?b'" using bw fit by (simp add: buf_wf_def length_write_at)
  have w': "buf_written ?b' = take ?o (buf_written ?b) @ d"
    using fit o by (simp add: buf_written_def take_write_at_end min_def)
  have lt: "length (take ?o (buf_written ?b)) = ?o" using o bw by simp
  have "frames (buf_written ?b') 0 (take k (cbb_chain c)) = take k (frames (buf_written ?b) 0 (cbb_chain c)) @ [drop ?o (buf_written ?b')]"
    using take_frames [OF cw, of k "buf_written ?b'" "buf_written ?b"] k w' lt by (simp add: CBB_data_chain)
  moreover have "drop ?o (buf_written ?b') = d" using w' lt by simp
  moreover have "take k (frames (buf_written ?b) 0 (cbb_chain c)) = butlast (frames (buf_written ?b) 0 (cbb_chain c))"
    using k by (simp add: butlast_conv_take)
  ultimately show ?thesis using bw' cw k by (simp add: cbb_set_buf_def cbb_wf_def CBB_abs_def)
qed

lemma innermost_data:
  assumes wf: "cbb_wf c" and k: "length (cbb_chain c) = k"
  shows "read_at (cb_buf (cbb_base c)) (CBB_data c k) (CBB_len c k) = last (fst (CBB_abs c)) \<and>
    length (last (fst (CBB_abs c))) = cb_len (cbb_base c) - CBB_data c k"
proof -
  let ?w = "buf_written (cbb_base c)"
  have bw: "buf_wf (cbb_base c)" using wf by (simp add: cbb_wf_def)
  have "CBB_len c k = cb_len (cbb_base c) - CBB_data c k" by (simp add: CBB_len_def CBB_data_def)
  then have "read_at (cb_buf (cbb_base c)) (CBB_data c k) (CBB_len c k) = drop (CBB_data c k) ?w"
    by (simp add: read_at_def buf_written_def drop_take)
  moreover have "drop k (fst (CBB_abs c)) = [drop (CBB_data c k) ?w]"
    using drop_frames [of k "cbb_chain c" ?w 0] k by (simp add: CBB_abs_def CBB_data_chain)
  then have "last (fst (CBB_abs c)) = drop (CBB_data c k) ?w"
    by (metis append_take_drop_id last_snoc)
  ultimately show ?thesis using bw by simp
qed

lemma CBB_flush_asn1_set_of_sorts:
  assumes wf: "cbb_wf c" and M: "malloc_ok M" and ok: "CBB_flush_asn1_set_of M c k = (True, c')"
  shows "cbb_wf c' \<and> (\<exists>fs ks es. spec_flush k (CBB_abs c) = Some (fs, ks) \<and> last fs = concat es \<and>
    list_all is_der es \<and> CBB_abs c' = (butlast fs @ [concat (qsort compare_set_of_element es)], ks))"
proof -
  obtain c1 where fl: "CBB_flush M c k = (True, c1)"
    using ok by (auto simp: CBB_flush_asn1_set_of_def split: prod.splits bool.splits)
  note f = CBB_flush_True [OF wf M fl]
  then have wf1: "cbb_wf c1" and k: "length (cbb_chain c1) = k" unfolding grown_def by blast+
  let ?t = "last (fst (CBB_abs c1))"
  note d = innermost_data [OF wf1 k]
  obtain n where n: "count_elements ?t = Some n"
    using ok fl d by (auto simp: CBB_flush_asn1_set_of_def Let_def split: option.splits)
  from count_elements_split [OF n] obtain ch where
    ch: "parse_n CBS_get_any_asn1_element n ?t = (Some ch, [])" "length ch = n"
      "?t = concat (map elt_out ch)" "list_all is_der (map elt_out ch)" by blast
  let ?es = "map elt_out ch" and ?s = "concat (qsort compare_set_of_element (map elt_out ch))"
  have len: "length ?s = length ?t"
  proof -
    have "mset (qsort compare_set_of_element ?es) = mset ?es" using set_of.qsort_sorted by blast
    then have "mset (map length (qsort compare_set_of_element ?es)) = mset (map length ?es)" by (simp only: mset_map)
    then show ?thesis unfolding ch(3) length_concat by (metis sum_mset_sum_list)
  qed
  have "cbb_wf c' \<and> CBB_abs c' = (butlast (fst (CBB_abs c1)) @ [?s], snd (CBB_abs c1))"
  proof (cases "n < 2")
    case True
    then have "c' = c1" using ok fl d n by (simp add: CBB_flush_asn1_set_of_def Let_def)
    moreover have "?s = ?t" using True ch qsort_short [of ?es] by simp
    moreover have "fst (CBB_abs c1) \<noteq> []" by (simp add: CBB_abs_def)
    ultimately show ?thesis using wf1 by simp
  next
    case False
    have "length ?t < 2 ^ 64" using d wf1 by (auto simp: cbb_wf_def buf_wf_def)
    then have dup: "OPENSSL_memdup M ?t = Some b \<Longrightarrow> b = ?t" for b using OPENSSL_memdup_copy [OF M] by blast
    have "c' = cbb_set_buf c1 (write_at (cb_buf (cbb_base c1)) (CBB_data c1 k) ?s)"
      using ok fl d n False ch dup
      by (auto simp: CBB_flush_asn1_set_of_def Let_def split: option.splits prod.splits)
    then show ?thesis using rewrite_innermost [OF wf1 k, of ?s] len d by simp
  qed
  then show ?thesis using f ch by (cases "CBB_abs c1") auto
qed

section \<open>Properties\<close>

text \<open>
  C30: a successful \<^verbatim>\<open>CBB_flush_asn1_set_of\<close> leaves in the child the same elements it held, each as often, in
  the lexicographic order of their encodings that DER requires of a SET OF (\<open>precedes\<close>); everything else of the builder is
  as \<^verbatim>\<open>CBB_flush\<close> leaves it.
\<close>

theorem set_of_sorted:
  assumes "cbb_wf c" and "malloc_ok M" and "CBB_flush_asn1_set_of M c k = (True, c')"
  shows "cbb_wf c' \<and> (\<exists>fs ks es es'. spec_flush k (CBB_abs c) = Some (fs, ks) \<and> last fs = concat es \<and>
    list_all is_der es \<and> mset es' = mset es \<and> sorted_wrt precedes es' \<and>
    CBB_abs c' = (butlast fs @ [concat es'], ks))"
  using CBB_flush_asn1_set_of_sorts [OF assms] set_of.qsort_sorted unfolding compare_precedes by metis

text \<open>A fixed buffer with two elements, \<^verbatim>\<open>INTEGER 2\<close> before \<^verbatim>\<open>INTEGER 1\<close>.\<close>

definition sample_set :: "bytes \<Rightarrow> CBB" where
  "sample_set buf = \<lparr>cbb_base = \<lparr>cb_buf = buf, cb_len = 6, cb_cap = 6, cb_can_resize = False, cb_error = False\<rparr>,
     cbb_chain = []\<rparr>"

lemma sample_set_sorts:
  "CBB_flush_asn1_set_of plentiful (sample_set [2, 1, 2, 2, 1, 1]) 0 = (True, sample_set [2, 1, 1, 2, 1, 2])"
proof -
  have fl: "CBB_flush plentiful (sample_set buf) 0 = (True, sample_set buf)" for buf
    by (simp add: CBB_flush.simps sample_set_def cbb_live_def)
  have d: "der 2 [x] = [2, 1, x]" for x by (simp add: der_def der_tag_def der_len_def)
  have get: "CBS_get_any_asn1_element (2 # 1 # x # r) = (Some (der_element 2 [x]), r)" for x r
    using CBS_get_any_asn1_element_complete [of 2 "[x]" r] by (simp add: d tag_ok_def CBS_ASN1_CONSTRUCTED_def CBS_ASN1_TAG_SHIFT_def)
  have cnt: "count_elements [2, 1, 2, 2, 1, 1] = Some 2"
    by (simp add: count_elements.simps [of "2 # _"] count_elements.simps [of "[]"] get)
  have "OPENSSL_memdup plentiful [2, 1, 2, 2, 1, 1] = Some [2, 1, 2, 2, 1, 1]" "OPENSSL_calloc plentiful 2 16 \<noteq> None"
    by (simp_all add: OPENSSL_memdup_def OPENSSL_calloc_def OPENSSL_zalloc_def OPENSSL_malloc_def plentiful_def size_add_def
        size_mul_def SIZE_MAX_def OPENSSL_MALLOC_PREFIX_def write_at_def)
  moreover have "parse_n CBS_get_any_asn1_element 2 [2, 1, 2, 2, 1, 1] = (Some [der_element 2 [2], der_element 2 [1]], [])"
    by (simp add: numeral_2_eq_2 get)
  moreover have "concat (qsort compare_set_of_element [[2, 1, 2], [2, 1, 1]]) = [2, 1, 1, 2, 1, 2]"
    by (simp add: qsort_def compare_set_of_element_def)
  moreover have "cb_buf (cbb_base (sample_set b)) = b" "CBB_len (sample_set b) 0 = 6" "CBB_data (sample_set b) 0 = 0"
    "cbb_set_buf (sample_set b) b' = sample_set b'" for b b'
    by (simp_all add: sample_set_def CBB_len_def CBB_data_def cbb_set_buf_def)
  ultimately show ?thesis
    by (auto simp: CBB_flush_asn1_set_of_def fl cnt der_element_def d Let_def read_at_def write_at_def)
qed

theorem set_of_sorted_witness:
  "CBB_flush_asn1_set_of plentiful (sample_set [2, 1, 2, 2, 1, 1]) 0 = (True, sample_set [2, 1, 1, 2, 1, 2]) \<and>
   (\<exists>es'. sorted_wrt precedes es' \<and> concat es' = [2, 1, 1, 2, 1, 2])"
proof -
  have "cbb_wf (sample_set [2, 1, 2, 2, 1, 1])" by (simp add: sample_set_def cbb_wf_def buf_wf_def)
  from set_of_sorted [OF this malloc_ok_plentiful sample_set_sorts] obtain fs ks es' where
    "sorted_wrt precedes es'"
    "CBB_abs (sample_set [2, 1, 1, 2, 1, 2]) = (butlast fs @ [concat es'], ks)" by blast
  moreover have "CBB_abs (sample_set [2, 1, 1, 2, 1, 2]) = ([[2, 1, 1, 2, 1, 2]], [])"
    by (simp add: sample_set_def CBB_abs_def buf_written_def)
  ultimately show ?thesis using sample_set_sorts by auto
qed

end
