(* ===== verification/Stack.thy ===== *)
theory Stack
  imports Mem Cmp_Order
begin

text \<open>
  \<^verbatim>\<open>crypto/stack/stack.c\<close>: the growable array of pointers. A pointer is \<open>None\<close> for \<^verbatim>\<open>NULL\<close>
  or \<open>Some p\<close>; pointer equality is equality. A \<^verbatim>\<open>OPENSSL_STACK *\<close> argument that the code
  compares with \<^verbatim>\<open>NULL\<close> is an option. \<^verbatim>\<open>comp\<close> is the function pointer that \<^verbatim>\<open>call_cmp_func\<close> is
  applied to; both are kept as in the code, with \<open>call_cmp_func\<close> a parameter. The cells of a grown
  array beyond the old ones hold indeterminate pointers in C; no operation reads a cell at or above
  \<^verbatim>\<open>num\<close>, and the model keeps \<^verbatim>\<open>NULL\<close> there.
\<close>

type_synonym 'p ptr = "'p option"
type_synonym ('p, 'f) call_cmp = "'f \<Rightarrow> 'p ptr \<Rightarrow> 'p ptr \<Rightarrow> int"

record ('p, 'f) stack_st =
  sk_num :: nat
  sk_data :: "'p ptr list"
  sk_sorted :: bool
  sk_num_alloc :: nat
  sk_comp :: "'f option"

section \<open>Arrays of pointers\<close>

definition sizeof_ptr :: nat where
  "sizeof_ptr = 8"

definition sizeof_stack :: nat where
  "sizeof_stack = 40"

definition ptr_calloc :: "allocator \<Rightarrow> nat \<Rightarrow> 'p ptr list option" where
  "ptr_calloc M num = (case OPENSSL_calloc M num sizeof_ptr of None \<Rightarrow> None | Some _ \<Rightarrow> Some (replicate num None))"

definition ptr_realloc :: "allocator \<Rightarrow> 'p ptr list \<Rightarrow> nat \<Rightarrow> 'p ptr list option" where
  "ptr_realloc M data alloc_size =
     (case OPENSSL_malloc M alloc_size of
        None \<Rightarrow> None
      | Some _ \<Rightarrow> (let n = alloc_size div sizeof_ptr in Some (take n data @ replicate (n - length data) None)))"

definition ptr_memdup :: "allocator \<Rightarrow> 'p ptr list \<Rightarrow> 'p ptr list option" where
  "ptr_memdup M data =
     (if sizeof_ptr * length data = 0 then None
      else case OPENSSL_malloc M (size_mul sizeof_ptr (length data)) of None \<Rightarrow> None | Some _ \<Rightarrow> Some data)"

section \<open>Construction and access\<close>

definition kMinSize :: nat where
  "kMinSize = 4"

definition OPENSSL_sk_new :: "allocator \<Rightarrow> 'f option \<Rightarrow> ('p, 'f) stack_st option" where
  "OPENSSL_sk_new M comp_func =
     (case OPENSSL_zalloc M sizeof_stack of
        None \<Rightarrow> None
      | Some _ \<Rightarrow>
          (case ptr_calloc M kMinSize of
             None \<Rightarrow> None
           | Some data \<Rightarrow>
               Some \<lparr>sk_num = 0, sk_data = data, sk_sorted = False, sk_num_alloc = kMinSize, sk_comp = comp_func\<rparr>))"

definition OPENSSL_sk_new_null :: "allocator \<Rightarrow> ('p, 'f) stack_st option" where
  "OPENSSL_sk_new_null M = OPENSSL_sk_new M None"

definition OPENSSL_sk_num :: "('p, 'f) stack_st option \<Rightarrow> nat" where
  "OPENSSL_sk_num sk = (case sk of None \<Rightarrow> 0 | Some sk \<Rightarrow> sk_num sk)"

definition OPENSSL_sk_zero :: "('p, 'f) stack_st option \<Rightarrow> ('p, 'f) stack_st option" where
  "OPENSSL_sk_zero sk =
     (case sk of
        None \<Rightarrow> None
      | Some s \<Rightarrow>
          if sk_num s = 0 then Some s
          else Some (s\<lparr>sk_data := write_at (sk_data s) 0 (replicate (sk_num s) None), sk_num := 0, sk_sorted := False\<rparr>))"

definition OPENSSL_sk_value :: "('p, 'f) stack_st option \<Rightarrow> nat \<Rightarrow> 'p ptr" where
  "OPENSSL_sk_value sk i =
     (case sk of None \<Rightarrow> None | Some s \<Rightarrow> if i \<ge> sk_num s then None else sk_data s ! i)"

definition OPENSSL_sk_set ::
    "('p, 'f) stack_st option \<Rightarrow> nat \<Rightarrow> 'p ptr \<Rightarrow> 'p ptr \<times> ('p, 'f) stack_st option" where
  "OPENSSL_sk_set sk i value =
     (case sk of
        None \<Rightarrow> (None, None)
      | Some s \<Rightarrow> if i \<ge> sk_num s then (None, Some s) else (value, Some (s\<lparr>sk_data := (sk_data s)[i := value]\<rparr>)))"

text \<open>\<^verbatim>\<open>OPENSSL_sk_pop_free_ex\<close>: the pointers \<^verbatim>\<open>free_func\<close> is called with, in order, before the stack is freed.\<close>

definition OPENSSL_sk_pop_free_ex :: "('p, 'f) stack_st option \<Rightarrow> 'p ptr list" where
  "OPENSSL_sk_pop_free_ex sk =
     (case sk of None \<Rightarrow> [] | Some s \<Rightarrow> filter (\<lambda>p. p \<noteq> None) (take (sk_num s) (sk_data s)))"

section \<open>Insertion and deletion\<close>

text \<open>The size the array is grown to, or \<open>None\<close> on overflow.\<close>

definition sk_grow_size :: "nat \<Rightarrow> (nat \<times> nat) option" where
  "sk_grow_size num_alloc =
     (let new_alloc = size_mul num_alloc 2;
          alloc_size = size_mul new_alloc sizeof_ptr;
          (new_alloc, alloc_size) =
            (if new_alloc < num_alloc \<or> alloc_size div sizeof_ptr \<noteq> new_alloc
             then (size_add num_alloc 1, size_mul (size_add num_alloc 1) sizeof_ptr)
             else (new_alloc, alloc_size))
      in if new_alloc < num_alloc \<or> alloc_size div sizeof_ptr \<noteq> new_alloc then None
         else Some (new_alloc, alloc_size))"

definition sk_grow :: "allocator \<Rightarrow> ('p, 'f) stack_st \<Rightarrow> ('p, 'f) stack_st option" where
  "sk_grow M s =
     (if sk_num_alloc s \<le> sk_num s + 1 then
        (case sk_grow_size (sk_num_alloc s) of
           None \<Rightarrow> None
         | Some (new_alloc, alloc_size) \<Rightarrow>
             (case ptr_realloc M (sk_data s) alloc_size of
                None \<Rightarrow> None
              | Some data \<Rightarrow> Some (s\<lparr>sk_data := data, sk_num_alloc := new_alloc\<rparr>)))
      else Some s)"

definition OPENSSL_sk_insert ::
    "allocator \<Rightarrow> ('p, 'f) stack_st option \<Rightarrow> 'p ptr \<Rightarrow> nat \<Rightarrow> nat \<times> ('p, 'f) stack_st option" where
  "OPENSSL_sk_insert M sk p pos =
     (case sk of
        None \<Rightarrow> (0, None)
      | Some s \<Rightarrow>
          if sk_num s \<ge> INT_MAX then (0, Some s)
          else case sk_grow M s of
                 None \<Rightarrow> (0, Some s)
               | Some s \<Rightarrow>
                   (let data = (if pos \<ge> sk_num s then (sk_data s)[sk_num s := p]
                                else (memmove_at (sk_data s) (pos + 1) pos (sk_num s - pos))[pos := p])
                    in (sk_num s + 1, Some (s\<lparr>sk_data := data, sk_num := sk_num s + 1, sk_sorted := False\<rparr>))))"

definition OPENSSL_sk_delete ::
    "('p, 'f) stack_st option \<Rightarrow> nat \<Rightarrow> 'p ptr \<times> ('p, 'f) stack_st option" where
  "OPENSSL_sk_delete sk pos =
     (case sk of
        None \<Rightarrow> (None, None)
      | Some s \<Rightarrow>
          if pos \<ge> sk_num s then (None, Some s)
          else let ret = sk_data s ! pos;
                   data = (if pos \<noteq> sk_num s - 1 then memmove_at (sk_data s) pos (pos + 1) (sk_num s - pos - 1)
                           else sk_data s)
               in (ret, Some (s\<lparr>sk_data := data, sk_num := sk_num s - 1\<rparr>)))"

text \<open>The linear scans of the code: the first index below \<^verbatim>\<open>num\<close> that passes the test.\<close>

function sk_scan :: "('a \<Rightarrow> bool) \<Rightarrow> 'a list \<Rightarrow> nat \<Rightarrow> nat \<Rightarrow> nat option" where
  "sk_scan P data i num = (if i < num then (if P (data ! i) then Some i else sk_scan P data (i + 1) num) else None)"
  by pat_completeness auto
termination
  by (relation "measure (\<lambda>(P, data, i, num). num - i)") auto

declare sk_scan.simps [simp del]

definition OPENSSL_sk_delete_ptr ::
    "('p, 'f) stack_st option \<Rightarrow> 'p ptr \<Rightarrow> 'p ptr \<times> ('p, 'f) stack_st option" where
  "OPENSSL_sk_delete_ptr sk p =
     (case sk of
        None \<Rightarrow> (None, None)
      | Some s \<Rightarrow>
          (case sk_scan (\<lambda>q. q = p) (sk_data s) 0 (sk_num s) of
             None \<Rightarrow> (None, Some s)
           | Some i \<Rightarrow> OPENSSL_sk_delete (Some s) i))"

text \<open>The loop of \<^verbatim>\<open>OPENSSL_sk_delete_if\<close> with its counters \<^verbatim>\<open>i\<close> and \<^verbatim>\<open>new_num\<close>.\<close>

function delete_if_loop :: "('a \<Rightarrow> bool) \<Rightarrow> 'a list \<Rightarrow> nat \<Rightarrow> nat \<Rightarrow> nat \<Rightarrow> 'a list \<times> nat" where
  "delete_if_loop func data new_num i num =
     (if i < num then
        (if \<not> func (data ! i) then delete_if_loop func (data[new_num := data ! i]) (new_num + 1) (i + 1) num
         else delete_if_loop func data new_num (i + 1) num)
      else (data, new_num))"
  by pat_completeness auto
termination
  by (relation "measure (\<lambda>(func, data, new_num, i, num). num - i)") auto

declare delete_if_loop.simps [simp del]

definition OPENSSL_sk_delete_if ::
    "('p, 'f) stack_st option \<Rightarrow> ('p ptr \<Rightarrow> bool) \<Rightarrow> ('p, 'f) stack_st option" where
  "OPENSSL_sk_delete_if sk func =
     (case sk of
        None \<Rightarrow> None
      | Some s \<Rightarrow>
          (case delete_if_loop func (sk_data s) 0 0 (sk_num s) of
             (data, new_num) \<Rightarrow> Some (s\<lparr>sk_data := data, sk_num := new_num\<rparr>)))"

section \<open>Sorting and searching\<close>

definition OPENSSL_sk_is_sorted :: "('p, 'f) stack_st option \<Rightarrow> bool" where
  "OPENSSL_sk_is_sorted sk =
     (case sk of None \<Rightarrow> True | Some s \<Rightarrow> sk_sorted s \<or> (sk_comp s \<noteq> None \<and> sk_num s < 2))"

text \<open>\<open>Some i\<close>: the function returns one and stores \<open>i\<close> at \<^verbatim>\<open>out_index\<close>.\<close>

definition OPENSSL_sk_find ::
    "('p, 'f) stack_st option \<Rightarrow> 'p ptr \<Rightarrow> ('p, 'f) call_cmp \<Rightarrow> nat option" where
  "OPENSSL_sk_find sk p call_cmp_func =
     (case sk of
        None \<Rightarrow> None
      | Some s \<Rightarrow>
          (case sk_comp s of
             None \<Rightarrow> sk_scan (\<lambda>q. q = p) (sk_data s) 0 (sk_num s)
           | Some comp_func \<Rightarrow>
               if p = None then None
               else if \<not> OPENSSL_sk_is_sorted (Some s) then
                 sk_scan (\<lambda>q. call_cmp_func comp_func p q = 0) (sk_data s) 0 (sk_num s)
               else sk_bsearch (call_cmp_func comp_func) p (sk_data s) 0 (sk_num s)))"

definition OPENSSL_sk_shift :: "('p, 'f) stack_st option \<Rightarrow> 'p ptr \<times> ('p, 'f) stack_st option" where
  "OPENSSL_sk_shift sk =
     (case sk of
        None \<Rightarrow> (None, None)
      | Some s \<Rightarrow> if sk_num s = 0 then (None, Some s) else OPENSSL_sk_delete (Some s) 0)"

definition OPENSSL_sk_push ::
    "allocator \<Rightarrow> ('p, 'f) stack_st \<Rightarrow> 'p ptr \<Rightarrow> nat \<times> ('p, 'f) stack_st option" where
  \<comment> \<open>the code reads \<^verbatim>\<open>sk->num\<close> before any comparison with \<^verbatim>\<open>NULL\<close>\<close>
  "OPENSSL_sk_push M sk p = OPENSSL_sk_insert M (Some sk) p (sk_num sk)"

definition OPENSSL_sk_pop :: "('p, 'f) stack_st option \<Rightarrow> 'p ptr \<times> ('p, 'f) stack_st option" where
  "OPENSSL_sk_pop sk =
     (case sk of
        None \<Rightarrow> (None, None)
      | Some s \<Rightarrow> if sk_num s = 0 then (None, Some s) else OPENSSL_sk_delete (Some s) (sk_num s - 1))"

definition OPENSSL_sk_dup :: "allocator \<Rightarrow> ('p, 'f) stack_st option \<Rightarrow> ('p, 'f) stack_st option" where
  "OPENSSL_sk_dup M sk =
     (case sk of
        None \<Rightarrow> None
      | Some s \<Rightarrow>
          (case OPENSSL_zalloc M sizeof_stack of
             None \<Rightarrow> None
           | Some _ \<Rightarrow>
               (case ptr_memdup M (take (sk_num_alloc s) (sk_data s)) of
                  None \<Rightarrow> None
                | Some data \<Rightarrow>
                    Some \<lparr>sk_num = sk_num s, sk_data = data, sk_sorted = sk_sorted s,
                          sk_num_alloc = sk_num_alloc s, sk_comp = sk_comp s\<rparr>)))"

definition OPENSSL_sk_sort ::
    "('p, 'f) stack_st option \<Rightarrow> ('p, 'f) call_cmp \<Rightarrow> ('p, 'f) stack_st option" where
  "OPENSSL_sk_sort sk call_cmp_func =
     (case sk of
        None \<Rightarrow> None
      | Some s \<Rightarrow>
          (case sk_comp s of
             None \<Rightarrow> Some s
           | Some comp_func \<Rightarrow>
               if sk_sorted s then Some s
               else let cmp = call_cmp_func comp_func;
                        data = (if sk_num s \<ge> 2
                                then drain_heap cmp
                                       (build_heap cmp (sk_data s) (Suc (parent_idx (sk_num s - 1))) (sk_num s))
                                       (sk_num s - 1)
                                else sk_data s)
                    in Some (s\<lparr>sk_data := data, sk_sorted := True\<rparr>)))"

definition OPENSSL_sk_set_cmp_func ::
    "('p, 'f) stack_st \<Rightarrow> 'f option \<Rightarrow> 'f option \<times> ('p, 'f) stack_st" where
  "OPENSSL_sk_set_cmp_func sk comp_func =
     (let old = sk_comp sk;
          sk = (if sk_comp sk \<noteq> comp_func then sk\<lparr>sk_sorted := False\<rparr> else sk)
      in (old, sk\<lparr>sk_comp := comp_func\<rparr>))"

text \<open>
  The copy loop of \<^verbatim>\<open>OPENSSL_sk_deep_copy\<close>. \<open>copy i p\<close> is what the call of \<^verbatim>\<open>copy_func\<close> for element
  \<open>i\<close> returns. On failure the result is \<open>Inl\<close> with the copies that are freed again.
\<close>

function deep_copy_loop :: "(nat \<Rightarrow> 'p \<Rightarrow> 'p ptr) \<Rightarrow> 'p ptr list \<Rightarrow> nat \<Rightarrow> nat \<Rightarrow> 'p ptr list + 'p ptr list" where
  "deep_copy_loop copy data i num =
     (if i < num then
        (case data ! i of
           None \<Rightarrow> deep_copy_loop copy data (i + 1) num
         | Some p \<Rightarrow>
             (case copy i p of
                None \<Rightarrow> Inl (filter (\<lambda>p. p \<noteq> None) (take i data))
              | Some q \<Rightarrow> deep_copy_loop copy (data[i := Some q]) (i + 1) num))
      else Inr data)"
  by pat_completeness auto
termination
  by (relation "measure (\<lambda>(copy, data, i, num). num - i)") auto

declare deep_copy_loop.simps [simp del]

definition OPENSSL_sk_deep_copy ::
    "allocator \<Rightarrow> (nat \<Rightarrow> 'p \<Rightarrow> 'p ptr) \<Rightarrow> ('p, 'f) stack_st option \<Rightarrow> ('p, 'f) stack_st option \<times> 'p ptr list" where
  "OPENSSL_sk_deep_copy M copy sk =
     (case OPENSSL_sk_dup M sk of
        None \<Rightarrow> (None, [])
      | Some ret \<Rightarrow>
          (case deep_copy_loop copy (sk_data ret) 0 (sk_num ret) of
             Inl freed \<Rightarrow> (None, freed)
           | Inr data \<Rightarrow> (Some (ret\<lparr>sk_data := data\<rparr>), [])))"

section \<open>What the stack holds\<close>

definition sk_wf :: "('p, 'f) stack_st \<Rightarrow> bool" where
  "sk_wf s \<longleftrightarrow> length (sk_data s) = sk_num_alloc s \<and> sk_num s < sk_num_alloc s \<and> sk_num s \<le> INT_MAX"

definition sk_list :: "('p, 'f) stack_st \<Rightarrow> 'p ptr list" where
  "sk_list s = take (sk_num s) (sk_data s)"

text \<open>The meaning of the \<^verbatim>\<open>sorted\<close> flag, from the comment on the struct.\<close>

definition sk_flag_ok :: "('p, 'f) call_cmp \<Rightarrow> ('p, 'f) stack_st \<Rightarrow> bool" where
  "sk_flag_ok call_cmp_func s \<longleftrightarrow>
     (sk_sorted s \<longrightarrow> (case sk_comp s of None \<Rightarrow> True | Some f \<Rightarrow> sorted_by (call_cmp_func f) (sk_list s)))"

lemma length_sk_list [simp]: "sk_wf s \<Longrightarrow> length (sk_list s) = sk_num s"
  by (simp add: sk_list_def sk_wf_def)

lemma nth_sk_list: "sk_wf s \<Longrightarrow> i < sk_num s \<Longrightarrow> sk_list s ! i = sk_data s ! i"
  by (simp add: sk_list_def)

lemma sk_new_empty:
  assumes "OPENSSL_sk_new M f = Some s"
  shows "sk_wf s \<and> sk_list s = [] \<and> sk_comp s = f \<and> \<not> sk_sorted s"
  using assms by (auto simp: OPENSSL_sk_new_def ptr_calloc_def sk_wf_def sk_list_def kMinSize_def INT_MAX_def
      split: option.splits)

lemma sk_grow_keeps:
  assumes wf: "sk_wf s" and num: "sk_num s < INT_MAX" and g: "sk_grow M s = Some s'"
  shows "length (sk_data s') = sk_num_alloc s' \<and> sk_num s + 1 < sk_num_alloc s' \<and> sk_num s' = sk_num s \<and>
    sk_list s' = sk_list s \<and> sk_comp s' = sk_comp s \<and> sk_sorted s' = sk_sorted s"
proof (cases "sk_num_alloc s \<le> sk_num s + 1")
  case False
  then show ?thesis using g wf by (simp add: sk_grow_def sk_wf_def)
next
  case True
  then have a: "sk_num_alloc s = sk_num s + 1" using wf by (simp add: sk_wf_def)
  have lt: "sk_num_alloc s \<le> INT_MAX" using a num by simp
  then have "sk_grow_size (sk_num_alloc s) = Some (sk_num_alloc s * 2, sk_num_alloc s * 2 * 8)"
    by (simp add: sk_grow_size_def size_mul_def size_add_def sizeof_ptr_def INT_MAX_def)
  then obtain data where d: "ptr_realloc M (sk_data s) (sk_num_alloc s * 2 * 8) = Some data"
    and s': "s' = s\<lparr>sk_data := data, sk_num_alloc := sk_num_alloc s * 2\<rparr>"
    using g True by (auto simp: sk_grow_def split: option.splits)
  have "length data = sk_num_alloc s * 2" and "take (sk_num s) data = take (sk_num s) (sk_data s)"
    using d wf by (auto simp: ptr_realloc_def sizeof_ptr_def sk_wf_def split: option.splits)
  then show ?thesis using s' a by (simp add: sk_list_def)
qed

lemma memmove_insert:
  assumes "pos < n" and "n < length data"
  shows "take (Suc n) ((memmove_at data (pos + 1) pos (n - pos))[pos := p]) =
    take pos (take n data) @ [p] @ drop pos (take n data)"
proof -
  have rd: "read_at data pos (n - pos) = drop pos (take n data)"
    by (simp add: read_at_def drop_take)
  let ?m = "memmove_at data (pos + 1) pos (n - pos)"
  have len: "length ?m = length data" using assms
    by (simp add: memmove_at_def length_write_at length_read_at)
  have "take (Suc n) ?m = take (pos + 1) data @ drop pos (take n data)"
    unfolding memmove_at_def rd using assms by (subst take_write_at_end) auto
  then have "take (Suc n) (?m[pos := p]) = (take (pos + 1) data @ drop pos (take n data))[pos := p]"
    by (simp only: take_update_swap)
  also have "\<dots> = take pos data @ [p] @ drop pos (take n data)"
    using assms by (simp add: take_Suc_conv_app_nth list_update_append)
  finally show ?thesis using assms by (simp add: min_def)
qed

lemma sk_insert_list:
  assumes wf: "sk_wf s" and r: "OPENSSL_sk_insert M (Some s) p pos = (n, Some s')" and n: "n \<noteq> 0"
  shows "sk_wf s' \<and> n = sk_num s' \<and> sk_list s' = take pos (sk_list s) @ [p] @ drop pos (sk_list s) \<and>
    sk_comp s' = sk_comp s \<and> \<not> sk_sorted s'"
proof -
  have num: "sk_num s < INT_MAX"
    using r n by (auto simp: OPENSSL_sk_insert_def split: if_splits)
  obtain g where g: "sk_grow M s = Some g"
    using r n num by (auto simp: OPENSSL_sk_insert_def split: option.splits)
  note k = sk_grow_keeps [OF wf num g]
  define data where "data = (if pos \<ge> sk_num g then (sk_data g)[sk_num g := p]
      else (memmove_at (sk_data g) (pos + 1) pos (sk_num g - pos))[pos := p])"
  have s': "n = sk_num g + 1" "s' = g\<lparr>sk_data := data, sk_num := sk_num g + 1, sk_sorted := False\<rparr>"
    using r num g by (auto simp: OPENSSL_sk_insert_def Let_def data_def)
  have len: "length data = sk_num_alloc g"
    using k by (auto simp: data_def memmove_at_def length_write_at length_read_at)
  have "take (Suc (sk_num g)) data = take pos (sk_list g) @ [p] @ drop pos (sk_list g)"
  proof (cases "pos \<ge> sk_num g")
    case True
    then show ?thesis using k by (simp add: data_def sk_list_def take_Suc_conv_app_nth)
  next
    case False
    then show ?thesis using memmove_insert [of pos "sk_num g" "sk_data g" p] k by (simp add: data_def sk_list_def)
  qed
  then have "sk_list s' = take pos (sk_list s) @ [p] @ drop pos (sk_list s)"
    using s' k by (subst sk_list_def) simp
  then show ?thesis using s' k len num by (simp add: sk_wf_def)
qed

text \<open>Insertion fails only when the stack is full or memory runs out, and then changes nothing.\<close>

lemma sk_insert_fails:
  assumes "OPENSSL_sk_insert M (Some s) p pos = (0, s')"
  shows "s' = Some s \<and> (sk_num s \<ge> INT_MAX \<or> sk_grow M s = None)"
  using assms by (auto simp: OPENSSL_sk_insert_def Let_def split: if_splits option.splits)

lemma memmove_delete:
  assumes "pos < n" and "n \<le> length data"
  shows "take (n - 1) (memmove_at data pos (pos + 1) (n - pos - 1)) = take pos data @ drop (pos + 1) (take n data)"
proof -
  have rd: "read_at data (pos + 1) (n - pos - 1) = drop (pos + 1) (take n data)"
    by (simp add: read_at_def drop_take)
  show ?thesis unfolding memmove_at_def rd using assms by (subst take_write_at_end) auto
qed

lemma sk_delete_list:
  assumes wf: "sk_wf s" and pos: "pos < sk_num s"
  shows "\<exists>s'. OPENSSL_sk_delete (Some s) pos = (sk_list s ! pos, Some s') \<and> sk_wf s' \<and>
    sk_list s' = take pos (sk_list s) @ drop (pos + 1) (sk_list s) \<and> sk_comp s' = sk_comp s \<and> sk_sorted s' = sk_sorted s"
proof -
  let ?n = "sk_num s" and ?d = "sk_data s"
  define data where "data = (if pos \<noteq> ?n - 1 then memmove_at ?d pos (pos + 1) (?n - pos - 1) else ?d)"
  have n: "?n \<le> length ?d" using wf by (simp add: sk_wf_def)
  have len: "length data = length ?d"
    using n pos by (simp add: data_def memmove_at_def length_write_at length_read_at)
  have "take (?n - 1) data = take pos ?d @ drop (pos + 1) (take ?n ?d)"
  proof (cases "pos = ?n - 1")
    case True
    then show ?thesis using pos n by (simp add: data_def)
  next
    case False
    then show ?thesis using memmove_delete [OF pos n] by (simp add: data_def)
  qed
  moreover have "take pos ?d = take pos (take ?n ?d)" using pos by (simp add: min_def)
  ultimately have "take (?n - 1) data = take pos (sk_list s) @ drop (pos + 1) (sk_list s)"
    by (simp only: sk_list_def)
  moreover have "OPENSSL_sk_delete (Some s) pos = (sk_list s ! pos, Some (s\<lparr>sk_data := data, sk_num := ?n - 1\<rparr>))"
    using pos wf by (simp add: OPENSSL_sk_delete_def Let_def data_def nth_sk_list)
  moreover have "sk_wf (s\<lparr>sk_data := data, sk_num := ?n - 1\<rparr>)"
    using wf len by (auto simp: sk_wf_def)
  ultimately show ?thesis by (simp add: sk_list_def)
qed

section \<open>Scans, deletion by predicate and sorting\<close>

lemma sk_scan_first:
  "num \<le> length data \<Longrightarrow> i \<le> num \<Longrightarrow>
     sk_scan P data i num = map_option (\<lambda>k. i + k) (first_index P (drop i (take num data)))"
proof (induction "num - i" arbitrary: i rule: less_induct)
  case less
  show ?case
  proof (cases "i < num")
    case True
    then have "drop i (take num data) = data ! i # drop (i + 1) (take num data)"
      using less.prems by (simp add: Cons_nth_drop_Suc [symmetric])
    then show ?thesis
      using True less.hyps [of "i + 1"] less.prems
      by (cases "first_index P (drop (i + 1) (take num data))"; subst sk_scan.simps; simp)
  next
    case False
    then show ?thesis using less.prems by (subst sk_scan.simps) simp
  qed
qed

lemma sk_scan_list: "sk_wf s \<Longrightarrow> sk_scan P (sk_data s) 0 (sk_num s) = first_index P (sk_list s)"
  using sk_scan_first [of "sk_num s" "sk_data s" 0 P] by (simp add: sk_wf_def sk_list_def option.map_ident)

lemma remove1_first_index:
  "first_index (\<lambda>q. q = p) xs = Some i \<Longrightarrow> take i xs @ drop (i + 1) xs = remove1 p xs"
proof (induction xs arbitrary: i)
  case (Cons x xs)
  then show ?case by (auto split: if_splits)
qed simp

lemma delete_if_loop_filter:
  assumes "num \<le> length data" and "new \<le> i" and "i \<le> num"
  shows "\<exists>data'. delete_if_loop func data new i num = (data', new + length (filter (\<lambda>x. \<not> func x) (drop i (take num data)))) \<and>
    length data' = length data \<and>
    take (new + length (filter (\<lambda>x. \<not> func x) (drop i (take num data)))) data' =
      take new data @ filter (\<lambda>x. \<not> func x) (drop i (take num data))"
  using assms
proof (induction "num - i" arbitrary: i new data rule: less_induct)
  case less
  show ?case
  proof (cases "i < num")
    case True
    have d: "drop i (take num data) = data ! i # drop (i + 1) (take num data)"
      using True less.prems by (simp add: Cons_nth_drop_Suc [symmetric])
    show ?thesis
    proof (cases "func (data ! i)")
      case drop_it: True
      then show ?thesis
        using True less.hyps [of "i + 1" data new] less.prems d by (subst delete_if_loop.simps) simp
    next
      case False
      let ?data = "data[new := data ! i]"
      have "drop (i + 1) (take num ?data) = drop (i + 1) (take num data)"
        using less.prems by (simp add: take_update_swap)
      moreover have "take (new + 1) ?data = take new data @ [data ! i]"
        using less.prems True by (simp add: take_Suc_conv_app_nth)
      ultimately show ?thesis
        using True False less.hyps [of "i + 1" ?data "new + 1"] less.prems d
        by (subst delete_if_loop.simps) simp
    qed
  next
    case False
    then show ?thesis using less.prems by (subst delete_if_loop.simps) simp
  qed
qed

lemma sk_delete_if_list:
  assumes wf: "sk_wf s"
  shows "\<exists>s'. OPENSSL_sk_delete_if (Some s) func = Some s' \<and> sk_wf s' \<and>
    sk_list s' = filter (\<lambda>x. \<not> func x) (sk_list s) \<and> sk_comp s' = sk_comp s \<and> sk_sorted s' = sk_sorted s"
proof -
  let ?l = "filter (\<lambda>x. \<not> func x) (sk_list s)"
  obtain data where d: "delete_if_loop func (sk_data s) 0 0 (sk_num s) = (data, length ?l)"
    "length data = length (sk_data s)" "take (length ?l) data = ?l"
    using delete_if_loop_filter [of "sk_num s" "sk_data s" 0 0 func] wf by (auto simp: sk_wf_def sk_list_def)
  have "length ?l \<le> sk_num s" using length_filter_le [of _ "sk_list s"] wf by (metis length_sk_list)
  then show ?thesis
    using d wf by (auto simp: OPENSSL_sk_delete_if_def sk_wf_def sk_list_def)
qed

lemma sorted_by_sub:
  assumes "sorted_by cmp (xs @ ys @ zs)"
  shows "sorted_by cmp (xs @ zs)"
  unfolding sorted_by_def
proof (intro allI impI)
  fix j i assume j: "j < length (xs @ zs)" and i: "i \<le> j"
  let ?f = "\<lambda>k. if k < length xs then k else k + length ys"
  have nth: "(xs @ zs) ! k = (xs @ ys @ zs) ! ?f k" for k
  proof (cases "k < length xs")
    case False
    then obtain m where "k = length xs + m" using le_Suc_ex not_less by blast
    then show ?thesis by (simp add: add.commute [of m] add.assoc)
  qed (simp add: nth_append)
  have "?f i \<le> ?f j" "?f j < length (xs @ ys @ zs)" using i j by auto
  then show "cmp ((xs @ zs) ! i) ((xs @ zs) ! j) \<le> 0"
    unfolding nth using assms by (simp only: sorted_by_def)
qed

lemma sorted_by_pairwise: "sorted_by cmp xs \<Longrightarrow> sorted_wrt (\<lambda>a b. cmp a b \<le> 0) xs"
  by (simp add: sorted_by_def sorted_wrt_iff_nth_less)

lemma sk_sort_list:
  assumes wf: "sk_wf s" and f: "sk_comp s = Some f" and cmp: "total_cmp (call_cmp_func f)"
    and flag: "sk_flag_ok call_cmp_func s"
  shows "\<exists>s'. OPENSSL_sk_sort (Some s) call_cmp_func = Some s' \<and> sk_wf s' \<and> sk_sorted s' \<and> sk_comp s' = Some f \<and>
    sorted_by (call_cmp_func f) (sk_list s') \<and> mset (sk_list s') = mset (sk_list s)"
proof (cases "sk_sorted s")
  case True
  then show ?thesis using wf f flag by (simp add: OPENSSL_sk_sort_def sk_flag_ok_def)
next
  case False
  let ?cmp = "call_cmp_func f"
  show ?thesis
  proof (cases "2 \<le> sk_num s")
    case True
    have "sk_num s \<le> length (sk_data s)" using wf by (simp add: sk_wf_def)
    from total_cmp.heap_sort_sorted [OF cmp True this] show ?thesis
      using True False f wf by (simp add: OPENSSL_sk_sort_def Let_def sk_wf_def sk_list_def)
  next
    case few: False
    have "sorted_by ?cmp (sk_list s)"
      by (rule total_cmp.sorted_by_short [OF cmp]) (use few wf in simp)
    then show ?thesis
      using few False f wf by (simp add: OPENSSL_sk_sort_def Let_def sk_wf_def sk_list_def)
  qed
qed

lemma sk_find_first:
  assumes wf: "sk_wf s" and f: "sk_comp s = Some f" and cmp: "total_cmp (call_cmp_func f)"
    and flag: "sk_flag_ok call_cmp_func s" and p: "p \<noteq> None"
  shows "OPENSSL_sk_find (Some s) p call_cmp_func = first_index (\<lambda>q. call_cmp_func f p q = 0) (sk_list s)"
proof (cases "OPENSSL_sk_is_sorted (Some s)")
  case False
  then show ?thesis using f p sk_scan_list [OF wf] by (auto simp: OPENSSL_sk_find_def)
next
  case True
  let ?cmp = "call_cmp_func f" and ?l = "sk_list s"
  have "sorted_by ?cmp ?l"
  proof (cases "sk_sorted s")
    case True
    then show ?thesis using flag f by (simp add: sk_flag_ok_def)
  next
    case False
    then have "sk_num s < 2" using True f by (simp add: OPENSSL_sk_is_sorted_def)
    then show ?thesis by (intro total_cmp.sorted_by_short [OF cmp]) (use wf in simp)
  qed
  then have "sk_bsearch ?cmp p ?l 0 (sk_num s) = first_index (\<lambda>q. ?cmp p q = 0) ?l"
    by (rule total_cmp.sk_bsearch_first [OF cmp]) (use wf in \<open>auto simp: first_index_Some\<close>)
  moreover have "sk_bsearch ?cmp p ?l 0 (sk_num s) = sk_bsearch ?cmp p (sk_data s) 0 (sk_num s)"
    unfolding sk_list_def by (rule sk_bsearch_take) simp
  ultimately show ?thesis using True f p by (auto simp: OPENSSL_sk_find_def)
qed

lemma sorted_by_filter:
  assumes "total_cmp cmp" and "sorted_by cmp xs"
  shows "sorted_by cmp (filter P xs)"
proof -
  have "sorted_wrt (\<lambda>a b. cmp a b \<le> 0) (filter P xs)"
    using sorted_by_pairwise [OF assms(2)] by (rule sorted_wrt_filter)
  then show ?thesis
    using total_cmp.cmp_refl [OF assms(1)] unfolding sorted_by_def sorted_wrt_iff_nth_less by (metis le_neq_implies_less order_refl)
qed

section \<open>Reachable stacks\<close>

text \<open>
  The stacks that the operations can produce, starting from \<^verbatim>\<open>OPENSSL_sk_new\<close>, in any order. Two
  operations replace elements without clearing the \<^verbatim>\<open>sorted\<close> flag: \<^verbatim>\<open>OPENSSL_sk_set\<close>, which is
  taken on stacks that are not flagged as sorted, and \<^verbatim>\<open>OPENSSL_sk_deep_copy\<close>, which is taken on those and,
  on a sorted stack, when every copy compares equal to its original. The others have any arguments.
\<close>

definition copies_equal :: "('p, 'f) call_cmp \<Rightarrow> ('p, 'f) stack_st \<Rightarrow> (nat \<Rightarrow> 'p \<Rightarrow> 'p ptr) \<Rightarrow> bool" where
  "copies_equal cc s copy \<longleftrightarrow>
     (\<forall>f i p q. sk_comp s = Some f \<and> i < sk_num s \<and> sk_data s ! i = Some p \<and> copy i p = Some q \<longrightarrow>
        cc f (Some p) (Some q) = 0)"

inductive sk_reach :: "allocator \<Rightarrow> ('p, 'f) call_cmp \<Rightarrow> ('p, 'f) stack_st \<Rightarrow> bool"
  for M :: allocator and cc :: "('p, 'f) call_cmp" where
  new: "OPENSSL_sk_new M f = Some s \<Longrightarrow> sk_reach M cc s"
| insert: "sk_reach M cc s \<Longrightarrow> OPENSSL_sk_insert M (Some s) p pos = (n, Some s') \<Longrightarrow> sk_reach M cc s'"
| delete: "sk_reach M cc s \<Longrightarrow> OPENSSL_sk_delete (Some s) pos = (p, Some s') \<Longrightarrow> sk_reach M cc s'"
| delete_ptr: "sk_reach M cc s \<Longrightarrow> OPENSSL_sk_delete_ptr (Some s) q = (p, Some s') \<Longrightarrow> sk_reach M cc s'"
| delete_if: "sk_reach M cc s \<Longrightarrow> OPENSSL_sk_delete_if (Some s) func = Some s' \<Longrightarrow> sk_reach M cc s'"
| shift: "sk_reach M cc s \<Longrightarrow> OPENSSL_sk_shift (Some s) = (p, Some s') \<Longrightarrow> sk_reach M cc s'"
| pop: "sk_reach M cc s \<Longrightarrow> OPENSSL_sk_pop (Some s) = (p, Some s') \<Longrightarrow> sk_reach M cc s'"
| zero: "sk_reach M cc s \<Longrightarrow> OPENSSL_sk_zero (Some s) = Some s' \<Longrightarrow> sk_reach M cc s'"
| sort: "sk_reach M cc s \<Longrightarrow> OPENSSL_sk_sort (Some s) cc = Some s' \<Longrightarrow> sk_reach M cc s'"
| set_cmp: "sk_reach M cc s \<Longrightarrow> OPENSSL_sk_set_cmp_func s f = (old, s') \<Longrightarrow> sk_reach M cc s'"
| dup: "sk_reach M cc s \<Longrightarrow> OPENSSL_sk_dup M (Some s) = Some s' \<Longrightarrow> sk_reach M cc s'"
| push: "sk_reach M cc s \<Longrightarrow> OPENSSL_sk_push M s p = (n, Some s') \<Longrightarrow> sk_reach M cc s'"
| set: "sk_reach M cc s \<Longrightarrow> \<not> sk_sorted s \<Longrightarrow> OPENSSL_sk_set (Some s) i p = (q, Some s') \<Longrightarrow> sk_reach M cc s'"
| deep_copy: "sk_reach M cc s \<Longrightarrow> \<not> sk_sorted s \<or> copies_equal cc s copy \<Longrightarrow>
    OPENSSL_sk_deep_copy M copy (Some s) = (Some s', freed) \<Longrightarrow> sk_reach M cc s'"

definition sk_inv :: "('p, 'f) call_cmp \<Rightarrow> ('p, 'f) stack_st \<Rightarrow> bool" where
  "sk_inv cc s \<longleftrightarrow> sk_wf s \<and> sk_flag_ok cc s"

lemma sk_inv_sublist:
  assumes "sk_inv cc s" and "sk_wf s'" and "sk_list s' = take i (sk_list s) @ drop j (sk_list s)" and "i \<le> j"
    and "sk_comp s' = sk_comp s" and "sk_sorted s' = sk_sorted s"
  shows "sk_inv cc s'"
proof -
  have l: "sk_list s = take i (sk_list s) @ take (j - i) (drop i (sk_list s)) @ drop j (sk_list s)"
    using assms(4) by (metis append_take_drop_id drop_drop le_add_diff_inverse2)
  have "sorted_by cmp (sk_list s')" if "sorted_by cmp (sk_list s)" for cmp
    using sorted_by_sub that l assms(3) by metis
  then show ?thesis using assms by (auto simp: sk_inv_def sk_flag_ok_def split: option.splits)
qed

lemma sk_inv_delete:
  assumes inv: "sk_inv cc s" and d: "OPENSSL_sk_delete (Some s) pos = (p, Some s')"
  shows "sk_inv cc s'"
proof (cases "pos < sk_num s")
  case True
  have "sk_wf s" using inv by (simp add: sk_inv_def)
  from sk_delete_list [OF this True] d have "sk_wf s'" "sk_list s' = take pos (sk_list s) @ drop (pos + 1) (sk_list s)"
    "sk_comp s' = sk_comp s" "sk_sorted s' = sk_sorted s" by auto
  then show ?thesis by (intro sk_inv_sublist [OF inv, of s' pos "pos + 1"]) simp_all
next
  case False
  then show ?thesis using inv d by (simp add: OPENSSL_sk_delete_def)
qed

lemma sk_inv_insert:
  assumes inv: "sk_inv cc s" and i: "OPENSSL_sk_insert M (Some s) p pos = (n, Some s')"
  shows "sk_inv cc s'"
proof (cases "n = 0")
  case True
  then show ?thesis using sk_insert_fails [of M s p pos "Some s'"] i inv by simp
next
  case False
  then show ?thesis using sk_insert_list [OF _ i] inv by (simp add: sk_inv_def sk_flag_ok_def)
qed

lemma sk_inv_delete_if:
  assumes cmp: "\<And>f. total_cmp (cc f)" and inv: "sk_inv cc s" and d: "OPENSSL_sk_delete_if (Some s) func = Some s'"
  shows "sk_inv cc s'"
proof -
  have "sk_wf s" using inv by (simp add: sk_inv_def)
  from sk_delete_if_list [OF this, of func] d have "sk_wf s'" "sk_list s' = filter (\<lambda>x. \<not> func x) (sk_list s)"
    "sk_comp s' = sk_comp s" "sk_sorted s' = sk_sorted s" by auto
  then show ?thesis
    using inv sorted_by_filter [OF cmp] by (auto simp: sk_inv_def sk_flag_ok_def split: option.splits)
qed

lemma sk_inv_sort:
  assumes cmp: "\<And>f. total_cmp (cc f)" and inv: "sk_inv cc s" and d: "OPENSSL_sk_sort (Some s) cc = Some s'"
  shows "sk_inv cc s'"
proof (cases "sk_comp s")
  case None
  then show ?thesis using inv d by (simp add: OPENSSL_sk_sort_def)
next
  case (Some f)
  then show ?thesis using sk_sort_list [of s f cc] cmp inv d by (auto simp: sk_inv_def sk_flag_ok_def)
qed

lemma sk_inv_dup:
  assumes "sk_inv cc s" and "OPENSSL_sk_dup M (Some s) = Some s'"
  shows "sk_inv cc s' \<and> s' = s"
proof -
  have "sk_data s' = sk_data s"
    using assms by (auto simp: OPENSSL_sk_dup_def ptr_memdup_def sk_inv_def sk_wf_def split: option.splits if_splits)
  then have "s' = s" using assms(2) by (auto simp: OPENSSL_sk_dup_def split: option.splits)
  then show ?thesis using assms(1) by simp
qed

lemma deep_copy_loop_copies:
  assumes "deep_copy_loop copy data i num = Inr data'" and "num \<le> length data"
  shows "length data' = length data \<and> (\<forall>j. data' ! j = data ! j \<or>
    i \<le> j \<and> j < num \<and> (\<exists>p q. data ! j = Some p \<and> copy j p = Some q \<and> data' ! j = Some q))"
  using assms
proof (induction copy data i num rule: deep_copy_loop.induct)
  case (1 copy data i num)
  show ?case
  proof (cases "i < num")
    case False
    then show ?thesis using "1.prems" by (simp add: deep_copy_loop.simps)
  next
    case i: True
    show ?thesis
    proof (cases "data ! i")
      case None
      then have "deep_copy_loop copy data (i + 1) num = Inr data'" using "1.prems"(1) i by (simp add: deep_copy_loop.simps [of _ _ i])
      then show ?thesis using "1.IH"(1) [OF i None _ "1.prems"(2)] by (auto dest: Suc_leD)
    next
      case (Some p)
      then obtain q where q: "copy i p = Some q" "deep_copy_loop copy (data[i := Some q]) (i + 1) num = Inr data'"
        using "1.prems"(1) i by (auto simp: deep_copy_loop.simps [of _ _ i] split: option.splits)
      from "1.IH"(2) [OF i Some q] "1.prems"(2)
      have l: "length data' = length data" and e: "data' ! j = data[i := Some q] ! j \<or> i + 1 \<le> j \<and> j < num \<and>
        (\<exists>p' q'. data[i := Some q] ! j = Some p' \<and> copy j p' = Some q' \<and> data' ! j = Some q')" for j by auto
      have "data' ! j = data ! j \<or>
        i \<le> j \<and> j < num \<and> (\<exists>p q. data ! j = Some p \<and> copy j p = Some q \<and> data' ! j = Some q)" for j
        using e [of j] Some q(1) i "1.prems"(2) by (cases "j = i") auto
      then show ?thesis using l by blast
    qed
  qed
qed

lemma sorted_by_equal:
  assumes "total_cmp cmp" and "sorted_by cmp xs" and "length ys = length xs"
    and "\<And>i. i < length xs \<Longrightarrow> cmp (xs ! i) (ys ! i) = 0"
  shows "sorted_by cmp ys"
  unfolding sorted_by_def
proof (intro allI impI)
  fix i j assume j: "j < length ys" "i \<le> j"
  then have "cmp (ys ! i) (xs ! i) \<le> 0" "cmp (xs ! j) (ys ! j) \<le> 0"
    using assms(3,4) total_cmp.cmp_eq_sym [OF assms(1), of "xs ! i" "ys ! i"] by auto
  moreover have "cmp (xs ! i) (xs ! j) \<le> 0" using assms(2,3) j by (auto simp: sorted_by_def)
  ultimately show "cmp (ys ! i) (ys ! j) \<le> 0" using total_cmp.cmp_trans [OF assms(1)] by blast
qed

lemma sk_inv_deep_copy:
  assumes cmp: "\<And>f. total_cmp (cc f)" and inv: "sk_inv cc s" and eq: "\<not> sk_sorted s \<or> copies_equal cc s copy"
    and d: "OPENSSL_sk_deep_copy M copy (Some s) = (Some s', freed)"
  shows "sk_inv cc s'"
proof -
  obtain data where l: "deep_copy_loop copy (sk_data s) 0 (sk_num s) = Inr data" and s': "s' = s\<lparr>sk_data := data\<rparr>"
    using d sk_inv_dup [OF inv] by (auto simp: OPENSSL_sk_deep_copy_def split: option.splits sum.splits)
  have wf: "sk_wf s" using inv by (simp add: sk_inv_def)
  then have "sk_num s \<le> length (sk_data s)" by (simp add: sk_wf_def)
  note c = deep_copy_loop_copies [OF l this]
  have wf': "sk_wf s'" using wf c by (simp add: s' sk_wf_def)
  have "sorted_by (cc f) (sk_list s')" if f: "sk_sorted s" "sk_comp s = Some f" for f
  proof (rule sorted_by_equal [OF cmp])
    show "sorted_by (cc f) (sk_list s)" using inv f by (simp add: sk_inv_def sk_flag_ok_def)
    show "length (sk_list s') = length (sk_list s)" using wf wf' by (simp add: s')
    fix i assume "i < length (sk_list s)"
    then have i: "i < sk_num s" using wf by simp
    have "data ! i = sk_data s ! i \<or> (\<exists>p q. sk_data s ! i = Some p \<and> copy i p = Some q \<and> data ! i = Some q)" using c by blast
    then have "cc f (sk_data s ! i) (data ! i) = 0"
      using eq f i total_cmp.cmp_refl [OF cmp] by (auto simp: copies_equal_def)
    then show "cc f (sk_list s ! i) (sk_list s' ! i) = 0" using i by (simp add: sk_list_def s')
  qed
  then show ?thesis using wf' by (auto simp: sk_inv_def sk_flag_ok_def s' split: option.splits)
qed

lemma sk_reach_inv:
  assumes cmp: "\<And>f. total_cmp (cc f)" and "sk_reach M cc s"
  shows "sk_inv cc s"
  using assms(2)
proof induction
  case (new f s)
  then show ?case using sk_new_empty by (fastforce simp: sk_inv_def sk_flag_ok_def)
next
  case (insert s p pos n s')
  then show ?case using sk_inv_insert by blast
next
  case (delete s pos p s')
  then show ?case using sk_inv_delete by blast
next
  case (delete_ptr s q p s')
  then show ?case using sk_inv_delete by (fastforce simp: OPENSSL_sk_delete_ptr_def split: option.splits)
next
  case (delete_if s func s')
  then show ?case using sk_inv_delete_if [where cc = cc, OF cmp] by blast
next
  case (shift s p s')
  then show ?case using sk_inv_delete by (fastforce simp: OPENSSL_sk_shift_def split: if_splits)
next
  case (pop s p s')
  then show ?case using sk_inv_delete by (fastforce simp: OPENSSL_sk_pop_def split: if_splits)
next
  case (zero s s')
  then show ?case
    by (auto simp: OPENSSL_sk_zero_def sk_inv_def sk_wf_def sk_flag_ok_def length_write_at split: if_splits)
next
  case (sort s s')
  then show ?case using sk_inv_sort [where cc = cc, OF cmp] by blast
next
  case (set_cmp s f old s')
  then show ?case
    by (auto simp: OPENSSL_sk_set_cmp_func_def Let_def sk_inv_def sk_wf_def sk_flag_ok_def sk_list_def
        split: if_splits option.splits)
next
  case (dup s s')
  then show ?case using sk_inv_dup by blast
next
  case (push s p n s')
  then show ?case using sk_inv_insert by (fastforce simp: OPENSSL_sk_push_def)
next
  case (set s i p q s')
  then show ?case by (auto simp: OPENSSL_sk_set_def sk_inv_def sk_wf_def sk_flag_ok_def split: if_splits)
next
  case (deep_copy s copy s' freed)
  then show ?case using sk_inv_deep_copy [where cc = cc, OF cmp] by blast
qed

section \<open>Properties\<close>

text \<open>A comparison of numbers, with \<^verbatim>\<open>NULL\<close> first, and the stacks used in the examples.\<close>

definition key_cmp :: "(nat, unit) call_cmp" where
  "key_cmp f p q = (case p of None \<Rightarrow> 0 | Some n \<Rightarrow> 1 + int n) - (case q of None \<Rightarrow> 0 | Some n \<Rightarrow> 1 + int n)"

definition sample_stack :: "nat list \<Rightarrow> bool \<Rightarrow> (nat, unit) stack_st" where
  "sample_stack xs srt = \<lparr>sk_num = length xs, sk_data = map Some xs @ replicate (4 - length xs) None, sk_sorted = srt,
     sk_num_alloc = 4, sk_comp = Some ()\<rparr>"

lemma key_cmp_total: "total_cmp (key_cmp f)"
  by unfold_locales (auto simp: key_cmp_def)

lemma sample_new: "OPENSSL_sk_new plentiful (Some ()) = Some (sample_stack [] False)"
  by (simp add: OPENSSL_sk_new_def OPENSSL_zalloc_def OPENSSL_malloc_def ptr_calloc_def OPENSSL_calloc_def plentiful_def
      size_add_def size_mul_def sizeof_ptr_def sizeof_stack_def kMinSize_def OPENSSL_MALLOC_PREFIX_def SIZE_MAX_def sample_stack_def)

lemma sample_insert:
  "length xs < 3 \<Longrightarrow> pos = length xs \<Longrightarrow>
     OPENSSL_sk_insert plentiful (Some (sample_stack xs srt)) (Some x) pos =
       (Suc (length xs), Some (sample_stack (xs @ [x]) False))"
proof -
  assume a: "length xs < 3" "pos = length xs"
  then have "4 - length xs = Suc (4 - Suc (length xs))" by arith
  then have "replicate (4 - length xs) (None :: nat option) = None # replicate (4 - Suc (length xs)) None" by simp
  then show ?thesis
    using a by (simp add: OPENSSL_sk_insert_def sk_grow_def sample_stack_def INT_MAX_def list_update_append)
qed

lemma sample_reach: "length xs \<le> 3 \<Longrightarrow> sk_reach plentiful key_cmp (sample_stack xs False)"
proof (induction xs rule: rev_induct)
  case Nil
  then show ?case using sample_new by (rule_tac sk_reach.new)
next
  case (snoc x xs)
  then show ?case using sample_insert [of xs "length xs" False x] by (auto intro: sk_reach.insert)
qed

text \<open>
  C4: take any stack that the operations of \<^verbatim>\<open>stack.c\<close> can produce, in any order and whatever the allocator
  answers, where \<^verbatim>\<open>OPENSSL_sk_set\<close> is used only while the stack is not flagged as sorted and
  \<^verbatim>\<open>OPENSSL_sk_deep_copy\<close> of a sorted stack only with copies that compare equal to their originals, and
  where comparison functions are total preorders. Its array is large enough for its elements and, when the
  \<^verbatim>\<open>sorted\<close> flag is set, the elements are in ascending order; so, when a comparison function is set and \<open>p\<close> is
  not \<^verbatim>\<open>NULL\<close>, \<^verbatim>\<open>OPENSSL_sk_find\<close>, by scan or by binary search, returns the index of the first element
  that compares equal to \<open>p\<close>.
\<close>

theorem stack_find_reachable:
  assumes "\<And>f. total_cmp (cc f)" and "sk_reach M cc s" and "sk_comp s = Some f" and "p \<noteq> None"
  shows "sk_num s \<le> length (sk_data s) \<and> sk_flag_ok cc s \<and>
    OPENSSL_sk_find (Some s) p cc = first_index (\<lambda>q. cc f p q = 0) (sk_list s)"
proof -
  have "sk_wf s" "sk_flag_ok cc s" using sk_reach_inv [OF assms(1,2)] by (simp_all add: sk_inv_def)
  then show ?thesis using sk_find_first [OF _ assms(3,1) _ assms(4)] by (simp add: sk_wf_def)
qed

theorem stack_find_reachable_witness:
  "OPENSSL_sk_find (Some (sample_stack [5, 2, 2] False)) (Some 2) key_cmp = Some 1 \<and>
   OPENSSL_sk_find (Some (sample_stack [2, 2, 5] True)) (Some 5) key_cmp = Some 2"
proof -
  have "OPENSSL_sk_sort (Some (sample_stack [5, 2, 2] False)) key_cmp = Some (sample_stack [2, 2, 5] True)" by code_simp
  then have r: "sk_reach plentiful key_cmp (sample_stack [2, 2, 5] True)"
    by (intro sk_reach.sort [OF sample_reach]) simp_all
  show ?thesis
    using stack_find_reachable [OF key_cmp_total sample_reach, of "[5, 2, 2]" "()" "Some 2"]
      stack_find_reachable [OF key_cmp_total r, of "()" "Some 5"]
    by (simp add: sample_stack_def sk_list_def key_cmp_def)
qed

text \<open>
  C34: \<^verbatim>\<open>OPENSSL_sk_sort\<close> leaves the elements in ascending order, keeps each as often as it was
  there, and sets the flag.
\<close>

theorem stack_sort:
  assumes "sk_wf s" and "sk_comp s = Some f" and "total_cmp (cc f)" and "sk_flag_ok cc s"
  shows "\<exists>s'. OPENSSL_sk_sort (Some s) cc = Some s' \<and> sk_wf s' \<and> sk_sorted s' \<and>
    sorted_by (cc f) (sk_list s') \<and> mset (sk_list s') = mset (sk_list s)"
  using sk_sort_list [OF assms] by blast

theorem stack_sort_witness:
  "\<exists>s'. OPENSSL_sk_sort (Some (sample_stack [5, 2, 9] False)) key_cmp = Some s' \<and> sk_sorted s' \<and>
    sorted_by (key_cmp ()) (sk_list s') \<and> mset (sk_list s') = {#Some 5, Some 2, Some 9#}"
  using stack_sort [OF _ _ key_cmp_total, of "sample_stack [5, 2, 9] False" "()"]
  by (fastforce simp: sample_stack_def sk_wf_def sk_flag_ok_def sk_list_def INT_MAX_def)

text \<open>
  C35: \<^verbatim>\<open>OPENSSL_sk_insert\<close> either puts the pointer before position \<open>pos\<close> (at the end when \<open>pos\<close>
  is too large), growing the array as needed, and returns the new count, or returns zero and leaves
  the stack as it was, which happens only at \<^verbatim>\<open>INT_MAX\<close> elements or when the array cannot be grown.
\<close>

theorem stack_insert:
  assumes "sk_wf s" and "OPENSSL_sk_insert M (Some s) p pos = (n, s')"
  shows "if n = 0 then s' = Some s \<and> (sk_num s \<ge> INT_MAX \<or> sk_grow M s = None)
    else \<exists>t. s' = Some t \<and> sk_wf t \<and> n = sk_num s + 1 \<and> \<not> sk_sorted t \<and>
      sk_list t = take pos (sk_list s) @ [p] @ drop pos (sk_list s)"
proof (cases "n = 0")
  case True
  then show ?thesis using sk_insert_fails [of M s p pos s'] assms(2) by simp
next
  case False
  then obtain t where t: "s' = Some t" using assms(2) by (auto simp: OPENSSL_sk_insert_def Let_def split: if_splits option.splits)
  from sk_insert_list [OF assms(1) assms(2) [unfolded t] False]
  have r: "sk_wf t" "n = sk_num t" "sk_list t = take pos (sk_list s) @ [p] @ drop pos (sk_list s)" "\<not> sk_sorted t" by auto
  have "length (sk_list t) = length (sk_list s) + 1" unfolding r(3) by simp
  then have "sk_num t = sk_num s + 1" using r(1) assms(1) by simp
  then show ?thesis using False t r by simp
qed

theorem stack_insert_witness:
  "\<exists>t. OPENSSL_sk_insert plentiful (Some (sample_stack [5, 2] False)) (Some 9) 2 = (3, Some t) \<and>
     sk_list t = [Some 5, Some 2, Some 9]"
proof -
  have wf: "sk_wf (sample_stack [5, 2] False)" by (simp add: sample_stack_def sk_wf_def INT_MAX_def)
  have "OPENSSL_sk_insert plentiful (Some (sample_stack [5, 2] False)) (Some 9) 2 = (3, Some (sample_stack [5, 2, 9] False))"
    using sample_insert [of "[5, 2]" 2 False 9] by (simp add: numeral_eq_Suc)
  with stack_insert [OF wf this] show ?thesis by (simp add: sample_stack_def sk_list_def)
qed

text \<open>
  \<^verbatim>\<open>OPENSSL_sk_delete_if\<close> removes exactly the elements its function accepts and keeps the others
  in order; with them it keeps the meaning of the flag.
\<close>

lemma stack_delete_if:
  assumes "sk_wf s"
  shows "\<exists>s'. OPENSSL_sk_delete_if (Some s) func = Some s' \<and> sk_wf s' \<and>
    sk_list s' = filter (\<lambda>x. \<not> func x) (sk_list s) \<and> sk_sorted s' = sk_sorted s"
  using sk_delete_if_list [OF assms] by blast

text \<open>
  \<^verbatim>\<open>OPENSSL_sk_set\<close> stores into a sorted stack without clearing the \<^verbatim>\<open>sorted\<close> flag: there is a
  reachable sorted stack on which a pointer is stored by \<^verbatim>\<open>OPENSSL_sk_set\<close>, is then an element of the
  stack, and is not found by \<^verbatim>\<open>OPENSSL_sk_find\<close>.
\<close>

lemma stack_set_breaks_find:
  "\<exists>s s'. sk_reach plentiful key_cmp s \<and> sk_sorted s \<and>
     OPENSSL_sk_set (Some s) 0 (Some 9) = (Some 9, Some s') \<and> Some 9 \<in> set (sk_list s') \<and>
     OPENSSL_sk_find (Some s') (Some 9) key_cmp = None"
proof -
  have "OPENSSL_sk_sort (Some (sample_stack [1, 2, 3] False)) key_cmp = Some (sample_stack [1, 2, 3] True)"
    by code_simp
  then have "sk_reach plentiful key_cmp (sample_stack [1, 2, 3] True)"
    by (intro sk_reach.sort [OF sample_reach]) simp_all
  moreover have "OPENSSL_sk_set (Some (sample_stack [1, 2, 3] True)) 0 (Some 9) = (Some 9, Some (sample_stack [9, 2, 3] True))"
    by code_simp
  moreover have "OPENSSL_sk_find (Some (sample_stack [9, 2, 3] True)) (Some 9) key_cmp = None"
    by code_simp
  ultimately show ?thesis by (force simp: sample_stack_def sk_list_def)
qed

end
