(* ===== verification/Lhash.thy ===== *)
theory Lhash
  imports Mem "HOL-Library.Multiset"
begin

text \<open>
  \<^verbatim>\<open>crypto/lhash/lhash.c\<close>: the chained hash table. A chain is the list of its items from the head
  on; the pointer to a pointer that the search functions return is the index in the chain of the item
  found, or \<open>None\<close> when it points to the terminating \<^verbatim>\<open>NULL\<close>. The table keeps its two function
  pointers; \<^verbatim>\<open>call_hash_func\<close> and \<^verbatim>\<open>call_cmp_func\<close> only apply them.
\<close>

definition kMinNumBuckets :: nat where
  "kMinNumBuckets = 16"

definition kMaxAverageChainLength :: nat where
  "kMaxAverageChainLength = 2"

definition kMinAverageChainLength :: nat where
  "kMinAverageChainLength = 1"

record 'd lhash_item_st =
  it_data :: 'd
  it_hash :: u32

record 'd lhash_st =
  lh_num_items :: nat
  lh_buckets :: "'d lhash_item_st list list"
  lh_num_buckets :: nat
  lh_callback_depth :: u32
  lh_comp :: "'d \<Rightarrow> 'd \<Rightarrow> int"
  lh_hash :: "'d \<Rightarrow> u32"

definition sizeof_lhash :: nat where
  "sizeof_lhash = 48"

definition sizeof_lhash_item :: nat where
  "sizeof_lhash_item = 24"

definition OPENSSL_lh_new :: "allocator \<Rightarrow> ('d \<Rightarrow> u32) \<Rightarrow> ('d \<Rightarrow> 'd \<Rightarrow> int) \<Rightarrow> 'd lhash_st option" where
  "OPENSSL_lh_new M hash cmp =
     (case OPENSSL_zalloc M sizeof_lhash of
        None \<Rightarrow> None
      | Some _ \<Rightarrow>
          (case OPENSSL_calloc M kMinNumBuckets 8 of
             None \<Rightarrow> None
           | Some _ \<Rightarrow>
               Some \<lparr>lh_num_items = 0, lh_buckets = replicate kMinNumBuckets [], lh_num_buckets = kMinNumBuckets,
                     lh_callback_depth = 0, lh_comp = cmp, lh_hash = hash\<rparr>))"

text \<open>The data of the items in the order in which \<^verbatim>\<open>OPENSSL_lh_free\<close> frees them.\<close>

definition OPENSSL_lh_free :: "'d lhash_st option \<Rightarrow> 'd list" where
  "OPENSSL_lh_free lh = (case lh of None \<Rightarrow> [] | Some lh \<Rightarrow> map it_data (concat (lh_buckets lh)))"

definition OPENSSL_lh_num_items :: "'d lhash_st \<Rightarrow> nat" where
  "OPENSSL_lh_num_items lh = lh_num_items lh"

section \<open>Searching\<close>

fun chain_find :: "('d \<Rightarrow> bool) \<Rightarrow> 'd lhash_item_st list \<Rightarrow> nat option" where
  "chain_find P [] = None"
| "chain_find P (cur # rest) = (if P (it_data cur) then Some 0 else map_option Suc (chain_find P rest))"

definition bucket_of :: "'d lhash_st \<Rightarrow> u32 \<Rightarrow> nat" where
  "bucket_of lh hash = unat hash mod lh_num_buckets lh"

text \<open>The bucket, the index in its chain and the hash of \<open>data\<close>.\<close>

definition get_next_ptr_and_hash :: "'d lhash_st \<Rightarrow> 'd \<Rightarrow> nat \<times> nat option \<times> u32" where
  "get_next_ptr_and_hash lh data =
     (let hash = lh_hash lh data;
          b = bucket_of lh hash
      in (b, chain_find (\<lambda>d. lh_comp lh d data = 0) (lh_buckets lh ! b), hash))"

definition get_next_ptr_by_key :: "'d lhash_st \<Rightarrow> 'k \<Rightarrow> u32 \<Rightarrow> ('k \<Rightarrow> 'd \<Rightarrow> int) \<Rightarrow> nat \<times> nat option" where
  "get_next_ptr_by_key lh key key_hash cmp_key =
     (let b = bucket_of lh key_hash in (b, chain_find (\<lambda>d. cmp_key key d = 0) (lh_buckets lh ! b)))"

definition OPENSSL_lh_retrieve :: "'d lhash_st \<Rightarrow> 'd \<Rightarrow> 'd option" where
  "OPENSSL_lh_retrieve lh data =
     (case get_next_ptr_and_hash lh data of
        (b, None, _) \<Rightarrow> None
      | (b, Some i, _) \<Rightarrow> Some (it_data (lh_buckets lh ! b ! i)))"

definition OPENSSL_lh_retrieve_key :: "'d lhash_st \<Rightarrow> 'k \<Rightarrow> u32 \<Rightarrow> ('k \<Rightarrow> 'd \<Rightarrow> int) \<Rightarrow> 'd option" where
  "OPENSSL_lh_retrieve_key lh key key_hash cmp_key =
     (case get_next_ptr_by_key lh key key_hash cmp_key of
        (b, None) \<Rightarrow> None
      | (b, Some i) \<Rightarrow> Some (it_data (lh_buckets lh ! b ! i)))"

section \<open>Resizing\<close>

text \<open>The inner statement of the redistribution: \<^verbatim>\<open>cur\<close> becomes the head of its new chain.\<close>

definition rebucket_item :: "nat \<Rightarrow> 'd lhash_item_st \<Rightarrow> 'd lhash_item_st list list \<Rightarrow> 'd lhash_item_st list list" where
  "rebucket_item new_num_buckets cur new_buckets =
     (let new_bucket = unat (it_hash cur) mod new_num_buckets
      in new_buckets[new_bucket := cur # new_buckets ! new_bucket])"

definition lh_rebucket :: "allocator \<Rightarrow> 'd lhash_st \<Rightarrow> nat \<Rightarrow> 'd lhash_st" where
  "lh_rebucket M lh new_num_buckets =
     (let alloc_size = size_mul 8 new_num_buckets in
      if alloc_size div 8 \<noteq> new_num_buckets then lh
      else case OPENSSL_zalloc M alloc_size of
             None \<Rightarrow> lh
           | Some _ \<Rightarrow>
               lh\<lparr>lh_num_buckets := new_num_buckets,
                  lh_buckets := fold (fold (rebucket_item new_num_buckets)) (lh_buckets lh)
                                  (replicate new_num_buckets [])\<rparr>)"

definition lh_maybe_resize :: "allocator \<Rightarrow> 'd lhash_st \<Rightarrow> 'd lhash_st" where
  "lh_maybe_resize M lh =
     (if lh_callback_depth lh > 0 then lh
      else let avg_chain_length = lh_num_items lh div lh_num_buckets lh in
           if avg_chain_length > kMaxAverageChainLength then
             (let new_num_buckets = size_mul (lh_num_buckets lh) 2 in
              if new_num_buckets > lh_num_buckets lh then lh_rebucket M lh new_num_buckets else lh)
           else if avg_chain_length < kMinAverageChainLength \<and> lh_num_buckets lh > kMinNumBuckets then
             (let new_num_buckets = lh_num_buckets lh div 2;
                  new_num_buckets = (if new_num_buckets < kMinNumBuckets then kMinNumBuckets else new_num_buckets)
              in lh_rebucket M lh new_num_buckets)
           else lh)"

section \<open>Updating\<close>

definition set_chain :: "'d lhash_st \<Rightarrow> nat \<Rightarrow> 'd lhash_item_st list \<Rightarrow> 'd lhash_st" where
  "set_chain lh b chain = lh\<lparr>lh_buckets := (lh_buckets lh)[b := chain]\<rparr>"

text \<open>The result is the return value, \<^verbatim>\<open>*old_data\<close> and the table.\<close>

definition OPENSSL_lh_insert :: "allocator \<Rightarrow> 'd lhash_st \<Rightarrow> 'd \<Rightarrow> bool \<times> 'd option \<times> 'd lhash_st" where
  "OPENSSL_lh_insert M lh data =
     (case get_next_ptr_and_hash lh data of
        (b, Some i, _) \<Rightarrow>
          (let chain = lh_buckets lh ! b
           in (True, Some (it_data (chain ! i)), set_chain lh b (chain[i := (chain ! i)\<lparr>it_data := data\<rparr>])))
      | (b, None, hash) \<Rightarrow>
          (case OPENSSL_malloc M sizeof_lhash_item of
             None \<Rightarrow> (False, None, lh)
           | Some _ \<Rightarrow>
               (let lh = set_chain lh b (lh_buckets lh ! b @ [\<lparr>it_data = data, it_hash = hash\<rparr>]);
                    lh = lh\<lparr>lh_num_items := size_add (lh_num_items lh) 1\<rparr>
                in (True, None, lh_maybe_resize M lh))))"

definition OPENSSL_lh_delete :: "allocator \<Rightarrow> 'd lhash_st \<Rightarrow> 'd \<Rightarrow> 'd option \<times> 'd lhash_st" where
  "OPENSSL_lh_delete M lh data =
     (case get_next_ptr_and_hash lh data of
        (b, None, _) \<Rightarrow> (None, lh)
      | (b, Some i, _) \<Rightarrow>
          (let chain = lh_buckets lh ! b;
               ret = it_data (chain ! i);
               lh = set_chain lh b (take i chain @ drop (i + 1) chain);
               lh = lh\<lparr>lh_num_items := size_add (lh_num_items lh) (2 ^ 64 - 1)\<rparr>
           in (Some ret, lh_maybe_resize M lh)))"

text \<open>
  \<^verbatim>\<open>OPENSSL_lh_doall_arg\<close> for a callback that works on its own argument \<open>arg\<close> and does not call back
  into the table.
\<close>

definition OPENSSL_lh_doall_arg ::
    "allocator \<Rightarrow> 'd lhash_st option \<Rightarrow> ('d \<Rightarrow> 's \<Rightarrow> 's) \<Rightarrow> 's \<Rightarrow> 's \<times> 'd lhash_st option" where
  "OPENSSL_lh_doall_arg M lh func arg =
     (case lh of
        None \<Rightarrow> (arg, None)
      | Some lh \<Rightarrow>
          (let lh = (if lh_callback_depth lh < - 1 then lh\<lparr>lh_callback_depth := lh_callback_depth lh + 1\<rparr> else lh);
               arg = fold (fold (\<lambda>cur. func (it_data cur))) (lh_buckets lh) arg;
               lh = (if lh_callback_depth lh < - 1 then lh\<lparr>lh_callback_depth := lh_callback_depth lh - 1\<rparr> else lh)
           in (arg, Some (lh_maybe_resize M lh))))"

section \<open>The contract of the two functions\<close>

text \<open>
  What the table needs of the comparison and the hash it is created with: equality is an equivalence
  and equal elements have equal hashes.
\<close>

locale hash_contract =
  fixes hash :: "'d \<Rightarrow> u32" and cmp :: "'d \<Rightarrow> 'd \<Rightarrow> int"
  assumes eq_refl: "cmp a a = 0"
    and eq_sym: "cmp a b = 0 \<Longrightarrow> cmp b a = 0"
    and eq_trans: "cmp a b = 0 \<Longrightarrow> cmp b c = 0 \<Longrightarrow> cmp a c = 0"
    and eq_hash: "cmp a b = 0 \<Longrightarrow> hash a = hash b"

definition lh_data :: "'d lhash_st \<Rightarrow> 'd list" where
  "lh_data lh = map it_data (concat (lh_buckets lh))"

definition lh_set :: "'d lhash_st \<Rightarrow> 'd set" where
  "lh_set lh = set (lh_data lh)"

definition elements :: "'d lhash_st \<Rightarrow> 'd multiset" where
  "elements lh = mset (lh_data lh)"

text \<open>No two elements of the table are equal.\<close>

definition uniq :: "('d \<Rightarrow> 'd \<Rightarrow> int) \<Rightarrow> 'd list \<Rightarrow> bool" where
  "uniq cmp ds \<longleftrightarrow> (\<forall>a. length (filter (\<lambda>d. cmp d a = 0) ds) \<le> 1)"

definition placed :: "('d \<Rightarrow> u32) \<Rightarrow> nat \<Rightarrow> 'd lhash_item_st list list \<Rightarrow> bool" where
  "placed hash n bs \<longleftrightarrow> length bs = n \<and>
     (\<forall>b < n. \<forall>it\<in>set (bs ! b). it_hash it = hash (it_data it) \<and> unat (it_hash it) mod n = b)"

definition lh_wf :: "'d lhash_st \<Rightarrow> bool" where
  "lh_wf lh \<longleftrightarrow> kMinNumBuckets \<le> lh_num_buckets lh \<and> placed (lh_hash lh) (lh_num_buckets lh) (lh_buckets lh) \<and>
     lh_num_items lh = length (lh_data lh) mod 2 ^ 64 \<and> uniq (lh_comp lh) (lh_data lh)"

lemma uniq_mset: "mset xs = mset ys \<Longrightarrow> uniq cmp xs \<Longrightarrow> uniq cmp ys"
  unfolding uniq_def by (metis mset_filter size_mset)

lemma chain_find_Some:
  "chain_find P chain = Some i \<Longrightarrow> i < length chain \<and> P (it_data (chain ! i))"
proof (induction chain arbitrary: i)
  case (Cons it chain)
  then show ?case by (auto split: if_splits)
qed simp

lemma chain_find_None: "chain_find P chain = None \<longleftrightarrow> (\<forall>it\<in>set chain. \<not> P (it_data it))"
  by (induction chain) auto

lemma concat_update:
  assumes "b < length xs"
  shows "mset (concat (xs[b := ys])) + mset (xs ! b) = mset (concat xs) + mset ys"
  using assms
proof (induction xs arbitrary: b)
  case (Cons x xs)
  show ?case
  proof (cases b)
    case (Suc c)
    have "mset (concat (xs[c := ys])) + mset (xs ! c) = mset (concat xs) + mset ys"
      using Cons Suc by simp
    then have "mset x + (mset (concat (xs[c := ys])) + mset (xs ! c)) = mset x + (mset (concat xs) + mset ys)"
      by simp
    then show ?thesis using Suc by (simp add: add.assoc)
  qed (simp add: add.commute add.left_commute)
qed simp

lemma fold_fold_concat: "fold (fold f) xss a = fold f (concat xss) a"
  by (induction xss arbitrary: a) auto

lemma rebucket_fold:
  assumes n: "0 < n" and p: "length bs = n" "\<forall>b < n. \<forall>it\<in>set (bs ! b). unat (it_hash it) mod n = b"
  shows "length (fold (rebucket_item n) its bs) = n \<and>
    (\<forall>b < n. \<forall>it\<in>set (fold (rebucket_item n) its bs ! b). unat (it_hash it) mod n = b) \<and>
    mset (concat (fold (rebucket_item n) its bs)) = mset its + mset (concat bs)"
  using p
proof (induction its arbitrary: bs)
  case (Cons it its)
  let ?b = "unat (it_hash it) mod n" and ?bs = "rebucket_item n it bs"
  have b: "?b < length bs" using n Cons.prems by simp
  have "length ?bs = n" "\<forall>b < n. \<forall>it\<in>set (?bs ! b). unat (it_hash it) mod n = b"
    using Cons.prems b by (auto simp: rebucket_item_def Let_def nth_list_update)
  moreover have "mset (concat ?bs) = add_mset it (mset (concat bs))"
    using concat_update [OF b, of "it # bs ! ?b"] by (simp add: rebucket_item_def Let_def)
  ultimately show ?case using Cons.IH [of ?bs] by simp
qed simp

lemma placed_items:
  "placed hash n bs \<longleftrightarrow> length bs = n \<and> (\<forall>it\<in>set (concat bs). it_hash it = hash (it_data it)) \<and>
     (\<forall>b < n. \<forall>it\<in>set (bs ! b). unat (it_hash it) mod n = b)"
proof -
  have "set (concat bs) = (\<Union>b < length bs. set (bs ! b))"
    by (auto simp: in_set_conv_nth [of _ bs]) (metis nth_mem)
  then show ?thesis unfolding placed_def by (simp add: Ball_def) blast
qed

lemma placed_nth:
  "placed hash n bs \<Longrightarrow> b < length bs \<Longrightarrow> \<forall>it\<in>set (bs ! b). it_hash it = hash (it_data it) \<and> unat (it_hash it) mod n = b"
  unfolding placed_def by blast

lemma placed_update:
  assumes p: "placed hash n bs" and c: "\<forall>it\<in>set c. it_hash it = hash (it_data it) \<and> unat (it_hash it) mod n = b"
  shows "placed hash n (bs[b := c])"
proof -
  have len: "length bs = n" using p by (simp add: placed_def)
  have "\<forall>it\<in>set (bs[b := c] ! a). it_hash it = hash (it_data it) \<and> unat (it_hash it) mod n = a" if "a < n" for a
  proof (cases "a = b")
    case True
    then have "bs[b := c] ! a = c" using that len by simp
    then show ?thesis using c True by (simp only:)
  next
    case False
    then have "bs[b := c] ! a = bs ! a" by simp
    then show ?thesis using placed_nth [OF p, of a] that len by metis
  qed
  then show ?thesis using len unfolding placed_def length_list_update by blast
qed

lemma lh_rebucket_wf:
  assumes wf: "lh_wf lh" and n: "kMinNumBuckets \<le> n"
  shows "lh_wf (lh_rebucket M lh n) \<and> mset (lh_data (lh_rebucket M lh n)) = mset (lh_data lh) \<and>
    lh_comp (lh_rebucket M lh n) = lh_comp lh \<and> lh_hash (lh_rebucket M lh n) = lh_hash lh \<and>
    lh_num_items (lh_rebucket M lh n) = lh_num_items lh \<and> lh_callback_depth (lh_rebucket M lh n) = lh_callback_depth lh"
proof (cases "lh_rebucket M lh n = lh")
  case False
  let ?bs = "fold (fold (rebucket_item n)) (lh_buckets lh) (replicate n [])"
  have eq: "lh_rebucket M lh n = lh\<lparr>lh_num_buckets := n, lh_buckets := ?bs\<rparr>"
    using False by (auto simp: lh_rebucket_def Let_def split: if_splits option.splits)
  have n0: "0 < n" using n by (simp add: kMinNumBuckets_def)
  have r: "length ?bs = n" "\<forall>b < n. \<forall>it\<in>set (?bs ! b). unat (it_hash it) mod n = b"
    "mset (concat ?bs) = mset (concat (lh_buckets lh))"
    using rebucket_fold [OF n0, of "replicate n []" "concat (lh_buckets lh)"]
    by (simp_all add: fold_fold_concat)
  have d: "mset (lh_data (lh_rebucket M lh n)) = mset (lh_data lh)"
    using r(3) by (simp only: eq lh_data_def) (simp add: mset_map)
  have "set (concat ?bs) = set (concat (lh_buckets lh))" using r(3) by (rule mset_eq_setD)
  then have "placed (lh_hash lh) n ?bs"
    using r wf unfolding lh_wf_def placed_items by blast
  then have "lh_wf (lh_rebucket M lh n)"
    using wf n uniq_mset [OF d [symmetric]] mset_eq_length [OF d] by (simp add: lh_wf_def eq)
  then show ?thesis using d by (simp add: eq)
qed (use wf in simp)

lemma lh_maybe_resize_wf:
  assumes wf: "lh_wf lh"
  shows "lh_wf (lh_maybe_resize M lh) \<and> mset (lh_data (lh_maybe_resize M lh)) = mset (lh_data lh) \<and>
    lh_comp (lh_maybe_resize M lh) = lh_comp lh \<and> lh_hash (lh_maybe_resize M lh) = lh_hash lh"
proof -
  have "kMinNumBuckets \<le> lh_num_buckets lh" using wf by (simp add: lh_wf_def)
  then have "lh_maybe_resize M lh = lh \<or> (\<exists>n. kMinNumBuckets \<le> n \<and> lh_maybe_resize M lh = lh_rebucket M lh n)"
    unfolding lh_maybe_resize_def Let_def
    by (auto simp: not_less intro: exI [of _ "size_mul (lh_num_buckets lh) 2"] exI [of _ "lh_num_buckets lh div 2"])
  then show ?thesis using lh_rebucket_wf [OF wf] wf by metis
qed

lemma set_elements: "set_mset (elements lh) = lh_set lh"
  by (simp add: elements_def lh_set_def)

lemma doall_visits:
  assumes wf: "lh_wf lh"
  shows "\<exists>lh'. OPENSSL_lh_doall_arg M (Some lh) func arg = (fold func (lh_data lh) arg, Some lh') \<and>
    lh_wf lh' \<and> elements lh' = elements lh \<and> lh_hash lh' = lh_hash lh \<and> lh_comp lh' = lh_comp lh"
proof -
  have v: "fold (fold (\<lambda>cur. func (it_data cur))) bs arg = fold func (map it_data (concat bs)) arg" for bs
    by (simp add: fold_fold_concat fold_map comp_def)
  have w: "lh_wf (lh\<lparr>lh_callback_depth := d\<rparr>)" "lh_data (lh\<lparr>lh_callback_depth := d\<rparr>) = lh_data lh" for d
    using wf by (simp_all add: lh_wf_def lh_data_def)
  define lh2 where "lh2 = lh\<lparr>lh_callback_depth := lh_callback_depth
      (let lh1 = (if lh_callback_depth lh < - 1 then lh\<lparr>lh_callback_depth := lh_callback_depth lh + 1\<rparr> else lh)
       in (if lh_callback_depth lh1 < - 1 then lh1\<lparr>lh_callback_depth := lh_callback_depth lh1 - 1\<rparr> else lh1))\<rparr>"
  have "OPENSSL_lh_doall_arg M (Some lh) func arg = (fold func (lh_data lh) arg, Some (lh_maybe_resize M lh2))"
    by (simp add: OPENSSL_lh_doall_arg_def Let_def v lh_data_def lh2_def)
  moreover have "lh_wf lh2" "lh_data lh2 = lh_data lh" unfolding lh2_def by (rule w)+
  ultimately show ?thesis
    using lh_maybe_resize_wf [of lh2 M] by (simp add: elements_def lh2_def)
qed

section \<open>The table as a set of elements\<close>

lemma concat_others_empty:
  assumes "b < length xs" and "\<And>i. i < length xs \<Longrightarrow> i \<noteq> b \<Longrightarrow> xs ! i = []"
  shows "concat xs = xs ! b"
proof -
  have "concat (take b xs) = []" "concat (drop (Suc b) xs) = []"
    using assms by (auto simp: in_set_conv_nth)
  then show ?thesis
    using id_take_nth_drop [OF assms(1)] by (metis append_Nil append_Nil2 concat.simps(2) concat_append)
qed

context hash_contract
begin

text \<open>All elements equal to \<open>d\<close> are in the chain that the search looks at.\<close>

lemma matches_in_chain:
  assumes wf: "lh_wf lh" and fs: "lh_hash lh = hash" "lh_comp lh = cmp"
  shows "bucket_of lh (hash d) < length (lh_buckets lh) \<and>
    filter (\<lambda>it. cmp (it_data it) d = 0) (concat (lh_buckets lh)) =
    filter (\<lambda>it. cmp (it_data it) d = 0) (lh_buckets lh ! bucket_of lh (hash d))"
proof -
  let ?P = "\<lambda>it. cmp (it_data it) d = 0" and ?b = "bucket_of lh (hash d)" and ?bs = "lh_buckets lh"
  have n: "0 < lh_num_buckets lh" "length ?bs = lh_num_buckets lh"
    using wf by (auto simp: lh_wf_def kMinNumBuckets_def placed_def)
  have p: "placed hash (lh_num_buckets lh) ?bs" using wf fs by (simp add: lh_wf_def)
  have b: "?b < length ?bs" using n by (simp add: bucket_of_def)
  have "filter ?P (?bs ! i) = []" if i: "i < length ?bs" "i \<noteq> ?b" for i
  proof -
    have "\<not> ?P it" if "it \<in> set (?bs ! i)" for it
    proof
      assume "?P it"
      then have "hash (it_data it) = hash d" by (rule eq_hash)
      moreover have "it_hash it = hash (it_data it)" "unat (it_hash it) mod lh_num_buckets lh = i"
        using p that i(1) n(2) unfolding placed_def by (metis (no_types, lifting))+
      ultimately show False using i by (simp add: bucket_of_def)
    qed
    then show ?thesis by simp
  qed
  then have "concat (map (filter ?P) ?bs) = map (filter ?P) ?bs ! ?b"
    using b by (intro concat_others_empty) auto
  then show ?thesis using b by (simp add: filter_concat)
qed

lemma retrieve_iff:
  assumes wf: "lh_wf lh" and fs: "lh_hash lh = hash" "lh_comp lh = cmp"
  shows "OPENSSL_lh_retrieve lh d = Some x \<longleftrightarrow> x \<in> lh_set lh \<and> cmp x d = 0"
proof -
  let ?P = "\<lambda>it. cmp (it_data it) d = 0" and ?c = "lh_buckets lh ! bucket_of lh (hash d)"
  note m = matches_in_chain [OF wf fs, of d]
  have set: "x \<in> lh_set lh \<and> cmp x d = 0 \<longleftrightarrow> x \<in> it_data ` set (filter ?P ?c)" for x
  proof -
    have "x \<in> lh_set lh \<and> cmp x d = 0 \<longleftrightarrow> x \<in> it_data ` set (filter ?P (concat (lh_buckets lh)))"
      by (auto simp: lh_set_def lh_data_def)
    then show ?thesis using m by simp
  qed
  have one: "length (filter ?P ?c) \<le> 1"
  proof -
    have "length (filter (\<lambda>x. cmp x d = 0) (lh_data lh)) \<le> 1" using wf fs by (simp add: lh_wf_def uniq_def)
    then show ?thesis using m by (simp add: lh_data_def filter_map comp_def)
  qed
  show ?thesis
  proof (cases "chain_find (\<lambda>y. cmp y d = 0) ?c")
    case None
    then have "filter ?P ?c = []" by (auto simp: chain_find_None)
    then show ?thesis using set None fs by (simp add: OPENSSL_lh_retrieve_def get_next_ptr_and_hash_def Let_def)
  next
    case (Some i)
    then have i: "i < length ?c" "?P (?c ! i)" using chain_find_Some [of "\<lambda>y. cmp y d = 0" ?c i] by auto
    then have "?c ! i \<in> set (filter ?P ?c)" by simp
    then have "filter ?P ?c = [?c ! i]"
      using one by (cases "filter ?P ?c") auto
    then show ?thesis using set Some fs by (auto simp: OPENSSL_lh_retrieve_def get_next_ptr_and_hash_def Let_def)
  qed
qed

lemma retrieve_None_iff:
  "lh_wf lh \<Longrightarrow> lh_hash lh = hash \<Longrightarrow> lh_comp lh = cmp \<Longrightarrow>
     OPENSSL_lh_retrieve lh d = None \<longleftrightarrow> (\<forall>x\<in>lh_set lh. cmp x d \<noteq> 0)"
  using retrieve_iff by (metis not_None_eq)

lemma uniq_remove:
  assumes "uniq cmp ds" and "x \<in> set ds"
  shows "mset ds - {#x#} = filter_mset (\<lambda>z. cmp z x \<noteq> 0) (mset ds)"
proof -
  let ?E = "filter_mset (\<lambda>z. cmp z x = 0) (mset ds)"
  have "size ?E \<le> 1" using assms(1) by (metis uniq_def mset_filter size_mset)
  moreover have "x \<in># ?E" using assms(2) eq_refl by simp
  ultimately obtain F where "?E = add_mset x F" and "size (add_mset x F) \<le> 1"
    by (metis multi_member_split)
  then have "?E = {#x#}" by simp
  moreover have "mset ds = ?E + filter_mset (\<lambda>z. cmp z x \<noteq> 0) (mset ds)" by (rule multiset_partition)
  ultimately show ?thesis by (metis add_diff_cancel_left')
qed

lemma uniq_filter: "uniq cmp ds \<Longrightarrow> mset es = filter_mset P (mset ds) \<Longrightarrow> uniq cmp es"
  unfolding uniq_def
proof
  fix a
  assume u: "\<forall>a. length (filter (\<lambda>d. cmp d a = 0) ds) \<le> 1" and m: "mset es = filter_mset P (mset ds)"
  have "length (filter (\<lambda>d. cmp d a = 0) es) = size (filter_mset (\<lambda>d. cmp d a = 0) (filter_mset P (mset ds)))"
    by (metis m mset_filter size_mset)
  also have "\<dots> \<le> size (filter_mset (\<lambda>d. cmp d a = 0) (mset ds))"
    by (intro size_mset_mono multiset_filter_mono multiset_filter_subset)
  also have "\<dots> \<le> 1" using u by (metis mset_filter size_mset)
  finally show "length (filter (\<lambda>d. cmp d a = 0) es) \<le> 1" .
qed

lemma uniq_add:
  assumes u: "uniq cmp ds" and new: "\<forall>z\<in>set ds. cmp z data \<noteq> 0" and m: "mset es = add_mset data (mset ds)"
  shows "uniq cmp es"
  unfolding uniq_def
proof
  fix a
  have "length (filter (\<lambda>d. cmp d a = 0) es) = size (filter_mset (\<lambda>d. cmp d a = 0) (add_mset data (mset ds)))"
    by (metis m mset_filter size_mset)
  also have "\<dots> \<le> 1"
  proof (cases "cmp data a = 0")
    case True
    then have "cmp z a \<noteq> 0" if "z \<in> set ds" for z using new that eq_trans [of z a data] eq_sym by blast
    then have "filter_mset (\<lambda>d. cmp d a = 0) (mset ds) = {#}" by (simp add: filter_mset_eq_conv)
    then show ?thesis using True by simp
  next
    case False
    then show ?thesis using u by (simp add: uniq_def) (metis mset_filter size_mset)
  qed
  finally show "length (filter (\<lambda>d. cmp d a = 0) es) \<le> 1" .
qed

text \<open>Replacing one chain of the table, and what it does to the elements.\<close>

lemma set_chain_wf:
  assumes wf: "lh_wf lh" and fs: "lh_hash lh = hash" "lh_comp lh = cmp" and b: "b < length (lh_buckets lh)"
    and c: "\<forall>it\<in>set c. it_hash it = hash (it_data it) \<and> unat (it_hash it) mod lh_num_buckets lh = b"
    and m: "mset (map it_data c) + X = mset (map it_data (lh_buckets lh ! b)) + Y"
    and u: "\<And>ds. mset ds + X = mset (lh_data lh) + Y \<Longrightarrow> uniq cmp ds"
    and k: "\<And>ds. mset ds + X = mset (lh_data lh) + Y \<Longrightarrow> n = length ds mod 2 ^ 64"
  shows "lh_wf (set_chain lh b c\<lparr>lh_num_items := n\<rparr>) \<and>
    mset (lh_data (set_chain lh b c\<lparr>lh_num_items := n\<rparr>)) + X = mset (lh_data lh) + Y"
proof -
  let ?bs = "(lh_buckets lh)[b := c]" and ?lh = "set_chain lh b c\<lparr>lh_num_items := n\<rparr>"
  have "image_mset it_data (mset (concat ?bs) + mset (lh_buckets lh ! b)) =
      image_mset it_data (mset (concat (lh_buckets lh)) + mset c)"
    by (simp only: concat_update [OF b])
  then have e: "mset (lh_data ?lh) + mset (map it_data (lh_buckets lh ! b)) = mset (lh_data lh) + mset (map it_data c)"
    by (simp add: lh_data_def set_chain_def)
  have d: "mset (lh_data ?lh) + X = mset (lh_data lh) + Y"
  proof -
    have "mset (lh_data ?lh) + X + mset (map it_data (lh_buckets lh ! b)) =
        mset (lh_data lh) + (mset (map it_data c) + X)"
      using e by (simp add: add.commute add.left_commute)
    also have "\<dots> = mset (lh_data lh) + Y + mset (map it_data (lh_buckets lh ! b))"
      unfolding m by (simp add: add.commute add.left_commute)
    finally show ?thesis by simp
  qed
  have "placed hash (lh_num_buckets lh) ?bs"
    by (rule placed_update [OF _ c]) (use wf fs in \<open>simp add: lh_wf_def\<close>)
  then show ?thesis
    using wf fs d u [OF d] k [OF d] by (simp add: lh_wf_def set_chain_def lh_data_def)
qed

lemma insert_elements:
  assumes wf: "lh_wf lh" and fs: "lh_hash lh = hash" "lh_comp lh = cmp"
    and ins: "OPENSSL_lh_insert M lh data = (True, old, lh')"
  shows "lh_wf lh' \<and> lh_hash lh' = hash \<and> lh_comp lh' = cmp \<and> old = OPENSSL_lh_retrieve lh data \<and>
    elements lh' = add_mset data (filter_mset (\<lambda>z. cmp z data \<noteq> 0) (elements lh))"
proof -
  let ?b = "bucket_of lh (hash data)"
  let ?c = "lh_buckets lh ! ?b"
  have b: "?b < length (lh_buckets lh)" using matches_in_chain [OF wf fs] by blast
  have uq: "uniq cmp (lh_data lh)" and ni: "lh_num_items lh = length (lh_data lh) mod 2 ^ 64"
    using wf fs by (simp_all add: lh_wf_def)
  have pl: "\<forall>it\<in>set ?c. it_hash it = hash (it_data it) \<and> unat (it_hash it) mod lh_num_buckets lh = ?b"
    by (rule placed_nth [OF _ b]) (use wf fs in \<open>simp add: lh_wf_def\<close>)
  show ?thesis
  proof (cases "chain_find (\<lambda>y. cmp y data = 0) ?c")
    case None
    then have new: "OPENSSL_lh_retrieve lh data = None"
      using fs by (simp add: OPENSSL_lh_retrieve_def get_next_ptr_and_hash_def Let_def)
    then have ne: "\<forall>z\<in>set (lh_data lh). cmp z data \<noteq> 0"
      using retrieve_None_iff [OF wf fs, of data] by (simp add: lh_set_def)
    let ?it = "\<lparr>it_data = data, it_hash = hash data\<rparr>" and ?n = "size_add (lh_num_items lh) 1"
    let ?lh = "set_chain lh ?b (?c @ [?it])\<lparr>lh_num_items := ?n\<rparr>"
    have lh': "lh' = lh_maybe_resize M ?lh" "old = None"
      using ins None fs by (auto simp: OPENSSL_lh_insert_def get_next_ptr_and_hash_def Let_def set_chain_def
          split: option.splits)
    have "lh_wf ?lh \<and> mset (lh_data ?lh) + {#} = mset (lh_data lh) + {#data#}"
    proof (rule set_chain_wf [OF wf fs b])
      show "\<forall>it\<in>set (?c @ [?it]). it_hash it = hash (it_data it) \<and> unat (it_hash it) mod lh_num_buckets lh = ?b"
        using pl by (auto simp: bucket_of_def)
      fix ds assume d: "mset ds + {#} = mset (lh_data lh) + {#data#}"
      then show "uniq cmp ds" using uniq_add [OF uq ne, of ds] by simp
      have "length ds = Suc (length (lh_data lh))" using arg_cong [OF d, of size] by simp
      then show "?n = length ds mod 2 ^ 64" unfolding ni size_add_def by (simp only: mod_simps) simp
    qed simp
    moreover have "filter_mset (\<lambda>z. cmp z data \<noteq> 0) (elements lh) = elements lh"
      using ne by (simp add: elements_def filter_mset_eq_conv)
    ultimately show ?thesis
      using lh_maybe_resize_wf [of ?lh M] lh' new fs by (simp add: elements_def set_chain_def)
  next
    case (Some i)
    then have i: "i < length ?c" "cmp (it_data (?c ! i)) data = 0"
      using chain_find_Some [of "\<lambda>y. cmp y data = 0" ?c i] by auto
    let ?x = "it_data (?c ! i)" and ?it = "(?c ! i)\<lparr>it_data := data\<rparr>"
    let ?lh = "set_chain lh ?b (?c[i := ?it])\<lparr>lh_num_items := lh_num_items lh\<rparr>"
    have old: "OPENSSL_lh_retrieve lh data = Some ?x"
      using Some fs by (simp add: OPENSSL_lh_retrieve_def get_next_ptr_and_hash_def Let_def)
    then have xin: "?x \<in> set (lh_data lh)" using retrieve_iff [OF wf fs] by (simp add: lh_set_def)
    have eqv: "cmp z ?x = 0 \<longleftrightarrow> cmp z data = 0" for z using i(2) eq_trans eq_sym by blast
    note rem = uniq_remove [OF uq xin, unfolded eqv]
    have lh': "lh' = ?lh" "old = Some ?x"
      using ins Some fs by (auto simp: OPENSSL_lh_insert_def get_next_ptr_and_hash_def Let_def set_chain_def)
    have part: "mset ds = add_mset data (filter_mset (\<lambda>z. cmp z data \<noteq> 0) (mset (lh_data lh)))"
      if "mset ds + {#?x#} = mset (lh_data lh) + {#data#}" for ds
    proof -
      have "mset ds = mset (lh_data lh) + {#data#} - {#?x#}" using that by (metis add_diff_cancel_right')
      also have "\<dots> = add_mset data (mset (lh_data lh) - {#?x#})" using xin by simp
      finally show ?thesis by (simp only: rem)
    qed
    have "lh_wf ?lh \<and> mset (lh_data ?lh) + {#?x#} = mset (lh_data lh) + {#data#}"
    proof (rule set_chain_wf [OF wf fs b])
      show "\<forall>it\<in>set (?c[i := ?it]). it_hash it = hash (it_data it) \<and> unat (it_hash it) mod lh_num_buckets lh = ?b"
        using pl i eq_hash [OF i(2)] by (auto simp: set_update_memI dest!: set_update_subset_insert [THEN subsetD])
      have "mset (map it_data (?c[i := ?it])) = add_mset data (mset (map it_data ?c) - {#?x#})"
        using i by (simp add: map_update mset_update)
      then show "mset (map it_data (?c[i := ?it])) + {#?x#} = mset (map it_data ?c) + {#data#}"
        using i(1) by (simp add: nth_mem)
      fix ds assume d: "mset ds + {#?x#} = mset (lh_data lh) + {#data#}"
      obtain es where es: "mset es = filter_mset (\<lambda>z. cmp z data \<noteq> 0) (mset (lh_data lh))" by (metis ex_mset)
      have "\<forall>z\<in>set es. cmp z data \<noteq> 0" using es by (metis (mono_tags, lifting) filter_mset_eq_conv set_mset_mset set_mset_filter mem_Collect_eq)
      then show "uniq cmp ds"
        using part [OF d] es uniq_add [OF uniq_filter [OF uq es], of data ds] by simp
      have "length ds = length (lh_data lh)" using arg_cong [OF d, of size] by simp
      then show "lh_num_items lh = length ds mod 2 ^ 64" using ni by simp
    qed
    then show ?thesis using lh' old part [of "lh_data ?lh"] fs by (simp add: elements_def set_chain_def)
  qed
qed

lemma delete_elements:
  assumes wf: "lh_wf lh" and fs: "lh_hash lh = hash" "lh_comp lh = cmp"
    and del: "OPENSSL_lh_delete M lh data = (ret, lh')"
  shows "lh_wf lh' \<and> lh_hash lh' = hash \<and> lh_comp lh' = cmp \<and> ret = OPENSSL_lh_retrieve lh data \<and>
    elements lh' = filter_mset (\<lambda>z. cmp z data \<noteq> 0) (elements lh)"
proof -
  let ?b = "bucket_of lh (hash data)"
  let ?c = "lh_buckets lh ! ?b"
  have b: "?b < length (lh_buckets lh)" using matches_in_chain [OF wf fs] by blast
  have uq: "uniq cmp (lh_data lh)" and ni: "lh_num_items lh = length (lh_data lh) mod 2 ^ 64"
    using wf fs by (simp_all add: lh_wf_def)
  have pl: "\<forall>it\<in>set ?c. it_hash it = hash (it_data it) \<and> unat (it_hash it) mod lh_num_buckets lh = ?b"
    by (rule placed_nth [OF _ b]) (use wf fs in \<open>simp add: lh_wf_def\<close>)
  show ?thesis
  proof (cases "chain_find (\<lambda>y. cmp y data = 0) ?c")
    case None
    then have none: "OPENSSL_lh_retrieve lh data = None" "ret = None" "lh' = lh"
      using fs del by (auto simp: OPENSSL_lh_retrieve_def OPENSSL_lh_delete_def get_next_ptr_and_hash_def Let_def)
    then have "\<forall>z\<in>set (lh_data lh). cmp z data \<noteq> 0"
      using retrieve_None_iff [OF wf fs, of data] by (simp add: lh_set_def)
    then have "filter_mset (\<lambda>z. cmp z data \<noteq> 0) (elements lh) = elements lh"
      by (simp add: elements_def filter_mset_eq_conv)
    then show ?thesis using none wf fs by simp
  next
    case (Some i)
    then have i: "i < length ?c" "cmp (it_data (?c ! i)) data = 0"
      using chain_find_Some [of "\<lambda>y. cmp y data = 0" ?c i] by auto
    let ?x = "it_data (?c ! i)" and ?n = "size_add (lh_num_items lh) (2 ^ 64 - 1)"
    let ?d = "take i ?c @ drop (i + 1) ?c"
    let ?lh = "set_chain lh ?b ?d\<lparr>lh_num_items := ?n\<rparr>"
    have old: "OPENSSL_lh_retrieve lh data = Some ?x"
      using Some fs by (simp add: OPENSSL_lh_retrieve_def get_next_ptr_and_hash_def Let_def)
    then have xin: "?x \<in> set (lh_data lh)" using retrieve_iff [OF wf fs] by (simp add: lh_set_def)
    have eqv: "cmp z ?x = 0 \<longleftrightarrow> cmp z data = 0" for z using i(2) eq_trans eq_sym by blast
    note rem = uniq_remove [OF uq xin, unfolded eqv]
    have lh': "lh' = lh_maybe_resize M ?lh" "ret = Some ?x"
      using del Some fs by (auto simp: OPENSSL_lh_delete_def get_next_ptr_and_hash_def Let_def set_chain_def)
    have part: "mset ds = filter_mset (\<lambda>z. cmp z data \<noteq> 0) (mset (lh_data lh))"
      if "mset ds + {#?x#} = mset (lh_data lh) + {#}" for ds
      using that rem by (metis add.right_neutral add_diff_cancel_right')
    have "lh_wf ?lh \<and> mset (lh_data ?lh) + {#?x#} = mset (lh_data lh) + {#}"
    proof (rule set_chain_wf [OF wf fs b])
      have "set ?d \<subseteq> set ?c" by (auto dest: in_set_takeD in_set_dropD)
      then show "\<forall>it\<in>set ?d. it_hash it = hash (it_data it) \<and> unat (it_hash it) mod lh_num_buckets lh = ?b"
        using pl by blast
      have "?c = take i ?c @ [?c ! i] @ drop (i + 1) ?c" using i(1) by (simp add: id_take_nth_drop)
      then have "mset (map it_data ?c) = mset (map it_data (take i ?c @ [?c ! i] @ drop (i + 1) ?c))" by simp
      then show "mset (map it_data ?d) + {#?x#} = mset (map it_data ?c) + {#}" by simp
      fix ds assume d: "mset ds + {#?x#} = mset (lh_data lh) + {#}"
      show "uniq cmp ds" by (rule uniq_filter [OF uq part [OF d]])
      have l: "length (lh_data lh) = Suc (length ds)" using arg_cong [OF d, of size] by simp
      have "?n = (Suc (length ds) + (2 ^ 64 - 1)) mod 2 ^ 64" unfolding ni size_add_def l by (simp only: mod_simps)
      then show "?n = length ds mod 2 ^ 64" by simp
    qed
    then show ?thesis
      using lh_maybe_resize_wf [of ?lh M] lh' old part [of "lh_data ?lh"] fs by (simp add: elements_def set_chain_def)
  qed
qed

lemma elements_card:
  assumes wf: "lh_wf lh" and fs: "lh_comp lh = cmp"
  shows "lh_num_items lh = card (lh_set lh) mod 2 ^ 64"
proof -
  have u: "uniq cmp (lh_data lh)" using wf fs by (simp add: lh_wf_def)
  have "distinct ds" if "uniq cmp ds" for ds
    using that
  proof (induction ds)
    case (Cons d ds)
    have "length (filter (\<lambda>z. cmp z a = 0) ds) \<le> 1" for a
    proof -
      have "length (filter (\<lambda>z. cmp z a = 0) ds) \<le> length (filter (\<lambda>z. cmp z a = 0) (d # ds))" by simp
      also have "\<dots> \<le> 1" using Cons.prems unfolding uniq_def by blast
      finally show ?thesis .
    qed
    then have "uniq cmp ds" by (simp add: uniq_def)
    moreover have "d \<notin> set ds"
    proof
      assume "d \<in> set ds"
      then have "filter (\<lambda>z. cmp z d = 0) ds \<noteq> []" using eq_refl by (auto simp: filter_empty_conv)
      then have "2 \<le> length (filter (\<lambda>z. cmp z d = 0) (d # ds))" using eq_refl by (cases "filter (\<lambda>z. cmp z d = 0) ds") auto
      moreover have "length (filter (\<lambda>z. cmp z d = 0) (d # ds)) \<le> 1" using Cons.prems unfolding uniq_def by blast
      ultimately show False by linarith
    qed
    ultimately show ?case using Cons.IH by simp
  qed simp
  from this [OF u] show ?thesis using wf by (simp add: lh_wf_def lh_set_def distinct_card)
qed

end

section \<open>Properties\<close>

text \<open>A table of numbers, hashed by their low bits, for the examples.\<close>

definition sample_table :: "nat lhash_st" where
  "sample_table = \<lparr>lh_num_items = 0, lh_buckets = replicate kMinNumBuckets [], lh_num_buckets = kMinNumBuckets,
     lh_callback_depth = 0, lh_comp = (\<lambda>a b. int a - int b), lh_hash = of_nat\<rparr>"

lemma sample_contract: "hash_contract (of_nat :: nat \<Rightarrow> u32) (\<lambda>a b. int a - int b)"
  by unfold_locales auto

lemma sample_table_wf: "lh_wf sample_table"
  by (simp add: sample_table_def lh_wf_def placed_def lh_data_def uniq_def)

lemma sample_table_fields: "lh_hash sample_table = of_nat" "lh_comp sample_table = (\<lambda>a b. int a - int b)" "elements sample_table = {#}"
  "lh_set sample_table = {}"
  by (simp_all add: sample_table_def elements_def lh_data_def lh_set_def)

lemma sample_inserts: "fst (OPENSSL_lh_insert plentiful sample_table 7)"
  by (simp add: OPENSSL_lh_insert_def get_next_ptr_and_hash_def sample_table_def bucket_of_def Let_def kMinNumBuckets_def
      OPENSSL_malloc_def plentiful_def size_add_def sizeof_lhash_item_def OPENSSL_MALLOC_PREFIX_def)

text \<open>
  C37: \<^verbatim>\<open>OPENSSL_lh_retrieve\<close> returns an element of the table that compares equal to its argument,
  and returns none only when there is none. The table's functions have to agree: equality an
  equivalence, equal elements with equal hashes.
\<close>

theorem lhash_retrieve:
  assumes "hash_contract hash cmp" and "lh_wf lh" and "lh_hash lh = hash" and "lh_comp lh = cmp"
  shows "(OPENSSL_lh_retrieve lh d = Some x \<longleftrightarrow> x \<in> lh_set lh \<and> cmp x d = 0) \<and>
    (OPENSSL_lh_retrieve lh d = None \<longleftrightarrow> (\<forall>y\<in>lh_set lh. cmp y d \<noteq> 0))"
  using hash_contract.retrieve_iff [OF assms] hash_contract.retrieve_None_iff [OF assms] by blast

theorem lhash_retrieve_witness:
  "OPENSSL_lh_retrieve sample_table 7 = None"
  using lhash_retrieve [OF sample_contract sample_table_wf sample_table_fields(1,2), of 7]
  by (simp add: sample_table_fields)

text \<open>
  C5: a successful \<^verbatim>\<open>OPENSSL_lh_insert\<close> adds its argument in the place of the element that compared
  equal to it, if any, which it hands back, keeps every other element whether or not the table is
  resized, and counts them; a failed one changes nothing.
\<close>

theorem lhash_insert:
  assumes "hash_contract hash cmp" and "lh_wf lh" and "lh_hash lh = hash" and "lh_comp lh = cmp"
    and "OPENSSL_lh_insert M lh data = (ok, old, lh')"
  shows "lh_wf lh' \<and> (if ok then old = OPENSSL_lh_retrieve lh data \<and>
      elements lh' = add_mset data (filter_mset (\<lambda>z. cmp z data \<noteq> 0) (elements lh)) \<and>
      OPENSSL_lh_retrieve lh' data = Some data \<and> lh_num_items lh' = card (lh_set lh') mod 2 ^ 64
    else old = None \<and> lh' = lh)"
proof (cases ok)
  case True
  have ins: "OPENSSL_lh_insert M lh data = (True, old, lh')" using assms(5) True by simp
  from hash_contract.insert_elements [OF assms(1-4) ins]
  have r: "lh_wf lh'" "lh_hash lh' = hash" "lh_comp lh' = cmp" "old = OPENSSL_lh_retrieve lh data"
    "elements lh' = add_mset data (filter_mset (\<lambda>z. cmp z data \<noteq> 0) (elements lh))" by auto
  have "data \<in> lh_set lh'" using r(5) by (metis elements_def lh_set_def set_mset_mset union_single_eq_member add_mset_add_single union_iff)
  then have "OPENSSL_lh_retrieve lh' data = Some data"
    using hash_contract.retrieve_iff [OF assms(1) r(1-3)] hash_contract.eq_refl [OF assms(1)] by simp
  then show ?thesis using True r hash_contract.elements_card [OF assms(1) r(1,3)] by simp
next
  case False
  then have "old = None \<and> lh' = lh"
    using assms(5) by (auto simp: OPENSSL_lh_insert_def Let_def split: prod.splits option.splits)
  then show ?thesis using False assms(2) by simp
qed

theorem lhash_insert_witness:
  "\<exists>lh'. OPENSSL_lh_insert plentiful sample_table 7 = (True, None, lh') \<and> OPENSSL_lh_retrieve lh' 7 = Some 7"
proof -
  obtain old lh' where i: "OPENSSL_lh_insert plentiful sample_table 7 = (True, old, lh')"
    using sample_inserts by (cases "OPENSSL_lh_insert plentiful sample_table 7") auto
  have "OPENSSL_lh_retrieve sample_table 7 = None"
    by (simp add: OPENSSL_lh_retrieve_def get_next_ptr_and_hash_def sample_table_def bucket_of_def Let_def kMinNumBuckets_def)
  then show ?thesis using lhash_insert [OF sample_contract sample_table_wf sample_table_fields(1,2) i] i by simp
qed

text \<open>
  C38: \<^verbatim>\<open>OPENSSL_lh_delete\<close> removes the element that compares equal to its argument and nothing else,
  and hands it back; afterwards a lookup of the argument finds nothing.
\<close>

theorem lhash_delete:
  assumes "hash_contract hash cmp" and "lh_wf lh" and "lh_hash lh = hash" and "lh_comp lh = cmp"
    and "OPENSSL_lh_delete M lh data = (ret, lh')"
  shows "lh_wf lh' \<and> ret = OPENSSL_lh_retrieve lh data \<and>
    elements lh' = filter_mset (\<lambda>z. cmp z data \<noteq> 0) (elements lh) \<and> OPENSSL_lh_retrieve lh' data = None"
proof -
  from hash_contract.delete_elements [OF assms]
  have r: "lh_wf lh'" "lh_hash lh' = hash" "lh_comp lh' = cmp" "ret = OPENSSL_lh_retrieve lh data"
    "elements lh' = filter_mset (\<lambda>z. cmp z data \<noteq> 0) (elements lh)" by auto
  have "set_mset (elements lh') = lh_set lh'" by (simp add: elements_def lh_set_def)
  then have "\<forall>x\<in>lh_set lh'. cmp x data \<noteq> 0" using r(5) by auto
  then show ?thesis using r hash_contract.retrieve_None_iff [OF assms(1) r(1-3)] by simp
qed

theorem lhash_delete_witness:
  "elements (snd (OPENSSL_lh_delete plentiful sample_table 7)) = {#} \<and>
     OPENSSL_lh_retrieve (snd (OPENSSL_lh_delete plentiful sample_table 7)) 7 = None"
  using lhash_delete [OF sample_contract sample_table_wf sample_table_fields(1,2), of plentiful 7]
    sample_table_fields(3) by (metis filter_empty_mset prod.collapse)

text \<open>
  \<^verbatim>\<open>OPENSSL_lh_doall_arg\<close> calls its function once on every element, and the resize that may
  follow loses none of them.
\<close>

theorem lhash_doall:
  assumes "lh_wf lh"
  shows "\<exists>lh'. OPENSSL_lh_doall_arg M (Some lh) func arg = (fold func (lh_data lh) arg, Some lh') \<and>
    lh_wf lh' \<and> elements lh' = elements lh"
  using doall_visits [OF assms, of M func arg] by blast

theorem lhash_doall_witness:
  "\<exists>lh'. OPENSSL_lh_doall_arg plentiful (Some sample_table) (#) [] = ([], Some lh') \<and> elements lh' = {#}"
  using lhash_doall [OF sample_table_wf, of plentiful "(#)" "[]"] sample_table_fields(3)
  by (auto simp: sample_table_def lh_data_def)

end
