(* ===== verification/Obj.thy ===== *)
theory Obj
  imports Lhash
begin

text \<open>
  The tables of \<^verbatim>\<open>crypto/obj/obj.c\<close> for objects added at run time: the hash and comparison functions
  they are created with meet the contract of \<^verbatim>\<open>lhash.c\<close>. An \<^verbatim>\<open>ASN1_OBJECT\<close> keeps its
  encoding as \<^verbatim>\<open>data\<close> and \<^verbatim>\<open>length\<close>.
\<close>

record ASN1_OBJECT =
  obj_sn :: bytes
  obj_ln :: bytes
  obj_nid :: int
  obj_data :: bytes

definition OBJ_cmp :: "ASN1_OBJECT \<Rightarrow> ASN1_OBJECT \<Rightarrow> int" where
  "OBJ_cmp a b =
     (if length (obj_data a) < length (obj_data b) then -1
      else if length (obj_data a) > length (obj_data b) then 1
      else memcmp (obj_data a) (obj_data b))"

definition hash_nid :: "ASN1_OBJECT \<Rightarrow> u32" where
  "hash_nid obj = word_of_int (obj_nid obj)"

definition cmp_nid :: "ASN1_OBJECT \<Rightarrow> ASN1_OBJECT \<Rightarrow> int" where
  "cmp_nid a b = obj_nid a - obj_nid b"

definition hash_data :: "ASN1_OBJECT \<Rightarrow> u32" where
  "hash_data obj = OPENSSL_hash32 (obj_data obj)"

lemma memcmp_0_iff: "length a = length b \<Longrightarrow> memcmp a b = 0 \<longleftrightarrow> a = b"
  by (induction a b rule: memcmp.induct) auto

lemma OBJ_cmp_0_iff: "OBJ_cmp a b = 0 \<longleftrightarrow> obj_data a = obj_data b"
  by (auto simp: OBJ_cmp_def memcmp_0_iff)

interpretation by_data: hash_contract hash_data OBJ_cmp
  by unfold_locales (auto simp: OBJ_cmp_0_iff hash_data_def)

interpretation by_nid: hash_contract hash_nid cmp_nid
  by unfold_locales (auto simp: cmp_nid_def hash_nid_def)

end
