(* ===== verification/Bio_Pair.thy ===== *)
theory Bio_Pair
  imports Mem "HOL-Library.Monad_Syntax"
begin

text \<open>
  \<^verbatim>\<open>crypto/bio/pair.c\<close> and the calls of \<^verbatim>\<open>bio.c\<close> that reach it: two BIOs connected by two ring
  buffers, one per direction. The heap maps a BIO's address to its contents. An operation that would
  dereference a null or dangling pointer or fail an assertion has the result \<open>None\<close>; the
  theorems show that this does not happen. \<^verbatim>\<open>size_t\<close> sums of an offset and a length of one buffer do
  not wrap, since no object is larger than half the address space; they are sums of naturals here.
\<close>

type_synonym bid = nat

record bio_bio_st =
  bb_peer :: "bid option"
  bb_closed :: bool
  bb_len :: nat
  bb_offset :: nat
  bb_size :: nat
  bb_buf :: "bytes option"
  bb_request :: nat

record BIO =
  bio_init :: bool
  bio_shutdown :: int
  bio_flags :: u32
  bio_num_read :: u64
  bio_num_write :: u64
  bio_ptr :: "bio_bio_st option"

type_synonym bio_heap = "bid \<Rightarrow> BIO option"

section \<open>Flags (bio.c)\<close>

definition BIO_FLAGS_READ :: u32 where "BIO_FLAGS_READ = 0x01"
definition BIO_FLAGS_WRITE :: u32 where "BIO_FLAGS_WRITE = 0x02"
definition BIO_FLAGS_IO_SPECIAL :: u32 where "BIO_FLAGS_IO_SPECIAL = 0x04"
definition BIO_FLAGS_RWS :: u32 where "BIO_FLAGS_RWS = BIO_FLAGS_READ OR BIO_FLAGS_WRITE OR BIO_FLAGS_IO_SPECIAL"
definition BIO_FLAGS_SHOULD_RETRY :: u32 where "BIO_FLAGS_SHOULD_RETRY = 0x08"

definition kRetryFlags :: u32 where
  "kRetryFlags = BIO_FLAGS_RWS OR BIO_FLAGS_SHOULD_RETRY"

definition BIO_test_flags :: "BIO \<Rightarrow> u32 \<Rightarrow> u32" where
  "BIO_test_flags bio flags = bio_flags bio AND flags"

definition BIO_should_read :: "BIO \<Rightarrow> bool" where
  "BIO_should_read bio \<longleftrightarrow> BIO_test_flags bio BIO_FLAGS_READ \<noteq> 0"

definition BIO_should_write :: "BIO \<Rightarrow> bool" where
  "BIO_should_write bio \<longleftrightarrow> BIO_test_flags bio BIO_FLAGS_WRITE \<noteq> 0"

definition BIO_should_retry :: "BIO \<Rightarrow> bool" where
  "BIO_should_retry bio \<longleftrightarrow> BIO_test_flags bio BIO_FLAGS_SHOULD_RETRY \<noteq> 0"

definition BIO_set_retry_read :: "BIO \<Rightarrow> BIO" where
  "BIO_set_retry_read bio = bio\<lparr>bio_flags := bio_flags bio OR (BIO_FLAGS_READ OR BIO_FLAGS_SHOULD_RETRY)\<rparr>"

definition BIO_set_retry_write :: "BIO \<Rightarrow> BIO" where
  "BIO_set_retry_write bio = bio\<lparr>bio_flags := bio_flags bio OR (BIO_FLAGS_WRITE OR BIO_FLAGS_SHOULD_RETRY)\<rparr>"

definition BIO_clear_retry_flags :: "BIO \<Rightarrow> BIO" where
  "BIO_clear_retry_flags bio = bio\<lparr>bio_flags := bio_flags bio AND NOT kRetryFlags\<rparr>"

section \<open>The ring buffer\<close>

text \<open>
  The \<^verbatim>\<open>do ... while (rest)\<close> loops of \<^verbatim>\<open>bio_read\<close> and \<^verbatim>\<open>bio_write\<close>. The code says "one or two
  iterations": the loops run with fuel 2, and \<open>None\<close> means that it was not enough.
\<close>

definition ring_read_step :: "bio_bio_st \<Rightarrow> nat \<Rightarrow> bytes \<times> bio_bio_st \<times> nat" where
  "ring_read_step b rest =
     (let chunk = (if bb_offset b + rest \<le> bb_size b then rest else bb_size b - bb_offset b);
          out = (case bb_buf b of None \<Rightarrow> [] | Some buf \<Rightarrow> read_at buf (bb_offset b) chunk);
          b = b\<lparr>bb_len := bb_len b - chunk\<rparr>;
          b = (if bb_len b \<noteq> 0
               then (let offset = bb_offset b + chunk
                     in b\<lparr>bb_offset := (if offset = bb_size b then 0 else offset)\<rparr>)
               else b\<lparr>bb_offset := 0\<rparr>)
      in (out, b, rest - chunk))"

fun ring_read_loop :: "nat \<Rightarrow> bio_bio_st \<Rightarrow> nat \<Rightarrow> (bytes \<times> bio_bio_st) option" where
  "ring_read_loop 0 b rest = None"
| "ring_read_loop (Suc fuel) b rest =
     (case ring_read_step b rest of
        (out, b, rest) \<Rightarrow>
          if rest = 0 then Some (out, b)
          else map_option (\<lambda>(out', b). (out @ out', b)) (ring_read_loop fuel b rest))"

definition ring_write_step :: "bio_bio_st \<Rightarrow> bytes \<Rightarrow> bio_bio_st \<times> bytes" where
  "ring_write_step b data =
     (let rest = length data;
          write_offset = bb_offset b + bb_len b;
          write_offset = (if write_offset \<ge> bb_size b then write_offset - bb_size b else write_offset);
          chunk = (if write_offset + rest \<le> bb_size b then rest else bb_size b - write_offset);
          b = b\<lparr>bb_buf := map_option (\<lambda>buf. write_at buf write_offset (take chunk data)) (bb_buf b)\<rparr>;
          b = b\<lparr>bb_len := bb_len b + chunk\<rparr>
      in (b, drop chunk data))"

fun ring_write_loop :: "nat \<Rightarrow> bio_bio_st \<Rightarrow> bytes \<Rightarrow> bio_bio_st option" where
  "ring_write_loop 0 b data = None"
| "ring_write_loop (Suc fuel) b data =
     (case ring_write_step b data of (b, data) \<Rightarrow> if data = [] then Some b else ring_write_loop fuel b data)"

section \<open>The method\<close>

definition bio_new :: "allocator \<Rightarrow> BIO \<Rightarrow> BIO option" where
  "bio_new M bio =
     (case OPENSSL_zalloc M 56 of
        None \<Rightarrow> None
      | Some _ \<Rightarrow>
          Some (bio\<lparr>bio_ptr := Some \<lparr>bb_peer = None, bb_closed = False, bb_len = 0, bb_offset = 0,
                                     bb_size = 17 * 1024, bb_buf = None, bb_request = 0\<rparr>\<rparr>))"

text \<open>A BIO and the \<^verbatim>\<open>bio_bio_st\<close> behind its \<^verbatim>\<open>ptr\<close>.\<close>

definition get_b :: "bio_heap \<Rightarrow> bid \<Rightarrow> (BIO \<times> bio_bio_st) option" where
  "get_b h i = (case h i of None \<Rightarrow> None | Some bio \<Rightarrow> map_option (Pair bio) (bio_ptr bio))"

definition bio_destroy_pair :: "bio_heap \<Rightarrow> bid \<Rightarrow> bio_heap option" where
  "bio_destroy_pair h i = do {
     bio \<leftarrow> h i;
     case bio_ptr bio of
       None \<Rightarrow> Some h
     | Some b \<Rightarrow>
         (case bb_peer b of
            None \<Rightarrow> Some h
          | Some p \<Rightarrow> do {
              (peer_bio, peer_b) \<leftarrow> get_b h p;
              if bb_peer peer_b \<noteq> Some i \<or> bb_buf peer_b = None \<or> bb_buf b = None then None
              else let h = h(p \<mapsto> peer_bio\<lparr>bio_init := False,
                                bio_ptr := Some (peer_b\<lparr>bb_peer := None, bb_len := 0, bb_offset := 0\<rparr>)\<rparr>)
                   in Some (h(i \<mapsto> bio\<lparr>bio_init := False,
                                bio_ptr := Some (b\<lparr>bb_peer := None, bb_len := 0, bb_offset := 0\<rparr>)\<rparr>))
            })
   }"

definition bio_free :: "bio_heap \<Rightarrow> bid \<Rightarrow> bio_heap option" where
  "bio_free h i = do {
     (bio, b) \<leftarrow> get_b h i;
     h \<leftarrow> (if bb_peer b \<noteq> None then bio_destroy_pair h i else Some h);
     bio \<leftarrow> h i;
     Some (h(i \<mapsto> bio\<lparr>bio_ptr := None\<rparr>))
   }"

text \<open>\<open>has_buf\<close> is \<^verbatim>\<open>buf != NULL\<close>; the result is the return value, the bytes stored in \<^verbatim>\<open>buf\<close> and the heap.\<close>

definition bio_read :: "bio_heap \<Rightarrow> bid \<Rightarrow> bool \<Rightarrow> nat \<Rightarrow> ((int \<times> bytes) \<times> bio_heap) option" where
  "bio_read h i has_buf sz = do {
     bio \<leftarrow> h i;
     let bio = BIO_clear_retry_flags bio;
     let h = h(i \<mapsto> bio);
     if \<not> bio_init bio then Some ((0, []), h)
     else do {
       b \<leftarrow> bio_ptr bio;
       p \<leftarrow> bb_peer b;
       (peer_bio, peer_b) \<leftarrow> get_b h p;
       _ \<leftarrow> bb_buf peer_b;
       let peer_b = peer_b\<lparr>bb_request := 0\<rparr>;
       if \<not> has_buf \<or> sz = 0 then Some ((0, []), h(p \<mapsto> peer_bio\<lparr>bio_ptr := Some peer_b\<rparr>))
       else if bb_len peer_b = 0 then
         (if bb_closed peer_b then Some ((0, []), h(p \<mapsto> peer_bio\<lparr>bio_ptr := Some peer_b\<rparr>))
          else let h = h(i \<mapsto> BIO_set_retry_read bio);
                   peer_b = peer_b\<lparr>bb_request := (if sz \<le> bb_size peer_b then sz else bb_size peer_b)\<rparr>
               in Some ((-1, []), h(p \<mapsto> peer_bio\<lparr>bio_ptr := Some peer_b\<rparr>)))
       else do {
         let n = (if bb_len peer_b < sz then bb_len peer_b else sz);
         (out, peer_b) \<leftarrow> ring_read_loop 2 peer_b n;
         Some ((int n, out), h(p \<mapsto> peer_bio\<lparr>bio_ptr := Some peer_b\<rparr>))
       }
     }
   }"

definition bio_write :: "bio_heap \<Rightarrow> bid \<Rightarrow> bool \<Rightarrow> bytes \<Rightarrow> (int \<times> bio_heap) option" where
  "bio_write h i has_buf buf = do {
     bio \<leftarrow> h i;
     let bio = BIO_clear_retry_flags bio;
     let h = h(i \<mapsto> bio);
     if \<not> bio_init bio \<or> \<not> has_buf \<or> length buf = 0 then Some (0, h)
     else do {
       b \<leftarrow> bio_ptr bio;
       _ \<leftarrow> bb_peer b;
       _ \<leftarrow> bb_buf b;
       let b = b\<lparr>bb_request := 0\<rparr>;
       if bb_closed b then Some (-1, h(i \<mapsto> bio\<lparr>bio_ptr := Some b\<rparr>))
       else if bb_len b = bb_size b then Some (-1, h(i \<mapsto> BIO_set_retry_write (bio\<lparr>bio_ptr := Some b\<rparr>)))
       else do {
         let num = (if length buf > bb_size b - bb_len b then bb_size b - bb_len b else length buf);
         b \<leftarrow> ring_write_loop 2 b (take num buf);
         Some (int num, h(i \<mapsto> bio\<lparr>bio_ptr := Some b\<rparr>))
       }
     }
   }"

text \<open>Giving one side its buffer in \<^verbatim>\<open>bio_make_pair\<close>; \<open>Inl\<close> when the allocation fails.\<close>

definition pair_alloc :: "allocator \<Rightarrow> bio_bio_st \<Rightarrow> nat \<Rightarrow> bio_bio_st + bio_bio_st" where
  "pair_alloc M b writebuf_len =
     (case bb_buf b of
        Some _ \<Rightarrow> Inr b
      | None \<Rightarrow>
          (let b = (if writebuf_len \<noteq> 0 then b\<lparr>bb_size := writebuf_len\<rparr> else b) in
           case OPENSSL_malloc M (bb_size b) of
             None \<Rightarrow> Inl b
           | Some buf \<Rightarrow> Inr (b\<lparr>bb_buf := Some buf, bb_len := 0, bb_offset := 0\<rparr>)))"

definition bio_make_pair :: "allocator \<Rightarrow> bio_heap \<Rightarrow> bid \<Rightarrow> bid \<Rightarrow> nat \<Rightarrow> nat \<Rightarrow> (bool \<times> bio_heap) option" where
  "bio_make_pair M h i1 i2 writebuf1_len writebuf2_len = do {
     (bio1, b1) \<leftarrow> get_b h i1;
     (bio2, b2) \<leftarrow> get_b h i2;
     if bb_peer b1 \<noteq> None \<or> bb_peer b2 \<noteq> None then Some (False, h)
     else
       (case pair_alloc M b1 writebuf1_len of
          Inl b1 \<Rightarrow> Some (False, h(i1 \<mapsto> bio1\<lparr>bio_ptr := Some b1\<rparr>))
        | Inr b1 \<Rightarrow>
            (case pair_alloc M b2 writebuf2_len of
               Inl b2 \<Rightarrow> Some (False, h(i1 \<mapsto> bio1\<lparr>bio_ptr := Some b1\<rparr>, i2 \<mapsto> bio2\<lparr>bio_ptr := Some b2\<rparr>))
             | Inr b2 \<Rightarrow>
                 (let b1 = b1\<lparr>bb_peer := Some i2, bb_closed := False, bb_request := 0\<rparr>;
                      b2 = b2\<lparr>bb_peer := Some i1, bb_closed := False, bb_request := 0\<rparr>
                  in Some (True, h(i1 \<mapsto> bio1\<lparr>bio_ptr := Some b1, bio_init := True\<rparr>,
                                   i2 \<mapsto> bio2\<lparr>bio_ptr := Some b2, bio_init := True\<rparr>)))))
   }"

datatype bio_cmd =
  BIO_C_GET_WRITE_BUF_SIZE | BIO_C_GET_WRITE_GUARANTEE | BIO_C_GET_READ_REQUEST | BIO_C_RESET_READ_REQUEST |
  BIO_C_SHUTDOWN_WR | BIO_CTRL_GET_CLOSE | BIO_CTRL_SET_CLOSE | BIO_CTRL_PENDING | BIO_CTRL_WPENDING |
  BIO_CTRL_FLUSH | BIO_CTRL_EOF | BIO_CTRL_other

text \<open>\<open>ptr\<close> is the \<^verbatim>\<open>void *\<close> argument, which only \<^verbatim>\<open>BIO_CTRL_EOF\<close> reads, as a \<^verbatim>\<open>BIO *\<close>.\<close>

definition bio_ctrl :: "bio_heap \<Rightarrow> bid \<Rightarrow> bio_cmd \<Rightarrow> int \<Rightarrow> bid option \<Rightarrow> (int \<times> bio_heap) option" where
  "bio_ctrl h i cmd num ptr = do {
     (bio, b) \<leftarrow> get_b h i;
     let put = (\<lambda>b. h(i \<mapsto> bio\<lparr>bio_ptr := Some b\<rparr>));
     case cmd of
       BIO_C_GET_WRITE_BUF_SIZE \<Rightarrow> Some (int (bb_size b), h)
     | BIO_C_GET_WRITE_GUARANTEE \<Rightarrow>
         Some (if bb_peer b = None \<or> bb_closed b then 0 else int (bb_size b) - int (bb_len b), h)
     | BIO_C_GET_READ_REQUEST \<Rightarrow> Some (int (bb_request b), h)
     | BIO_C_RESET_READ_REQUEST \<Rightarrow> Some (1, put (b\<lparr>bb_request := 0\<rparr>))
     | BIO_C_SHUTDOWN_WR \<Rightarrow> Some (1, put (b\<lparr>bb_closed := True\<rparr>))
     | BIO_CTRL_GET_CLOSE \<Rightarrow> Some (bio_shutdown bio, h)
     | BIO_CTRL_SET_CLOSE \<Rightarrow> Some (1, h(i \<mapsto> bio\<lparr>bio_shutdown := num\<rparr>))
     | BIO_CTRL_PENDING \<Rightarrow>
         (case bb_peer b of
            None \<Rightarrow> Some (0, h)
          | Some p \<Rightarrow> do { (peer_bio, peer_b) \<leftarrow> get_b h p; Some (int (bb_len peer_b), h) })
     | BIO_CTRL_WPENDING \<Rightarrow> Some (if bb_buf b \<noteq> None then int (bb_len b) else 0, h)
     | BIO_CTRL_FLUSH \<Rightarrow> Some (1, h)
     | BIO_CTRL_EOF \<Rightarrow>
         (case ptr of
            None \<Rightarrow> Some (1, h)
          | Some other \<Rightarrow> do {
              (other_bio, other_b) \<leftarrow> get_b h other;
              Some (if bb_len other_b = 0 \<and> bb_closed other_b then 1 else 0, h)
            })
     | BIO_CTRL_other \<Rightarrow> Some (0, h)
   }"

section \<open>The callers in bio.c, for BIOs of this method\<close>

definition BIO_new :: "allocator \<Rightarrow> BIO option" where
  "BIO_new M =
     (case OPENSSL_zalloc M 120 of
        None \<Rightarrow> None
      | Some _ \<Rightarrow> bio_new M \<lparr>bio_init = False, bio_shutdown = 1, bio_flags = 0, bio_num_read = 0, bio_num_write = 0,
                             bio_ptr = None\<rparr>)"

text \<open>\<open>i1\<close> and \<open>i2\<close> are the addresses of the two new BIOs, \<open>None\<close> when the pair is not made.\<close>

definition BIO_new_bio_pair ::
    "allocator \<Rightarrow> bio_heap \<Rightarrow> bid \<Rightarrow> bid \<Rightarrow> nat \<Rightarrow> nat \<Rightarrow> (bool \<times> bio_heap) option" where
  "BIO_new_bio_pair M h i1 i2 writebuf1_len writebuf2_len =
     (case (BIO_new M, BIO_new M) of
        (Some bio1, Some bio2) \<Rightarrow>
          (case bio_make_pair M (h(i1 \<mapsto> bio1, i2 \<mapsto> bio2)) i1 i2 writebuf1_len writebuf2_len of
             None \<Rightarrow> None
           | Some (True, h) \<Rightarrow> Some (True, h)
           | Some (False, _) \<Rightarrow> Some (False, h(i1 := None, i2 := None)))
      | _ \<Rightarrow> Some (False, h(i1 := None, i2 := None)))"

definition BIO_read :: "bio_heap \<Rightarrow> bid option \<Rightarrow> int \<Rightarrow> ((int \<times> bytes) \<times> bio_heap) option" where
  "BIO_read h bio len =
     (case bio of
        None \<Rightarrow> Some ((-2, []), h)
      | Some i \<Rightarrow> do {
          o_bio \<leftarrow> h i;
          if \<not> bio_init o_bio then Some ((-2, []), h)
          else if len \<le> 0 then Some ((0, []), h)
          else do {
            ((ret, out), h) \<leftarrow> bio_read h i True (nat len);
            o_bio \<leftarrow> h i;
            Some ((ret, out), if ret > 0 then h(i \<mapsto> o_bio\<lparr>bio_num_read := bio_num_read o_bio + of_int ret\<rparr>) else h)
          }
        })"

definition BIO_write :: "bio_heap \<Rightarrow> bid option \<Rightarrow> bytes \<Rightarrow> (int \<times> bio_heap) option" where
  "BIO_write h bio inp =
     (case bio of
        None \<Rightarrow> Some (-2, h)
      | Some i \<Rightarrow> do {
          o_bio \<leftarrow> h i;
          if \<not> bio_init o_bio then Some (-2, h)
          else if length inp = 0 then Some (0, h)
          else do {
            (ret, h) \<leftarrow> bio_write h i True inp;
            o_bio \<leftarrow> h i;
            Some (ret, if ret > 0 then h(i \<mapsto> o_bio\<lparr>bio_num_write := bio_num_write o_bio + of_int ret\<rparr>) else h)
          }
        })"

definition BIO_ctrl :: "bio_heap \<Rightarrow> bid option \<Rightarrow> bio_cmd \<Rightarrow> int \<Rightarrow> bid option \<Rightarrow> (int \<times> bio_heap) option" where
  "BIO_ctrl h bio cmd larg parg = (case bio of None \<Rightarrow> Some (0, h) | Some i \<Rightarrow> bio_ctrl h i cmd larg parg)"

definition BIO_ctrl_get_read_request :: "bio_heap \<Rightarrow> bid option \<Rightarrow> (int \<times> bio_heap) option" where
  "BIO_ctrl_get_read_request h bio = BIO_ctrl h bio BIO_C_GET_READ_REQUEST 0 None"

definition BIO_ctrl_get_write_guarantee :: "bio_heap \<Rightarrow> bid option \<Rightarrow> (int \<times> bio_heap) option" where
  "BIO_ctrl_get_write_guarantee h bio = BIO_ctrl h bio BIO_C_GET_WRITE_GUARANTEE 0 None"

definition BIO_shutdown_wr :: "bio_heap \<Rightarrow> bid option \<Rightarrow> (int \<times> bio_heap) option" where
  "BIO_shutdown_wr h bio = BIO_ctrl h bio BIO_C_SHUTDOWN_WR 0 None"

definition BIO_pending :: "bio_heap \<Rightarrow> bid option \<Rightarrow> (int \<times> bio_heap) option" where
  "BIO_pending h bio =
     map_option (\<lambda>(r, h). (if r < 0 then 0 else r, h)) (BIO_ctrl h bio BIO_CTRL_PENDING 0 None)"

section \<open>The ring buffer holds a byte queue\<close>

text \<open>A bounded byte queue, as its users see it.\<close>

locale byte_queue =
  fixes wf :: "'q \<Rightarrow> bool" and contents :: "'q \<Rightarrow> bytes" and space :: "'q \<Rightarrow> nat"
    and put :: "'q \<Rightarrow> bytes \<Rightarrow> 'q option" and get :: "'q \<Rightarrow> nat \<Rightarrow> (bytes \<times> 'q) option"
  assumes put_law: "wf q \<Longrightarrow> length d \<le> space q \<Longrightarrow>
      \<exists>q'. put q d = Some q' \<and> wf q' \<and> contents q' = contents q @ d \<and> space q' + length d = space q"
    and get_law: "wf q \<Longrightarrow> n \<le> length (contents q) \<Longrightarrow>
      \<exists>q'. get q n = Some (take n (contents q), q') \<and> wf q' \<and> contents q' = drop n (contents q) \<and> space q' = space q + n"
begin

lemma put_get:
  assumes "wf q" and "contents q = []" and "length d \<le> space q"
  shows "\<exists>q1 q2. put q d = Some q1 \<and> get q1 (length d) = Some (d, q2) \<and> contents q2 = [] \<and> wf q2 \<and> space q2 = space q"
proof -
  from put_law [OF assms(1,3)] obtain q1 where q1: "put q d = Some q1" "wf q1" "contents q1 = d"
    "space q1 + length d = space q" using assms(2) by auto
  from get_law [OF q1(2), of "length d"] q1 show ?thesis by auto
qed

end

definition ring_wf :: "bio_bio_st \<Rightarrow> bool" where
  "ring_wf b \<longleftrightarrow> (case bb_buf b of None \<Rightarrow> False | Some buf \<Rightarrow> length buf = bb_size b) \<and>
     0 < bb_size b \<and> bb_len b \<le> bb_size b \<and> bb_offset b < bb_size b"

definition ring_order :: "bytes \<Rightarrow> nat \<Rightarrow> bytes" where
  "ring_order buf off = drop off buf @ take off buf"

definition ring_contents :: "bio_bio_st \<Rightarrow> bytes" where
  "ring_contents b = (case bb_buf b of None \<Rightarrow> [] | Some buf \<Rightarrow> take (bb_len b) (ring_order buf (bb_offset b)))"

definition ring_space :: "bio_bio_st \<Rightarrow> nat" where
  "ring_space b = bb_size b - bb_len b"

lemma ring_order_shift:
  assumes "off + c \<le> length buf"
  shows "ring_order buf (off + c) = drop c (ring_order buf off) @ take c (ring_order buf off)"
proof -
  have "take (off + c) buf = take off buf @ take c (drop off buf)" by (rule take_add)
  then show ?thesis using assms by (simp add: ring_order_def add.commute)
qed

lemma length_ring_contents: "ring_wf b \<Longrightarrow> length (ring_contents b) = bb_len b"
  by (auto simp: ring_wf_def ring_contents_def ring_order_def split: option.splits)

lemma ring_read_step_ok:
  assumes wf: "ring_wf b" and rest: "0 < rest" "rest \<le> bb_len b"
  defines "chunk \<equiv> min rest (bb_size b - bb_offset b)"
  shows "\<exists>b'. ring_read_step b rest = (take chunk (ring_contents b), b', rest - chunk) \<and> ring_wf b' \<and>
    ring_contents b' = drop chunk (ring_contents b) \<and> bb_size b' = bb_size b \<and> bb_len b' = bb_len b - chunk \<and>
    (chunk < rest \<longrightarrow> bb_offset b' = 0) \<and> bb_peer b' = bb_peer b \<and> bb_closed b' = bb_closed b \<and>
    bb_request b' = bb_request b"
proof -
  obtain buf where buf: "bb_buf b = Some buf" "length buf = bb_size b"
    using wf by (auto simp: ring_wf_def split: option.splits)
  let ?o = "bb_offset b" and ?l = "bb_len b" and ?s = "bb_size b"
  have b: "0 < ?s" "?l \<le> ?s" "?o < ?s" using wf by (auto simp: ring_wf_def)
  have chunk: "(if ?o + rest \<le> ?s then rest else ?s - ?o) = chunk" using b by (auto simp: chunk_def)
  have c: "0 < chunk" "chunk \<le> rest" "chunk \<le> ?s - ?o" "chunk \<le> ?l" using b rest by (auto simp: chunk_def)
  have con: "ring_contents b = take ?l (ring_order buf ?o)" by (simp add: ring_contents_def buf)
  have out: "read_at buf ?o chunk = take chunk (ring_contents b)"
    using c buf by (simp add: con ring_order_def read_at_def min_def)
  define off where "off = (if ?l - chunk \<noteq> 0 then (if ?o + chunk = ?s then 0 else ?o + chunk) else 0)"
  let ?b' = "b\<lparr>bb_len := ?l - chunk, bb_offset := off\<rparr>"
  have step: "ring_read_step b rest = (take chunk (ring_contents b), ?b', rest - chunk)"
    unfolding ring_read_step_def Let_def chunk using out buf by (auto simp: off_def)
  have off: "off < ?s" using b c by (auto simp: off_def)
  have "ring_contents ?b' = drop chunk (ring_contents b)"
  proof (cases "?l - chunk = 0")
    case True
    then show ?thesis using length_ring_contents [OF wf] by (simp add: ring_contents_def buf(1))
  next
    case False
    have "ring_order buf off = ring_order buf (?o + chunk)"
      using False buf by (auto simp: off_def ring_order_def)
    also have "\<dots> = drop chunk (ring_order buf ?o) @ take chunk (ring_order buf ?o)"
      by (rule ring_order_shift) (use c buf b in auto)
    finally have "take (?l - chunk) (ring_order buf off) = take (?l - chunk) (drop chunk (ring_order buf ?o))"
      using b buf by (simp add: ring_order_def)
    then show ?thesis using buf by (simp add: con ring_contents_def drop_take)
  qed
  moreover have "chunk < rest \<longrightarrow> off = 0" using b c by (auto simp: chunk_def off_def)
  ultimately show ?thesis using step off b c buf by (auto simp: ring_wf_def)
qed

definition same_ends :: "bio_bio_st \<Rightarrow> bio_bio_st \<Rightarrow> bool" where
  "same_ends b b' \<longleftrightarrow> bb_size b' = bb_size b \<and> bb_peer b' = bb_peer b \<and> bb_closed b' = bb_closed b \<and>
     bb_request b' = bb_request b"

text \<open>Two iterations are enough to read anything the buffer holds.\<close>

lemma ring_read_ok:
  assumes wf: "ring_wf b" and n: "0 < n" "n \<le> bb_len b"
  shows "\<exists>b'. ring_read_loop 2 b n = Some (take n (ring_contents b), b') \<and> ring_wf b' \<and>
    ring_contents b' = drop n (ring_contents b) \<and> same_ends b b' \<and> bb_len b' = bb_len b - n"
proof -
  define c where "c = min n (bb_size b - bb_offset b)"
  obtain b1 where b1: "ring_read_step b n = (take c (ring_contents b), b1, n - c)" "ring_wf b1"
    "ring_contents b1 = drop c (ring_contents b)" "bb_size b1 = bb_size b" "bb_len b1 = bb_len b - c"
    "c < n \<longrightarrow> bb_offset b1 = 0" "bb_peer b1 = bb_peer b" "bb_closed b1 = bb_closed b" "bb_request b1 = bb_request b"
    using ring_read_step_ok [OF wf n] unfolding c_def by blast
  show ?thesis
  proof (cases "c = n")
    case True
    then show ?thesis using b1 by (simp add: numeral_2_eq_2 same_ends_def)
  next
    case False
    then have cn: "c < n" by (simp add: c_def)
    have r: "0 < n - c" "n - c \<le> bb_len b1" using cn n b1 by auto
    have m: "min (n - c) (bb_size b1 - bb_offset b1) = n - c"
      using b1 cn n wf by (auto simp: ring_wf_def)
    obtain b2 where b2: "ring_read_step b1 (n - c) = (take (n - c) (ring_contents b1), b2, 0)" "ring_wf b2"
      "ring_contents b2 = drop (n - c) (ring_contents b1)" "bb_size b2 = bb_size b1" "bb_len b2 = bb_len b1 - (n - c)"
      "bb_peer b2 = bb_peer b1" "bb_closed b2 = bb_closed b1" "bb_request b2 = bb_request b1"
      using ring_read_step_ok [OF b1(2) r] unfolding m by auto
    have "take c (ring_contents b) @ take (n - c) (drop c (ring_contents b)) = take n (ring_contents b)"
      using cn by (metis le_add_diff_inverse less_imp_le take_add)
    then show ?thesis using b1 b2 cn by (simp add: numeral_2_eq_2 same_ends_def)
  qed
qed

lemma ring_write_step_ok:
  assumes wf: "ring_wf b" and d: "0 < length data" "length data \<le> ring_space b"
  defines "wo \<equiv> (if bb_offset b + bb_len b \<ge> bb_size b then bb_offset b + bb_len b - bb_size b else bb_offset b + bb_len b)"
  defines "chunk \<equiv> min (length data) (bb_size b - wo)"
  shows "\<exists>b'. ring_write_step b data = (b', drop chunk data) \<and> ring_wf b' \<and>
    ring_contents b' = ring_contents b @ take chunk data \<and> bb_len b' = bb_len b + chunk \<and> same_ends b b' \<and>
    bb_offset b' = bb_offset b \<and> 0 < chunk \<and> chunk \<le> length data"
proof -
  obtain buf where buf: "bb_buf b = Some buf" "length buf = bb_size b"
    using wf by (auto simp: ring_wf_def split: option.splits)
  let ?o = "bb_offset b" and ?l = "bb_len b" and ?s = "bb_size b"
  have b: "0 < ?s" "?l \<le> ?s" "?o < ?s" using wf by (auto simp: ring_wf_def)
  have d': "?l + length data \<le> ?s" using d b by (simp add: ring_space_def)
  have wo: "wo < ?s" using b by (auto simp: wo_def)
  have chunk: "(if wo + length data \<le> ?s then length data else ?s - wo) = chunk" using wo by (auto simp: chunk_def)
  have c: "0 < chunk" "chunk \<le> length data" "wo + chunk \<le> ?s" using wo d by (auto simp: chunk_def)
  let ?d = "take chunk data" and ?buf' = "write_at buf wo (take chunk data)"
  let ?b' = "b\<lparr>bb_buf := Some ?buf', bb_len := ?l + chunk\<rparr>"
  have step: "ring_write_step b data = (?b', drop chunk data)"
    unfolding ring_write_step_def Let_def wo_def [symmetric] chunk using buf by simp
  have ld: "length ?d = chunk" using c by simp
  have len: "length ?buf' = ?s" using c buf ld by (simp add: length_write_at)
  have lc: "?l + chunk \<le> ?s" using c d' by simp
  have "take (?l + chunk) (ring_order ?buf' ?o) = take ?l (ring_order buf ?o) @ ?d"
  proof (cases "?o + ?l < ?s")
    case True
    then have w: "wo = ?o + ?l" by (simp add: wo_def)
    have "drop ?o ?buf' = take ?l (drop ?o buf) @ ?d @ drop (wo + chunk) buf"
      using buf b True ld w by (simp add: write_at_def drop_take)
    moreover have "length (take ?l (drop ?o buf)) = ?l" using True buf by simp
    ultimately show ?thesis using ld True buf by (simp add: ring_order_def)
  next
    case False
    then have w: "wo + ?s = ?o + ?l" "wo \<le> ?o" "wo + chunk \<le> ?o" using b lc by (auto simp: wo_def)
    have "drop ?o ?buf' = drop ?o buf"
      using w ld buf b by (subst drop_write_at_after) auto
    moreover have "take ?o ?buf' = take wo buf @ ?d @ drop (wo + chunk) (take ?o buf)"
      using take_write_at_over [of wo ?d ?o buf] w ld buf b by simp
    moreover have "?l = length (drop ?o buf @ take wo buf)" using w buf b by simp
    moreover have "take ?l (drop ?o buf @ take ?o buf) = drop ?o buf @ take wo buf"
    proof -
      have "?l - (?s - ?o) = wo" using w(1) b by arith
      then show ?thesis using w buf b by (simp add: min_def)
    qed
    moreover have "min (length buf) wo = wo" using w(2) b buf by simp
    ultimately show ?thesis using ld by (simp add: ring_order_def)
  qed
  then have "ring_contents ?b' = ring_contents b @ ?d" by (simp add: ring_contents_def buf(1))
  then show ?thesis using step c b lc len by (auto simp: ring_wf_def same_ends_def)
qed

lemma ring_write_ok:
  assumes wf: "ring_wf b" and d: "0 < length data" "length data \<le> ring_space b"
  shows "\<exists>b'. ring_write_loop 2 b data = Some b' \<and> ring_wf b' \<and> ring_contents b' = ring_contents b @ data \<and>
    bb_len b' = bb_len b + length data \<and> same_ends b b'"
proof -
  define wo where "wo = (if bb_offset b + bb_len b \<ge> bb_size b then bb_offset b + bb_len b - bb_size b else bb_offset b + bb_len b)"
  define c where "c = min (length data) (bb_size b - wo)"
  have b: "0 < bb_size b" "bb_len b \<le> bb_size b" "bb_offset b < bb_size b" using wf by (auto simp: ring_wf_def)
  obtain b1 where b1: "ring_write_step b data = (b1, drop c data)" "ring_wf b1"
    "ring_contents b1 = ring_contents b @ take c data" "bb_len b1 = bb_len b + c" "same_ends b b1"
    "bb_offset b1 = bb_offset b" "0 < c" "c \<le> length data"
    using ring_write_step_ok [OF wf d] unfolding c_def wo_def by blast
  show ?thesis
  proof (cases "c = length data")
    case True
    then show ?thesis using b1 by (simp add: numeral_2_eq_2)
  next
    case False
    then have cl: "c < length data" using b1 by simp
    then have cs: "c = bb_size b - wo" by (simp add: c_def)
    have "\<not> bb_offset b + bb_len b \<ge> bb_size b"
    proof
      assume a: "bb_offset b + bb_len b \<ge> bb_size b"
      then have "wo + length data \<le> bb_offset b" using d b by (simp add: wo_def ring_space_def)
      then show False using cs cl b by simp
    qed
    then have "bb_offset b1 + bb_len b1 = bb_size b1" using cs b1 by (simp add: wo_def same_ends_def)
    then have w1: "(if bb_offset b1 + bb_len b1 \<ge> bb_size b1 then bb_offset b1 + bb_len b1 - bb_size b1 else bb_offset b1 + bb_len b1) = 0"
      by simp
    have d1: "0 < length (drop c data)" "length (drop c data) \<le> ring_space b1"
      using cl d b1 by (auto simp: ring_space_def same_ends_def)
    have m: "min (length (drop c data)) (bb_size b1 - 0) = length (drop c data)"
      using d1 by (simp add: ring_space_def)
    obtain b2 where b2: "ring_write_step b1 (drop c data) = (b2, [])" "ring_wf b2"
      "ring_contents b2 = ring_contents b1 @ drop c data" "bb_len b2 = bb_len b1 + length (drop c data)" "same_ends b1 b2"
      using ring_write_step_ok [OF b1(2) d1] unfolding w1 m by auto
    show ?thesis using b1 b2 cl by (simp add: numeral_2_eq_2 same_ends_def)
  qed
qed

definition ring_put :: "bio_bio_st \<Rightarrow> bytes \<Rightarrow> bio_bio_st option" where
  "ring_put b d = (if d = [] then Some b else ring_write_loop 2 b d)"

definition ring_get :: "bio_bio_st \<Rightarrow> nat \<Rightarrow> (bytes \<times> bio_bio_st) option" where
  "ring_get b n = (if n = 0 then Some ([], b) else ring_read_loop 2 b n)"

interpretation ring: byte_queue ring_wf ring_contents ring_space ring_put ring_get
proof
  fix q :: bio_bio_st and d :: bytes assume "ring_wf q" "length d \<le> ring_space q"
  then show "\<exists>q'. ring_put q d = Some q' \<and> ring_wf q' \<and> ring_contents q' = ring_contents q @ d \<and>
      ring_space q' + length d = ring_space q"
    using ring_write_ok [of q d] by (cases "d = []") (auto simp: ring_put_def ring_space_def same_ends_def)
next
  fix q :: bio_bio_st and n :: nat assume "ring_wf q" "n \<le> length (ring_contents q)"
  then show "\<exists>q'. ring_get q n = Some (take n (ring_contents q), q') \<and> ring_wf q' \<and>
      ring_contents q' = drop n (ring_contents q) \<and> ring_space q' = ring_space q + n"
    using ring_read_ok [of q n] length_ring_contents [of q]
    by (cases "n = 0") (auto simp: ring_get_def ring_space_def same_ends_def ring_wf_def)
qed

section \<open>Properties\<close>

text \<open>
  C22: the two loops over the ring buffer end within the two iterations the code expects, and
  implement a bounded byte queue: writing at most the free space appends the bytes to the contents,
  reading at most the contents takes them from the front, wherever the offset stands and however the
  data wraps around the end of the buffer.
\<close>

theorem ring_fifo:
  assumes "ring_wf b" and "0 < length d" and "length d \<le> bb_size b - bb_len b" and "n \<le> bb_len b + length d" and "0 < n"
  shows "\<exists>b1 b2. ring_write_loop 2 b d = Some b1 \<and> ring_contents b1 = ring_contents b @ d \<and>
    ring_read_loop 2 b1 n = Some (take n (ring_contents b @ d), b2) \<and> ring_wf b2 \<and>
    ring_contents b2 = drop n (ring_contents b @ d)"
proof -
  from ring.put_law [OF assms(1), of d] assms(2,3) obtain b1 where
    b1: "ring_write_loop 2 b d = Some b1" "ring_wf b1" "ring_contents b1 = ring_contents b @ d"
    by (auto simp: ring_put_def ring_space_def)
  moreover have "n \<le> length (ring_contents b1)" using b1(3) assms(4) length_ring_contents [OF assms(1)] by simp
  from ring.get_law [OF b1(2) this] assms(5) b1 show ?thesis by (auto simp: ring_get_def)
qed

definition sample_ring :: bio_bio_st where
  "sample_ring = \<lparr>bb_peer = None, bb_closed = False, bb_len = 1, bb_offset = 3, bb_size = 4, bb_buf = Some [0, 0, 0, 7], bb_request = 0\<rparr>"

theorem ring_fifo_witness:
  "\<exists>b1 b2. ring_write_loop 2 sample_ring [8, 9] = Some b1 \<and> ring_read_loop 2 b1 2 = Some ([7, 8], b2) \<and>
     ring_contents b2 = [9]"
  using ring_fifo [of sample_ring "[8, 9]" 2]
  by (auto simp: sample_ring_def ring_wf_def ring_contents_def ring_order_def)

end
