(* ===== verification/Bio_Stream.thy ===== *)
theory Bio_Stream
  imports Bio_Pair
begin

text \<open>
  What the two ends of a BIO pair see: two byte streams, one per direction. A pair is well formed when
  each end points to the other and its ring buffer is well formed; every call keeps this, so no call
  dereferences a null or dangling pointer or fails an assertion, and the bytes read at one end are
  those written at the other, in order.
\<close>

definition end_wf :: "bio_heap \<Rightarrow> bid \<Rightarrow> bid \<Rightarrow> bool" where
  "end_wf h x y \<longleftrightarrow>
     (case get_b h x of
        None \<Rightarrow> False
      | Some (bio, b) \<Rightarrow> bio_init bio \<and> bb_peer b = Some y \<and> ring_wf b)"

definition pair_wf :: "bio_heap \<Rightarrow> bid \<Rightarrow> bid \<Rightarrow> bool" where
  "pair_wf h x y \<longleftrightarrow> x \<noteq> y \<and> end_wf h x y \<and> end_wf h y x"

text \<open>The bytes written at \<open>x\<close> and not yet read at the other end, its capacity, and whether \<open>x\<close> is shut for writing.\<close>

definition chan :: "bio_heap \<Rightarrow> bid \<Rightarrow> bytes" where
  "chan h x = (case get_b h x of None \<Rightarrow> [] | Some (_, b) \<Rightarrow> ring_contents b)"

definition free_space :: "bio_heap \<Rightarrow> bid \<Rightarrow> nat" where
  "free_space h x = (case get_b h x of None \<Rightarrow> 0 | Some (_, b) \<Rightarrow> ring_space b)"

definition closed_for_write :: "bio_heap \<Rightarrow> bid \<Rightarrow> bool" where
  "closed_for_write h x = (case get_b h x of None \<Rightarrow> False | Some (_, b) \<Rightarrow> bb_closed b)"

definition retry_flags :: "bio_heap \<Rightarrow> bid \<Rightarrow> bool \<times> bool \<times> bool" where
  "retry_flags h x =
     (case h x of
        None \<Rightarrow> (False, False, False)
      | Some bio \<Rightarrow> (BIO_should_retry bio, BIO_should_read bio, BIO_should_write bio))"

lemma pair_wf_sym: "pair_wf h x y \<Longrightarrow> pair_wf h y x"
  by (auto simp: pair_wf_def)

lemma end_wfE:
  assumes "end_wf h x y"
  obtains bio b where "h x = Some bio" "bio_ptr bio = Some b" "bio_init bio" "bb_peer b = Some y" "ring_wf b"
  using assms by (auto simp: end_wf_def get_b_def split: option.splits)

lemma get_b_upd [simp]:
  "get_b (h(x \<mapsto> bio)) z = (if z = x then map_option (Pair bio) (bio_ptr bio) else get_b h z)"
  by (simp add: get_b_def)

lemma get_b_Some: "h x = Some bio \<Longrightarrow> bio_ptr bio = Some b \<Longrightarrow> get_b h x = Some (bio, b)"
  by (simp add: get_b_def)

lemma ring_wf_request [simp]: "ring_wf (b\<lparr>bb_request := r\<rparr>) = ring_wf b"
  "ring_contents (b\<lparr>bb_request := r\<rparr>) = ring_contents b" "ring_space (b\<lparr>bb_request := r\<rparr>) = ring_space b"
  by (simp_all add: ring_wf_def ring_contents_def ring_space_def split: option.split)

lemma ring_wf_closed [simp]: "ring_wf (b\<lparr>bb_closed := r\<rparr>) = ring_wf b"
  "ring_contents (b\<lparr>bb_closed := r\<rparr>) = ring_contents b" "ring_space (b\<lparr>bb_closed := r\<rparr>) = ring_space b"
  by (simp_all add: ring_wf_def ring_contents_def ring_space_def split: option.split)

lemma retry_simps [simp]:
  "bio_ptr (BIO_clear_retry_flags bio) = bio_ptr bio" "bio_init (BIO_clear_retry_flags bio) = bio_init bio"
  "bio_ptr (BIO_set_retry_read bio) = bio_ptr bio" "bio_init (BIO_set_retry_read bio) = bio_init bio"
  "bio_ptr (BIO_set_retry_write bio) = bio_ptr bio" "bio_init (BIO_set_retry_write bio) = bio_init bio"
  by (simp_all add: BIO_clear_retry_flags_def BIO_set_retry_read_def BIO_set_retry_write_def)

lemmas flag_defs = BIO_should_retry_def BIO_should_read_def BIO_should_write_def BIO_test_flags_def
  BIO_clear_retry_flags_def BIO_set_retry_read_def BIO_set_retry_write_def kRetryFlags_def BIO_FLAGS_RWS_def
  BIO_FLAGS_READ_def BIO_FLAGS_WRITE_def BIO_FLAGS_IO_SPECIAL_def BIO_FLAGS_SHOULD_RETRY_def

lemma flags_cleared: "(w AND - 16) AND 1 = 0" "(w AND - 16) AND 2 = 0" "(w AND - 16) AND 8 = 0" for w :: u32
  by (simp_all add: and.assoc)

section \<open>Single calls\<close>

text \<open>The outcome of a write at \<open>x\<close>: closed, full, or as many bytes as fit.\<close>

definition write_outcome :: "bio_heap \<Rightarrow> bid \<Rightarrow> bid \<Rightarrow> bytes \<Rightarrow> int \<Rightarrow> bio_heap \<Rightarrow> bool" where
  "write_outcome h x y d r h' \<longleftrightarrow>
     pair_wf h' x y \<and> chan h' x = chan h x @ take (nat r) d \<and> chan h' y = chan h y \<and>
     closed_for_write h' x = closed_for_write h x \<and> closed_for_write h' y = closed_for_write h y \<and>
     (if closed_for_write h x then r = -1 \<and> retry_flags h' x = (False, False, False)
      else if free_space h x = 0 then r = -1 \<and> retry_flags h' x = (True, False, True)
      else r = int (min (length d) (free_space h x)) \<and> retry_flags h' x = (False, False, False))"

lemma cleared_flags [simp]:
  "BIO_should_retry (BIO_clear_retry_flags bio) = False" "BIO_should_read (BIO_clear_retry_flags bio) = False"
  "BIO_should_write (BIO_clear_retry_flags bio) = False"
  by (simp_all add: flag_defs flags_cleared)

lemma flag_ptr [simp]:
  "BIO_should_retry (bio\<lparr>bio_ptr := p\<rparr>) = BIO_should_retry bio" "BIO_should_read (bio\<lparr>bio_ptr := p\<rparr>) = BIO_should_read bio"
  "BIO_should_write (bio\<lparr>bio_ptr := p\<rparr>) = BIO_should_write bio"
  by (simp_all add: flag_defs)

lemma write_outcomeI:
  assumes wf: "pair_wf h x y" and hx: "h x = Some bio" "bio_ptr bio = Some b" and h': "h' = h(x \<mapsto> bio')" "bio_ptr bio' = Some b'"
    and i: "bio_init bio'" and r: "ring_wf b'" "ring_contents b' = ring_contents b @ take (nat r) d" "bb_peer b' = bb_peer b" "bb_closed b' = bb_closed b"
    and c: "if bb_closed b then r = -1 \<and> (BIO_should_retry bio', BIO_should_read bio', BIO_should_write bio') = (False, False, False)
      else if ring_space b = 0 then r = -1 \<and> (BIO_should_retry bio', BIO_should_read bio', BIO_should_write bio') = (True, False, True)
      else r = int (min (length d) (ring_space b)) \<and> (BIO_should_retry bio', BIO_should_read bio', BIO_should_write bio') = (False, False, False)"
  shows "write_outcome h x y d r h'"
  using assms
  by (auto simp: write_outcome_def pair_wf_def end_wf_def chan_def closed_for_write_def free_space_def retry_flags_def get_b_Some)

lemma bio_write_outcome:
  assumes wf: "pair_wf h x y" and d: "d \<noteq> []"
  shows "\<exists>r h'. bio_write h x True d = Some (r, h') \<and> write_outcome h x y d r h'"
proof -
  obtain bio b where x: "h x = Some bio" "bio_ptr bio = Some b" "bio_init bio" "bb_peer b = Some y" "ring_wf b"
    using wf by (auto simp: pair_wf_def elim: end_wfE)
  obtain buf where buf: "bb_buf b = Some buf" using x(5) by (auto simp: ring_wf_def split: option.splits)
  let ?bio = "BIO_clear_retry_flags bio" and ?b = "b\<lparr>bb_request := 0\<rparr>"
  show ?thesis
  proof (cases "bb_closed b")
    case True
    then have "bio_write h x True d = Some (-1, h(x \<mapsto> ?bio\<lparr>bio_ptr := Some ?b\<rparr>))"
      using x buf d by (simp add: bio_write_def)
    moreover have "write_outcome h x y d (-1) (h(x \<mapsto> ?bio\<lparr>bio_ptr := Some ?b\<rparr>))"
      by (rule write_outcomeI [OF wf x(1,2) refl, where b' = ?b]) (use x True in simp_all)
    ultimately show ?thesis by blast
  next
    case opn: False
    show ?thesis
    proof (cases "bb_len b = bb_size b")
      case True
      let ?bio' = "BIO_set_retry_write (?bio\<lparr>bio_ptr := Some ?b\<rparr>)"
      have "bio_write h x True d = Some (-1, h(x \<mapsto> ?bio'))"
        using x buf d opn True by (simp add: bio_write_def)
      moreover have "(BIO_should_retry ?bio', BIO_should_read ?bio', BIO_should_write ?bio') = (True, False, True)"
        by (simp add: flag_defs flags_cleared bit.conj_disj_distrib2)
      then have "write_outcome h x y d (-1) (h(x \<mapsto> ?bio'))"
        by (intro write_outcomeI [OF wf x(1,2) refl, where b' = ?b]) (use x opn True in \<open>simp_all add: ring_space_def\<close>)
      ultimately show ?thesis by blast
    next
      case False
      let ?n = "min (length d) (ring_space b)"
      have l: "bb_len b < bb_size b" using False x(5) by (simp add: ring_wf_def)
      then have n: "(if length d > bb_size b - bb_len b then bb_size b - bb_len b else length d) = ?n" "0 < ?n"
        using d by (auto simp: ring_space_def)
      from ring_write_ok [of ?b "take ?n d"] n(2) x(5) obtain b' where
        b': "ring_write_loop 2 ?b (take ?n d) = Some b'" "ring_wf b'" "ring_contents b' = ring_contents b @ take ?n d"
          "same_ends ?b b'" by auto
      have "bio_write h x True d = Some (int ?n, h(x \<mapsto> ?bio\<lparr>bio_ptr := Some b'\<rparr>))"
        using x buf d opn False b'(1) by (auto simp: bio_write_def ring_space_def min_def)
      moreover have "write_outcome h x y d (int ?n) (h(x \<mapsto> ?bio\<lparr>bio_ptr := Some b'\<rparr>))"
        by (rule write_outcomeI [OF wf x(1,2) refl, where b' = b']) (use x opn b' l in \<open>simp_all add: same_ends_def ring_space_def\<close>)
      ultimately show ?thesis by blast
    qed
  qed
qed

lemma read_request:
  "map_option fst (BIO_ctrl_get_read_request h (Some x)) = map_option (\<lambda>(_, b). int (bb_request b)) (get_b h x)"
  by (cases "get_b h x") (auto simp: BIO_ctrl_get_read_request_def BIO_ctrl_def bio_ctrl_def)

text \<open>
  The outcome of a read of up to \<open>n\<close> bytes at \<open>x\<close>: bytes from the front of what the other end wrote, end
  of file when there are none and the other end is shut, or a retry, with the wish recorded for the writer.
\<close>

definition read_outcome :: "bio_heap \<Rightarrow> bid \<Rightarrow> bid \<Rightarrow> nat \<Rightarrow> int \<Rightarrow> bytes \<Rightarrow> bio_heap \<Rightarrow> bool" where
  "read_outcome h x y n r out h' \<longleftrightarrow>
     pair_wf h' x y \<and> chan h y = out @ chan h' y \<and> chan h' x = chan h x \<and>
     closed_for_write h' x = closed_for_write h x \<and> closed_for_write h' y = closed_for_write h y \<and>
     (if chan h y \<noteq> [] then r = int (min n (length (chan h y))) \<and> length out = nat r \<and> retry_flags h' x = (False, False, False)
      else if closed_for_write h y then r = 0 \<and> out = [] \<and> retry_flags h' x = (False, False, False)
      else r = -1 \<and> out = [] \<and> retry_flags h' x = (True, True, False) \<and>
        map_option fst (BIO_ctrl_get_read_request h' (Some y)) = Some (int (min n (free_space h y))))"

lemma bio_read_outcome:
  assumes wf: "pair_wf h x y" and n: "0 < n"
  shows "\<exists>r out h'. bio_read h x True n = Some ((r, out), h') \<and> read_outcome h x y n r out h'"
proof -
  obtain bio b where x: "h x = Some bio" "bio_ptr bio = Some b" "bio_init bio" "bb_peer b = Some y" "ring_wf b"
    using wf by (auto simp: pair_wf_def elim: end_wfE)
  obtain pbio p where y: "h y = Some pbio" "bio_ptr pbio = Some p" "bio_init pbio" "bb_peer p = Some x" "ring_wf p"
    using wf by (auto simp: pair_wf_def elim: end_wfE)
  have xy: "x \<noteq> y" using wf by (simp add: pair_wf_def)
  obtain buf where buf: "bb_buf p = Some buf" using y(5) by (auto simp: ring_wf_def split: option.splits)
  have lc: "length (ring_contents p) = bb_len p" by (rule length_ring_contents [OF y(5)])
  let ?bio = "BIO_clear_retry_flags bio" and ?p = "p\<lparr>bb_request := 0\<rparr>"
  note obs = read_outcome_def pair_wf_def end_wf_def chan_def closed_for_write_def free_space_def retry_flags_def get_b_def
  show ?thesis
  proof (cases "bb_len p = 0")
    case empty: True
    then have nil: "ring_contents p = []" using lc by simp
    show ?thesis
    proof (cases "bb_closed p")
      case True
      then have "bio_read h x True n = Some ((0, []), h(x \<mapsto> ?bio, y \<mapsto> pbio\<lparr>bio_ptr := Some ?p\<rparr>))"
        using x y buf n xy empty by (simp add: bio_read_def get_b_def)
      moreover have "read_outcome h x y n 0 [] (h(x \<mapsto> ?bio, y \<mapsto> pbio\<lparr>bio_ptr := Some ?p\<rparr>))"
        using x y xy nil True by (auto simp: obs)
      ultimately show ?thesis by blast
    next
      case False
      let ?q = "p\<lparr>bb_request := min n (bb_size p)\<rparr>" and ?bio' = "BIO_set_retry_read ?bio"
      have "bio_read h x True n = Some ((-1, []), h(x \<mapsto> ?bio', y \<mapsto> pbio\<lparr>bio_ptr := Some ?q\<rparr>))"
        using x y buf n xy empty False by (simp add: bio_read_def get_b_def min_def)
      moreover have "(BIO_should_retry ?bio', BIO_should_read ?bio', BIO_should_write ?bio') = (True, True, False)"
        by (simp add: flag_defs flags_cleared bit.conj_disj_distrib2)
      then have "read_outcome h x y n (-1) [] (h(x \<mapsto> ?bio', y \<mapsto> pbio\<lparr>bio_ptr := Some ?q\<rparr>))"
        using x y xy nil False empty by (auto simp: obs read_request ring_space_def)
      ultimately show ?thesis by blast
    qed
  next
    case False
    let ?n = "min n (bb_len p)"
    have n': "0 < ?n" "?n \<le> bb_len ?p" using n False by auto
    from ring_read_ok [of ?p ?n] n' y(5) obtain p' where
      p': "ring_read_loop 2 ?p ?n = Some (take ?n (ring_contents p), p')" "ring_wf p'"
        "ring_contents p' = drop ?n (ring_contents p)" "same_ends ?p p'" by auto
    have "bio_read h x True n = Some ((int ?n, take ?n (ring_contents p)), h(x \<mapsto> ?bio, y \<mapsto> pbio\<lparr>bio_ptr := Some p'\<rparr>))"
      using x y buf n xy False p'(1) by (auto simp: bio_read_def get_b_def min_def not_less Let_def)
    moreover have "read_outcome h x y n (int ?n) (take ?n (ring_contents p)) (h(x \<mapsto> ?bio, y \<mapsto> pbio\<lparr>bio_ptr := Some p'\<rparr>))"
      using x y xy False p' lc by (auto simp: obs same_ends_def)
    ultimately show ?thesis by blast
  qed
qed

section \<open>The calls of bio.c\<close>

text \<open>Counting the bytes changes nothing that the other calls look at.\<close>

definition same_view :: "BIO \<Rightarrow> BIO \<Rightarrow> bool" where
  "same_view o1 o2 \<longleftrightarrow> bio_init o1 = bio_init o2 \<and> bio_ptr o1 = bio_ptr o2 \<and> bio_flags o1 = bio_flags o2"

lemma same_view_upd:
  assumes "h x = Some o1" and "same_view o1 o2"
  shows "pair_wf (h(x \<mapsto> o2)) u v = pair_wf h u v" "chan (h(x \<mapsto> o2)) z = chan h z" "free_space (h(x \<mapsto> o2)) z = free_space h z"
    "closed_for_write (h(x \<mapsto> o2)) z = closed_for_write h z" "retry_flags (h(x \<mapsto> o2)) z = retry_flags h z"
    "map_option fst (BIO_ctrl_get_read_request (h(x \<mapsto> o2)) (Some z)) = map_option fst (BIO_ctrl_get_read_request h (Some z))"
  using assms
  by (auto simp: same_view_def pair_wf_def end_wf_def chan_def free_space_def closed_for_write_def retry_flags_def get_b_def
      read_request option.map_comp comp_def BIO_should_retry_def BIO_should_read_def BIO_should_write_def
      BIO_test_flags_def split: option.splits)

lemma pair_wf_init: "pair_wf h x y \<Longrightarrow> \<exists>bio. h x = Some bio \<and> bio_init bio"
  by (auto simp: pair_wf_def elim!: end_wfE)

lemma BIO_write_outcome:
  assumes wf: "pair_wf h x y" and d: "d \<noteq> []"
  shows "\<exists>r h'. BIO_write h (Some x) d = Some (r, h') \<and> write_outcome h x y d r h'"
proof -
  from bio_write_outcome [OF assms] obtain r h1 where w: "bio_write h x True d = Some (r, h1)" "write_outcome h x y d r h1" by blast
  obtain bio where "h x = Some bio" "bio_init bio" using pair_wf_init [OF wf] by blast
  moreover from w(2) obtain o1 where o1: "h1 x = Some o1" using pair_wf_init [of h1 x y] by (auto simp: write_outcome_def)
  moreover have "write_outcome h x y d r (h1(x \<mapsto> o1\<lparr>bio_num_write := n\<rparr>))" for n
  proof -
    have "same_view o1 (o1\<lparr>bio_num_write := n\<rparr>)" by (simp add: same_view_def)
    from same_view_upd [where h = h1 and x = x, OF o1 this] w(2) show ?thesis unfolding write_outcome_def by simp
  qed
  ultimately show ?thesis using w d by (auto simp: BIO_write_def)
qed

lemma BIO_read_outcome:
  assumes wf: "pair_wf h x y" and n: "0 < len"
  shows "\<exists>r out h'. BIO_read h (Some x) len = Some ((r, out), h') \<and> read_outcome h x y (nat len) r out h'"
proof -
  have "0 < nat len" using n by simp
  from bio_read_outcome [OF wf this] obtain r out h1 where
    w: "bio_read h x True (nat len) = Some ((r, out), h1)" "read_outcome h x y (nat len) r out h1" by blast
  obtain bio where "h x = Some bio" "bio_init bio" using pair_wf_init [OF wf] by blast
  moreover from w(2) obtain o1 where o1: "h1 x = Some o1" using pair_wf_init [of h1 x y] by (auto simp: read_outcome_def)
  moreover have "read_outcome h x y (nat len) r out (h1(x \<mapsto> o1\<lparr>bio_num_read := n\<rparr>))" for n
  proof -
    have v: "same_view o1 (o1\<lparr>bio_num_read := n\<rparr>)" by (simp add: same_view_def)
    from w(2) show ?thesis unfolding read_outcome_def same_view_upd [where h = h1 and x = x, OF o1 v] .
  qed
  ultimately show ?thesis using w n by (auto simp: BIO_read_def)
qed

lemma ctrl_keeps:
  assumes wf: "pair_wf h x y" and c: "BIO_ctrl h (Some z) cmd num ptr = Some (r, h')" and z: "z = x \<or> z = y"
  shows "pair_wf h' x y \<and> chan h' u = chan h u"
proof (cases cmd)
  case BIO_C_RESET_READ_REQUEST
  then show ?thesis using wf c z
    by (auto simp: BIO_ctrl_def bio_ctrl_def pair_wf_def end_wf_def chan_def Option.bind_eq_Some_conv)
next
  case BIO_C_SHUTDOWN_WR
  then show ?thesis using wf c z
    by (auto simp: BIO_ctrl_def bio_ctrl_def pair_wf_def end_wf_def chan_def Option.bind_eq_Some_conv)
next
  case BIO_CTRL_SET_CLOSE
  then obtain bio b where b: "get_b h z = Some (bio, b)" and h': "h' = h(z \<mapsto> bio\<lparr>bio_shutdown := num\<rparr>)"
    using c by (auto simp: BIO_ctrl_def bio_ctrl_def Option.bind_eq_Some_conv)
  have hz: "h z = Some bio" using b by (auto simp: get_b_def split: option.splits)
  have v: "same_view bio (bio\<lparr>bio_shutdown := num\<rparr>)" by (simp add: same_view_def)
  show ?thesis using wf unfolding h' same_view_upd [where h = h and x = z, OF hz v] by simp
qed (use wf c in \<open>auto simp: BIO_ctrl_def bio_ctrl_def Option.bind_eq_Some_conv split: option.splits\<close>)

section \<open>Runs\<close>

text \<open>
  A run of the two ends: writes, reads and control calls at either end, in any order and with any
  arguments. Beside the heap it records, for each end, what the calls accepted for writing (\<open>sent\<close>) and
  what the other end read of it (\<open>rcvd\<close>).
\<close>

record pair_trace =
  pt_heap :: bio_heap
  pt_sent :: "bid \<Rightarrow> bytes"
  pt_rcvd :: "bid \<Rightarrow> bytes"

inductive pair_run :: "bid \<Rightarrow> bid \<Rightarrow> bio_heap \<Rightarrow> pair_trace \<Rightarrow> bool" for x y h0 where
  start: "pair_run x y h0 \<lparr>pt_heap = h0, pt_sent = \<lambda>_. [], pt_rcvd = \<lambda>_. []\<rparr>"
| wr: "pair_run x y h0 t \<Longrightarrow> (u, v) \<in> {(x, y), (y, x)} \<Longrightarrow> d \<noteq> [] \<Longrightarrow> BIO_write (pt_heap t) (Some u) d = Some (r, h') \<Longrightarrow>
    pair_run x y h0 (t\<lparr>pt_heap := h', pt_sent := (pt_sent t)(u := pt_sent t u @ take (nat r) d)\<rparr>)"
| rd: "pair_run x y h0 t \<Longrightarrow> (u, v) \<in> {(x, y), (y, x)} \<Longrightarrow> 0 < n \<Longrightarrow> BIO_read (pt_heap t) (Some u) n = Some ((r, out), h') \<Longrightarrow>
    pair_run x y h0 (t\<lparr>pt_heap := h', pt_rcvd := (pt_rcvd t)(v := pt_rcvd t v @ out)\<rparr>)"
| ctrl: "pair_run x y h0 t \<Longrightarrow> u \<in> {x, y} \<Longrightarrow> BIO_ctrl (pt_heap t) (Some u) cmd num ptr = Some (r, h') \<Longrightarrow>
    pair_run x y h0 (t\<lparr>pt_heap := h'\<rparr>)"

definition streams_ok :: "bid \<Rightarrow> bid \<Rightarrow> (bid \<Rightarrow> bytes) \<Rightarrow> pair_trace \<Rightarrow> bool" where
  "streams_ok x y old t \<longleftrightarrow> pair_wf (pt_heap t) x y \<and>
     (\<forall>u\<in>{x, y}. old u @ pt_sent t u = pt_rcvd t u @ chan (pt_heap t) u)"

lemma streams_ok_sym: "streams_ok x y old t = streams_ok y x old t"
  using pair_wf_sym by (auto simp: streams_ok_def)

lemma write_keeps_streams:
  assumes ok: "streams_ok u v old t" and d: "d \<noteq> []" and w: "BIO_write (pt_heap t) (Some u) d = Some (r, h')"
  shows "streams_ok u v old (t\<lparr>pt_heap := h', pt_sent := (pt_sent t)(u := pt_sent t u @ take (nat r) d)\<rparr>)"
proof -
  have wf: "pair_wf (pt_heap t) u v" using ok by (simp add: streams_ok_def)
  then have "u \<noteq> v" by (simp add: pair_wf_def)
  then show ?thesis using BIO_write_outcome [OF wf d] ok w by (auto simp: streams_ok_def write_outcome_def)
qed

lemma read_keeps_streams:
  assumes ok: "streams_ok u v old t" and n: "0 < n" and w: "BIO_read (pt_heap t) (Some u) n = Some ((r, out), h')"
  shows "streams_ok u v old (t\<lparr>pt_heap := h', pt_rcvd := (pt_rcvd t)(v := pt_rcvd t v @ out)\<rparr>)"
proof -
  have wf: "pair_wf (pt_heap t) u v" using ok by (simp add: streams_ok_def)
  then have "u \<noteq> v" by (simp add: pair_wf_def)
  moreover have "pair_wf h' u v \<and> chan (pt_heap t) v = out @ chan h' v \<and> chan h' u = chan (pt_heap t) u"
  proof -
    from BIO_read_outcome [OF wf n] w have "read_outcome (pt_heap t) u v (nat n) r out h'" by auto
    then show ?thesis unfolding read_outcome_def by blast
  qed
  moreover from this ok have "old v @ pt_sent t v = (pt_rcvd t v @ out) @ chan h' v"
    "old u @ pt_sent t u = pt_rcvd t u @ chan (pt_heap t) u" by (simp_all add: streams_ok_def)
  ultimately show ?thesis by (simp add: streams_ok_def)
qed

lemma run_streams_ok:
  assumes "pair_run x y h0 t" and "pair_wf h0 x y"
  shows "streams_ok x y (chan h0) t"
  using assms(1)
proof induction
  case start
  then show ?case using assms(2) by (simp add: streams_ok_def)
next
  case (wr t u v d r h')
  then show ?case using write_keeps_streams [of u v "chan h0" t d r h'] streams_ok_sym by fastforce
next
  case (rd t u v n r out h')
  then show ?case using read_keeps_streams [of u v "chan h0" t n r out h'] streams_ok_sym by fastforce
next
  case (ctrl t u cmd num ptr r h')
  then show ?case using ctrl_keeps [of "pt_heap t" x y u cmd num ptr r h'] by (auto simp: streams_ok_def)
qed

section \<open>Making a pair\<close>

lemma pair_alloc_wf:
  assumes M: "malloc_ok M" and n: "n < 2 ^ 64" and b: "bb_buf b = None" "0 < bb_size b" "bb_size b < 2 ^ 64"
    and r: "pair_alloc M b n = Inr b'"
  shows "ring_wf b' \<and> ring_contents b' = [] \<and> bb_size b' = (if n = 0 then bb_size b else n)"
proof -
  let ?s = "if n = 0 then bb_size b else n"
  obtain buf where "OPENSSL_malloc M ?s = Some buf" "b' = b\<lparr>bb_size := ?s, bb_buf := Some buf, bb_len := 0, bb_offset := 0\<rparr>"
    using r b by (auto simp: pair_alloc_def Let_def split: option.splits if_splits)
  then show ?thesis
    using OPENSSL_malloc_length [OF M, of ?s buf] b n by (auto simp: ring_wf_def ring_contents_def)
qed

lemma new_pair_wf:
  assumes M: "malloc_ok M" and n: "n1 < 2 ^ 64" "n2 < 2 ^ 64" and xy: "x \<noteq> y"
    and new: "BIO_new_bio_pair M h x y n1 n2 = Some (True, h0)"
  shows "pair_wf h0 x y \<and> chan h0 x = [] \<and> chan h0 y = []"
proof -
  let ?b = "\<lparr>bb_peer = None, bb_closed = False, bb_len = 0, bb_offset = 0, bb_size = 17 * 1024, bb_buf = None, bb_request = 0\<rparr>"
  from new obtain bio where bio: "BIO_new M = Some bio"
    by (auto simp: BIO_new_bio_pair_def split: option.splits)
  then have ptr: "bio_ptr bio = Some ?b" by (auto simp: BIO_new_def bio_new_def split: option.splits)
  have mk: "bio_make_pair M (h(x \<mapsto> bio, y \<mapsto> bio)) x y n1 n2 = Some (True, h0)"
    using new bio by (auto simp: BIO_new_bio_pair_def split: option.splits prod.splits bool.splits)
  then obtain b1 b2 where b: "pair_alloc M ?b n1 = Inr b1" "pair_alloc M ?b n2 = Inr b2"
    using xy ptr by (auto simp: bio_make_pair_def get_b_def split: sum.splits)
  have h0: "h0 = h(x \<mapsto> bio\<lparr>bio_ptr := Some (b1\<lparr>bb_peer := Some y, bb_closed := False, bb_request := 0\<rparr>), bio_init := True\<rparr>,
      y \<mapsto> bio\<lparr>bio_ptr := Some (b2\<lparr>bb_peer := Some x, bb_closed := False, bb_request := 0\<rparr>), bio_init := True\<rparr>)"
    using mk xy ptr b by (auto simp: bio_make_pair_def get_b_def Let_def fun_upd_twist)
  have peer: "ring_wf (b\<lparr>bb_peer := p\<rparr>) = ring_wf b" "ring_contents (b\<lparr>bb_peer := p\<rparr>) = ring_contents b" for b p
    by (simp_all add: ring_wf_def ring_contents_def split: option.split)
  have "ring_wf b1 \<and> ring_contents b1 = []" "ring_wf b2 \<and> ring_contents b2 = []"
    using pair_alloc_wf [OF M n(1) _ _ _ b(1)] pair_alloc_wf [OF M n(2) _ _ _ b(2)] by simp_all
  then show ?thesis using xy by (simp add: h0 pair_wf_def end_wf_def chan_def peer)
qed

section \<open>Properties\<close>

text \<open>
  C6: stream integrity of a BIO pair. Whatever sequence of writes, reads and control calls the two ends
  of a new pair make, at each end the bytes accepted for writing are, in order, the bytes the other end
  has read followed by the bytes still in the buffer: nothing is lost, duplicated or reordered.
\<close>

theorem pair_streams:
  assumes "malloc_ok M" and "n1 < 2 ^ 64" and "n2 < 2 ^ 64" and "x \<noteq> y"
    and "BIO_new_bio_pair M h x y n1 n2 = Some (True, h0)" and "pair_run x y h0 t"
  shows "pt_sent t x = pt_rcvd t x @ chan (pt_heap t) x \<and> pt_sent t y = pt_rcvd t y @ chan (pt_heap t) y"
proof -
  have "pair_wf h0 x y" "chan h0 x = []" "chan h0 y = []" using new_pair_wf [OF assms(1-5)] by auto
  with run_streams_ok [OF assms(6)] show ?thesis by (simp add: streams_ok_def)
qed

text \<open>A pair made with two-byte buffers.\<close>

lemma sample_pair: "\<exists>h0. BIO_new_bio_pair plentiful (\<lambda>_. None) 0 1 2 2 = Some (True, h0)"
  by (simp add: BIO_new_bio_pair_def BIO_new_def bio_new_def bio_make_pair_def get_b_def pair_alloc_def OPENSSL_zalloc_def
      OPENSSL_malloc_def plentiful_def size_add_def OPENSSL_MALLOC_PREFIX_def Let_def)

theorem pair_streams_witness:
  "\<exists>h0. BIO_new_bio_pair plentiful (\<lambda>_. None) 0 1 2 2 = Some (True, h0) \<and>
     (\<forall>r h1. BIO_write h0 (Some 0) [5, 6, 7] = Some (r, h1) \<longrightarrow> take (nat r) [5, 6, 7] = chan h1 0)"
proof -
  from sample_pair obtain h0 where h0: "BIO_new_bio_pair plentiful (\<lambda>_. None) 0 1 2 2 = Some (True, h0)" by blast
  have "take (nat r) [5, 6, 7] = chan h1 0" if w: "BIO_write h0 (Some 0) [5, 6, 7] = Some (r, h1)" for r h1
  proof -
    let ?t = "\<lparr>pt_heap = h0, pt_sent = \<lambda>_. [], pt_rcvd = \<lambda>_. []\<rparr>"
    have "pair_run 0 1 h0 (?t\<lparr>pt_heap := h1, pt_sent := (pt_sent ?t)(0 := pt_sent ?t 0 @ take (nat r) [5, 6, 7])\<rparr>)"
      by (rule pair_run.wr [OF pair_run.start, of _ 1]) (use w in simp_all)
    from pair_streams [OF malloc_ok_plentiful _ _ _ h0 this] show ?thesis by simp
  qed
  with h0 show ?thesis by blast
qed

text \<open>
  C23: in every state that a new pair can reach, no call reaches an undefined operation (a null
  dereference, a failed assertion, a copy outside the buffer): a write accepts as many bytes as fit,
  or reports a retry when the buffer is full, or an error without a retry when the end was shut; a read
  returns the bytes in order, or zero once the writer is shut and the buffer empty, or asks for a retry
  and records how much it wanted, which never exceeds the free space.
\<close>

theorem pair_never_stuck:
  assumes "malloc_ok M" and "n1 < 2 ^ 64" and "n2 < 2 ^ 64" and "x \<noteq> y"
    and "BIO_new_bio_pair M h x y n1 n2 = Some (True, h0)" and "pair_run x y h0 t" and "d \<noteq> []" and "0 < len"
  shows "(\<exists>r h'. BIO_write (pt_heap t) (Some x) d = Some (r, h') \<and> write_outcome (pt_heap t) x y d r h') \<and>
    (\<exists>r out h'. BIO_read (pt_heap t) (Some x) len = Some ((r, out), h') \<and> read_outcome (pt_heap t) x y (nat len) r out h')"
proof -
  have "pair_wf h0 x y" using new_pair_wf [OF assms(1-5)] by auto
  with run_streams_ok [OF assms(6)] have "pair_wf (pt_heap t) x y" by (simp add: streams_ok_def)
  then show ?thesis using BIO_write_outcome [OF _ assms(7)] BIO_read_outcome [OF _ assms(8)] by blast
qed

theorem pair_never_stuck_witness:
  "\<exists>h0 r h'. BIO_new_bio_pair plentiful (\<lambda>_. None) 0 1 2 2 = Some (True, h0) \<and>
     BIO_write h0 (Some 0) [5, 6, 7] = Some (r, h') \<and> pair_wf h' 0 1"
proof -
  from sample_pair obtain h0 where h0: "BIO_new_bio_pair plentiful (\<lambda>_. None) 0 1 2 2 = Some (True, h0)" by blast
  from pair_never_stuck [OF malloc_ok_plentiful _ _ _ h0 pair_run.start, of "[5, 6, 7]" 1] h0
  show ?thesis by (auto simp: write_outcome_def)
qed

end
