(* ===== verification/Const_Time.thy ===== *)
theory Const_Time
  imports Mem
begin

text \<open>
  The branch-free comparisons and selections of \<^verbatim>\<open>crypto/internal.h\<close>, on 64-bit words
  (\<^verbatim>\<open>crypto_word_t\<close>). Masks are all ones for true and zero for false. \<^verbatim>\<open>value_barrier_w\<close> returns its
  argument and only hides it from the compiler. What each computes is shown for all words.
\<close>

definition value_barrier_w :: "u64 \<Rightarrow> u64" where
  "value_barrier_w a = a"

definition constant_time_msb_w :: "u64 \<Rightarrow> u64" where
  "constant_time_msb_w a = 0 - drop_bit (8 * 8 - 1) a"

definition constant_time_lt_w :: "u64 \<Rightarrow> u64 \<Rightarrow> u64" where
  "constant_time_lt_w a b = constant_time_msb_w (a XOR ((a XOR b) OR ((a - b) XOR a)))"

definition constant_time_lt_8 :: "u64 \<Rightarrow> u64 \<Rightarrow> u8" where
  "constant_time_lt_8 a b = ucast (constant_time_lt_w a b)"

definition constant_time_ge_w :: "u64 \<Rightarrow> u64 \<Rightarrow> u64" where
  "constant_time_ge_w a b = NOT (constant_time_lt_w a b)"

definition constant_time_ge_8 :: "u64 \<Rightarrow> u64 \<Rightarrow> u8" where
  "constant_time_ge_8 a b = ucast (constant_time_ge_w a b)"

definition constant_time_is_zero_w :: "u64 \<Rightarrow> u64" where
  "constant_time_is_zero_w a = constant_time_msb_w (NOT a AND (a - 1))"

definition constant_time_is_zero_8 :: "u64 \<Rightarrow> u8" where
  "constant_time_is_zero_8 a = ucast (constant_time_is_zero_w a)"

definition constant_time_eq_w :: "u64 \<Rightarrow> u64 \<Rightarrow> u64" where
  "constant_time_eq_w a b = constant_time_is_zero_w (a XOR b)"

definition constant_time_eq_8 :: "u64 \<Rightarrow> u64 \<Rightarrow> u8" where
  "constant_time_eq_8 a b = ucast (constant_time_eq_w a b)"

definition constant_time_eq_int :: "32 word \<Rightarrow> 32 word \<Rightarrow> u64" where
  "constant_time_eq_int a b = constant_time_eq_w (scast a) (scast b)"

definition constant_time_select_w :: "u64 \<Rightarrow> u64 \<Rightarrow> u64 \<Rightarrow> u64" where
  "constant_time_select_w m a b = (let m = value_barrier_w m in (m AND a) OR (NOT m AND b))"

definition constant_time_select_8 :: "u64 \<Rightarrow> u8 \<Rightarrow> u8 \<Rightarrow> u8" where
  "constant_time_select_8 msk a b =
     (let m = ucast (value_barrier_w msk) :: u8 in (m AND a) OR (NOT m AND b))"

section \<open>What they compute\<close>

abbreviation mask_of :: "bool \<Rightarrow> 'a::len word" where
  "mask_of P \<equiv> (if P then - 1 else 0)"

lemma drop_63: "drop_bit 63 (a :: u64) = (if bit a 63 then 1 else 0)"
proof (rule bit_word_eqI)
  fix n
  show "bit (drop_bit 63 a) n = bit (if bit a 63 then 1 else 0 :: u64) n"
    using bit_imp_le_length [of a "63 + n"] by (cases "n = 0") (auto simp: bit_simps)
qed

lemma msb_w: "constant_time_msb_w a = mask_of (bit a 63)"
  by (simp add: constant_time_msb_w_def drop_63)

lemma bit_63_unat: "bit (a :: u64) 63 \<longleftrightarrow> 2 ^ 63 \<le> unat a"
proof -
  have u: "unat a < 2 ^ 64" using unat_less [of a] by simp
  have "bit a 63 \<longleftrightarrow> odd (unat a div 2 ^ 63)"
    using bit_unsigned_iff [where 'a = nat, of a 63] by (simp add: bit_iff_odd)
  also have "\<dots> \<longleftrightarrow> 2 ^ 63 \<le> unat a"
  proof (cases "2 ^ 63 \<le> unat a")
    case True
    then have "unat a div 2 ^ 63 = 1" using u by (intro div_nat_eqI) auto
    then show ?thesis using True by simp
  qed simp
  finally show ?thesis .
qed

lemma unat_diff_u64: "unat (a - b :: u64) = (if unat b \<le> unat a then unat a - unat b else 2 ^ 64 + unat a - unat b)"
  using unat_less [of a] unat_less [of b] by (auto simp: unat_sub_if_size word_size)

lemma lt_w: "constant_time_lt_w a b = mask_of (a < b)"
proof -
  have "bit (a XOR ((a XOR b) OR ((a - b) XOR a))) 63 \<longleftrightarrow>
      bit a 63 \<noteq> ((bit a 63 \<noteq> bit b 63) \<or> (bit (a - b) 63 \<noteq> bit a 63))"
    by (simp only: bit_xor_iff bit_or_iff)
  also have "\<dots> \<longleftrightarrow> a < b"
    unfolding bit_63_unat unat_diff_u64 word_less_nat_alt
    using unat_less [of a] unat_less [of b] by auto
  finally have "bit (a XOR ((a XOR b) OR ((a - b) XOR a))) 63 \<longleftrightarrow> a < b" .
  then show ?thesis by (simp add: constant_time_lt_w_def msb_w)
qed

lemma is_zero_w: "constant_time_is_zero_w a = mask_of (a = 0)"
proof -
  have "bit (NOT a AND (a - 1)) 63 \<longleftrightarrow> \<not> bit a 63 \<and> bit (a - 1) 63"
    by (simp add: bit_and_iff bit_not_iff)
  also have "\<dots> \<longleftrightarrow> a = 0"
    unfolding bit_63_unat unat_diff_u64 unat_eq_0 [symmetric] using unat_less [of a] by auto
  finally have "bit (NOT a AND (a - 1)) 63 \<longleftrightarrow> a = 0" .
  then show ?thesis by (simp add: constant_time_is_zero_w_def msb_w)
qed

lemma eq_w: "constant_time_eq_w a b = mask_of (a = b)"
  by (simp add: constant_time_eq_w_def is_zero_w word_xor_eq_0)

lemma select_w: "constant_time_select_w (mask_of P) a b = (if P then a else b)"
  by (simp add: constant_time_select_w_def value_barrier_w_def)

lemma ucast_mask: "ucast (mask_of P :: u64) = (mask_of P :: u8)"
  by (auto intro!: bit_word_eqI simp: bit_simps)

lemma select_8: "constant_time_select_8 (mask_of P) a b = (if P then a else b)"
  unfolding constant_time_select_8_def value_barrier_w_def ucast_mask by simp

section \<open>Properties\<close>

text \<open>
  C40: the branch-free comparisons agree with the ordinary ones on every pair of 64-bit words, all ones
  for true and zero for false, and the branch-free selection returns its second or third argument.
\<close>

theorem constant_time_correct:
  "constant_time_lt_w a b = (if a < b then - 1 else 0) \<and> constant_time_ge_w a b = (if a \<ge> b then - 1 else 0) \<and>
   constant_time_eq_w a b = (if a = b then - 1 else 0) \<and> constant_time_is_zero_w a = (if a = 0 then - 1 else 0) \<and>
   constant_time_select_w (constant_time_lt_w a b) x y = (if a < b then x else y) \<and>
   constant_time_select_8 (constant_time_eq_w a b) p q = (if a = b then p else q)"
  by (simp only: lt_w eq_w is_zero_w select_w select_8) (auto simp: constant_time_ge_w_def lt_w not_less)

end
