(* ===== verification/Base64.thy ===== *)
theory Base64
  imports Const_Time
begin

text \<open>
  \<^verbatim>\<open>crypto/base64/base64.c\<close>: the one-shot and the streaming base64 encoder and decoder. Output written
  through an out-pointer is the list of the bytes written, from its start on, and is part of the result.
  The encoder writes a \<^verbatim>\<open>NUL\<close> after its output that the next line overwrites: it is the last byte of the
  list when something was written. What a decoder wrote before it failed is only modelled for
  \<^verbatim>\<open>EVP_DecodeUpdate\<close>.
\<close>

record EVP_ENCODE_CTX =
  ctx_data_used :: nat
  ctx_data :: bytes
  ctx_eof_seen :: bool
  ctx_error_encountered :: bool

section \<open>Encoding\<close>

definition constant_time_lt_args_8 :: "u8 \<Rightarrow> u8 \<Rightarrow> u8" where
  "constant_time_lt_args_8 a b = ucast (constant_time_msb_w (ucast a - ucast b))"

definition constant_time_in_range_8 :: "u8 \<Rightarrow> u8 \<Rightarrow> u8 \<Rightarrow> u8" where
  "constant_time_in_range_8 a lo hi = (let a = a - lo in constant_time_lt_args_8 a (hi - lo + 1))"

text \<open>A mask argument of type \<^verbatim>\<open>uint8_t\<close> is widened to a word; the selection uses its low byte.\<close>

definition conv_bin2ascii :: "u8 \<Rightarrow> u8" where
  "conv_bin2ascii a =
     (let a = a AND 0x3f;
          ret = constant_time_select_8 (ucast (constant_time_eq_8 (ucast a) 62)) 0x2b 0x2f;
          ret = constant_time_select_8 (ucast (constant_time_lt_args_8 a 62)) (a - 52 + 0x30) ret;
          ret = constant_time_select_8 (ucast (constant_time_lt_args_8 a 52)) (a - 26 + 0x61) ret;
          ret = constant_time_select_8 (ucast (constant_time_lt_args_8 a 26)) (a + 0x41) ret
      in ret)"

definition EVP_EncodedLength :: "nat \<Rightarrow> nat option" where
  "EVP_EncodedLength len =
     (if size_add len 2 < len then None
      else let len = size_add len 2 div 3 in
           if size_mul len 4 div 4 \<noteq> len then None
           else let len = size_mul len 4 in
                if size_add len 1 < len then None else Some (size_add len 1))"

definition EVP_EncodeInit :: EVP_ENCODE_CTX where
  "EVP_EncodeInit = \<lparr>ctx_data_used = 0, ctx_data = replicate 48 0, ctx_eof_seen = False, ctx_error_encountered = False\<rparr>"

text \<open>A new context is zeroed memory of \<^verbatim>\<open>sizeof(EVP_ENCODE_CTX)\<close> bytes, the same value that \<^verbatim>\<open>EVP_EncodeInit\<close> sets.\<close>

definition EVP_ENCODE_CTX_new :: "allocator \<Rightarrow> EVP_ENCODE_CTX option" where
  "EVP_ENCODE_CTX_new M = (case OPENSSL_zalloc M 56 of None \<Rightarrow> None | Some _ \<Rightarrow>
     Some \<lparr>ctx_data_used = 0, ctx_data = replicate 48 0, ctx_eof_seen = False, ctx_error_encountered = False\<rparr>)"

text \<open>The four characters of one step of \<^verbatim>\<open>EVP_EncodeBlock\<close>, and its loop without the final \<^verbatim>\<open>NUL\<close>.\<close>

definition encode_chars :: "u32 \<Rightarrow> bytes" where
  "encode_chars l = [conv_bin2ascii (ucast (drop_bit 18 l)), conv_bin2ascii (ucast (drop_bit 12 l)),
     conv_bin2ascii (ucast (drop_bit 6 l)), conv_bin2ascii (ucast l)]"

fun encode_loop :: "bytes \<Rightarrow> bytes" where
  "encode_loop [] = []"
| "encode_loop [a] =
     (let l = push_bit 16 (ucast a)
      in [conv_bin2ascii (ucast (drop_bit 18 l)), conv_bin2ascii (ucast (drop_bit 12 (l :: u32))), 0x3d, 0x3d])"
| "encode_loop [a, b] =
     (let l = push_bit 16 (ucast a) OR push_bit 8 (ucast b)
      in [conv_bin2ascii (ucast (drop_bit 18 l)), conv_bin2ascii (ucast (drop_bit 12 l)),
          conv_bin2ascii (ucast (drop_bit 6 (l :: u32))), 0x3d])"
| "encode_loop (a # b # c # src) =
     encode_chars (push_bit 16 (ucast a) OR push_bit 8 (ucast b) OR ucast c) @ encode_loop src"

definition EVP_EncodeBlock :: "bytes \<Rightarrow> bytes \<times> nat" where
  "EVP_EncodeBlock src = (encode_loop src @ [0], length (encode_loop src))"

text \<open>
  The loop of \<^verbatim>\<open>EVP_EncodeUpdate\<close> over whole blocks. \<open>out\<close> is what has been written before; \<open>Inl\<close> is the
  early return when the tot overflows.
\<close>

definition put_line :: "bytes \<Rightarrow> bytes \<Rightarrow> bytes \<times> nat" where
  "put_line out src =
     (case EVP_EncodeBlock src of (enc, encoded) \<Rightarrow> (out @ take encoded enc @ [0x0a], encoded + 1))"

function encode_update_loop :: "bytes \<Rightarrow> nat \<Rightarrow> bytes \<Rightarrow> bytes + bytes \<times> nat \<times> bytes" where
  "encode_update_loop out tot inp =
     (if length inp \<ge> 48 then
        (case put_line out (take 48 inp) of
           (out, n) \<Rightarrow>
             if size_add tot n < tot then Inl out
             else encode_update_loop out (size_add tot n) (drop 48 inp))
      else Inr (out, tot, inp))"
  by pat_completeness auto
termination
  by (relation "measure (\<lambda>(_, _, inp). length inp)") auto

declare encode_update_loop.simps [simp del]

text \<open>The terminator after the last line, when there is one.\<close>

definition nul_after :: "bytes \<Rightarrow> bytes" where
  "nul_after out = (if out = [] then [] else out @ [0])"

text \<open>The result is what is written, \<^verbatim>\<open>*out_len\<close> and the context; \<open>None\<close> when the assertion fails.\<close>

definition EVP_EncodeUpdate :: "EVP_ENCODE_CTX \<Rightarrow> bytes \<Rightarrow> (bytes \<times> nat \<times> EVP_ENCODE_CTX) option" where
  "EVP_EncodeUpdate ctx inp =
     (if length inp = 0 then Some ([], 0, ctx)
      else if \<not> ctx_data_used ctx < 48 then None
      else if 48 - ctx_data_used ctx > length inp then
        Some ([], 0, ctx\<lparr>ctx_data := write_at (ctx_data ctx) (ctx_data_used ctx) inp,
                         ctx_data_used := ctx_data_used ctx + length inp\<rparr>)
      else
        (let (out, tot, ctx, inp) =
               (if ctx_data_used ctx \<noteq> 0 then
                  (let todo = 48 - ctx_data_used ctx;
                       data = write_at (ctx_data ctx) (ctx_data_used ctx) (take todo inp);
                       (out, n) = put_line [] data
                   in (out, n, ctx\<lparr>ctx_data := data, ctx_data_used := 0\<rparr>, drop todo inp))
                else ([], 0, ctx, inp))
         in case encode_update_loop out tot inp of
              Inl out \<Rightarrow> Some (nul_after out, 0, ctx)
            | Inr (out, tot, rest) \<Rightarrow>
                (let ctx = (if length rest \<noteq> 0 then ctx\<lparr>ctx_data := write_at (ctx_data ctx) 0 rest\<rparr> else ctx)
                 in Some (nul_after out, if tot > INT_MAX then 0 else tot, ctx\<lparr>ctx_data_used := length rest\<rparr>))))"

definition EVP_EncodeFinal :: "EVP_ENCODE_CTX \<Rightarrow> bytes \<times> nat \<times> EVP_ENCODE_CTX" where
  "EVP_EncodeFinal ctx =
     (if ctx_data_used ctx = 0 then ([], 0, ctx)
      else case put_line [] (take (ctx_data_used ctx) (ctx_data ctx)) of
             (out, encoded) \<Rightarrow> (nul_after out, encoded, ctx\<lparr>ctx_data_used := 0\<rparr>))"

section \<open>Decoding\<close>

definition EVP_DecodedLength :: "nat \<Rightarrow> nat option" where
  "EVP_DecodedLength len = (if len mod 4 \<noteq> 0 then None else Some (len div 4 * 3))"

definition EVP_DecodeInit :: EVP_ENCODE_CTX where
  "EVP_DecodeInit = \<lparr>ctx_data_used = 0, ctx_data = replicate 48 0, ctx_eof_seen = False, ctx_error_encountered = False\<rparr>"

definition base64_ascii_to_bin :: "u8 \<Rightarrow> u8" where
  "base64_ascii_to_bin a =
     (let is_upper = constant_time_in_range_8 a 0x41 0x5a;
          is_lower = constant_time_in_range_8 a 0x61 0x7a;
          is_digit = constant_time_in_range_8 a 0x30 0x39;
          is_plus = constant_time_eq_8 (ucast a) 0x2b;
          is_slash = constant_time_eq_8 (ucast a) 0x2f;
          is_equals = constant_time_eq_8 (ucast a) 0x3d;
          ret = 0;
          ret = ret OR (is_upper AND (a - 0x41));
          ret = ret OR (is_lower AND (a - 0x61 + 26));
          ret = ret OR (is_digit AND (a - 0x30 + 52));
          ret = ret OR (is_plus AND 62);
          ret = ret OR (is_slash AND 63);
          is_valid = is_upper OR is_lower OR is_digit OR is_plus OR is_slash OR is_equals;
          ret = ret OR NOT is_valid
      in ret)"

text \<open>The bytes a quad decodes to, one to three of them, or \<open>None\<close> for a zero return.\<close>

definition base64_decode_quad :: "u8 \<Rightarrow> u8 \<Rightarrow> u8 \<Rightarrow> u8 \<Rightarrow> bytes option" where
  "base64_decode_quad in0 in1 in2 in3 =
     (let a = base64_ascii_to_bin in0; b = base64_ascii_to_bin in1;
          c = base64_ascii_to_bin in2; d = base64_ascii_to_bin in3
      in if a = 0xff \<or> b = 0xff \<or> c = 0xff \<or> d = 0xff then None
         else let v = push_bit 18 (ucast a) OR push_bit 12 (ucast b) OR push_bit 6 (ucast c) OR ucast d :: u32;
                  padding_pattern = (if in0 = 0x3d then 8 else 0) + (if in1 = 0x3d then 4 else 0) +
                                    (if in2 = 0x3d then 2 else 0) + (if in3 = 0x3d then 1 else 0) :: nat
              in if padding_pattern = 0 then Some [ucast (drop_bit 16 v), ucast (drop_bit 8 v), ucast v]
                 else if padding_pattern = 1 then Some [ucast (drop_bit 16 v), ucast (drop_bit 8 v)]
                 else if padding_pattern = 3 then Some [ucast (drop_bit 16 v)]
                 else None)"

definition is_base64_space :: "u8 \<Rightarrow> bool" where
  "is_base64_space c \<longleftrightarrow> c = 0x20 \<or> c = 0x09 \<or> c = 0x0d \<or> c = 0x0a"

text \<open>The loop of \<^verbatim>\<open>EVP_DecodeUpdate\<close>: whether it ran to the end, what it wrote, and the context.\<close>

fun decode_update_loop :: "EVP_ENCODE_CTX \<Rightarrow> bytes \<Rightarrow> bytes \<Rightarrow> bool \<times> bytes \<times> EVP_ENCODE_CTX" where
  "decode_update_loop ctx out [] = (True, out, ctx)"
| "decode_update_loop ctx out (c # inp) =
     (if is_base64_space c then decode_update_loop ctx out inp
      else if ctx_eof_seen ctx then (False, out, ctx\<lparr>ctx_error_encountered := True\<rparr>)
      else let ctx = ctx\<lparr>ctx_data := (ctx_data ctx)[ctx_data_used ctx := c], ctx_data_used := ctx_data_used ctx + 1\<rparr> in
        if ctx_data_used ctx = 4 then
          (case base64_decode_quad (ctx_data ctx ! 0) (ctx_data ctx ! 1) (ctx_data ctx ! 2) (ctx_data ctx ! 3) of
             None \<Rightarrow> (False, out, ctx\<lparr>ctx_error_encountered := True\<rparr>)
           | Some bs \<Rightarrow>
               decode_update_loop
                 (ctx\<lparr>ctx_data_used := 0, ctx_eof_seen := (if length bs < 3 then True else ctx_eof_seen ctx)\<rparr>) (out @ bs) inp)
        else decode_update_loop ctx out inp)"

text \<open>The result is the return value, \<^verbatim>\<open>*out_len\<close>, what was written and the context.\<close>

definition EVP_DecodeUpdate :: "EVP_ENCODE_CTX \<Rightarrow> bytes \<Rightarrow> int \<times> nat \<times> bytes \<times> EVP_ENCODE_CTX" where
  "EVP_DecodeUpdate ctx inp =
     (if ctx_error_encountered ctx then (-1, 0, [], ctx)
      else case decode_update_loop ctx [] inp of
             (False, out, ctx) \<Rightarrow> (-1, 0, out, ctx)
           | (True, out, ctx) \<Rightarrow>
               if length out > INT_MAX then (-1, 0, out, ctx\<lparr>ctx_error_encountered := True\<rparr>)
               else (if ctx_eof_seen ctx then 0 else 1, length out, out, ctx))"

definition EVP_DecodeFinal :: "EVP_ENCODE_CTX \<Rightarrow> int" where
  "EVP_DecodeFinal ctx = (if ctx_error_encountered ctx \<or> ctx_data_used ctx \<noteq> 0 then -1 else 1)"

fun decode_base64_loop :: "bytes \<Rightarrow> bytes \<Rightarrow> bytes option" where
  "decode_base64_loop out [] = Some out"
| "decode_base64_loop out (a # b # c # d # inp) =
     (case base64_decode_quad a b c d of
        None \<Rightarrow> None
      | Some bs \<Rightarrow> if length bs \<noteq> 3 \<and> inp \<noteq> [] then None else decode_base64_loop (out @ bs) inp)"
| "decode_base64_loop out _ = None"

definition EVP_DecodeBase64 :: "nat \<Rightarrow> bytes \<Rightarrow> bytes option" where
  "EVP_DecodeBase64 max_out inp =
     (if length inp mod 4 \<noteq> 0 then None
      else case EVP_DecodedLength (length inp) of
             None \<Rightarrow> None
           | Some max_len \<Rightarrow> if max_out < max_len then None else decode_base64_loop [] inp)"

fun trim_front :: "bytes \<Rightarrow> bytes" where
  "trim_front [] = []"
| "trim_front (c # src) = (if c \<noteq> 0x20 \<and> c \<noteq> 0x09 then c # src else trim_front src)"

definition trim_back :: "bytes \<Rightarrow> bytes" where
  "trim_back src = rev (dropWhile is_base64_space (rev src))"

text \<open>The number of zero bytes that brings a length to a multiple of three.\<close>

definition pad3 :: "nat \<Rightarrow> nat" where
  "pad3 n = (3 - n mod 3) mod 3"

definition EVP_DecodeBlock :: "bytes \<Rightarrow> int \<times> bytes" where
  "EVP_DecodeBlock src =
     (let src = trim_back (trim_front src) in
      case EVP_DecodedLength (length src) of
        None \<Rightarrow> (-1, [])
      | Some dst_len \<Rightarrow>
          if dst_len > INT_MAX then (-1, [])
          else case EVP_DecodeBase64 dst_len src of
                 None \<Rightarrow> (-1, [])
               | Some dst \<Rightarrow> (let dst = dst @ replicate (pad3 (length dst)) 0 in (int (length dst), dst)))"

section \<open>The two tables\<close>

lemma lt_args_8: "constant_time_lt_args_8 a b = mask_of (a < b)"
proof -
  have u: "unat (ucast x :: u64) = unat x" for x :: u8 by (rule unat_ucast_up) simp
  have "bit (ucast a - ucast b :: u64) 63 \<longleftrightarrow> a < b"
    unfolding bit_63_unat unat_diff_u64 u word_less_nat_alt
    using unat_less [of a] unat_less [of b] by (auto simp del: unat_u8_less)
  then show ?thesis unfolding constant_time_lt_args_8_def msb_w by (simp add: ucast_mask)
qed

lemma eq_8: "constant_time_eq_8 (ucast (a :: u8)) (ucast (b :: u8)) = mask_of (a = b)"
proof -
  have "(ucast a :: u64) = ucast b \<longleftrightarrow> a = b"
    unfolding word_unat_eq_iff by (simp add: unat_ucast_up)
  then show ?thesis by (simp only: constant_time_eq_8_def eq_w ucast_mask)
qed

lemma select_mask_8: "constant_time_select_8 (ucast (mask_of P :: u8)) a b = (if P then a else b)"
proof -
  have "(ucast (ucast (mask_of P :: u8) :: u64) :: u8) = mask_of P" by (auto intro!: bit_word_eqI simp: bit_simps)
  then show ?thesis unfolding constant_time_select_8_def value_barrier_w_def by simp
qed

text \<open>The alphabet, as a table.\<close>

definition b64_alphabet :: "u8 \<Rightarrow> u8" where
  "b64_alphabet a =
     (if a < 26 then a + 0x41 else if a < 52 then a - 26 + 0x61 else if a < 62 then a - 52 + 0x30
      else if a = 62 then 0x2b else 0x2f)"

lemma conv_bin2ascii_table: "conv_bin2ascii a = b64_alphabet (a AND 0x3f)"
  using eq_8 [of "a AND 0x3f" 62]
  by (simp add: conv_bin2ascii_def b64_alphabet_def Let_def lt_args_8 select_mask_8)

lemma unat_diff_u8: "unat (a - b :: u8) = (if unat b \<le> unat a then unat a - unat b else 256 + unat a - unat b)"
  using unat_less [of a] unat_less [of b] by (auto simp: unat_sub_if_size word_size)

lemma in_range_8:
  assumes "unat lo \<le> unat hi" and "unat hi < 255"
  shows "constant_time_in_range_8 a lo hi = mask_of (lo \<le> a \<and> a \<le> hi)"
proof -
  have "unat (hi - lo + 1) = unat hi - unat lo + 1"
    using assms unat_add_lem [of "hi - lo" 1] by (simp add: unat_diff_u8 less_imp_diff_less)
  then have "a - lo < hi - lo + 1 \<longleftrightarrow> lo \<le> a \<and> a \<le> hi"
    unfolding word_less_nat_alt word_le_nat_alt unat_diff_u8
    using assms unat_less [of a] by (auto simp del: unat_u8_less)
  then show ?thesis by (simp add: constant_time_in_range_8_def Let_def lt_args_8)
qed

definition b64_value :: "u8 \<Rightarrow> u8" where
  "b64_value c =
     (if 0x41 \<le> c \<and> c \<le> 0x5a then c - 0x41 else if 0x61 \<le> c \<and> c \<le> 0x7a then c - 0x61 + 26
      else if 0x30 \<le> c \<and> c \<le> 0x39 then c - 0x30 + 52 else if c = 0x2b then 62 else if c = 0x2f then 63
      else if c = 0x3d then 0 else 0xff)"

lemma ascii_to_bin_table: "base64_ascii_to_bin c = b64_value c"
proof -
  have masks: "constant_time_eq_8 (ucast c) 0x2b = mask_of (c = 0x2b)" "constant_time_eq_8 (ucast c) 0x2f = mask_of (c = 0x2f)"
    "constant_time_eq_8 (ucast c) 0x3d = mask_of (c = 0x3d)"
    using eq_8 [of c "0x2b"] eq_8 [of c "0x2f"] eq_8 [of c "0x3d"] by simp_all
  have dj: "\<not> (c \<le> 0x5a \<and> 0x61 \<le> c)" "\<not> (c \<le> 0x39 \<and> 0x41 \<le> c)" "\<not> (c \<le> 0x39 \<and> 0x61 \<le> c)"
    by (auto simp: word_le_nat_alt)
  show ?thesis
    using dj by (auto simp: base64_ascii_to_bin_def b64_value_def Let_def in_range_8 masks)
qed

section \<open>Round trips\<close>

lemma less_8_cases: "n < (8::nat) \<Longrightarrow> n = 0 \<or> n = 1 \<or> n = 2 \<or> n = 3 \<or> n = 4 \<or> n = 5 \<or> n = 6 \<or> n = 7"
  by auto

lemma u8_bits_eqI:
  assumes "bit a 0 = bit b 0" "bit a 1 = bit b 1" "bit a 2 = bit b 2" "bit a 3 = bit b 3"
    "bit a 4 = bit b 4" "bit a 5 = bit b 5" "bit a 6 = bit b 6" "bit a 7 = bit b 7"
  shows "a = (b :: u8)"
proof (rule bit_word_eqI)
  fix n assume "n < LENGTH(8)"
  then have "n < 8" by simp
  from less_8_cases [OF this] assms show "bit a n = bit b n" by auto
qed

lemma bits_3f: "bit (0x3f :: u8) n \<longleftrightarrow> n < 6"
  using bit_mask_iff [where 'a = "8 word", of 6 n] by (auto simp: mask_eq_exp_minus_1)

lemma bit_u8_high: "8 \<le> n \<Longrightarrow> \<not> bit (a :: u8) n"
  using bit_imp_le_length [of a n] by auto

text \<open>The 24 bits of three bytes, cut into four sixes and put together again.\<close>

definition six :: "u32 \<Rightarrow> nat \<Rightarrow> u8" where
  "six l n = ucast (drop_bit n l) AND 0x3f"

definition join6 :: "u8 \<Rightarrow> u8 \<Rightarrow> u8 \<Rightarrow> u8 \<Rightarrow> u32" where
  "join6 a b c d = push_bit 18 (ucast a) OR push_bit 12 (ucast b) OR push_bit 6 (ucast c) OR ucast d"

lemma join6_six:
  assumes "l = push_bit 16 (ucast (a::u8)) OR push_bit 8 (ucast (b::u8)) OR ucast (c::u8)"
  shows "ucast (drop_bit 16 (join6 (six l 18) (six l 12) (six l 6) (six l 0))) = a"
    "ucast (drop_bit 8 (join6 (six l 18) (six l 12) (six l 6) (six l 0))) = b"
    "ucast (join6 (six l 18) (six l 12) (six l 6) (six l 0)) = c"
  by (rule u8_bits_eqI; simp add: assms join6_def six_def bit_simps bits_3f bit_u8_high)+

lemma six_zero:
  "six (push_bit 16 (ucast (a::u8)) OR push_bit 8 (ucast (b::u8))) 0 = 0" "six (push_bit 16 (ucast a)) 0 = 0"
  "six (push_bit 16 (ucast a)) 6 = 0"
  by (rule u8_bits_eqI; simp add: six_def bit_simps bits_3f bit_u8_high)+

lemma six_less: "six l n < 64"
proof -
  have "six l n = take_bit 6 (ucast (drop_bit n l))" by (simp add: six_def take_bit_eq_mask mask_eq_exp_minus_1)
  then show ?thesis using take_bit_word_Bit0_eq by (simp add: take_bit_eq_mod word_less_nat_alt unat_mod)
qed

lemma conv_six: "conv_bin2ascii (ucast (drop_bit n l)) = b64_alphabet (six l n)"
  by (simp add: conv_bin2ascii_table six_def)

lemma alphabet_inverse:
  assumes "a < 64"
  shows "b64_value (b64_alphabet a) = a" "b64_alphabet a \<noteq> 0x3d" "\<not> is_base64_space (b64_alphabet a)" "a \<noteq> 0xff"
proof -
  have "\<forall>n\<in>set [0..<64]. let a = of_nat n in b64_value (b64_alphabet a) = a \<and> b64_alphabet a \<noteq> 0x3d \<and>
      \<not> is_base64_space (b64_alphabet a) \<and> a \<noteq> 0xff"
    by code_simp
  moreover have "unat a \<in> set [0..<64]" using assms by (simp add: word_less_nat_alt)
  ultimately have "let a = of_nat (unat a) in b64_value (b64_alphabet a) = a \<and> b64_alphabet a \<noteq> 0x3d \<and>
      \<not> is_base64_space (b64_alphabet a) \<and> a \<noteq> 0xff" by blast
  then show "b64_value (b64_alphabet a) = a" "b64_alphabet a \<noteq> 0x3d" "\<not> is_base64_space (b64_alphabet a)" "a \<noteq> 0xff"
    by (simp_all add: Let_def)
qed

lemma decode_quad_join:
  assumes "a < 64" "b < 64" "c < 64" "d < 64"
  shows "base64_decode_quad (b64_alphabet a) (b64_alphabet b) (b64_alphabet c) (b64_alphabet d) =
      Some [ucast (drop_bit 16 (join6 a b c d)), ucast (drop_bit 8 (join6 a b c d)), ucast (join6 a b c d)]"
    "base64_decode_quad (b64_alphabet a) (b64_alphabet b) (b64_alphabet c) 0x3d =
      Some [ucast (drop_bit 16 (join6 a b c 0)), ucast (drop_bit 8 (join6 a b c 0))]"
    "base64_decode_quad (b64_alphabet a) (b64_alphabet b) 0x3d 0x3d = Some [ucast (drop_bit 16 (join6 a b 0 0))]"
  using assms
  by (simp_all add: base64_decode_quad_def ascii_to_bin_table alphabet_inverse join6_def Let_def b64_value_def [of "0x3d"] )

lemma quad3:
  "l = push_bit 16 (ucast (a::u8)) OR push_bit 8 (ucast (b::u8)) OR ucast (c::u8) \<Longrightarrow>
     base64_decode_quad (b64_alphabet (six l 18)) (b64_alphabet (six l 12)) (b64_alphabet (six l 6)) (b64_alphabet (six l 0)) = Some [a, b, c]"
  using join6_six [of l a b c] by (simp add: decode_quad_join six_less)

lemma quad2:
  "l = push_bit 16 (ucast (a::u8)) OR push_bit 8 (ucast (b::u8)) \<Longrightarrow>
     base64_decode_quad (b64_alphabet (six l 18)) (b64_alphabet (six l 12)) (b64_alphabet (six l 6)) 0x3d = Some [a, b]"
  using join6_six [of l a b 0] by (simp add: decode_quad_join(2) [where d = 0] six_less six_zero)

lemma quad1:
  "l = push_bit 16 (ucast (a::u8)) \<Longrightarrow>
     base64_decode_quad (b64_alphabet (six l 18)) (b64_alphabet (six l 12)) 0x3d 0x3d = Some [a]"
  using join6_six [of l a 0 0] by (simp add: decode_quad_join(3) [where c = 0 and d = 0] six_less six_zero)

lemma encode_loop_six:
  "encode_loop [a] = (let l = push_bit 16 (ucast a) in [b64_alphabet (six l 18), b64_alphabet (six l 12), 0x3d, 0x3d])"
  "encode_loop [a, b] = (let l = push_bit 16 (ucast a) OR push_bit 8 (ucast b)
     in [b64_alphabet (six l 18), b64_alphabet (six l 12), b64_alphabet (six l 6), 0x3d])"
  "encode_loop (a # b # c # src) = (let l = push_bit 16 (ucast a) OR push_bit 8 (ucast b) OR ucast c
     in [b64_alphabet (six l 18), b64_alphabet (six l 12), b64_alphabet (six l 6), b64_alphabet (six l 0)] @ encode_loop src)"
  by (simp_all only: encode_loop.simps encode_chars_def Let_def conv_six [symmetric] drop_bit_0 id_apply)

declare encode_loop.simps(2-4) [simp del]

lemma encode_loop_Nil: "encode_loop src = [] \<longleftrightarrow> src = []"
  by (cases src rule: encode_loop.cases) (auto simp: Let_def encode_loop_six)

lemma length_encode_loop: "length (encode_loop src) = 4 * ((length src + 2) div 3)"
proof (induction src rule: encode_loop.induct)
  case (4 a b c src)
  have "(length (a # b # c # src) + 2) div 3 = Suc ((length src + 2) div 3)"
    using div_add_self2 [of 3 "length src + 2"] by (simp add: add.commute)
  then show ?case using 4 by (simp add: encode_loop_six Let_def)
qed (simp_all add: encode_loop_six Let_def)

lemma decode_encode_loop: "decode_base64_loop out (encode_loop src) = Some (out @ src)"
proof (induction src arbitrary: out rule: encode_loop.induct)
  case (4 a b c src)
  then show ?case using quad3 [OF refl, of a b c] by (simp only: encode_loop_six Let_def append.simps decode_base64_loop.simps) simp
next
  case (2 a)
  then show ?case using quad1 [OF refl, of a] by (simp only: encode_loop_six Let_def decode_base64_loop.simps) simp
next
  case (3 a b)
  then show ?case using quad2 [OF refl, of a b] by (simp only: encode_loop_six Let_def decode_base64_loop.simps) simp
qed simp

section \<open>The streaming encoder\<close>

text \<open>The text of a byte string: lines of 48 bytes, the last one shorter.\<close>

function b64_lines :: "bytes \<Rightarrow> bytes" where
  "b64_lines bs = (if length bs \<ge> 48 then encode_loop (take 48 bs) @ [0x0a] @ b64_lines (drop 48 bs) else [])"
  by pat_completeness auto
termination
  by (relation "measure length") auto

declare b64_lines.simps [simp del]

definition b64_rest :: "bytes \<Rightarrow> bytes" where
  "b64_rest bs = drop (48 * (length bs div 48)) bs"

definition b64_text :: "bytes \<Rightarrow> bytes" where
  "b64_text bs = b64_lines bs @ (if b64_rest bs = [] then [] else encode_loop (b64_rest bs) @ [0x0a])"

lemma b64_short: "length bs < 48 \<Longrightarrow> b64_lines bs = [] \<and> b64_rest bs = bs"
  by (simp add: b64_lines.simps b64_rest_def)

lemma b64_block:
  assumes "length a = 48"
  shows "b64_lines (a @ bs) = encode_loop a @ [0x0a] @ b64_lines bs" "b64_rest (a @ bs) = b64_rest bs"
proof -
  show "b64_lines (a @ bs) = encode_loop a @ [0x0a] @ b64_lines bs"
    using assms by (subst b64_lines.simps) simp
  have "(48 + length bs) div 48 = Suc (length bs div 48)" by simp
  then show "b64_rest (a @ bs) = b64_rest bs" using assms by (simp add: b64_rest_def)
qed

lemma b64_take_block: "48 \<le> length bs \<Longrightarrow> b64_lines bs = encode_loop (take 48 bs) @ [0x0a] @ b64_lines (drop 48 bs) \<and> b64_rest bs = b64_rest (drop 48 bs)"
  using b64_block [of "take 48 bs" "drop 48 bs"] by simp

lemma b64_induct [consumes 0, case_names short block]:
  assumes "\<And>bs. length bs < 48 \<Longrightarrow> P bs" and "\<And>bs. 48 \<le> length bs \<Longrightarrow> P (drop 48 bs) \<Longrightarrow> P bs"
  shows "P (bs :: bytes)"
proof (induction bs rule: measure_induct_rule [of length])
  case (less bs)
  then show ?case using assms by (cases "length bs < 48") auto
qed

lemma length_b64_lines: "length (b64_lines bs) = 65 * (length bs div 48)"
proof (induction bs rule: b64_induct)
  case (block bs)
  then have "length bs div 48 = Suc (length (drop 48 bs) div 48)" by (simp add: le_div_geq)
  then show ?case using block b64_take_block [of bs] by (simp add: length_encode_loop)
qed (simp add: b64_short)

lemma b64_rest_append: "b64_lines (a @ b) = b64_lines a @ b64_lines (b64_rest a @ b) \<and> b64_rest (a @ b) = b64_rest (b64_rest a @ b)"
proof (induction a rule: b64_induct)
  case (block a)
  have a: "a = take 48 a @ drop 48 a" "length (take 48 a) = 48" using block by simp_all
  have "b64_lines (a @ b) = encode_loop (take 48 a) @ [0x0a] @ b64_lines (drop 48 a @ b)" "b64_rest (a @ b) = b64_rest (drop 48 a @ b)"
    using b64_block [OF a(2), of "drop 48 a @ b"] a(1) by (simp_all only: append_assoc [symmetric] append_take_drop_id)
  then show ?case using block b64_take_block [of a] by simp
qed (simp add: b64_short)

lemma put_line: "put_line out src = (out @ encode_loop src @ [0x0a], length (encode_loop src) + 1)"
  by (simp add: put_line_def EVP_EncodeBlock_def)

lemma encode_update_loop_lines:
  "tot + length (b64_lines inp) < 2 ^ 64 \<Longrightarrow>
     encode_update_loop out tot inp = Inr (out @ b64_lines inp, tot + length (b64_lines inp), b64_rest inp)"
proof (induction inp arbitrary: out tot rule: b64_induct)
  case (short inp)
  then show ?case by (simp add: encode_update_loop.simps b64_short)
next
  case (block inp)
  let ?l = "encode_loop (take 48 inp) @ [0x0a]"
  have l: "b64_lines inp = ?l @ b64_lines (drop 48 inp)" "b64_rest inp = b64_rest (drop 48 inp)"
    using b64_take_block [OF block(1)] by simp_all
  have b: "tot + length ?l + length (b64_lines (drop 48 inp)) < 2 ^ 64" using block.prems l(1) by simp
  then have add: "size_add tot (length ?l) = tot + length ?l" by (simp add: size_add_def)
  have "encode_update_loop out tot inp = encode_update_loop (out @ ?l) (tot + length ?l) (drop 48 inp)"
    using block(1) add by (subst encode_update_loop.simps) (simp add: put_line)
  also have "\<dots> = Inr (out @ ?l @ b64_lines (drop 48 inp), tot + length ?l + length (b64_lines (drop 48 inp)), b64_rest (drop 48 inp))"
    using block.IH [OF b, of "out @ ?l"] by simp
  finally show ?case using l by simp
qed

definition ctx_wf :: "EVP_ENCODE_CTX \<Rightarrow> bool" where
  "ctx_wf ctx \<longleftrightarrow> length (ctx_data ctx) = 48 \<and> ctx_data_used ctx < 48"

definition pending :: "EVP_ENCODE_CTX \<Rightarrow> bytes" where
  "pending ctx = take (ctx_data_used ctx) (ctx_data ctx)"

lemma length_b64_rest: "length (b64_rest bs) < 48"
  by (simp add: b64_rest_def mod_less_divisor minus_mult_div_eq_mod)

text \<open>The part of \<^verbatim>\<open>EVP_EncodeUpdate\<close> after a buffered block is completed.\<close>

lemma encode_update_tail:
  assumes wf: "length (ctx_data ctx) = 48" and small: "tot + length (b64_lines inp) \<le> INT_MAX" and out: "length out = tot"
  shows "\<exists>ctx'. (case encode_update_loop out tot inp of
       Inl out \<Rightarrow> Some (nul_after out, 0, ctx)
     | Inr (out, tot, rest) \<Rightarrow>
         (let ctx = (if length rest \<noteq> 0 then ctx\<lparr>ctx_data := write_at (ctx_data ctx) 0 rest\<rparr> else ctx)
          in Some (nul_after out, if tot > INT_MAX then 0 else tot, ctx\<lparr>ctx_data_used := length rest\<rparr>))) =
       Some (nul_after (out @ b64_lines inp), length (out @ b64_lines inp), ctx') \<and> ctx_wf ctx' \<and> pending ctx' = b64_rest inp"
proof -
  have "tot + length (b64_lines inp) < 2 ^ 64" using small by (simp add: INT_MAX_def)
  note l = encode_update_loop_lines [OF this, of out]
  show ?thesis
    using small out wf length_b64_rest [of inp]
    by (auto simp: l Let_def ctx_wf_def pending_def length_write_at take_write_at_end [of 0, simplified])
qed

lemma encode_update_ok:
  assumes wf: "ctx_wf ctx" and small: "length (pending ctx @ inp) \<le> 1500000000"
  shows "\<exists>ctx'. EVP_EncodeUpdate ctx inp =
      Some (nul_after (b64_lines (pending ctx @ inp)), length (b64_lines (pending ctx @ inp)), ctx') \<and>
    ctx_wf ctx' \<and> pending ctx' = b64_rest (pending ctx @ inp)"
proof -
  let ?u = "ctx_data_used ctx" and ?p = "pending ctx"
  have lp: "length ?p = ?u" and u: "?u < 48" and ld: "length (ctx_data ctx) = 48"
    using wf by (simp_all add: ctx_wf_def pending_def)
  have "length (b64_lines (?p @ inp)) \<le> INT_MAX"
    using div_le_mono [OF small, of 48] by (simp add: length_b64_lines INT_MAX_def)
  note max = this
  consider (none) "inp = []" | (fits) "inp \<noteq> []" "?u + length inp < 48" | (empty) "?u = 0" "48 \<le> length inp"
    | (block) "?u \<noteq> 0" "48 \<le> ?u + length inp" by fastforce
  then show ?thesis
  proof cases
    case none
    then show ?thesis using b64_short [of ?p] lp u wf by (simp add: EVP_EncodeUpdate_def nul_after_def)
  next
    case fits
    then have "EVP_EncodeUpdate ctx inp = Some ([], 0, ctx\<lparr>ctx_data := write_at (ctx_data ctx) ?u inp, ctx_data_used := ?u + length inp\<rparr>)"
      using u by (simp add: EVP_EncodeUpdate_def less_diff_conv add.commute)
    then show ?thesis
      using fits b64_short [of "?p @ inp"] lp ld by (simp add: nul_after_def ctx_wf_def pending_def take_write_at_end length_write_at)
  next
    case empty
    have "?p = []" using empty lp by simp
    then show ?thesis
      using encode_update_tail [OF ld, of 0 inp "[]"] empty max by (auto simp: EVP_EncodeUpdate_def)
  next
    case block
    let ?t = "48 - ?u"
    let ?d = "write_at (ctx_data ctx) ?u (take ?t inp)" and ?i = "drop ?t inp"
    have d: "?d = ?p @ take ?t inp" using block ld u by (simp add: write_at_def pending_def)
    then have l48: "length ?d = 48" using block lp u by simp
    have pi: "?p @ inp = ?d @ ?i" by (simp add: d)
    note b = b64_block [OF l48, of ?i, folded pi]
    have e: "length (encode_loop ?d @ [0x0a]) = length (encode_loop ?d) + 1" by simp
    have "length (encode_loop ?d) + 1 + length (b64_lines ?i) \<le> INT_MAX" using max b(1) by simp
    from encode_update_tail [of "ctx\<lparr>ctx_data := ?d, ctx_data_used := 0\<rparr>", OF _ this e] l48
    show ?thesis using block u b by (auto simp: EVP_EncodeUpdate_def put_line Let_def)
  qed
qed

text \<open>A whole run of the encoder: the chunks in order, then the final call.\<close>

fun encode_stream :: "EVP_ENCODE_CTX \<Rightarrow> bytes list \<Rightarrow> bytes option" where
  "encode_stream ctx [] = (case EVP_EncodeFinal ctx of (out, n, _) \<Rightarrow> Some (take n out))"
| "encode_stream ctx (inp # inps) =
     (case EVP_EncodeUpdate ctx inp of
        None \<Rightarrow> None
      | Some (out, n, ctx) \<Rightarrow> map_option ((@) (take n out)) (encode_stream ctx inps))"

lemma take_nul_after: "take (length out) (nul_after out) = out"
  by (simp add: nul_after_def)

lemma encode_stream_text:
  "ctx_wf ctx \<Longrightarrow> length (pending ctx @ concat inps) \<le> 1500000000 \<Longrightarrow>
     encode_stream ctx inps = Some (b64_text (pending ctx @ concat inps))"
proof (induction inps arbitrary: ctx)
  case Nil
  have l: "length (pending ctx) = ctx_data_used ctx" "ctx_data_used ctx < 48" using Nil(1) by (simp_all add: ctx_wf_def pending_def)
  then show ?case
    using b64_short [of "pending ctx"] take_nul_after [of "encode_loop (pending ctx) @ [0x0a]"]
    by (auto simp: EVP_EncodeFinal_def b64_text_def put_line simp flip: pending_def)
next
  case (Cons inp inps)
  have "length (pending ctx @ inp) \<le> 1500000000" using Cons.prems(2) by simp
  from encode_update_ok [OF Cons.prems(1) this] obtain ctx' where
    u: "EVP_EncodeUpdate ctx inp = Some (nul_after (b64_lines (pending ctx @ inp)), length (b64_lines (pending ctx @ inp)), ctx')"
      "ctx_wf ctx'" "pending ctx' = b64_rest (pending ctx @ inp)" by blast
  have "length (pending ctx') \<le> length (pending ctx @ inp)" by (simp add: u(3) b64_rest_def)
  then have "length (pending ctx' @ concat inps) \<le> 1500000000" using Cons.prems(2) by simp
  note ih = Cons.IH [OF u(2) this]
  show ?case
    using b64_rest_append [of "pending ctx @ inp" "concat inps"]
    by (simp add: u ih take_nul_after b64_text_def)
qed

section \<open>The streaming decoder\<close>

lemma decode_update_append:
  "decode_update_loop ctx out (x @ y) =
     (case decode_update_loop ctx out x of (False, out, ctx) \<Rightarrow> (False, out, ctx) | (True, out, ctx) \<Rightarrow> decode_update_loop ctx out y)"
  by (induction ctx out x rule: decode_update_loop.induct) (auto simp: Let_def split: option.splits)

text \<open>The state between quads.\<close>

definition between :: "EVP_ENCODE_CTX \<Rightarrow> bool" where
  "between ctx \<longleftrightarrow> length (ctx_data ctx) = 48 \<and> ctx_data_used ctx = 0 \<and> \<not> ctx_error_encountered ctx"

lemma decode_quad_step:
  assumes "between ctx" and "\<not> ctx_eof_seen ctx" and "list_all (\<lambda>c. \<not> is_base64_space c) [a, b, c, d]"
    and "base64_decode_quad a b c d = Some bs"
  shows "\<exists>ctx'. decode_update_loop ctx out ([a, b, c, d] @ r) = decode_update_loop ctx' (out @ bs) r \<and> between ctx' \<and>
    ctx_eof_seen ctx' = (length bs < 3)"
proof -
  obtain w x y z r' where data: "ctx_data ctx = w # x # y # z # r'" and l: "length r' = 44"
    using assms(1) by (auto simp: between_def numeral_eq_Suc length_Suc_conv)
  let ?ctx = "ctx\<lparr>ctx_data := a # b # c # d # r', ctx_data_used := 0, ctx_eof_seen := (length bs < 3)\<rparr>"
  have "decode_update_loop ctx out ([a, b, c, d] @ r) = decode_update_loop ?ctx (out @ bs) r"
    using assms by (simp add: between_def Let_def data)
  then show ?thesis using assms(1) l by (intro exI [of _ ?ctx]) (simp add: between_def)
qed

lemma alphabet_not_space [simp]: "\<not> is_base64_space (b64_alphabet (six l n))" "\<not> is_base64_space 0x3d"
  using alphabet_inverse(3) [OF six_less] by (auto simp: is_base64_space_def)

lemma decode_encoded:
  assumes "between ctx" and "\<not> ctx_eof_seen ctx"
  shows "\<exists>ctx'. decode_update_loop ctx out (encode_loop src @ r) = decode_update_loop ctx' (out @ src) r \<and> between ctx' \<and>
    ctx_eof_seen ctx' = (length src mod 3 \<noteq> 0)"
  using assms
proof (induction src arbitrary: ctx out rule: encode_loop.induct)
  case 1
  then show ?case by auto
next
  case (2 a)
  from decode_quad_step [OF 2 _ quad1 [OF refl, of a], of out r] show ?case
    by (simp only: encode_loop_six Let_def) simp
next
  case (3 a b)
  from decode_quad_step [OF 3 _ quad2 [OF refl, of a b], of out r] show ?case
    by (simp only: encode_loop_six Let_def) simp
next
  case (4 a b c src)
  from decode_quad_step [OF 4(2,3) _ quad3 [OF refl, of a b c], of out "encode_loop src @ r"] obtain ctx1 where
    c1: "decode_update_loop ctx out (encode_loop (a # b # c # src) @ r) = decode_update_loop ctx1 (out @ [a, b, c]) (encode_loop src @ r)"
      "between ctx1" "\<not> ctx_eof_seen ctx1"
    by (simp only: encode_loop_six Let_def append_assoc) auto
  from 4(1) [OF c1(2,3), of "out @ [a, b, c]"] show ?case by (simp add: c1(1))
qed

lemma decode_newline: "decode_update_loop ctx out (0x0a # r) = decode_update_loop ctx out r"
  by (simp add: is_base64_space_def)

lemma decode_lines:
  assumes "between ctx" and "\<not> ctx_eof_seen ctx"
  shows "\<exists>ctx'. decode_update_loop ctx out (b64_lines bs @ r) = decode_update_loop ctx' (out @ take (48 * (length bs div 48)) bs) r \<and>
    between ctx' \<and> \<not> ctx_eof_seen ctx'"
  using assms
proof (induction bs arbitrary: ctx out rule: b64_induct)
  case (short bs)
  then show ?case by (auto simp: b64_short)
next
  case (block bs)
  from decode_encoded [OF block.prems, of out "take 48 bs" "0x0a # b64_lines (drop 48 bs) @ r"] obtain ctx1 where
    c1: "decode_update_loop ctx out (encode_loop (take 48 bs) @ 0x0a # b64_lines (drop 48 bs) @ r) =
        decode_update_loop ctx1 (out @ take 48 bs) (b64_lines (drop 48 bs) @ r)"
      "between ctx1" "\<not> ctx_eof_seen ctx1"
    using block(1) by (auto simp: decode_newline simp del: decode_update_loop.simps)
  have n: "48 * (length bs div 48) = 48 + 48 * (length (drop 48 bs) div 48)" using block(1) by (simp add: le_div_geq)
  have "take 48 bs @ take (48 * (length (drop 48 bs) div 48)) (drop 48 bs) = take (48 * (length bs div 48)) bs"
    unfolding n by (simp only: take_add)
  with block.IH [OF c1(2,3), of "out @ take 48 bs"] show ?case
    using b64_take_block [OF block(1)] c1(1) by (auto simp del: decode_update_loop.simps)
qed

lemma decode_text:
  assumes "between ctx" and "\<not> ctx_eof_seen ctx"
  shows "\<exists>ctx'. decode_update_loop ctx out (b64_text bs) = (True, out @ bs, ctx') \<and> between ctx'"
proof -
  let ?n = "48 * (length bs div 48)"
  have bs: "take ?n bs @ b64_rest bs = bs" by (simp add: b64_rest_def)
  show ?thesis
  proof (cases "b64_rest bs = []")
    case True
    from decode_lines [OF assms, of out bs "[]"] obtain ctx' where
      "decode_update_loop ctx out (b64_lines bs) = (True, out @ take ?n bs, ctx')" "between ctx'" by auto
    moreover have "take ?n bs = bs" using bs True by simp
    ultimately show ?thesis using True by (auto simp: b64_text_def)
  next
    case False
    let ?r = "encode_loop (b64_rest bs) @ [0x0a]"
    from decode_lines [OF assms, of out bs ?r] obtain ctx1 where
      c1: "decode_update_loop ctx out (b64_lines bs @ ?r) = decode_update_loop ctx1 (out @ take ?n bs) ?r"
        "between ctx1" "\<not> ctx_eof_seen ctx1" by auto
    from decode_encoded [OF c1(2,3), of "out @ take ?n bs" "b64_rest bs" "[0x0a]"] obtain ctx2 where
      c2: "decode_update_loop ctx1 (out @ take ?n bs) ?r = (True, (out @ take ?n bs) @ b64_rest bs, ctx2)" "between ctx2"
      by (auto simp: is_base64_space_def)
    have "(out @ take ?n bs) @ b64_rest bs = out @ bs" using bs by simp
    then show ?thesis using False c1(1) c2 by (simp add: b64_text_def del: decode_update_loop.simps)
  qed
qed

text \<open>A whole run of the decoder, which fails as soon as a call reports an error.\<close>

fun decode_stream :: "EVP_ENCODE_CTX \<Rightarrow> bytes list \<Rightarrow> bytes option" where
  "decode_stream ctx [] = (if EVP_DecodeFinal ctx = 1 then Some [] else None)"
| "decode_stream ctx (inp # inps) =
     (case EVP_DecodeUpdate ctx inp of
        (r, n, out, ctx) \<Rightarrow> if r = -1 then None else map_option ((@) (take n out)) (decode_stream ctx inps))"

lemma decode_loop_out: "decode_update_loop ctx (x @ out) inp =
    (case decode_update_loop ctx out inp of (ok, out, ctx) \<Rightarrow> (ok, x @ out, ctx))"
  by (induction ctx out inp rule: decode_update_loop.induct) (auto simp: Let_def split: option.splits)

lemma decode_loop_no_error:
  "\<not> ctx_error_encountered ctx \<Longrightarrow> decode_update_loop ctx out inp = (True, out', ctx') \<Longrightarrow> \<not> ctx_error_encountered ctx'"
  by (induction ctx out inp rule: decode_update_loop.induct) (auto simp: Let_def split: option.splits if_splits)

text \<open>However the text is cut into chunks, the decoder does what the loop does on the whole.\<close>

lemma decode_stream_chunks:
  assumes "\<not> ctx_error_encountered ctx" and "decode_update_loop ctx [] (concat inps) = (True, out, ctx')" and "length out \<le> INT_MAX"
  shows "decode_stream ctx inps = (if EVP_DecodeFinal ctx' = 1 then Some out else None)"
  using assms
proof (induction inps arbitrary: ctx out)
  case Nil
  then show ?case by simp
next
  case (Cons inp inps)
  obtain out1 ctx1 where c1: "decode_update_loop ctx [] inp = (True, out1, ctx1)"
    and "decode_update_loop ctx1 out1 (concat inps) = (True, out, ctx')"
    using Cons.prems(2) by (auto simp: decode_update_append split: prod.splits bool.splits)
  then obtain out2 where c2: "decode_update_loop ctx1 [] (concat inps) = (True, out2, ctx')" "out = out1 @ out2"
    using decode_loop_out [of ctx1 out1 "[]" "concat inps"] by (auto split: prod.splits)
  have "\<not> ctx_error_encountered ctx1" using decode_loop_no_error [OF Cons.prems(1) c1] .
  from Cons.IH [OF this c2(1)] Cons.prems c2(2) show ?case by (simp add: EVP_DecodeUpdate_def c1)
qed

lemma init_between: "between EVP_DecodeInit" "\<not> ctx_eof_seen EVP_DecodeInit" "ctx_wf EVP_EncodeInit" "pending EVP_EncodeInit = []"
  by (simp_all add: between_def EVP_DecodeInit_def EVP_EncodeInit_def ctx_wf_def pending_def)

lemma decode_loop_length:
  "decode_base64_loop out inp = Some res \<Longrightarrow> length inp mod 4 = 0 \<and> length res \<le> length out + length inp div 4 * 3"
proof (induction out inp rule: decode_base64_loop.induct)
  case (2 out a b c d inp)
  have l3: "base64_decode_quad a b c d = Some bs \<Longrightarrow> length bs \<le> 3" for bs
    by (auto simp: base64_decode_quad_def Let_def split: if_splits)
  have s: "(4 + length inp) div 4 = Suc (length inp div 4)" "(4 + length inp) mod 4 = length inp mod 4" by simp_all
  from 2 obtain bs where bs: "base64_decode_quad a b c d = Some bs" "decode_base64_loop (out @ bs) inp = Some res"
    "\<not> (length bs \<noteq> 3 \<and> inp \<noteq> [])" by (auto split: option.splits if_splits)
  from 2(1) [OF bs(1,3,2)] l3 [OF bs(1)] show ?case using s by simp
qed auto

section \<open>Properties\<close>

text \<open>
  C8: a message of at most 1500000000 bytes in total, whatever chunks it is cut into for the streaming encoder, and whatever
  chunks its text is cut into for the streaming decoder: no call fails and the decoder returns the message. (The bound keeps
  every count of output within \<^verbatim>\<open>int\<close>; for one larger chunk \<^verbatim>\<open>EVP_EncodeUpdate\<close> reports no output.)
\<close>

theorem base64_stream_round_trip:
  assumes "length (concat chunks) \<le> 1500000000"
  shows "\<exists>text. encode_stream EVP_EncodeInit chunks = Some text \<and>
    (\<forall>pieces. concat pieces = text \<longrightarrow> decode_stream EVP_DecodeInit pieces = Some (concat chunks))"
proof -
  let ?bs = "concat chunks"
  have e: "encode_stream EVP_EncodeInit chunks = Some (b64_text ?bs)"
    using encode_stream_text [OF init_between(3), of chunks] init_between(4) assms by simp
  obtain ctx where d: "decode_update_loop EVP_DecodeInit [] (b64_text ?bs) = (True, ?bs, ctx)" "between ctx"
    using decode_text [OF init_between(1,2), of "[]" ?bs] by auto
  have n: "\<not> ctx_error_encountered EVP_DecodeInit" "length ?bs \<le> INT_MAX" "EVP_DecodeFinal ctx = 1"
    using assms d(2) by (simp_all add: EVP_DecodeInit_def INT_MAX_def EVP_DecodeFinal_def between_def)
  have "decode_stream EVP_DecodeInit pieces = Some ?bs" if "concat pieces = b64_text ?bs" for pieces
    using decode_stream_chunks [OF n(1), of pieces ?bs ctx] d(1) n that by simp
  with e show ?thesis by blast
qed

theorem base64_stream_round_trip_witness:
  "\<exists>text. encode_stream EVP_EncodeInit [[1, 2], [], [3, 4]] = Some text \<and>
     decode_stream EVP_DecodeInit [take 3 text, drop 3 text] = Some [1, 2, 3, 4]"
proof -
  obtain t where t: "encode_stream EVP_EncodeInit [[1, 2], [], [3, 4]] = Some t"
    "\<And>pieces. concat pieces = t \<Longrightarrow> decode_stream EVP_DecodeInit pieces = Some (concat [[1, 2], [], [3, 4]])"
    using base64_stream_round_trip [of "[[1, 2], [], [3, 4]]"] by auto
  have "concat [take 3 t, drop 3 t] = t" by simp
  from t(2) [OF this] t(1) show ?thesis by simp
qed

text \<open>
  The one-shot encoder writes exactly the number of bytes that \<^verbatim>\<open>EVP_EncodedLength\<close> announces, its
  terminator included, and the one-shot decoder, given room for the decoded length, returns the
  original bytes.
\<close>

lemma base64_block_round_trip:
  assumes "EVP_EncodeBlock src = (dst, n)" and "length src < 2 ^ 62" and "n div 4 * 3 \<le> max_out"
  shows "EVP_EncodedLength (length src) = Some (length dst) \<and> length dst = n + 1 \<and> dst ! n = 0 \<and>
    EVP_DecodeBase64 max_out (take n dst) = Some src"
proof -
  have dst: "dst = encode_loop src @ [0]" "n = length (encode_loop src)" using assms(1) by (auto simp: EVP_EncodeBlock_def)
  have "EVP_EncodedLength (length src) = Some (n + 1)"
    using assms(2) unfolding dst(2) length_encode_loop EVP_EncodedLength_def size_add_def size_mul_def Let_def by simp
  moreover have "EVP_DecodeBase64 max_out (encode_loop src) = Some src"
    using assms(3) decode_encode_loop [of "[]" src] unfolding dst(2)
    by (simp add: EVP_DecodeBase64_def EVP_DecodedLength_def length_encode_loop)
  ultimately show ?thesis by (simp add: dst)
qed

text \<open>
  The one-shot decoder never produces more than \<open>max_out\<close> bytes, and accepts only inputs whose
  length is a multiple of four.
\<close>

lemma base64_decode_bounded:
  assumes "EVP_DecodeBase64 max_out inp = Some out"
  shows "length inp mod 4 = 0 \<and> length out \<le> length inp div 4 * 3 \<and> length out \<le> max_out"
  using assms decode_loop_length [of "[]" inp out]
  by (auto simp: EVP_DecodeBase64_def EVP_DecodedLength_def split: if_splits)

end
