(* ===== verification/Asn1_Int.thy ===== *)
theory Asn1_Int
  imports Cbb_Der
begin

text \<open>
  The ASN.1 integers and booleans that \<^verbatim>\<open>cbs.c\<close> reads are exactly the ones that \<^verbatim>\<open>cbb.c\<close>
  writes, and anything written with the builder is read back: the round trips of the library.
\<close>

section \<open>INTEGER contents\<close>

lemma be_val_Cons: "be_val (b # bs) = unat b * 256 ^ length bs + be_val bs"
proof (induction bs rule: rev_induct)
  case (snoc x xs)
  have "be_val (b # xs @ [x]) = 256 * be_val (b # xs) + unat x" using be_val_snoc [of "b # xs" x] by simp
  then show ?case using snoc by (simp add: algebra_simps)
qed (simp add: be_val_def)

lemma CBS_get_u8_simps [simp]:
  "CBS_get_u8 [] = (None, [])"
  "CBS_get_u8 (b # bs) = (Some b, bs)"
  by (simp_all add: CBS_get_u8_def cbs_get_def)

lemma unsigned_content_octets:
  assumes "CBS_is_unsigned_asn1_integer bs"
  shows "bs \<noteq> [] \<and> length bs = uint_octets (be_val bs)"
proof (cases bs)
  case Nil
  then show ?thesis using assms by (simp add: CBS_is_unsigned_asn1_integer_def CBS_is_valid_asn1_integer_def)
next
  case (Cons b cs)
  have b: "unat b < 128"
    using assms Cons by (auto simp: CBS_is_unsigned_asn1_integer_def CBS_is_valid_asn1_integer_def Let_def u8_and_80
        split: prod.splits option.splits if_splits)
  have val: "be_val bs = unat b * 256 ^ length cs + be_val cs" unfolding Cons by (rule be_val_Cons)
  have "Suc (unat b) * 256 ^ length cs \<le> 128 * 256 ^ length cs" using b by (intro mult_le_mono1) simp
  then have hi: "be_val bs < 128 * 256 ^ length cs" using be_val_less [of cs] val unfolding mult_Suc by linarith
  have "uint_octets (be_val bs) = Suc (length cs)"
  proof (rule uint_octets_unique [OF hi])
    show "length cs = 0 \<or> 128 * 256 ^ (length cs - 1) \<le> be_val bs"
    proof (cases cs)
      case (Cons d ds)
      have "b \<noteq> 0 \<or> 128 \<le> unat d"
        using assms \<open>bs = b # cs\<close> Cons
        by (auto simp: CBS_is_unsigned_asn1_integer_def CBS_is_valid_asn1_integer_def Let_def u8_and_80 split: if_splits)
      then show ?thesis
      proof
        assume "b \<noteq> 0"
        then have "1 \<le> unat b" by (metis less_one not_le unat_eq_0)
        then have "1 * 256 ^ length cs \<le> unat b * 256 ^ length cs" by (intro mult_le_mono1)
        moreover have "128 * 256 ^ (length cs - 1) \<le> (1::nat) * 256 ^ length cs" using Cons by simp
        ultimately show ?thesis using val by linarith
      next
        assume "128 \<le> unat d"
        then have "128 * 256 ^ length ds \<le> unat d * 256 ^ length ds" by (intro mult_le_mono1)
        moreover have "unat d * 256 ^ length ds \<le> be_val bs" using val be_val_Cons [of d ds] Cons by simp
        ultimately have "128 * 256 ^ length ds \<le> be_val bs" by (rule le_trans)
        then show ?thesis using Cons by simp
      qed
    qed simp
  qed
  then show ?thesis using Cons by simp
qed

lemma unsigned_content_uint:
  "CBS_is_unsigned_asn1_integer (uint_content v)"
proof -
  let ?m = "uint_octets v"
  have b: "0 < ?m" "v < 128 * 256 ^ (?m - 1)" "?m = 1 \<or> 128 * 256 ^ (?m - 2) \<le> v"
    using uint_octets_bounds [of v] by auto
  then obtain n where n: "?m = Suc n" by (cases ?m) auto
  let ?t = "v div 256 ^ n"
  have t: "?t < 128" using b(2) n by (simp add: div_less_iff_less_mult)
  have c: "uint_content v = of_nat ?t # be_bytes n v"
    unfolding uint_content_def n by (rule be_bytes_Cons)
  show ?thesis
  proof (cases n)
    case 0
    then show ?thesis using t c by (simp add: CBS_is_unsigned_asn1_integer_def CBS_is_valid_asn1_integer_def u8_and_80)
  next
    case (Suc j)
    have d: "be_bytes n v = of_nat (v div 256 ^ j) # be_bytes j v" unfolding Suc by (rule be_bytes_Cons)
    have "128 \<le> v div 256 ^ j" using b(3) n Suc by (simp add: less_eq_div_iff_mult_less_eq)
    then have "?t \<noteq> 0 \<or> 128 \<le> v div 256 ^ j mod 256"
      using Suc by (simp add: div_mult2_eq mult.commute [of 256] del: div_mult2_eq [symmetric]) (metis div_eq_0_iff mod_less div_mult2_eq mult.commute power_Suc2 zero_neq_numeral)
    then have "\<not> ((of_nat ?t :: u8) = 0 \<and> unat (of_nat (v div 256 ^ j) :: u8) < 128)"
      using t by (auto simp: of_nat_u8_0)
    moreover have "(of_nat ?t :: u8) \<noteq> 0xff" using t by (simp add: word_unat_eq_iff)
    ultimately show ?thesis using t c d
      by (auto simp: CBS_is_unsigned_asn1_integer_def CBS_is_valid_asn1_integer_def Let_def u8_and_80)
  qed
qed

lemma be_val_uint_content: "be_val (uint_content v) = v"
proof -
  let ?m = "uint_octets v"
  have "v < 128 * 256 ^ (?m - 1)" "0 < ?m" using uint_octets_bounds [of v] by auto
  moreover from this have "128 * 256 ^ (?m - 1) \<le> (256::nat) ^ ?m" by (cases ?m) auto
  ultimately have "v < 256 ^ ?m" by linarith
  then show ?thesis by (simp add: uint_content_def be_val_be_bytes)
qed

lemma unsigned_content_iff: "CBS_is_unsigned_asn1_integer bs \<longleftrightarrow> bs = uint_content (be_val bs)"
proof
  assume "CBS_is_unsigned_asn1_integer bs"
  then show "bs = uint_content (be_val bs)"
    by (metis unsigned_content_octets be_bytes_be_val uint_content_def)
next
  assume "bs = uint_content (be_val bs)"
  then show "CBS_is_unsigned_asn1_integer bs" by (metis unsigned_content_uint)
qed

lemma asn1_uint64_loop_val:
  "asn1_uint64_loop out data =
     (if unat out * 256 ^ length data + be_val data < 2 ^ 64
      then Some (of_nat (unat out * 256 ^ length data + be_val data)) else None)"
proof (induction data arbitrary: out)
  case Nil
  show ?case using unat_less [of out] by simp
next
  case (Cons b data)
  let ?n = "length data"
  have d: "drop_bit 56 out = 0 \<longleftrightarrow> unat out < 2 ^ 56"
    by (simp add: unat_eq_0 [symmetric] unat_drop_bit div_eq_0_iff)
  show ?case
  proof (cases "unat out < 2 ^ 56")
    case True
    have "unat (push_bit 8 out OR ucast b) = unat out * 2 ^ 8 + unat (ucast b :: u64)"
      using True by (intro unat_shift_or) (simp_all add: unat_ucast_up)
    then have u: "unat (push_bit 8 out OR ucast b) = unat out * 256 + unat b" by (simp add: unat_ucast_up)
    have "unat out * 256 ^ length (b # data) + be_val (b # data) = (unat out * 256 + unat b) * 256 ^ ?n + be_val data"
      by (simp add: be_val_Cons algebra_simps)
    then show ?thesis using Cons.IH d True u by simp
  next
    case False
    then have "2 ^ 56 * 256 ^ length (b # data) \<le> unat out * 256 ^ length (b # data)" by (intro mult_le_mono1) simp
    moreover have "(2::nat) ^ 56 * 256 ^ 1 \<le> 2 ^ 56 * 256 ^ length (b # data)"
      by (intro mult_le_mono2 power_increasing) auto
    moreover have "(2::nat) ^ 56 * 256 ^ 1 = 2 ^ 64" by simp
    ultimately have "2 ^ 64 \<le> unat out * 256 ^ length (b # data)" by linarith
    then have "\<not> unat out * 256 ^ length (b # data) + be_val (b # data) < 2 ^ 64" by linarith
    then show ?thesis using d False by (simp only: asn1_uint64_loop.simps if_False) simp
  qed
qed

lemma INTEGER_tag_ok: "tag_ok CBS_ASN1_INTEGER"
  by (simp add: tag_ok_def CBS_ASN1_INTEGER_def CBS_ASN1_CONSTRUCTED_def CBS_ASN1_TAG_SHIFT_def)

lemma CBS_get_asn1_uint64_iff:
  "CBS_get_asn1_uint64 cbs = (Some v, r) \<longleftrightarrow> cbs = der CBS_ASN1_INTEGER (uint_content (unat v)) @ r"
proof
  assume "CBS_get_asn1_uint64 cbs = (Some v, r)"
  then obtain bs where g: "CBS_get_asn1 CBS_ASN1_INTEGER cbs = (Some bs, r)"
    and u: "CBS_is_unsigned_asn1_integer bs" and l: "asn1_uint64_loop 0 bs = Some v"
    by (auto simp: CBS_get_asn1_uint64_def split: prod.splits option.splits if_splits)
  from l have "unat v = be_val bs" by (auto simp: asn1_uint64_loop_val unat_of_nat split: if_splits)
  then show "cbs = der CBS_ASN1_INTEGER (uint_content (unat v)) @ r"
    using g u by (simp add: CBS_get_asn1_iff unsigned_content_iff)
next
  assume c: "cbs = der CBS_ASN1_INTEGER (uint_content (unat v)) @ r"
  have "length (uint_content (unat v)) < 2 ^ 32"
    using length_uint_content [of "unat v"] unat_less [of v] by simp
  then have "CBS_get_asn1 CBS_ASN1_INTEGER cbs = (Some (uint_content (unat v)), r)"
    using c INTEGER_tag_ok by (simp add: CBS_get_asn1_iff)
  then show "CBS_get_asn1_uint64 cbs = (Some v, r)"
    using unat_less [of v]
    by (simp add: CBS_get_asn1_uint64_def unsigned_content_uint asn1_uint64_loop_val be_val_uint_content)
qed

interpretation uint64c: canonical_codec "\<lambda>v. der CBS_ASN1_INTEGER (uint_content (unat v))" CBS_get_asn1_uint64 "\<lambda>_. True"
  by unfold_locales (simp_all add: CBS_get_asn1_uint64_iff)

section \<open>Signed contents\<close>

lemma u32_high: "32 \<le> m \<Longrightarrow> \<not> bit (x::u32) m"
  by (auto dest: bit_imp_le_length)

lemma bswap4_masks: "(0xff00ff00 :: u32) = push_bit 24 (mask 8) OR push_bit 8 (mask 8)"  "(0x00ff00ff :: u32) = push_bit 16 (mask 8) OR mask 8"
  by (simp_all add: mask_eq_exp_minus_1)

lemma bswap4_bit: "n < 32 \<Longrightarrow> bit (CRYPTO_bswap4 x) n = bit x (if n < 8 then n + 24 else if n < 16 then n + 8 else if n < 24 then n - 8 else n - 24)"
  unfolding CRYPTO_bswap4_def Let_def bswap4_masks
  by (simp add: bit_simps u32_high not_less le_diff_conv less_diff_conv2 add.commute)

lemma u8_high: "8 \<le> m \<Longrightarrow> \<not> bit (x::u8) m"
  by (auto dest: bit_imp_le_length)

lemma load_be_bytes:
  "CRYPTO_bswap8 (foldr (\<lambda>b v. push_bit 8 v OR ucast b) [b0,b1,b2,b3,b4,b5,b6,b7::u8] 0) =
     foldl (\<lambda>r b. push_bit 8 r OR ucast b) (0::u64) [b0,b1,b2,b3,b4,b5,b6,b7]" (is "?l = ?r")
proof (rule bit_word_eqI)
  have bits: "\<forall>q\<in>{0,1,2,3,4,5,6,7}. bit ?l (8 * q + r) = bit ?r (8 * q + r)" if "r < 8" for r
    using that by (simp add: CRYPTO_bswap8_def bit_simps bswap4_bit u32_high u8_high)
  fix n assume "n < LENGTH(64)"
  then have "n div 8 \<in> {0,1,2,3,4,5,6,7}" by auto
  from bspec [OF bits this, of "n mod 8"] show "bit ?l n = bit ?r n" by simp
qed

lemma CRYPTO_load_u64_be_val:
  assumes "length bs = 8"
  shows "unat (CRYPTO_load_u64_be bs) = be_val bs"
proof -
  obtain b0 b1 b2 b3 b4 b5 b6 b7 where bs: "bs = [b0, b1, b2, b3, b4, b5, b6, b7]"
    using assms by (auto simp: numeral_eq_Suc length_Suc_conv)
  have "CRYPTO_load_u64_be bs = foldl (\<lambda>r b. push_bit 8 r OR ucast b) (0::u64) bs"
    unfolding CRYPTO_load_u64_be_def using load_be_bytes [of b0 b1 b2 b3 b4 b5 b6 b7] by (simp add: bs)
  then show ?thesis using unat_be_fold [of bs] assms by simp
qed

lemma unat_not_u8: "unat (NOT (b :: u8)) = 255 - unat b"
proof -
  have "NOT b = - 1 - b" by (simp add: not_eq_complement)
  moreover have "unat (- 1 - b) = unat (- 1 :: u8) - unat b" by (rule unat_sub) simp
  moreover have "unat (- 1 :: u8) = 255" by (simp add: unsigned_minus_1_eq_mask mask_eq_exp_minus_1)
  ultimately show ?thesis by simp
qed

lemma be_val_not: "be_val bs + be_val (map NOT bs) + 1 = 256 ^ length bs"
proof (induction bs rule: rev_induct)
  case (snoc b bs)
  have "unat b \<le> 255" using unat_u8_less [of b] by linarith
  then show ?case using snoc by (simp add: unat_not_u8)
qed simp

lemma be_val_append: "be_val (xs @ ys) = be_val xs * 256 ^ length ys + be_val ys"
proof (induction ys rule: rev_induct)
  case (snoc y ys)
  have "be_val (xs @ ys @ [y]) = 256 * be_val (xs @ ys) + unat y" using be_val_snoc [of "xs @ ys" y] by simp
  then show ?case using snoc by (simp add: algebra_simps)
qed simp

lemma be_val_zeros [simp]: "be_val (replicate k 0) = 0"
  by (induction k) (simp_all add: be_val_Cons)

lemma be_bytes_mod: "be_bytes n (v mod 256 ^ n) = be_bytes n v"
  using be_bytes_be_val [of "be_bytes n v"] by (simp add: be_val_be_bytes)

lemma be_bytes_suffix: "be_bytes (length bs) (be_val (xs @ bs)) = bs"
proof -
  have "be_val (xs @ bs) mod 256 ^ length bs = be_val bs"
    using be_val_less [of bs] by (simp add: be_val_append)
  then show ?thesis using be_bytes_mod [of "length bs" "be_val (xs @ bs)"] be_bytes_be_val [of bs] by simp
qed

lemma map_not_be_bytes: "n \<le> 8 \<Longrightarrow> map NOT (be_bytes n (unat (v :: u64))) = be_bytes n (unat (NOT v))"
proof (induction n)
  case (Suc n)
  have "NOT (of_nat (unat v div 256 ^ n) :: u8) = of_nat (unat (NOT v) div 256 ^ n)"
    using byte_not [of n v] Suc.prems by simp
  then show ?case using Suc by (simp only: be_bytes_Cons list.map Suc_leD)
qed simp

lemma valid_integer_negative:
  "CBS_is_valid_asn1_integer bs = Some True \<longleftrightarrow> CBS_is_unsigned_asn1_integer (map NOT bs)"
proof -
  have f: "(NOT b = 0xff \<longleftrightarrow> b = 0) \<and> (NOT b = 0 \<longleftrightarrow> b = 0xff) \<and> (NOT b AND 0x80 \<noteq> 0 \<longleftrightarrow> b AND 0x80 = 0)" for b :: u8
    using u8_not_facts [of b] u8_not_facts [of "NOT b"] by (simp add: u8_and_80)
  show ?thesis
  proof (cases bs)
    case (Cons b cs)
    then show ?thesis using f
      by (cases cs) (auto simp: CBS_is_unsigned_asn1_integer_def CBS_is_valid_asn1_integer_def Let_def)
  qed (simp add: CBS_is_unsigned_asn1_integer_def CBS_is_valid_asn1_integer_def)
qed

text \<open>What sign extension to eight bytes loads.\<close>

definition sext8 :: "bool \<Rightarrow> bytes \<Rightarrow> u64" where
  "sext8 neg bs = CRYPTO_load_u64_be (write_at (replicate 8 (if neg then 0xff else 0)) (8 - length bs) bs)"

lemma sext8_unat:
  assumes "length bs \<le> 8"
  shows "unat (sext8 neg bs) = be_val (replicate (8 - length bs) (if neg then 0xff else 0) @ bs)"
proof -
  have "write_at (replicate 8 (x :: u8)) (8 - length bs) bs = replicate (8 - length bs) x @ bs" for x
    using assms by (simp add: write_at_def)
  then show ?thesis using assms by (simp only: sext8_def) (simp add: CRYPTO_load_u64_be_val)
qed

lemma sext8_nonneg: "length bs \<le> 8 \<Longrightarrow> unat (sext8 False bs) = be_val bs"
  by (simp add: sext8_unat be_val_append)

lemma sext8_neg:
  assumes "length bs \<le> 8"
  shows "unat (NOT (sext8 True bs)) = be_val (map NOT bs)"
proof -
  let ?e = "replicate (8 - length bs) (0xff :: u8) @ bs"
  have n: "NOT (0xff :: u8) = 0" by simp
  have "be_val (map NOT ?e) = be_val (map NOT bs)"
    by (simp only: map_append map_replicate n be_val_append be_val_zeros mult_0 add_0)
  moreover have "be_val ?e + be_val (map NOT ?e) + 1 = 256 ^ 8" using be_val_not [of ?e] assms by simp
  ultimately show ?thesis using sext8_unat [OF assms, of True] by (simp add: unat_not)
qed

lemma uint_octets_le_8: "uint_octets n \<le> 8 \<longleftrightarrow> n < 2 ^ 63"
proof
  assume "uint_octets n \<le> 8"
  then have "(128::nat) * 256 ^ (uint_octets n - 1) \<le> 128 * 256 ^ 7" by (intro mult_le_mono2 power_increasing) auto
  then show "n < 2 ^ 63" using uint_octets_bounds [of n] by simp
next
  assume "n < 2 ^ 63"
  show "uint_octets n \<le> 8"
  proof (rule ccontr)
    assume a: "\<not> uint_octets n \<le> 8"
    then have "(128::nat) * 256 ^ 7 \<le> 128 * 256 ^ (uint_octets n - 2)" by (intro mult_le_mono2 power_increasing) auto
    then have "(2::nat) ^ 63 \<le> 128 * 256 ^ (uint_octets n - 2)" by simp
    then show False using uint_octets_bounds [of n] \<open>n < 2 ^ 63\<close> a by linarith
  qed
qed

lemma int_content_nonneg: "unat v < 2 ^ 63 \<Longrightarrow> int_content v = uint_content (unat v)"
  by (simp only: int_content_def uint_content_def sint_cases if_True int_octets_nonneg)

lemma int_content_neg: "\<not> unat v < 2 ^ 63 \<Longrightarrow> int_content v = be_bytes (uint_octets (unat (NOT v))) (unat v)"
  by (simp only: int_content_def sint_cases if_False int_octets_neg)

lemma unat_not_less: "\<not> unat v < 2 ^ 63 \<Longrightarrow> unat (NOT (v :: u64)) < 2 ^ 63"
  by (simp add: unat_not)

lemma sext8_int_content:
  assumes "CBS_is_valid_asn1_integer bs = Some neg" and len: "length bs \<le> 8"
  shows "bs = int_content (sext8 neg bs)"
proof (cases neg)
  case False
  then have u: "bs = uint_content (be_val bs)"
    using assms(1) unsigned_content_iff [of bs] by (simp add: CBS_is_unsigned_asn1_integer_def)
  then have "length bs = uint_octets (be_val bs)" by (metis uint_content_def length_be_bytes)
  then have "be_val bs < 2 ^ 63" using len uint_octets_le_8 by metis
  then show ?thesis using u False int_content_nonneg [of "sext8 False bs"] sext8_nonneg [OF len] by simp
next
  case True
  let ?v = "sext8 True bs" and ?w = "be_val (map NOT bs)"
  have u: "map NOT bs = uint_content ?w"
    using assms(1) True by (simp only: valid_integer_negative unsigned_content_iff eqTrueI)
  have l: "length bs = uint_octets ?w" using arg_cong [OF u, of length] by (simp add: uint_content_def)
  then have "?w < 2 ^ 63" using len uint_octets_le_8 by metis
  then have big: "\<not> unat ?v < 2 ^ 63" using sext8_neg [OF len] unat_less [of ?v] by (simp add: unat_not)
  have "be_bytes (length bs) (unat ?v) = bs" by (simp only: sext8_unat [OF len] be_bytes_suffix)
  then show ?thesis using True int_content_neg [OF big] sext8_neg [OF len] l by simp
qed

lemma int_content_valid:
  "\<exists>neg. CBS_is_valid_asn1_integer (int_content v) = Some neg \<and> length (int_content v) \<le> 8 \<and>
     sext8 neg (int_content v) = v"
proof (cases "unat v < 2 ^ 63")
  case True
  then have c: "int_content v = uint_content (unat v)" by (rule int_content_nonneg)
  have len: "length (int_content v) \<le> 8" using True uint_octets_le_8 by (simp add: c uint_content_def)
  have "CBS_is_valid_asn1_integer (int_content v) = Some False"
    using unsigned_content_uint [of "unat v"] c by (simp add: CBS_is_unsigned_asn1_integer_def)
  moreover have "sext8 False (int_content v) = v"
    using sext8_nonneg [OF len] be_val_uint_content [of "unat v"] c by (simp add: word_unat_eq_iff)
  ultimately show ?thesis using len by blast
next
  case False
  let ?w = "unat (NOT v)"
  have c: "int_content v = be_bytes (uint_octets ?w) (unat v)" using False by (rule int_content_neg)
  have m8: "uint_octets ?w \<le> 8" using unat_not_less [OF False] uint_octets_le_8 by blast
  then have len: "length (int_content v) \<le> 8" by (simp add: c)
  have n: "map NOT (int_content v) = uint_content ?w"
    unfolding c uint_content_def by (rule map_not_be_bytes [OF m8])
  then have "CBS_is_valid_asn1_integer (int_content v) = Some True"
    using unsigned_content_uint [of ?w] by (simp add: valid_integer_negative)
  moreover have "sext8 True (int_content v) = v"
  proof -
    have "unat (NOT (sext8 True (int_content v))) = ?w"
      using sext8_neg [OF len] n be_val_uint_content [of ?w] by simp
    then have "NOT (sext8 True (int_content v)) = NOT v" by (simp only: word_unat_eq_iff)
    then show ?thesis by simp
  qed
  ultimately show ?thesis using len by blast
qed

lemma CBS_get_asn1_int64_eq:
  "CBS_get_asn1_int64 cbs =
     (case CBS_get_asn1 CBS_ASN1_INTEGER cbs of
        (None, cbs') \<Rightarrow> (None, cbs')
      | (Some bs, cbs') \<Rightarrow>
          (case CBS_is_valid_asn1_integer bs of
             None \<Rightarrow> (None, cbs')
           | Some neg \<Rightarrow> if length bs > 8 then (None, cbs') else (Some (sext8 neg bs), cbs')))"
  unfolding CBS_get_asn1_int64_def sext8_def Let_def by (rule refl)

lemma CBS_get_asn1_int64_iff:
  "CBS_get_asn1_int64 cbs = (Some v, r) \<longleftrightarrow> cbs = der CBS_ASN1_INTEGER (int_content v) @ r"
proof
  assume "CBS_get_asn1_int64 cbs = (Some v, r)"
  then obtain bs neg where g: "CBS_get_asn1 CBS_ASN1_INTEGER cbs = (Some bs, r)"
    and b: "CBS_is_valid_asn1_integer bs = Some neg" "length bs \<le> 8" "v = sext8 neg bs"
    by (auto simp: CBS_get_asn1_int64_eq split: prod.splits option.splits if_splits)
  then show "cbs = der CBS_ASN1_INTEGER (int_content v) @ r"
    using sext8_int_content [OF b(1,2)] by (simp add: CBS_get_asn1_iff)
next
  assume c: "cbs = der CBS_ASN1_INTEGER (int_content v) @ r"
  obtain neg where v: "CBS_is_valid_asn1_integer (int_content v) = Some neg" "length (int_content v) \<le> 8"
    "sext8 neg (int_content v) = v" using int_content_valid by blast
  have "CBS_get_asn1 CBS_ASN1_INTEGER cbs = (Some (int_content v), r)"
    using c INTEGER_tag_ok v(2) by (simp add: CBS_get_asn1_iff)
  then show "CBS_get_asn1_int64 cbs = (Some v, r)" using v by (simp add: CBS_get_asn1_int64_eq)
qed

interpretation int64c: canonical_codec "\<lambda>v. der CBS_ASN1_INTEGER (int_content v)" CBS_get_asn1_int64 "\<lambda>_. True"
  by unfold_locales (simp_all add: CBS_get_asn1_int64_iff)

section \<open>What is built is read back\<close>

text \<open>A writer and a reader that agree on the encoding.\<close>

locale wire = cbb_append op enc need valid + codec enc dec valid
  for op :: "'a \<Rightarrow> allocator \<Rightarrow> CBB \<Rightarrow> nat \<Rightarrow> bool \<times> CBB" and enc :: "'a \<Rightarrow> bytes"
    and need :: "'a \<Rightarrow> nat" and dec :: "'a parser" and valid :: "'a \<Rightarrow> bool"
begin

lemma build_contents:
  assumes M: "malloc_ok M" and wf: "cbb_wf c" and empty: "CBB_abs c = ([[]], [])" and xs: "list_all valid xs"
    and run: "run_ops op xs M c 0 = (True, c1)" and fin: "CBB_finish M out c1 0 = (Some (buf, len), c2)"
  shows "take len buf = concat (map enc xs)"
proof -
  from refines_True [OF as_op.run_contract [OF wf M xs, of 0, unfolded run]]
  have g: "cbb_wf c1" and a: "spec_run (\<lambda>x k. spec_append k (enc x)) xs 0 ([[]], []) = Some (CBB_abs c1)"
    by (auto simp: empty grown_def)
  then have "CBB_abs c1 = ([concat (map enc xs)], [])" by (simp add: spec_run_appends)
  then show ?thesis using CBB_finish_abs [OF g M fin] by (simp add: spec_flush.simps)
qed

lemma build_parse:
  assumes "malloc_ok M" and "cbb_wf c" and "CBB_abs c = ([[]], [])" and xs: "list_all valid xs"
    and "run_ops op xs M c 0 = (True, c1)" and "CBB_finish M out c1 0 = (Some (buf, len), c2)"
  shows "parse_n dec (length xs) (take len buf) = (Some xs, [])"
  using build_contents [OF assms] parse_n_enc [OF xs, of "[]"] by simp

text \<open>With room for the encodings nothing fails.\<close>

lemma build_total:
  assumes M: "malloc_ok M" and wf: "cbb_wf c" and empty: "CBB_abs c = ([[]], [])" "cbb_chain c = []" and xs: "list_all valid xs"
    and err: "\<not> cb_error (cbb_base c)"
    and room: "room M (cbb_base c) (cb_len (cbb_base c) + sum_list (map need xs))"
  shows "\<exists>c1 buf len c2. run_ops op xs M c 0 = (True, c1) \<and> CBB_finish M True c1 0 = (Some (buf, len), c2)"
proof -
  let ?n = "sum_list (map need xs)"
  have b: "budget c 0 = cb_len (cbb_base c)" using empty(2) by (simp add: budget_def)
  have live: "cbb_live c 0" by (simp add: cbb_live_def)
  have sp: "spec_run (\<lambda>x k. spec_append k (enc x)) xs 0 (CBB_abs c) \<noteq> None"
    by (simp add: empty spec_run_appends)
  from refines_room [OF as_op.run_contract [OF wf M xs, of 0] live err sp] room b
  obtain c1 where c1: "run_ops op xs M c 0 = (True, c1)" "budget c1 0 \<le> budget c 0 + ?n" by auto
  from refines_True [OF as_op.run_contract [OF wf M xs, of 0, unfolded c1(1)]]
  have g: "grown c c1" and "spec_run (\<lambda>x k. spec_append k (enc x)) xs 0 (CBB_abs c) = Some (CBB_abs c1)" by auto
  then have "CBB_abs c1 = ([concat (map enc xs)], [])" by (simp add: empty spec_run_appends)
  then have "spec_flush 0 (CBB_abs c1) \<noteq> None" by (simp add: spec_flush.simps)
  moreover have "room M (cbb_base c1) (budget c1 0)"
    by (rule room_mono [OF room]) (use c1 b g in \<open>simp_all add: grown_def\<close>)
  ultimately show ?thesis using CBB_finish_room [of c1 M] g M c1(1) by (auto simp: grown_def)
qed

text \<open>The two together, from the call that makes the builder to the call that reads the result.\<close>

lemma build_round_trip:
  assumes M: "malloc_ok M" "granted M" and cap: "cap < 2 ^ 64" and c: "CBB_init M cap = (True, c)"
    and xs: "list_all valid xs" and small: "sum_list (map need xs) \<le> 2 ^ 62"
  shows "\<exists>c1 buf len c2. run_ops op xs M c 0 = (True, c1) \<and> CBB_finish M True c1 0 = (Some (buf, len), c2) \<and>
    take len buf = concat (map enc xs) \<and> parse_n dec (length xs) (take len buf) = (Some xs, [])"
proof -
  from CBB_init_abs [OF M(1) cap c] have i: "cbb_wf c" "\<not> cb_error (cbb_base c)" "CBB_abs c = ([[]], [])"
    "cb_can_resize (cbb_base c)" "cb_len (cbb_base c) = 0" "cbb_chain c = []" by auto
  have "room M (cbb_base c) (cb_len (cbb_base c) + sum_list (map need xs))"
    using i M(2) small by (simp add: room_def)
  from build_total [OF M(1) i(1,3,6) xs i(2) this] build_contents [OF M(1) i(1,3) xs] build_parse [OF M(1) i(1,3) xs]
  show ?thesis by blast
qed

end

interpretation wu16: wire "\<lambda>v M c k. CBB_add_u16 M c k v" "\<lambda>v. be_bytes 2 (unat v)"
  "\<lambda>v. length (be_bytes 2 (unat v))" CBS_get_u16 "\<lambda>_. True"
  by intro_locales

interpretation wu24: wire "\<lambda>v M c k. CBB_add_u24 M c k v" "\<lambda>v. be_bytes 3 (unat v)"
  "\<lambda>v. length (be_bytes 3 (unat v))" CBS_get_u24 "\<lambda>v. unat v < 2 ^ 24"
  by intro_locales

interpretation wu32: wire "\<lambda>v M c k. CBB_add_u32 M c k v" "\<lambda>v. be_bytes 4 (unat v)"
  "\<lambda>v. length (be_bytes 4 (unat v))" CBS_get_u32 "\<lambda>_. True"
  by intro_locales

interpretation wu64: wire "\<lambda>v M c k. CBB_add_u64 M c k v" "\<lambda>v. be_bytes 8 (unat v)"
  "\<lambda>v. length (be_bytes 8 (unat v))" CBS_get_u64 "\<lambda>_. True"
  by intro_locales

interpretation wuint64: wire "\<lambda>v M c k. CBB_add_asn1_uint64 M c k v" "\<lambda>v. der CBS_ASN1_INTEGER (uint_content (unat v))"
  "\<lambda>v. length (uint_content (unat v)) + 6" CBS_get_asn1_uint64 "\<lambda>_. True"
  by intro_locales

interpretation wint64: wire "\<lambda>v M c k. CBB_add_asn1_int64 M c k v" "\<lambda>v. der CBS_ASN1_INTEGER (int_content v)"
  "\<lambda>v. length (int_content v) + 6" CBS_get_asn1_int64 "\<lambda>_. True"
  by intro_locales

section \<open>Properties\<close>

text \<open>
  \<^verbatim>\<open>CBS_get_asn1_uint64\<close> returns \<open>v\<close> exactly on the minimal two's-complement INTEGER encoding of
  \<open>v\<close>: it rejects negative numbers, redundant leading octets and values above \<open>2 ^ 64 - 1\<close>, and
  never truncates.
\<close>

theorem CBS_get_asn1_uint64_canonical:
  "CBS_get_asn1_uint64 cbs = (Some v, r) \<longleftrightarrow> cbs = der CBS_ASN1_INTEGER (uint_content (unat v)) @ r"
  by (rule CBS_get_asn1_uint64_iff)

text \<open>
  C33: \<^verbatim>\<open>CBS_get_asn1_int64\<close> returns the \<^verbatim>\<open>int64_t\<close> with bit pattern \<open>v\<close> exactly on the minimal
  two's-complement INTEGER encoding of its signed value.
\<close>

theorem CBS_get_asn1_int64_canonical:
  "CBS_get_asn1_int64 cbs = (Some v, r) \<longleftrightarrow>
     cbs = der CBS_ASN1_INTEGER (be_bytes (int_octets (sint v)) (unat v)) @ r"
  by (simp only: CBS_get_asn1_int64_iff int_content_def)

lemma sum_list_le: "(\<And>x. f x \<le> (m :: nat)) \<Longrightarrow> sum_list (map f xs) \<le> m * length xs"
  by (induction xs) (auto simp: add_mono)

lemma length_int_content: "length (int_content v) \<le> 8"
  using int_content_valid [of v] by auto

text \<open>
  C2: a list of signed 64-bit integers is written by \<^verbatim>\<open>CBB_add_asn1_int64\<close> into a fresh growable builder. With any
  allocator, if the writes and \<^verbatim>\<open>CBB_finish\<close> report success then \<^verbatim>\<open>CBS_get_asn1_int64\<close> reads the same list
  back from the result and leaves nothing; a failed allocation is always reported, never a wrong result. With an
  allocator that serves every request, and at most 2^58 integers, the writes and the finish do succeed.
\<close>

theorem asn1_int64_round_trip:
  assumes "malloc_ok M" and "cap < 2 ^ 64" and "CBB_init M cap = (True, c)"
  shows "(\<forall>c1 buf len c2. run_ops (\<lambda>v M c k. CBB_add_asn1_int64 M c k v) xs M c 0 = (True, c1) \<and>
      CBB_finish M True c1 0 = (Some (buf, len), c2) \<longrightarrow>
      parse_n CBS_get_asn1_int64 (length xs) (take len buf) = (Some xs, [])) \<and>
    (granted M \<and> length xs \<le> 2 ^ 58 \<longrightarrow>
      (\<exists>c1 buf len c2. run_ops (\<lambda>v M c k. CBB_add_asn1_int64 M c k v) xs M c 0 = (True, c1) \<and>
        CBB_finish M True c1 0 = (Some (buf, len), c2)))"
proof (intro conjI impI allI)
  have v: "list_all (\<lambda>_. True) xs" by (simp add: list_all_iff)
  have i: "cbb_wf c" "CBB_abs c = ([[]], [])" using CBB_init_abs [OF assms] by auto
  show "parse_n CBS_get_asn1_int64 (length xs) (take len buf) = (Some xs, [])"
    if "run_ops (\<lambda>v M c k. CBB_add_asn1_int64 M c k v) xs M c 0 = (True, c1) \<and> CBB_finish M True c1 0 = (Some (buf, len), c2)"
    for c1 buf len c2
    using wint64.build_parse [OF assms(1) i v] that by blast
  assume g: "granted M \<and> length xs \<le> 2 ^ 58"
  have "sum_list (map (\<lambda>v. length (int_content v) + 6) xs) \<le> 14 * length xs"
    by (rule sum_list_le) (use length_int_content in simp)
  then have "sum_list (map (\<lambda>v. length (int_content v) + 6) xs) \<le> 2 ^ 62" using g by simp
  from wint64.build_round_trip [OF assms(1) _ assms(2,3) v this] g
  show "\<exists>c1 buf len c2. run_ops (\<lambda>v M c k. CBB_add_asn1_int64 M c k v) xs M c 0 = (True, c1) \<and>
      CBB_finish M True c1 0 = (Some (buf, len), c2)" by blast
qed

theorem asn1_int64_round_trip_witness:
  "\<exists>c1 buf len c2. run_ops (\<lambda>v M c k. CBB_add_asn1_int64 M c k v) [- 129, 0, 127] plentiful
      (cbb_init [] 0 True) 0 = (True, c1) \<and>
    CBB_finish plentiful True c1 0 = (Some (buf, len), c2) \<and>
    parse_n CBS_get_asn1_int64 3 (take len buf) = (Some [- 129, 0, 127], [])"
  using asn1_int64_round_trip [of plentiful 0 "cbb_init [] 0 True" "[- 129, 0, 127]"] CBB_init_plentiful [of 0]
  by (fastforce simp: numeral_3_eq_3)

end
