(* ===== verification/Unicode.thy ===== *)
theory Unicode
  imports Asn1_Int
begin

text \<open>
  \<^verbatim>\<open>crypto/bytestring/unicode.c\<close>: reading and writing code points in UTF-8, Latin-1, UCS-2 and UTF-32.
  Each pair is shown to be a writer and a reader of the same encoding (locale \<open>wire\<close>), and the readers
  accept nothing but the encodings of valid code points; for UTF-8 that excludes overlong forms.
\<close>

definition is_valid_code_point :: "u32 \<Rightarrow> bool" where
  "is_valid_code_point v \<longleftrightarrow>
     \<not> (v > 0x10ffff \<or> v AND 0xfffe = 0xfffe \<or> (v \<ge> 0xfdd0 \<and> v \<le> 0xfdef) \<or> (v \<ge> 0xd800 \<and> v \<le> 0xdfff))"

definition BOTTOM_BITS :: "nat \<Rightarrow> u8" where
  "BOTTOM_BITS n = ucast (push_bit n 1 - 1 :: u32)"

definition TOP_BITS :: "nat \<Rightarrow> u8" where
  "TOP_BITS n = NOT (BOTTOM_BITS (8 - n))"

text \<open>The loop of \<^verbatim>\<open>CBS_get_utf8\<close> over \<open>n\<close> continuation bytes.\<close>

fun utf8_tail_loop :: "nat \<Rightarrow> u32 \<Rightarrow> u32 parser" where
  "utf8_tail_loop 0 v cbs = (Some v, cbs)"
| "utf8_tail_loop (Suc n) v cbs =
     (case CBS_get_u8 cbs of
        (None, cbs) \<Rightarrow> (None, cbs)
      | (Some c, cbs) \<Rightarrow>
          if c AND TOP_BITS 2 \<noteq> TOP_BITS 1 then (None, cbs)
          else utf8_tail_loop n (push_bit 6 v OR ucast (c AND BOTTOM_BITS 6)) cbs)"

text \<open>The first byte gives the initial value, the number of continuation bytes and the lower bound.\<close>

definition utf8_lead :: "u8 \<Rightarrow> (u32 \<times> nat \<times> u32) option" where
  "utf8_lead c =
     (if c AND TOP_BITS 3 = TOP_BITS 2 then Some (ucast (c AND BOTTOM_BITS 5), 1, 0x80)
      else if c AND TOP_BITS 4 = TOP_BITS 3 then Some (ucast (c AND BOTTOM_BITS 4), 2, 0x800)
      else if c AND TOP_BITS 5 = TOP_BITS 4 then Some (ucast (c AND BOTTOM_BITS 3), 3, 0x10000)
      else None)"

definition CBS_get_utf8 :: "u32 parser" where
  "CBS_get_utf8 cbs =
     (case CBS_get_u8 cbs of
        (None, cbs) \<Rightarrow> (None, cbs)
      | (Some c, cbs) \<Rightarrow>
          if c \<le> 0x7f then (Some (ucast c), cbs)
          else case utf8_lead c of
                 None \<Rightarrow> (None, cbs)
               | Some (v, len, lower_bound) \<Rightarrow>
                   (case utf8_tail_loop len v cbs of
                      (None, cbs) \<Rightarrow> (None, cbs)
                    | (Some v, cbs) \<Rightarrow>
                        if \<not> is_valid_code_point v \<or> v < lower_bound then (None, cbs) else (Some v, cbs)))"

definition CBS_get_latin1 :: "u32 parser" where
  "CBS_get_latin1 cbs =
     (case CBS_get_u8 cbs of (None, cbs) \<Rightarrow> (None, cbs) | (Some c, cbs) \<Rightarrow> (Some (ucast c), cbs))"

definition CBS_get_ucs2_be :: "u32 parser" where
  "CBS_get_ucs2_be cbs =
     (case CBS_get_u16 cbs of
        (None, cbs) \<Rightarrow> (None, cbs)
      | (Some c, cbs) \<Rightarrow> if is_valid_code_point (ucast c) then (Some (ucast c), cbs) else (None, cbs))"

definition CBS_get_utf32_be :: "u32 parser" where
  "CBS_get_utf32_be cbs =
     (case CBS_get_u32 cbs of
        (None, cbs) \<Rightarrow> (None, cbs)
      | (Some v, cbs) \<Rightarrow> if is_valid_code_point v then (Some v, cbs) else (None, cbs))"

definition CBB_get_utf8_len :: "u32 \<Rightarrow> nat" where
  "CBB_get_utf8_len u = (if u \<le> 0x7f then 1 else if u \<le> 0x7ff then 2 else if u \<le> 0xffff then 3 else 4)"

text \<open>\<open>a && b && ...\<close> over calls of \<^verbatim>\<open>CBB_add_u8\<close>: the calls in order, up to the first that fails.\<close>

fun add_u8s :: "allocator \<Rightarrow> CBB \<Rightarrow> nat \<Rightarrow> bytes \<Rightarrow> bool \<times> CBB" where
  "add_u8s M c k [] = (True, c)"
| "add_u8s M c k (b # bs) =
     (case CBB_add_u8 M c k b of (False, c) \<Rightarrow> (False, c) | (True, c) \<Rightarrow> add_u8s M c k bs)"

definition CBB_add_utf8 :: "allocator \<Rightarrow> CBB \<Rightarrow> nat \<Rightarrow> u32 \<Rightarrow> bool \<times> CBB" where
  "CBB_add_utf8 M c k u =
     (if \<not> is_valid_code_point u then (False, c)
      else if u \<le> 0x7f then CBB_add_u8 M c k (ucast u)
      else if u \<le> 0x7ff then
        add_u8s M c k [ucast (ucast (TOP_BITS 2) OR drop_bit 6 u),
                       ucast (ucast (TOP_BITS 1) OR (u AND ucast (BOTTOM_BITS 6)))]
      else if u \<le> 0xffff then
        add_u8s M c k [ucast (ucast (TOP_BITS 3) OR drop_bit 12 u),
                       ucast (ucast (TOP_BITS 1) OR (drop_bit 6 u AND ucast (BOTTOM_BITS 6))),
                       ucast (ucast (TOP_BITS 1) OR (u AND ucast (BOTTOM_BITS 6)))]
      else if u \<le> 0x10ffff then
        add_u8s M c k [ucast (ucast (TOP_BITS 4) OR drop_bit 18 u),
                       ucast (ucast (TOP_BITS 1) OR (drop_bit 12 u AND ucast (BOTTOM_BITS 6))),
                       ucast (ucast (TOP_BITS 1) OR (drop_bit 6 u AND ucast (BOTTOM_BITS 6))),
                       ucast (ucast (TOP_BITS 1) OR (u AND ucast (BOTTOM_BITS 6)))]
      else (False, c))"

definition CBB_add_latin1 :: "allocator \<Rightarrow> CBB \<Rightarrow> nat \<Rightarrow> u32 \<Rightarrow> bool \<times> CBB" where
  "CBB_add_latin1 M c k u = (if u \<le> 0xff then CBB_add_u8 M c k (ucast u) else (False, c))"

definition CBB_add_ucs2_be :: "allocator \<Rightarrow> CBB \<Rightarrow> nat \<Rightarrow> u32 \<Rightarrow> bool \<times> CBB" where
  "CBB_add_ucs2_be M c k u =
     (if u \<le> 0xffff \<and> is_valid_code_point u then CBB_add_u16 M c k (ucast u) else (False, c))"

definition CBB_add_utf32_be :: "allocator \<Rightarrow> CBB \<Rightarrow> nat \<Rightarrow> u32 \<Rightarrow> bool \<times> CBB" where
  "CBB_add_utf32_be M c k u = (if is_valid_code_point u then CBB_add_u32 M c k u else (False, c))"

section \<open>Bits of a byte\<close>

lemma bits_consts:
  "BOTTOM_BITS 6 = 0x3f" "BOTTOM_BITS 5 = 0x1f" "BOTTOM_BITS 4 = 0xf" "BOTTOM_BITS 3 = 7"
  "TOP_BITS 1 = 0x80" "TOP_BITS 2 = 0xc0" "TOP_BITS 3 = 0xe0" "TOP_BITS 4 = 0xf0" "TOP_BITS 5 = 0xf8"
  by code_simp+

lemma high_bits_iff:
  assumes "t * 2 ^ n < 256"
  shows "(c :: u8) AND NOT (mask n) = push_bit n (of_nat t) \<longleftrightarrow> unat c div 2 ^ n = t"
proof -
  have "t * 1 \<le> t * 2 ^ n" by (rule mult_le_mono2) simp
  then have "t < 256" using assms by linarith
  then have t: "unat (of_nat t :: u8) = t" by simp
  have u: "unat (push_bit n (of_nat t) :: u8) = t * 2 ^ n"
    using assms t by (simp only: unsigned_push_bit_eq) (simp add: push_bit_eq_mult take_bit_eq_mod)
  have c: "c AND NOT (mask n) = push_bit n (drop_bit n c)"
    by (rule bit_word_eqI) (auto simp: bit_simps)
  have "unat c div 2 ^ n * 2 ^ n \<le> unat c" by simp
  then have "unat c div 2 ^ n * 2 ^ n < 256" by (rule le_less_trans) simp
  then have "unat (push_bit n (drop_bit n c)) = unat c div 2 ^ n * 2 ^ n"
    by (simp only: unsigned_push_bit_eq unat_drop_bit) (simp add: push_bit_eq_mult take_bit_eq_mod)
  then show ?thesis unfolding c word_unat_eq_iff u by simp
qed

lemma lead_tests:
  "(c :: u8) AND 0xc0 = 0x80 \<longleftrightarrow> unat c div 64 = 2"
  "c AND 0xe0 = 0xc0 \<longleftrightarrow> unat c div 32 = 6"
  "c AND 0xf0 = 0xe0 \<longleftrightarrow> unat c div 16 = 14"
  "c AND 0xf8 = 0xf0 \<longleftrightarrow> unat c div 8 = 30"
proof -
  have m: "NOT (mask 6) = (0xc0 :: u8)" "NOT (mask 5) = (0xe0 :: u8)" "NOT (mask 4) = (0xf0 :: u8)" "NOT (mask 3) = (0xf8 :: u8)"
    by code_simp+
  show "c AND 0xc0 = 0x80 \<longleftrightarrow> unat c div 64 = 2" "c AND 0xe0 = 0xc0 \<longleftrightarrow> unat c div 32 = 6"
    "c AND 0xf0 = 0xe0 \<longleftrightarrow> unat c div 16 = 14" "c AND 0xf8 = 0xf0 \<longleftrightarrow> unat c div 8 = 30"
    using high_bits_iff [of 2 6 c, unfolded m] high_bits_iff [of 6 5 c, unfolded m]
      high_bits_iff [of 14 4 c, unfolded m] high_bits_iff [of 30 3 c, unfolded m] by simp_all
qed

lemma low_bits:
  "unat ((c :: u8) AND 0x3f) = unat c mod 64" "unat (c AND 0x1f) = unat c mod 32"
  "unat (c AND 0xf) = unat c mod 16" "unat (c AND 7) = unat c mod 8"
  using unat_and_mask [of c 6] unat_and_mask [of c 5] unat_and_mask [of c 4] unat_and_mask [of c 3]
  by (simp_all add: mask_eq_exp_minus_1)

section \<open>UTF-8\<close>

text \<open>The encoding: the continuation bytes carry six bits each, the first byte the rest.\<close>

fun utf8_tail :: "nat \<Rightarrow> nat \<Rightarrow> bytes" where
  "utf8_tail 0 x = []"
| "utf8_tail (Suc n) x = of_nat (0x80 + x div 64 ^ n mod 64) # utf8_tail n x"

definition utf8 :: "nat \<Rightarrow> bytes" where
  "utf8 x =
     (if x \<le> 0x7f then [of_nat x]
      else if x \<le> 0x7ff then of_nat (0xc0 + x div 64) # utf8_tail 1 x
      else if x \<le> 0xffff then of_nat (0xe0 + x div 64 ^ 2) # utf8_tail 2 x
      else of_nat (0xf0 + x div 64 ^ 3) # utf8_tail 3 x)"

lemma u8_eq_iff: "n < 256 \<Longrightarrow> (c :: u8) = of_nat n \<longleftrightarrow> unat c = n"
  by (simp add: word_unat_eq_iff)

lemma continuation_value:
  assumes "unat v < 2 ^ 26"
  shows "unat (push_bit 6 v OR ucast ((c :: u8) AND 0x3f) :: u32) = unat v * 64 + unat c mod 64"
proof -
  have "unat (ucast (c AND 0x3f) :: u32) = unat c mod 64" by (subst unat_ucast_up) (simp_all add: low_bits)
  then show ?thesis using unat_shift_or [of v 6 "ucast (c AND 0x3f)"] assms by simp
qed

lemma div_mod_unique: "(b :: nat) < m \<Longrightarrow> x = a * m + b \<longleftrightarrow> x div m = a \<and> x mod m = b"
  using div_mult_mod_eq [of x m] by auto

lemma continuation_byte:
  "(c :: u8) = of_nat (0x80 + x mod 64) \<longleftrightarrow> unat c div 64 = 2 \<and> unat c mod 64 = x mod 64"
proof -
  have n: "y = 128 + x mod 64 \<longleftrightarrow> y div 64 = 2 \<and> y mod 64 = x mod 64" for y :: nat
    using div_mod_unique [of "x mod 64" 64 y 2] by simp
  have "x mod 64 < 64" by simp
  then have "0x80 + x mod 64 < 256" by linarith
  from u8_eq_iff [OF this] show ?thesis unfolding n .
qed

lemma split_64: "(x :: nat) = a * 64 + c mod 64 \<longleftrightarrow> x div 64 = a \<and> c mod 64 = x mod 64"
  using div_mod_unique [of "c mod 64" 64 x a] by auto

lemma utf8_tail_loop_iff:
  assumes "unat v < 2 ^ (32 - 6 * n)" and "n \<le> 5"
  shows "utf8_tail_loop n v cbs = (Some w, r) \<longleftrightarrow> unat w div 64 ^ n = unat v \<and> cbs = utf8_tail n (unat w) @ r"
  using assms
proof (induction n arbitrary: v cbs)
  case 0
  show ?case by (auto simp: word_unat_eq_iff)
next
  case (Suc n)
  have e: "(2::nat) ^ (32 - 6 * n) = 2 ^ (32 - 6 * Suc n) * 64" 
    using Suc.prems(2) power_add [of "2::nat" "32 - 6 * Suc n" 6] by simp
  have "(2::nat) ^ (32 - 6 * Suc n) \<le> 2 ^ 26" by (rule power_increasing) auto
  then have v: "unat v < 2 ^ 26" using Suc.prems(1) by linarith
  show ?case
  proof (cases cbs)
    case (Cons c cs)
    let ?v = "push_bit 6 v OR ucast (c AND 0x3f) :: u32"
    have u: "unat ?v = unat v * 64 + unat c mod 64" by (rule continuation_value [OF v])
    have "unat c mod 64 < 64" by simp
    then have "unat ?v < 2 ^ (32 - 6 * n)" using Suc.prems(1) unfolding u e by linarith
    note IH = Suc.IH [OF this, of cs]
    have "unat w div 64 ^ n = unat ?v \<longleftrightarrow> unat w div 64 ^ Suc n = unat v \<and> unat c mod 64 = unat w div 64 ^ n mod 64"
      unfolding u power_Suc2 div_mult2_eq by (rule split_64)
    moreover have "utf8_tail_loop (Suc n) v cbs = (if unat c div 64 = 2 then utf8_tail_loop n ?v cs else (None, cs))"
      unfolding Cons utf8_tail_loop.simps bits_consts lead_tests by simp
    moreover have "cbs = utf8_tail (Suc n) (unat w) @ r \<longleftrightarrow>
        unat c div 64 = 2 \<and> unat c mod 64 = unat w div 64 ^ n mod 64 \<and> cs = utf8_tail n (unat w) @ r"
      unfolding Cons utf8_tail.simps append_Cons list.inject continuation_byte by blast
    ultimately show ?thesis using IH Suc.prems(2) by auto
  qed simp
qed

lemma unat_and_field:
  fixes v :: "'a::len word"
  assumes "n + m \<le> LENGTH('a)"
  shows "unat (v AND push_bit n (mask m)) = unat v div 2 ^ n mod 2 ^ m * 2 ^ n"
proof -
  let ?x = "drop_bit n v AND mask m"
  have "v AND push_bit n (mask m) = push_bit n ?x" by (rule bit_word_eqI) (auto simp: bit_simps)
  moreover have x: "unat ?x = unat v div 2 ^ n mod 2 ^ m" by (simp add: unat_and_mask unat_drop_bit)
  moreover have "unat ?x * 2 ^ n < 2 ^ LENGTH('a)"
  proof -
    have "unat ?x * 2 ^ n < 2 ^ m * 2 ^ n" unfolding x by simp
    also have "(2::nat) ^ m * 2 ^ n = 2 ^ (n + m)" by (simp add: power_add)
    also have "(2::nat) ^ (n + m) \<le> 2 ^ LENGTH('a)" using assms by (intro power_increasing) auto
    finally show ?thesis .
  qed
  ultimately show ?thesis by (simp only: unsigned_push_bit_eq) (simp add: push_bit_eq_mult take_bit_eq_mod)
qed

lemma is_valid_code_point_unat:
  "is_valid_code_point v \<longleftrightarrow> unat v \<le> 0x10ffff \<and> unat v mod 0x10000 < 0xfffe \<and>
     \<not> (0xfdd0 \<le> unat v \<and> unat v \<le> 0xfdef) \<and> \<not> (0xd800 \<le> unat v \<and> unat v \<le> 0xdfff)"
proof -
  have f: "(0xfffe :: u32) = push_bit 1 (mask 15)" by code_simp
  have "unat (v AND 0xfffe) = unat v div 2 mod 0x8000 * 2"
    unfolding f using unat_and_field [of 1 15 v] by simp
  then have "v AND 0xfffe = 0xfffe \<longleftrightarrow> unat v div 2 mod 0x8000 * 2 = 0xfffe"
    unfolding word_unat_eq_iff by simp
  also have "\<dots> \<longleftrightarrow> \<not> unat v mod 0x10000 < 0xfffe"
  proof -
    have "unat v mod (2 * 0x8000) = 2 * (unat v div 2 mod 0x8000) + unat v mod 2" by (rule mod_mult2_eq)
    moreover have "unat v div 2 mod 0x8000 < 0x8000" "unat v mod 2 < 2" by simp_all
    ultimately show ?thesis by simp linarith
  qed
  finally show ?thesis unfolding is_valid_code_point_def word_le_nat_alt word_less_nat_alt by auto
qed

lemma utf8_lead_unat:
  "utf8_lead c =
     (if unat c div 32 = 6 then Some (of_nat (unat c mod 32), 1, 0x80)
      else if unat c div 16 = 14 then Some (of_nat (unat c mod 16), 2, 0x800)
      else if unat c div 8 = 30 then Some (of_nat (unat c mod 8), 3, 0x10000) else None)"
proof -
  have e: "(ucast x :: u32) = of_nat (unat x)" for x :: u8 by (simp add: word_unat_eq_iff unat_ucast_mod unat_of_nat)
  show ?thesis unfolding utf8_lead_def bits_consts lead_tests e low_bits ..
qed


text \<open>The first byte and the lower bound together determine the range of the code point.\<close>

lemma lead_range:
  fixes x y :: nat
  assumes "0 < m" and "lo < m * d" and "0 < d"
  shows "y div m = q \<and> x div d = y mod m \<and> lo < x \<longleftrightarrow> lo < x \<and> x < m * d \<and> y = q * m + x div d"
proof -
  have "x div d < m \<longleftrightarrow> x < m * d" using assms(3) by (rule div_less_iff_less_mult)
  moreover have "x div d = y mod m \<Longrightarrow> x div d < m" using assms(1) by simp
  ultimately show ?thesis using div_mod_unique [of "x div d" m y q] by auto
qed

lemma utf8_Cons_iff:
  assumes "x \<le> 0x10ffff"
  shows "c # cs = utf8 x @ r \<longleftrightarrow>
    x \<le> 0x7f \<and> unat c = x \<and> cs = r \<or>
    (0x7f < x \<and> x < 32 * 64 \<and> unat c = 6 * 32 + x div 64) \<and> cs = utf8_tail 1 x @ r \<or>
    (0x7ff < x \<and> x < 16 * 4096 \<and> unat c = 14 * 16 + x div 4096) \<and> cs = utf8_tail 2 x @ r \<or>
    (0xffff < x \<and> x < 8 * 262144 \<and> unat c = 30 * 8 + x div 262144) \<and> cs = utf8_tail 3 x @ r"
proof -
  have d: "x \<le> 0x7ff \<Longrightarrow> 0xc0 + x div 64 < 256" "x \<le> 0xffff \<Longrightarrow> 0xe0 + x div 4096 < 256" "0xf0 + x div 262144 < 256"
    using assms by (simp_all add: div_less_iff_less_mult)
  have p: "(64::nat) ^ 2 = 4096" "(64::nat) ^ 3 = 262144" by simp_all
  consider "x \<le> 0x7f" | "0x7f < x" "x \<le> 0x7ff" | "0x7ff < x" "x \<le> 0xffff" | "0xffff < x" by linarith
  then show ?thesis
  proof cases
    case 1
    then have "utf8 x = [of_nat x]" by (simp add: utf8_def)
    with 1 show ?thesis using u8_eq_iff [of x c] by auto
  next
    case 2
    then have "utf8 x = of_nat (0xc0 + x div 64) # utf8_tail 1 x" by (simp add: utf8_def)
    with 2 show ?thesis using u8_eq_iff [OF d(1), of c] by auto
  next
    case 3
    then have "utf8 x = of_nat (0xe0 + x div 4096) # utf8_tail 2 x" by (simp add: utf8_def p)
    with 3 show ?thesis using u8_eq_iff [OF d(2), of c] by auto
  next
    case 4
    then have "utf8 x = of_nat (0xf0 + x div 262144) # utf8_tail 3 x" by (simp add: utf8_def p)
    with 4 show ?thesis using u8_eq_iff [OF d(3), of c] assms by auto
  qed
qed

lemma div_eq_range: "0 < m \<Longrightarrow> (y :: nat) div m = q \<longleftrightarrow> q * m \<le> y \<and> y < (q + 1) * m"
  using less_eq_div_iff_mult_less_eq [of m q y] div_less_iff_less_mult [of m y "q + 1"] by auto

lemma CBS_get_utf8_lead:
  assumes "\<not> unat c \<le> 0x7f" and "utf8_lead c = Some (v, n, lo)" and "unat v < 2 ^ (32 - 6 * n)" and "n \<le> 5"
  shows "CBS_get_utf8 (c # cs) = (Some u, r) \<longleftrightarrow>
    is_valid_code_point u \<and> unat lo \<le> unat u \<and> unat u div 64 ^ n = unat v \<and> cs = utf8_tail n (unat u) @ r"
proof -
  have "CBS_get_utf8 (c # cs) = (Some u, r) \<longleftrightarrow>
      utf8_tail_loop n v cs = (Some u, r) \<and> is_valid_code_point u \<and> unat lo \<le> unat u"
    using assms(1,2) by (auto simp: CBS_get_utf8_def word_le_nat_alt word_less_nat_alt split: prod.splits option.splits)
  then show ?thesis unfolding utf8_tail_loop_iff [OF assms(3,4)] by blast
qed

lemma CBS_get_utf8_Cons_iff:
  "CBS_get_utf8 (c # cs) = (Some u, r) \<longleftrightarrow>
    unat c \<le> 0x7f \<and> unat u = unat c \<and> cs = r \<or>
    is_valid_code_point u \<and>
    ((unat c div 32 = 6 \<and> unat u div 64 = unat c mod 32 \<and> 0x7f < unat u) \<and> cs = utf8_tail 1 (unat u) @ r \<or>
     (unat c div 16 = 14 \<and> unat u div 4096 = unat c mod 16 \<and> 0x7ff < unat u) \<and> cs = utf8_tail 2 (unat u) @ r \<or>
     (unat c div 8 = 30 \<and> unat u div 262144 = unat c mod 8 \<and> 0xffff < unat u) \<and> cs = utf8_tail 3 (unat u) @ r)"
proof -
  have m: "unat (of_nat (unat c mod k) :: u32) = unat c mod k" for k
  proof -
    have "unat c mod k \<le> unat c" by simp
    also have "unat c < 256" by simp
    finally show ?thesis by (simp add: unat_of_nat)
  qed
  have md: "unat c mod 32 < 32" "unat c mod 16 < 16" "unat c mod 8 < 8" by simp_all
  have b: "unat c mod 32 < 2 ^ (32 - 6 * 1)" by (rule less_trans [OF md(1)]) simp
  have b': "unat c mod 16 < 2 ^ (32 - 6 * 2)" by (rule less_trans [OF md(2)]) simp
  have b'': "unat c mod 8 < 2 ^ (32 - 6 * 3)" by (rule less_trans [OF md(3)]) simp
  note lead = CBS_get_utf8_lead [where v = "of_nat (unat c mod _)", unfolded m]
  note range = div_eq_range [of 32 "unat c" 6] div_eq_range [of 16 "unat c" 14] div_eq_range [of 8 "unat c" 30]
  consider "unat c \<le> 0x7f" | "unat c div 32 = 6" "\<not> unat c \<le> 0x7f" | "unat c div 16 = 14" "\<not> unat c \<le> 0x7f"
    | "unat c div 8 = 30" "\<not> unat c \<le> 0x7f" | "\<not> unat c \<le> 0x7f" "unat c div 32 \<noteq> 6" "unat c div 16 \<noteq> 14" "unat c div 8 \<noteq> 30"
    by blast
  then show ?thesis
  proof cases
    case 1
    have "CBS_get_utf8 (c # cs) = (Some (ucast c), cs)" using 1 by (simp add: CBS_get_utf8_def word_le_nat_alt)
    moreover have "ucast c = u \<longleftrightarrow> unat u = unat c" by (auto simp: word_unat_eq_iff unat_ucast_up)
    moreover have "unat c div 32 \<noteq> 6" "unat c div 16 \<noteq> 14" "unat c div 8 \<noteq> 30" using range 1 by auto
    ultimately show ?thesis using 1 by simp
  next
    case 2
    have "utf8_lead c = Some (of_nat (unat c mod 32), 1, 0x80)" using 2 by (simp add: utf8_lead_unat)
    moreover have "unat c div 16 \<noteq> 14" "unat c div 8 \<noteq> 30" using range 2 by auto
    ultimately show ?thesis using lead [OF 2(2) _ b] 2 by auto
  next
    case 3
    then have "unat c div 32 \<noteq> 6" "unat c div 8 \<noteq> 30" using range by auto
    moreover from this have "utf8_lead c = Some (of_nat (unat c mod 16), 2, 0x800)" using 3 by (simp add: utf8_lead_unat)
    ultimately show ?thesis using lead [OF 3(2) _ b'] 3 by auto
  next
    case 4
    then have "unat c div 32 \<noteq> 6" "unat c div 16 \<noteq> 14" using range by auto
    moreover from this have "utf8_lead c = Some (of_nat (unat c mod 8), 3, 0x10000)" using 4 by (simp add: utf8_lead_unat)
    ultimately show ?thesis using lead [OF 4(2) _ b''] 4 by auto
  next
    case 5
    then show ?thesis by (auto simp: CBS_get_utf8_def word_le_nat_alt utf8_lead_unat split: if_splits)
  qed
qed

lemma CBS_get_utf8_iff: "CBS_get_utf8 cbs = (Some u, r) \<longleftrightarrow> is_valid_code_point u \<and> cbs = utf8 (unat u) @ r"
proof (cases cbs)
  case (Cons c cs)
  show ?thesis
  proof (cases "unat u \<le> 0x10ffff")
    case True
    have a: "unat u < 8 * 262144 \<longleftrightarrow> True" using True by simp
    have l: "unat c div 32 = 6 \<and> unat u div 64 = unat c mod 32 \<and> 0x7f < unat u \<longleftrightarrow> 0x7f < unat u \<and> unat u < 32 * 64 \<and> unat c = 6 * 32 + unat u div 64"
      "unat c div 16 = 14 \<and> unat u div 4096 = unat c mod 16 \<and> 0x7ff < unat u \<longleftrightarrow> 0x7ff < unat u \<and> unat u < 16 * 4096 \<and> unat c = 14 * 16 + unat u div 4096"
      "unat c div 8 = 30 \<and> unat u div 262144 = unat c mod 8 \<and> 0xffff < unat u \<longleftrightarrow> 0xffff < unat u \<and> unat u < 8 * 262144 \<and> unat c = 30 * 8 + unat u div 262144"
      by (rule lead_range; simp)+
    have "is_valid_code_point u" if "unat u \<le> 0x7f" using that by (simp add: is_valid_code_point_unat)
    moreover have "unat c \<le> 0x7f \<and> unat u = unat c \<longleftrightarrow> unat u \<le> 0x7f \<and> unat c = unat u" by auto
    ultimately show ?thesis unfolding Cons CBS_get_utf8_Cons_iff utf8_Cons_iff [OF True] l a by blast
  next
    case False
    then have "\<not> is_valid_code_point u" "unat c \<le> 0x7f \<Longrightarrow> unat u \<noteq> unat c" by (auto simp: is_valid_code_point_unat)
    then show ?thesis unfolding Cons CBS_get_utf8_Cons_iff by blast
  qed
qed (auto simp: CBS_get_utf8_def utf8_def split: if_splits)

section \<open>Writing\<close>

lemma add_u8s_contract:
  assumes "malloc_ok M"
  shows "cbb_wf c \<Longrightarrow> bs \<noteq> [] \<Longrightarrow> refines M c k (length bs) (spec_append k bs (CBB_abs c)) (add_u8s M c k bs)"
proof (induction bs arbitrary: c)
  case (Cons b bs)
  have "refines M c k (length (b # bs)) (spec_append k (b # bs) (CBB_abs c))
      (case CBB_add_u8 M c k b of (False, c) \<Rightarrow> (False, c) | (True, c) \<Rightarrow> add_u8s M c k bs)"
    by (rule append_u8 [OF Cons.prems(1) assms]) (use Cons.IH append_nothing in \<open>cases bs; simp\<close>)
  then show ?case by simp
qed simp

lemma marked_byte:
  fixes x :: u32
  assumes "unat x < 2 ^ m" and "t * 2 ^ m + 2 ^ m \<le> 256"
  shows "(ucast (push_bit m (of_nat t) OR x) :: u8) = of_nat (t * 2 ^ m + unat x)"
proof -
  have "t * 1 \<le> t * 2 ^ m" by (rule mult_le_mono2) simp
  then have "t \<le> 256" using assms(2) by linarith
  then have t: "unat (of_nat t :: u32) = t" by (simp add: unat_of_nat)
  have "unat (push_bit m (of_nat t) OR x) = t * 2 ^ m + unat x"
    using unat_shift_or [of "of_nat t :: u32" m x] t assms by simp
  then show ?thesis unfolding word_unat_eq_iff unat_ucast_mod unat_of_nat_u8 by simp
qed

lemma lead_bytes:
  fixes x :: u32
  shows "unat x < 32 \<Longrightarrow> (ucast (0xc0 OR x) :: u8) = of_nat (0xc0 + unat x)"
    "unat x < 16 \<Longrightarrow> (ucast (0xe0 OR x) :: u8) = of_nat (0xe0 + unat x)"
    "unat x < 8 \<Longrightarrow> (ucast (0xf0 OR x) :: u8) = of_nat (0xf0 + unat x)"
    "(ucast (0x80 OR (x AND 0x3f)) :: u8) = of_nat (0x80 + unat x mod 64)"
proof -
  have p: "push_bit 5 (of_nat 6) = (0xc0 :: u32)" "push_bit 4 (of_nat 14) = (0xe0 :: u32)"
    "push_bit 3 (of_nat 30) = (0xf0 :: u32)" "push_bit 6 (of_nat 2) = (0x80 :: u32)" by code_simp+
  have "unat (x AND 0x3f) = unat x mod 64" using unat_and_mask [of x 6] by (simp add: mask_eq_exp_minus_1)
  then show "(ucast (0x80 OR (x AND 0x3f)) :: u8) = of_nat (0x80 + unat x mod 64)"
    using marked_byte [of "x AND 0x3f" 6 2, unfolded p] by simp
  show "unat x < 32 \<Longrightarrow> (ucast (0xc0 OR x) :: u8) = of_nat (0xc0 + unat x)"
    "unat x < 16 \<Longrightarrow> (ucast (0xe0 OR x) :: u8) = of_nat (0xe0 + unat x)"
    "unat x < 8 \<Longrightarrow> (ucast (0xf0 OR x) :: u8) = of_nat (0xf0 + unat x)"
    using marked_byte [of x 5 6, unfolded p] marked_byte [of x 4 14, unfolded p] marked_byte [of x 3 30, unfolded p] by simp_all
qed

lemma CBB_add_utf8_bytes:
  assumes "is_valid_code_point u"
  shows "CBB_add_utf8 M c k u =
    (if unat u \<le> 0x7f then CBB_add_u8 M c k (ucast u) else add_u8s M c k (utf8 (unat u)))"
proof -
  have v: "unat u \<le> 0x10ffff" using assms by (simp add: is_valid_code_point_unat)
  have e: "u \<le> 0x7f \<longleftrightarrow> unat u \<le> 0x7f" "u \<le> 0x7ff \<longleftrightarrow> unat u \<le> 0x7ff" "u \<le> 0xffff \<longleftrightarrow> unat u \<le> 0xffff"
    "u \<le> 0x10ffff \<longleftrightarrow> unat u \<le> 0x10ffff" by (simp_all add: word_le_nat_alt)
  have b: "unat u \<le> 0x7ff \<Longrightarrow> unat (drop_bit 6 u) < 32" "unat u \<le> 0xffff \<Longrightarrow> unat (drop_bit 12 u) < 16" "unat (drop_bit 18 u) < 8"
    using v by (simp_all add: unat_drop_bit div_less_iff_less_mult)
  have top: "ucast (TOP_BITS 1) = (0x80 :: u32)" "ucast (TOP_BITS 2) = (0xc0 :: u32)" "ucast (TOP_BITS 3) = (0xe0 :: u32)"
    "ucast (TOP_BITS 4) = (0xf0 :: u32)" "ucast (BOTTOM_BITS 6) = (0x3f :: u32)" by code_simp+
  have l: "utf8_tail 1 x = [of_nat (0x80 + x mod 64)]"
    "utf8_tail 2 x = [of_nat (0x80 + x div 64 mod 64), of_nat (0x80 + x mod 64)]"
    "utf8_tail 3 x = [of_nat (0x80 + x div 4096 mod 64), of_nat (0x80 + x div 64 mod 64), of_nat (0x80 + x mod 64)]" for x
    by (simp_all add: numeral_2_eq_2 numeral_3_eq_3 div_mult2_eq)
  show ?thesis
    unfolding CBB_add_utf8_def e top utf8_def l
    using assms v b by (simp add: lead_bytes unat_drop_bit)
qed

lemma CBB_add_utf8_contract:
  assumes "cbb_wf c" and "malloc_ok M" and "is_valid_code_point u"
  shows "refines M c k (length (utf8 (unat u))) (spec_append k (utf8 (unat u)) (CBB_abs c)) (CBB_add_utf8 M c k u)"
proof (cases "unat u \<le> 0x7f")
  case True
  then have "unat (ucast u :: u8) = unat u" by (simp add: unat_ucast_mod)
  then have "be_bytes 1 (unat (ucast u :: u8)) = utf8 (unat u)" using True by (simp add: utf8_def)
  with add_u8.append_contract [OF assms(1,2) TrueI, where x = "ucast u" and k = k] True show ?thesis
    by (simp only: CBB_add_utf8_bytes [OF assms(3)] if_True)
next
  case False
  have "utf8 (unat u) \<noteq> []" by (simp add: utf8_def)
  with add_u8s_contract [OF assms(2,1)] False show ?thesis by (simp add: CBB_add_utf8_bytes [OF assms(3)])
qed

text \<open>
  What counts as a valid code point, as Unicode defines it: a scalar value (at most 0x10ffff and no surrogate) that
  is not one of the 66 noncharacters.
\<close>

definition surrogate :: "nat \<Rightarrow> bool" where
  "surrogate x \<longleftrightarrow> x \<in> {0xd800..0xdfff}"

definition noncharacter :: "nat \<Rightarrow> bool" where
  "noncharacter x \<longleftrightarrow> x \<in> {0xfdd0..0xfdef} \<or> x mod 0x10000 = 0xfffe \<or> x mod 0x10000 = 0xffff"

lemma is_valid_code_point_spec:
  "is_valid_code_point v \<longleftrightarrow> unat v \<le> 0x10ffff \<and> \<not> surrogate (unat v) \<and> \<not> noncharacter (unat v)"
proof -
  have "x mod 0x10000 < 0xfffe \<longleftrightarrow> x mod 0x10000 \<noteq> 0xfffe \<and> x mod 0x10000 \<noteq> 0xffff" for x :: nat
  proof -
    have "x mod 0x10000 < 0x10000" by simp
    then show ?thesis by linarith
  qed
  then show ?thesis by (auto simp: is_valid_code_point_unat surrogate_def noncharacter_def)
qed

interpretation utf8w: wire "\<lambda>u M c k. CBB_add_utf8 M c k u" "\<lambda>u. utf8 (unat u)" "\<lambda>u. length (utf8 (unat u))"
  CBS_get_utf8 is_valid_code_point
  by unfold_locales (use CBB_add_utf8_contract CBS_get_utf8_iff in auto)

interpretation utf8c: canonical_codec "\<lambda>u. utf8 (unat u)" CBS_get_utf8 is_valid_code_point
  by unfold_locales (simp_all only: CBS_get_utf8_iff simp_thms)

section \<open>The fixed-width encodings\<close>

lemma ucast_narrow: "unat (u :: 'a::len word) < 2 ^ LENGTH('b) \<Longrightarrow> unat (ucast u :: 'b::len word) = unat u"
  by (simp add: unat_ucast_mod)

lemma CBS_get_latin1_iff: "CBS_get_latin1 cbs = (Some u, r) \<longleftrightarrow> unat u \<le> 0xff \<and> cbs = be_bytes 1 (unat u) @ r"
proof (cases cbs)
  case (Cons c cs)
  have "ucast c = u \<longleftrightarrow> unat u = unat c" by (auto simp: word_unat_eq_iff unat_ucast_up)
  moreover have "c = of_nat (unat u) \<longleftrightarrow> unat u = unat c" if "unat u \<le> 0xff"
    using that unfolding word_unat_eq_iff unat_of_nat_u8 by auto
  moreover have "unat c \<le> 0xff" using unat_u8_less [of c] by linarith
  ultimately show ?thesis unfolding Cons by (auto simp: CBS_get_latin1_def)
qed (auto simp: CBS_get_latin1_def)

lemma CBS_get_ucs2_be_iff:
  "CBS_get_ucs2_be cbs = (Some u, r) \<longleftrightarrow> (unat u \<le> 0xffff \<and> is_valid_code_point u) \<and> cbs = be_bytes 2 (unat u) @ r"
proof -
  have "CBS_get_ucs2_be cbs = (Some u, r) \<longleftrightarrow> (\<exists>c. CBS_get_u16 cbs = (Some c, r) \<and> is_valid_code_point (ucast c) \<and> u = ucast c)"
    by (auto simp: CBS_get_ucs2_be_def split: prod.splits option.splits)
  also have "\<dots> \<longleftrightarrow> (\<exists>c :: u16. cbs = be_bytes 2 (unat c) @ r \<and> is_valid_code_point u \<and> u = ucast c)"
    by (auto simp: CBS_get_u16_iff simp del: be_bytes.simps)
  also have "\<dots> \<longleftrightarrow> (unat u \<le> 0xffff \<and> is_valid_code_point u) \<and> cbs = be_bytes 2 (unat u) @ r"
  proof (intro iffI conjI)
    assume "\<exists>c :: u16. cbs = be_bytes 2 (unat c) @ r \<and> is_valid_code_point u \<and> u = ucast c"
    then obtain c :: u16 where c: "cbs = be_bytes 2 (unat c) @ r" "is_valid_code_point u" "u = ucast c" by blast
    then have "unat u = unat c" by (simp only: c(3)) (rule unat_ucast_up, simp)
    with c unat_less [of c] show "unat u \<le> 0xffff" "is_valid_code_point u" "cbs = be_bytes 2 (unat u) @ r" by simp_all
  next
    assume a: "(unat u \<le> 0xffff \<and> is_valid_code_point u) \<and> cbs = be_bytes 2 (unat u) @ r"
    then have n: "unat (ucast u :: u16) = unat u" by (intro ucast_narrow) simp
    then have "u = ucast (ucast u :: u16)" by (simp add: word_unat_eq_iff unat_ucast_mod)
    with a n show "\<exists>c :: u16. cbs = be_bytes 2 (unat c) @ r \<and> is_valid_code_point u \<and> u = ucast c"
      by (intro exI [of _ "ucast u"]) simp
  qed
  finally show ?thesis .
qed

lemma CBS_get_utf32_be_iff:
  "CBS_get_utf32_be cbs = (Some u, r) \<longleftrightarrow> is_valid_code_point u \<and> cbs = be_bytes 4 (unat u) @ r"
  unfolding CBS_get_u32_iff [symmetric] by (auto simp: CBS_get_utf32_be_def split: prod.splits option.splits)

interpretation latin1w: wire "\<lambda>u M c k. CBB_add_latin1 M c k u" "\<lambda>u. be_bytes 1 (unat u)" "\<lambda>u. length (be_bytes 1 (unat u))"
  CBS_get_latin1 "\<lambda>u. unat u \<le> 0xff"
proof
  fix c M k and u :: u32
  assume a: "cbb_wf c" "malloc_ok M" and u: "unat u \<le> 0xff"
  have n: "unat (ucast u :: u8) = unat u" by (rule ucast_narrow) (use u in simp)
  show "refines M c k (length (be_bytes 1 (unat u))) (spec_append k (be_bytes 1 (unat u)) (CBB_abs c)) (CBB_add_latin1 M c k u)"
    using add_u8.append_contract [OF a TrueI, where x = "ucast u" and k = k] u unfolding n CBB_add_latin1_def
    by (simp add: word_le_nat_alt)
qed (use CBS_get_latin1_iff in blast)

interpretation ucs2w: wire "\<lambda>u M c k. CBB_add_ucs2_be M c k u" "\<lambda>u. be_bytes 2 (unat u)" "\<lambda>u. length (be_bytes 2 (unat u))"
  CBS_get_ucs2_be "\<lambda>u. unat u \<le> 0xffff \<and> is_valid_code_point u"
proof
  fix c M k and u :: u32
  assume a: "cbb_wf c" "malloc_ok M" and u: "unat u \<le> 0xffff \<and> is_valid_code_point u"
  have n: "unat (ucast u :: u16) = unat u" by (rule ucast_narrow) (use u in simp)
  show "refines M c k (length (be_bytes 2 (unat u))) (spec_append k (be_bytes 2 (unat u)) (CBB_abs c)) (CBB_add_ucs2_be M c k u)"
    using add_u16.append_contract [OF a TrueI, where x = "ucast u" and k = k] u unfolding n CBB_add_ucs2_be_def
    by (simp add: word_le_nat_alt)
qed (use CBS_get_ucs2_be_iff in blast)

interpretation utf32w: wire "\<lambda>u M c k. CBB_add_utf32_be M c k u" "\<lambda>u. be_bytes 4 (unat u)" "\<lambda>u. length (be_bytes 4 (unat u))"
  CBS_get_utf32_be is_valid_code_point
  by unfold_locales (use add_u32.append_contract CBS_get_utf32_be_iff in \<open>auto simp: CBB_add_utf32_be_def simp del: be_bytes.simps length_be_bytes\<close>)

section \<open>Properties\<close>

text \<open>
  C10: \<^verbatim>\<open>CBS_get_utf8\<close> returns \<open>u\<close> and leaves \<open>r\<close> exactly when \<open>u\<close> is at most 0x10ffff, no surrogate and no
  noncharacter, and the input is the shortest UTF-8 encoding of \<open>u\<close> followed by \<open>r\<close>. So overlong forms,
  surrogates, noncharacters and values above 0x10ffff are rejected and nothing else is. And \<^verbatim>\<open>CBB_get_utf8_len\<close> is the length of the encoding.
\<close>

theorem CBS_get_utf8_canonical:
  "(CBS_get_utf8 cbs = (Some u, r) \<longleftrightarrow>
      (unat u \<le> 0x10ffff \<and> \<not> surrogate (unat u) \<and> \<not> noncharacter (unat u)) \<and> cbs = utf8 (unat u) @ r) \<and>
   CBB_get_utf8_len u = length (utf8 (unat u))"
proof -
  have "length (utf8_tail n x) = n" for n x by (induction n) auto
  then have "CBB_get_utf8_len u = length (utf8 (unat u))"
    by (simp add: CBB_get_utf8_len_def utf8_def word_le_nat_alt)
  then show ?thesis using CBS_get_utf8_iff [of cbs u r] by (simp only: is_valid_code_point_spec)
qed

text \<open>
  With an allocator that does not fail, a string of valid code points written by \<^verbatim>\<open>CBB_add_utf8\<close> into a
  fresh builder is written without error and read back by \<^verbatim>\<open>CBS_get_utf8\<close>, with nothing left.
\<close>

lemma utf8_round_trip:
  assumes "malloc_ok M" and "granted M" and "cap < 2 ^ 64" and "CBB_init M cap = (True, c)"
    and "list_all is_valid_code_point us" and "length us \<le> 2 ^ 60"
  shows "\<exists>c1 buf len c2. run_ops (\<lambda>u M c k. CBB_add_utf8 M c k u) us M c 0 = (True, c1) \<and>
    CBB_finish M True c1 0 = (Some (buf, len), c2) \<and>
    parse_n CBS_get_utf8 (length us) (take len buf) = (Some us, [])"
proof -
  have "length (utf8 x) \<le> 4" for x
    by (simp add: utf8_def numeral_2_eq_2 numeral_3_eq_3)
  then have "sum_list (map (\<lambda>u. length (utf8 (unat u))) us) \<le> 4 * length us" by (rule sum_list_le)
  then have "sum_list (map (\<lambda>u. length (utf8 (unat u))) us) \<le> 2 ^ 62" using assms(6) by simp
  from utf8w.build_round_trip [OF assms(1-5) this] show ?thesis by blast
qed

text \<open>
  The readers of the fixed-width encodings return \<open>u\<close> exactly on its big-endian encoding: every byte is
  Latin-1, UCS-2 carries the valid code points below 0x10000, UTF-32 all valid ones.
\<close>

lemma fixed_width_strings_canonical:
  "(CBS_get_latin1 cbs = (Some u, r) \<longleftrightarrow> unat u \<le> 0xff \<and> cbs = be_bytes 1 (unat u) @ r) \<and>
   (CBS_get_ucs2_be cbs = (Some u, r) \<longleftrightarrow> (unat u \<le> 0xffff \<and> is_valid_code_point u) \<and> cbs = be_bytes 2 (unat u) @ r) \<and>
   (CBS_get_utf32_be cbs = (Some u, r) \<longleftrightarrow> is_valid_code_point u \<and> cbs = be_bytes 4 (unat u) @ r)"
  by (intro conjI CBS_get_latin1_iff CBS_get_ucs2_be_iff CBS_get_utf32_be_iff)

end
