(* ===== verification/Oid_Text.thy ===== *)
theory Oid_Text
  imports Asn1_Int
begin

text \<open>
  \<^verbatim>\<open>CBS_asn1_oid_to_text\<close> of \<^verbatim>\<open>bytestring/cbs.c\<close>, the text form of an object identifier, and its relation to
  \<^verbatim>\<open>CBB_add_asn1_oid_from_text\<close> of \<^verbatim>\<open>cbb.c\<close>: the two are inverse to each other.
\<close>

text \<open>The digits that \<^verbatim>\<open>snprintf\<close> writes for an unsigned number; the local buffer is longer than any of them.\<close>

fun decimal :: "nat \<Rightarrow> bytes" where
  "decimal n = (if n < 10 then [of_nat (48 + n)] else decimal (n div 10) @ [of_nat (48 + n mod 10)])"

declare decimal.simps [simp del]

definition add_decimal :: "allocator \<Rightarrow> CBB \<Rightarrow> nat \<Rightarrow> u64 \<Rightarrow> bool \<times> CBB" where
  "add_decimal M out k v = CBB_add_bytes M out k (decimal (unat v))"

lemma parse_base128_shorter:
  assumes "parse_base128_integer cbs = (Some v, r)"
  shows "length r < length cbs"
proof -
  have "cbs = b128 (unat v) @ r" using assms by (simp add: parse_base128_integer_iff)
  then show ?thesis by (simp add: b128_def)
qed

text \<open>The loop over the components after the first.\<close>

function oid_to_text_loop :: "allocator \<Rightarrow> CBB \<Rightarrow> CBS \<Rightarrow> bool \<times> CBB" where
  "oid_to_text_loop M cbb copy =
     (if length copy \<noteq> 0 then
        (case parse_base128_integer copy of
           (None, _) \<Rightarrow> (False, cbb)
         | (Some v, copy) \<Rightarrow>
             (case CBB_add_u8 M cbb 0 0x2e of
                (False, cbb) \<Rightarrow> (False, cbb)
              | (True, cbb) \<Rightarrow>
                  (case add_decimal M cbb 0 v of
                     (False, cbb) \<Rightarrow> (False, cbb)
                   | (True, cbb) \<Rightarrow> oid_to_text_loop M cbb copy)))
      else (True, cbb))"
  by pat_completeness auto
termination
  by (relation "measure (\<lambda>(M, cbb, copy). length copy)") (auto dest: parse_base128_shorter [OF sym])

declare oid_to_text_loop.simps [simp del]

text \<open>The first number stands for two components.\<close>

definition oid_first :: "allocator \<Rightarrow> CBB \<Rightarrow> u64 \<Rightarrow> bool \<times> CBB" where
  "oid_first M cbb v =
     (if v \<ge> 80 then
        (case CBB_add_bytes M cbb 0 [0x32, 0x2e] of
           (False, cbb) \<Rightarrow> (False, cbb)
         | (True, cbb) \<Rightarrow> add_decimal M cbb 0 (v - 80))
      else
        (case add_decimal M cbb 0 (v div 40) of
           (False, cbb) \<Rightarrow> (False, cbb)
         | (True, cbb) \<Rightarrow>
             (case CBB_add_u8 M cbb 0 0x2e of
                (False, cbb) \<Rightarrow> (False, cbb)
              | (True, cbb) \<Rightarrow> add_decimal M cbb 0 (v mod 40))))"

text \<open>The result is the string with its terminator; \<open>None\<close> is \<^verbatim>\<open>NULL\<close>.\<close>

definition CBS_asn1_oid_to_text :: "allocator \<Rightarrow> CBS \<Rightarrow> bytes option" where
  "CBS_asn1_oid_to_text M cbs =
     (case CBB_init M 32 of
        (False, _) \<Rightarrow> None
      | (True, cbb) \<Rightarrow>
          (case parse_base128_integer cbs of
             (None, _) \<Rightarrow> None
           | (Some v, copy) \<Rightarrow>
               (case oid_first M cbb v of
                  (False, _) \<Rightarrow> None
                | (True, cbb) \<Rightarrow>
                    (case oid_to_text_loop M cbb copy of
                       (False, _) \<Rightarrow> None
                     | (True, cbb) \<Rightarrow>
                         (case CBB_add_u8 M cbb 0 0 of
                            (False, _) \<Rightarrow> None
                          | (True, cbb) \<Rightarrow>
                              (case CBB_finish M True cbb 0 of
                                 (None, _) \<Rightarrow> None
                               | (Some (txt, txt_len), _) \<Rightarrow> Some (take txt_len txt)))))))"

section \<open>Decimal numbers\<close>

lemma decimal_digit:
  assumes "k < 10"
  shows "OPENSSL_isdigit (uint (of_nat (48 + k) :: u8))" "(ucast (of_nat (48 + k) :: u8) - 48 :: u64) = of_nat k"
proof -
  have u: "unat (of_nat (48 + k) :: u8) = 48 + k" unfolding unat_of_nat_u8 using assms by simp
  have "(ucast (of_nat (48 + k) :: u8) :: u64) = of_nat (48 + k)"
    unfolding word_unat_eq_iff unat_ucast_mod u unat_of_nat using assms by simp
  then show "(ucast (of_nat (48 + k) :: u8) - 48 :: u64) = of_nat k" by simp
  have "uint (of_nat (48 + k) :: u8) = int (48 + k)" unfolding uint_nat u ..
  then show "OPENSSL_isdigit (uint (of_nat (48 + k) :: u8))" using assms by (simp add: OPENSSL_isdigit_def)
qed

lemma u64_decimal_step:
  assumes "10 * m + k < 2 ^ 64" and "k < 10" and "s \<longrightarrow> m \<noteq> 0"
  shows "u64_decimal_loop (of_nat m) s (of_nat (48 + k) # cs) = u64_decimal_loop (of_nat (10 * m + k)) True cs"
proof -
  have m: "unat (of_nat m :: u64) = m" "unat (of_nat k :: u64) = k" using assms by (simp_all add: unat_of_nat)
  have m10: "unat (of_nat m * 10 :: u64) = m * 10" using assms(1) m(1) by (simp add: unat_word_ariths)
  have "\<not> ((of_nat m = (0 :: u64) \<and> s) \<or> (of_nat m :: u64) > 0xffffffffffffffff div 10)"
    using assms m(1) unat_eq_0 [of "of_nat m :: u64"] by (auto simp: word_less_nat_alt)
  moreover have "\<not> (of_nat m * 10 :: u64) > 0xffffffffffffffff - of_nat k"
  proof -
    have "unat (0xffffffffffffffff - of_nat k :: u64) = 0xffffffffffffffff - k"
      using m(2) assms(2) by (subst unat_sub) (simp_all add: word_le_nat_alt)
    then show ?thesis using m10 assms(1) by (simp add: word_less_nat_alt not_less)
  qed
  moreover have "(of_nat m * 10 + of_nat k :: u64) = of_nat (10 * m + k)" by simp
  ultimately show ?thesis using decimal_digit [OF assms(2)] by (auto simp del: of_nat_add of_nat_mult)
qed

lemma u64_decimal_loop_decimal:
  "n < 2 ^ 64 \<Longrightarrow> u64_decimal_loop 0 False (decimal n @ cs) = u64_decimal_loop (of_nat n) True cs"
proof (induction n arbitrary: cs rule: decimal.induct)
  case (1 n)
  show ?case
  proof (cases "n < 10")
    case True
    then show ?thesis using u64_decimal_step [of 0 n False cs] 1(2) by (subst decimal.simps) (simp del: of_nat_add)
  next
    case False
    have "u64_decimal_loop 0 False (decimal n @ cs) = u64_decimal_loop (of_nat (n div 10)) True (of_nat (48 + n mod 10) # cs)"
      using 1 False by (subst decimal.simps) (simp del: of_nat_add)
    also have "\<dots> = u64_decimal_loop (of_nat (10 * (n div 10) + n mod 10)) True cs"
      by (rule u64_decimal_step) (use 1(2) False in \<open>auto simp del: mult_div_mod_eq simp: mult_div_mod_eq\<close>)
    finally show ?thesis by simp
  qed
qed

lemma decimal_ne [simp]: "decimal n \<noteq> []"
  by (subst decimal.simps) simp

lemma get_decimal:
  assumes "n < 2 ^ 64" and "r = [] \<or> \<not> OPENSSL_isdigit (uint (hd r))"
  shows "CBS_get_u64_decimal (decimal n @ r) = (Some (of_nat n), r)"
  using assms u64_decimal_loop_decimal [of n r] by (cases r) (auto simp: CBS_get_u64_decimal_def)

lemma length_decimal: "length (decimal n) \<le> 20" if "n < 2 ^ 64"
proof -
  have "length (decimal n) \<le> Suc k" if "n < 10 ^ Suc k" for n k
    using that
  proof (induction k arbitrary: n)
    case 0
    then show ?case by (subst decimal.simps) simp
  next
    case (Suc k)
    have "n div 10 < 10 ^ Suc k" using Suc.prems by (simp add: div_less_iff_less_mult mult.commute)
    from Suc.IH [OF this] show ?case by (subst decimal.simps) simp
  qed
  from this [of n 19] that show ?thesis by simp
qed

lemma parse_dotted_decimal_text:
  assumes "n < 2 ^ 64"
  shows "parse_dotted_decimal (decimal n) = (Some (of_nat n), [])"
    "r \<noteq> [] \<Longrightarrow> parse_dotted_decimal (decimal n @ 0x2e # r) = (Some (of_nat n), r)"
  using get_decimal [OF assms, of "[]"] get_decimal [OF assms, of "0x2e # r"]
  by (auto simp: parse_dotted_decimal_def OPENSSL_isdigit_def)

section \<open>The text of an object identifier\<close>

definition oid_arcs :: "u64 \<Rightarrow> nat \<times> nat" where
  "oid_arcs v = (if unat v \<ge> 80 then (2, unat v - 80) else (unat v div 40, unat v mod 40))"

definition dots :: "u64 list \<Rightarrow> bytes" where
  "dots vs = concat (map (\<lambda>v. 0x2e # decimal (unat v)) vs)"

definition oid_text :: "u64 \<Rightarrow> u64 list \<Rightarrow> bytes" where
  "oid_text v vs = decimal (fst (oid_arcs v)) @ 0x2e # decimal (snd (oid_arcs v)) @ dots vs"

definition oid_contents :: "u64 list \<Rightarrow> bytes" where
  "oid_contents vs = concat (map (\<lambda>v. b128 (unat v)) vs)"

lemma dots_simps [simp]: "dots [] = []" "dots (v # vs) = 0x2e # decimal (unat v) @ dots vs"
  by (simp_all add: dots_def)

lemma oid_contents_simps [simp]: "oid_contents [] = []" "oid_contents (v # vs) = b128 (unat v) @ oid_contents vs"
  by (simp_all add: oid_contents_def)

lemma b128_ne [simp]: "b128 n \<noteq> []"
  by (simp add: b128_def)

lemma parse_dotted_decimal_dots:
  assumes "n < 2 ^ 64"
  shows "parse_dotted_decimal (decimal n @ dots vs) = (Some (of_nat n), tl (dots vs))"
  using parse_dotted_decimal_text [OF assms] by (cases vs) simp_all

lemma oid_text_loop_contract:
  assumes M: "malloc_ok M"
  shows "cbb_wf c \<Longrightarrow> \<not> cb_error (cbb_base c) \<Longrightarrow> length (cbb_chain c) = k \<Longrightarrow>
    refines M c k (length (oid_contents vs)) (spec_append k (oid_contents vs) (CBB_abs c)) (oid_text_loop M c k (tl (dots vs)))"
proof (induction vs arbitrary: c)
  case Nil
  then show ?case using append_nothing [of c k M] by (simp add: oid_text_loop.simps)
next
  case (Cons v vs)
  have e: "oid_text_loop M c k (tl (dots (v # vs))) =
      (case add_base128_integer M c k v of (False, c) \<Rightarrow> (False, c) | (True, c) \<Rightarrow> oid_text_loop M c k (tl (dots vs)))"
    using parse_dotted_decimal_dots [of "unat v" vs] unat_less [of v] by (subst oid_text_loop.simps) simp
  show ?case unfolding e oid_contents_simps
    by (rule append_seq [OF add_base128.append_contract [OF Cons.prems(1) M TrueI, where k = k and x = v]]) (rule Cons.IH)
qed

lemma oid_arcs_value:
  "oid_arcs v = (a, b) \<Longrightarrow> a \<le> 2 \<and> (a < 2 \<longrightarrow> b \<le> 39) \<and> b \<le> 2 ^ 64 - 1 - 80 \<and> 40 * a + b = unat v"
  using unat_less [of v] by (auto simp: oid_arcs_def split: if_splits)

lemma spec_flush_append:
  assumes "builder_wf B"
  shows "Option.bind (spec_flush k B) (spec_append k d) = spec_append k d B"
  using spec_flush_idem [OF assms, of k] by (cases "spec_flush k B") (simp_all add: spec_append_def)

lemma oid_from_text_contract:
  assumes wf: "cbb_wf c" and M: "malloc_ok M"
  shows "refines M c k (length (oid_contents (v # vs))) (spec_append k (oid_contents (v # vs)) (CBB_abs c))
    (CBB_add_asn1_oid_from_text M c k (oid_text v vs))"
proof -
  obtain a b where ab: "oid_arcs v = (a, b)" by (cases "oid_arcs v")
  note w = oid_arcs_value [OF ab]
  then have lt: "a < 2 ^ 64" "b < 2 ^ 64" by simp_all
  have p: "parse_dotted_decimal (oid_text v vs) = (Some (of_nat a), decimal b @ dots vs)"
    using parse_dotted_decimal_text(2) [OF lt(1), of "decimal b @ dots vs"] by (simp add: oid_text_def ab)
  note p' = parse_dotted_decimal_dots [OF lt(2), of vs]
  have u: "unat (of_nat a :: u64) = a" "unat (of_nat b :: u64) = b" using lt by (simp_all add: unat_of_nat)
  have g: "\<not> ((of_nat a :: u64) > 2 \<or> ((of_nat a :: u64) < 2 \<and> (of_nat b :: u64) > 39) \<or> (of_nat b :: u64) > 0xffffffffffffffff - 80)"
    using w u by (auto simp: word_less_nat_alt)
  have "of_nat (40 * a + b) = v" using w by simp
  then have v: "40 * of_nat a + of_nat b = v" by simp
  have "refines M c k (0 + length (oid_contents (v # vs))) (Option.bind (spec_flush k (CBB_abs c)) (spec_append k (oid_contents (v # vs))))
    (case CBB_flush M c k of (False, c) \<Rightarrow> (False, c) | (True, c) \<Rightarrow>
       (case add_base128_integer M c k v of (False, c) \<Rightarrow> (False, c) | (True, c) \<Rightarrow> oid_text_loop M c k (tl (dots vs))))"
  proof (rule refines_seq [OF CBB_flush_contract [OF wf M]])
    fix c1
    assume g1: "grown c c1"
    then have "cbb_wf c1" by (simp add: grown_def)
    then show "refines M c1 k (length (oid_contents (v # vs))) (spec_append k (oid_contents (v # vs)) (CBB_abs c1))
       (case add_base128_integer M c1 k v of (False, c) \<Rightarrow> (False, c) | (True, c) \<Rightarrow> oid_text_loop M c k (tl (dots vs)))"
      unfolding oid_contents_simps
      by (rule append_seq [OF add_base128.append_contract [OF _ M TrueI, where k = k and x = v] oid_text_loop_contract [OF M]])
  qed
  moreover have "CBB_add_asn1_oid_from_text M c k (oid_text v vs) =
    (case CBB_flush M c k of (False, c) \<Rightarrow> (False, c) | (True, c) \<Rightarrow>
       (case add_base128_integer M c k v of (False, c) \<Rightarrow> (False, c) | (True, c) \<Rightarrow> oid_text_loop M c k (tl (dots vs))))"
    unfolding CBB_add_asn1_oid_from_text_def p p' prod.case option.case if_not_P [OF g] v ..
  ultimately show ?thesis by (simp only: spec_flush_append [OF builder_wf_abs] add_0)
qed

section \<open>Writing the text\<close>

lemma add_decimal_contract:
  assumes "cbb_wf c" and "malloc_ok M"
  shows "refines M c k (length (decimal (unat v))) (spec_append k (decimal (unat v)) (CBB_abs c)) (add_decimal M c k v)"
proof -
  have "length (decimal (unat v)) < 2 ^ 64" using length_decimal [of "unat v"] unat_less [of v] by simp
  from add_bytes.append_contract [OF assms this, where k = k] show ?thesis by (simp add: add_decimal_def)
qed

lemma append_decimal_seq:
  assumes "cbb_wf c" and "malloc_ok M"
    and "\<And>c1. cbb_wf c1 \<Longrightarrow> \<not> cb_error (cbb_base c1) \<Longrightarrow> length (cbb_chain c1) = k \<Longrightarrow>
      refines M c1 k (length bs) (spec_append k bs (CBB_abs c1)) (op c1)"
  shows "refines M c k (length (decimal (unat v) @ bs)) (spec_append k (decimal (unat v) @ bs) (CBB_abs c))
    (case add_decimal M c k v of (False, c) \<Rightarrow> (False, c) | (True, c) \<Rightarrow> op c)"
  by (rule append_seq [OF add_decimal_contract [OF assms(1,2)] assms(3)])

definition arcs_text :: "u64 \<Rightarrow> bytes" where
  "arcs_text v = decimal (fst (oid_arcs v)) @ 0x2e # decimal (snd (oid_arcs v))"

lemma oid_first_contract:
  assumes "cbb_wf c" and "malloc_ok M"
  shows "refines M c 0 (length (arcs_text v)) (spec_append 0 (arcs_text v) (CBB_abs c)) (oid_first M c v)"
proof (cases "80 \<le> v")
  case True
  then have u: "80 \<le> unat v" "unat (v - 80) = unat v - 80" by (simp_all add: word_le_nat_alt unat_sub)
  have "decimal 2 = [0x32]" by (simp add: decimal.simps)
  then have t: "arcs_text v = [0x32, 0x2e] @ decimal (unat (v - 80))" using u by (simp add: arcs_text_def oid_arcs_def)
  have "refines M c 0 (length ([0x32, 0x2e] @ decimal (unat (v - 80)))) (spec_append 0 ([0x32, 0x2e] @ decimal (unat (v - 80))) (CBB_abs c))
      (case CBB_add_bytes M c 0 [0x32, 0x2e] of (False, c) \<Rightarrow> (False, c) | (True, c) \<Rightarrow> add_decimal M c 0 (v - 80))"
    by (rule append_seq) (use add_bytes.append_contract [OF assms, where x = "[0x32, 0x2e]" and k = 0] add_decimal_contract [OF _ assms(2)] in simp_all)
  then show ?thesis unfolding t using True by (simp add: oid_first_def)
next
  case False
  then have "unat v < 80" by (simp add: word_le_nat_alt)
  then have t: "arcs_text v = decimal (unat (v div 40)) @ 0x2e # decimal (unat (v mod 40))"
    by (simp add: arcs_text_def oid_arcs_def unat_div unat_mod)
  show ?thesis unfolding t oid_first_def if_not_P [OF False]
    by (intro append_decimal_seq [OF assms] append_u8 [OF _ assms(2)] add_decimal_contract [OF _ assms(2)])
qed

lemma oid_to_text_loop_contract:
  assumes M: "malloc_ok M"
  shows "cbb_wf c \<Longrightarrow> \<not> cb_error (cbb_base c) \<Longrightarrow> length (cbb_chain c) = 0 \<Longrightarrow>
    refines M c 0 (length (dots vs)) (spec_append 0 (dots vs) (CBB_abs c)) (oid_to_text_loop M c (oid_contents vs))"
proof (induction vs arbitrary: c)
  case Nil
  then show ?case using append_nothing [of c 0 M] by (simp add: oid_to_text_loop.simps)
next
  case (Cons v vs)
  have p: "parse_base128_integer (oid_contents (v # vs)) = (Some v, oid_contents vs)"
    by (simp add: parse_base128_integer_iff)
  have "length (oid_contents (v # vs)) \<noteq> 0" by simp
  then have e: "oid_to_text_loop M c (oid_contents (v # vs)) =
      (case CBB_add_u8 M c 0 0x2e of (False, c) \<Rightarrow> (False, c) | (True, c) \<Rightarrow>
        (case add_decimal M c 0 v of (False, c) \<Rightarrow> (False, c) | (True, c) \<Rightarrow> oid_to_text_loop M c (oid_contents vs)))"
    by (subst oid_to_text_loop.simps) (simp only: if_True p prod.case option.case not_False_eq_True)
  show ?case unfolding e dots_simps
    by (rule append_u8 [OF Cons.prems(1) M]) (rule append_decimal_seq [OF _ M Cons.IH])
qed

lemma oid_to_text_loop_parsed: "oid_to_text_loop M c copy = (True, c') \<Longrightarrow> \<exists>vs. copy = oid_contents vs"
proof (induction M c copy rule: oid_to_text_loop.induct)
  case (1 M c copy)
  show ?case
  proof (cases copy)
    case Nil
    then have "copy = oid_contents []" by simp
    then show ?thesis by blast
  next
    case (Cons x xs)
    then obtain v r c1 c2 where p: "parse_base128_integer copy = (Some v, r)" and a: "CBB_add_u8 M c 0 0x2e = (True, c1)"
      and d: "add_decimal M c1 0 v = (True, c2)" and l: "oid_to_text_loop M c2 r = (True, c')"
      using 1(2) by (subst (asm) oid_to_text_loop.simps) (auto split: prod.splits option.splits bool.splits)
    from 1(1) [OF _ p [symmetric] refl a [symmetric] refl d [symmetric] refl l] Cons obtain vs where "r = oid_contents vs" by auto
    with p have "copy = oid_contents (v # vs)" by (simp add: parse_base128_integer_iff)
    then show ?thesis by blast
  qed
qed

text \<open>The calls between making the builder and finishing it.\<close>

definition write_oid_text :: "allocator \<Rightarrow> CBB \<Rightarrow> u64 \<Rightarrow> CBS \<Rightarrow> bool \<times> CBB" where
  "write_oid_text M c v copy =
     (case oid_first M c v of (False, c) \<Rightarrow> (False, c) | (True, c) \<Rightarrow>
       (case oid_to_text_loop M c copy of (False, c) \<Rightarrow> (False, c) | (True, c) \<Rightarrow> CBB_add_u8 M c 0 0))"

lemma write_oid_text_contract:
  assumes wf: "cbb_wf c" and M: "malloc_ok M"
  shows "refines M c 0 (length (oid_text v vs @ [0])) (spec_append 0 (oid_text v vs @ [0]) (CBB_abs c))
    (write_oid_text M c v (oid_contents vs))"
proof -
  have "refines M c1 0 (length [0 :: u8]) (spec_append 0 [0] (CBB_abs c1)) (CBB_add_u8 M c1 0 0)" if "cbb_wf c1" for c1
    using add_u8.append_contract [OF that M TrueI, where x = 0 and k = 0] by simp
  then have "refines M c 0 (length (arcs_text v @ dots vs @ [0])) (spec_append 0 (arcs_text v @ dots vs @ [0]) (CBB_abs c))
      (write_oid_text M c v (oid_contents vs))"
    unfolding write_oid_text_def
    by (intro append_seq [OF oid_first_contract [OF wf M]] append_seq [OF oid_to_text_loop_contract [OF M]])
  then show ?thesis by (simp add: oid_text_def arcs_text_def)
qed

lemma oid_to_text_write:
  "CBS_asn1_oid_to_text M cbs =
     (case CBB_init M 32 of (False, _) \<Rightarrow> None | (True, c) \<Rightarrow>
       (case parse_base128_integer cbs of (None, _) \<Rightarrow> None | (Some v, copy) \<Rightarrow>
         (case write_oid_text M c v copy of (False, _) \<Rightarrow> None | (True, c) \<Rightarrow>
           (case CBB_finish M True c 0 of (None, _) \<Rightarrow> None | (Some (txt, txt_len), _) \<Rightarrow> Some (take txt_len txt)))))"
  unfolding CBS_asn1_oid_to_text_def write_oid_text_def
  by (auto split: prod.splits option.splits bool.splits)

lemma oid_to_text_sound:
  assumes M: "malloc_ok M" and res: "CBS_asn1_oid_to_text M cbs = Some str"
  shows "\<exists>v vs. cbs = oid_contents (v # vs) \<and> str = oid_text v vs @ [0]"
proof -
  from res obtain c v copy c1 buf len c2 where i: "CBB_init M 32 = (True, c)" and p: "parse_base128_integer cbs = (Some v, copy)"
    and w: "write_oid_text M c v copy = (True, c1)" and f: "CBB_finish M True c1 0 = (Some (buf, len), c2)" and str: "str = take len buf"
    unfolding oid_to_text_write by (auto split: prod.splits option.splits bool.splits)
  obtain c' c'' where "oid_to_text_loop M c' copy = (True, c'')"
    using w by (auto simp: write_oid_text_def split: prod.splits bool.splits)
  then obtain vs where vs: "copy = oid_contents vs" using oid_to_text_loop_parsed by blast
  have c: "cbb_wf c" "CBB_abs c = ([[]], [])" using CBB_init_abs [OF M _ i] by simp_all
  from refines_True [OF write_oid_text_contract [OF c(1) M, of v vs, folded vs, unfolded w]]
  have "cbb_wf c1" "CBB_abs c1 = ([oid_text v vs @ [0]], [])" by (auto simp: c(2) grown_def)
  with CBB_finish_abs [OF _ M f] have "str = oid_text v vs @ [0]" by (simp add: str spec_flush.simps)
  with p vs show ?thesis by (auto simp: parse_base128_integer_iff)
qed

lemma length_dots: "length (dots vs) \<le> 21 * length vs"
proof (induction vs)
  case (Cons v vs)
  have "length (decimal (unat v)) \<le> 20" by (rule length_decimal) (use unat_less [of v] in simp)
  with Cons show ?case by simp
qed simp

lemma length_oid_text: "length (oid_text v vs) \<le> 41 + 21 * length vs"
proof -
  obtain a b where ab: "oid_arcs v = (a, b)" by (cases "oid_arcs v")
  have "a < 2 ^ 64" "b < 2 ^ 64" using oid_arcs_value [OF ab] by simp_all
  then show ?thesis using length_decimal [of a] length_decimal [of b] length_dots [of vs] ab by (simp add: oid_text_def)
qed

lemma length_oid_contents: "length vs \<le> length (oid_contents vs)"
  by (induction vs) (auto simp: b128_def)

text \<open>An append to a fresh builder, finished.\<close>

lemma finished_append:
  assumes "CBB_abs c = ([[]], [])" and M: "malloc_ok M" and con: "refines M c 0 n (spec_append 0 d (CBB_abs c)) (True, c1)"
    and f: "CBB_finish M True c1 0 = (Some (buf, len), c2)"
  shows "take len buf = d"
proof -
  from refines_True [OF con] have c1: "grown c c1" "CBB_abs c1 = ([d], [])" by (auto simp: assms(1))
  then have "cbb_wf c1" by (simp add: grown_def)
  from CBB_finish_abs [OF this M f] show ?thesis by (simp add: c1(2) spec_flush.simps)
qed

lemma finish_append:
  assumes "cbb_wf c" and "\<not> cb_error (cbb_base c)" and "CBB_abs c = ([[]], [])" and M: "malloc_ok M"
    and con: "refines M c 0 (length d) (spec_append 0 d (CBB_abs c)) r" and room: "room M (cbb_base c) (budget c 0 + length d)"
  shows "\<exists>c1 buf len c2. r = (True, c1) \<and> CBB_finish M True c1 0 = (Some (buf, len), c2) \<and> take len buf = d"
proof -
  have "cbb_live c 0" by (simp add: cbb_live_def)
  from refines_room [OF con this assms(2) _ room] obtain c1 where w: "r = (True, c1)" "budget c1 0 \<le> budget c 0 + length d"
    by (auto simp: assms(3))
  from refines_True [OF con [unfolded w(1)]] have c1: "grown c c1" "CBB_abs c1 = ([d], [])" by (auto simp: assms(3))
  have wf: "cbb_wf c1" using c1(1) by (simp add: grown_def)
  have "room M (cbb_base c1) (budget c1 0)" by (rule room_mono [OF room]) (use w(2) c1(1) in \<open>simp_all add: grown_def\<close>)
  moreover have "spec_flush 0 (CBB_abs c1) \<noteq> None" by (simp add: c1(2) spec_flush.simps)
  ultimately obtain buf len c2 where f: "CBB_finish M True c1 0 = (Some (buf, len), c2)"
    using CBB_finish_room [OF wf M] c1(1) by (auto simp: grown_def)
  from CBB_finish_abs [OF wf M f] have "take len buf = d" by (simp add: c1(2) spec_flush.simps)
  with w(1) f show ?thesis by blast
qed

lemma oid_to_text_total:
  assumes M: "malloc_ok M" "granted M" and small: "length vs \<le> 2 ^ 56"
  shows "CBS_asn1_oid_to_text M (oid_contents (v # vs)) = Some (oid_text v vs @ [0])"
proof -
  have "M 40 \<noteq> None" using M(2) by (simp add: granted_def)
  then obtain c where i: "CBB_init M 32 = (True, c)"
    by (auto simp: CBB_init_def OPENSSL_malloc_def size_add_def OPENSSL_MALLOC_PREFIX_def SIZE_MAX_def)
  from CBB_init_abs [OF M(1) _ i] have c: "cbb_wf c" "\<not> cb_error (cbb_base c)" "CBB_abs c = ([[]], [])"
    "cb_can_resize (cbb_base c)" "cb_len (cbb_base c) = 0" "cbb_chain c = []" by auto
  let ?n = "length (oid_text v vs @ [0])"
  have "?n \<le> 42 + 21 * 2 ^ 56" using length_oid_text [of v vs] small by simp
  then have n: "?n \<le> 2 ^ 62" by simp
  have b: "budget c 0 = 0" using c by (simp add: budget_def)
  have room: "room M (cbb_base c) (budget c 0 + ?n)" using c(4) M(2) n by (simp add: room_def b)
  from finish_append [OF c(1-3) M(1) write_oid_text_contract [OF c(1) M(1)] room]
  obtain c1 buf len c2 where w: "write_oid_text M c v (oid_contents vs) = (True, c1)" "CBB_finish M True c1 0 = (Some (buf, len), c2)"
    "take len buf = oid_text v vs @ [0]" by blast
  have "parse_base128_integer (oid_contents (v # vs)) = (Some v, oid_contents vs)" by (simp add: parse_base128_integer_iff)
  then show ?thesis unfolding oid_to_text_write by (simp only: i w prod.case option.case bool.case)
qed

section \<open>Properties\<close>

text \<open>
  C9: \<^verbatim>\<open>CBS_asn1_oid_to_text\<close> returns a string only for a nonempty sequence of minimal base-128 numbers of at most
  64 bits, and then it is their dotted decimal form, where the first number stands for two components.
  Writing that string with \<^verbatim>\<open>CBB_add_asn1_oid_from_text\<close> into a fresh builder gives the original contents
  back whenever the write and \<^verbatim>\<open>CBB_finish\<close> report success, with any allocator; and they do report
  success when the allocator serves every request and the contents have at most 2^62 bytes.
\<close>

theorem oid_text_round_trip:
  assumes "malloc_ok M" and "CBS_asn1_oid_to_text M cbs = Some str" and "cap < 2 ^ 64" and "CBB_init M cap = (True, c)"
  shows "(\<exists>v vs. cbs = oid_contents (v # vs) \<and> str = oid_text v vs @ [0]) \<and>
    (\<forall>c1 buf len c2. CBB_add_asn1_oid_from_text M c 0 (butlast str) = (True, c1) \<and>
       CBB_finish M True c1 0 = (Some (buf, len), c2) \<longrightarrow> take len buf = cbs) \<and>
    (granted M \<and> length cbs \<le> 2 ^ 62 \<longrightarrow>
       (\<exists>c1 buf len c2. CBB_add_asn1_oid_from_text M c 0 (butlast str) = (True, c1) \<and>
          CBB_finish M True c1 0 = (Some (buf, len), c2)))"
proof -
  from oid_to_text_sound [OF assms(1,2)] obtain v vs where o: "cbs = oid_contents (v # vs)" "str = oid_text v vs @ [0]" by blast
  from CBB_init_abs [OF assms(1,3,4)] have i: "cbb_wf c" "\<not> cb_error (cbb_base c)" "CBB_abs c = ([[]], [])"
    "cb_can_resize (cbb_base c)" "cb_len (cbb_base c) = 0" "cbb_chain c = []" by auto
  have bl: "butlast str = oid_text v vs" by (simp add: o(2))
  note con = oid_from_text_contract [OF i(1) assms(1), where k = 0 and v = v and vs = vs, folded o(1)]
  have "take len buf = cbs"
    if w: "CBB_add_asn1_oid_from_text M c 0 (butlast str) = (True, c1)" and f: "CBB_finish M True c1 0 = (Some (buf, len), c2)"
    for c1 buf len c2
    by (rule finished_append [OF i(3) assms(1) con [folded bl, unfolded w] f])
  moreover have "\<exists>c1 buf len c2. CBB_add_asn1_oid_from_text M c 0 (butlast str) = (True, c1) \<and>
      CBB_finish M True c1 0 = (Some (buf, len), c2)" if "granted M \<and> length cbs \<le> 2 ^ 62"
  proof -
    have "budget c 0 = 0" using i by (simp add: budget_def)
    then have "room M (cbb_base c) (budget c 0 + length cbs)" using i(4) that by (simp add: room_def)
    from finish_append [OF i(1-3) assms(1) con this] show ?thesis unfolding bl by blast
  qed
  ultimately show ?thesis using o by blast
qed

theorem oid_text_round_trip_witness:
  "CBS_asn1_oid_to_text plentiful (oid_contents [42, 840]) = Some (oid_text 42 [840] @ [0]) \<and>
   (\<exists>c1 buf len c2. CBB_add_asn1_oid_from_text plentiful (cbb_init [] 0 True) 0 (oid_text 42 [840]) = (True, c1) \<and>
      CBB_finish plentiful True c1 0 = (Some (buf, len), c2) \<and> take len buf = oid_contents [42, 840])"
proof -
  have t: "CBS_asn1_oid_to_text plentiful (oid_contents [42, 840]) = Some (oid_text 42 [840] @ [0])"
    by (rule oid_to_text_total) simp_all
  have "length (oid_contents [42, 840]) = 3" by code_simp
  then have l: "length (oid_contents [42, 840]) \<le> 2 ^ 62" by simp
  have i: "CBB_init plentiful 0 = (True, cbb_init [] 0 True)" "(0 :: nat) < 2 ^ 64" using CBB_init_plentiful [of 0] by simp_all
  have b: "butlast (oid_text 42 [840] @ [0]) = oid_text 42 [840]" by simp
  note r = oid_text_round_trip [OF malloc_ok_plentiful t i(2,1), unfolded b]
  from r granted_plentiful l obtain c1 buf len c2 where
    w: "CBB_add_asn1_oid_from_text plentiful (cbb_init [] 0 True) 0 (oid_text 42 [840]) = (True, c1)"
      "CBB_finish plentiful True c1 0 = (Some (buf, len), c2)" by blast
  with r have "take len buf = oid_contents [42, 840]" by blast
  with t w show ?thesis by blast
qed

end
