(* ===== verification/Posix_Time.thy ===== *)
theory Posix_Time
  imports Prelude "HOL-Library.Signed_Division"
begin

text \<open>
  \<^verbatim>\<open>crypto/asn1/posix_time.c\<close>: conversion between POSIX seconds and the proleptic Gregorian calendar, for
  the years 0 to 9999. Quantities of type \<^verbatim>\<open>int64_t\<close> and \<^verbatim>\<open>int\<close> are integers: the range checks come
  first, and what is computed after them stays far inside 64 bits. The exception is
  \<^verbatim>\<open>OPENSSL_gmtime_adj\<close>, which adds offsets of the caller: there an \<^verbatim>\<open>int64_t\<close> result that does not fit is
  the value \<open>None\<close>, for the behaviour that C leaves undefined. Division in C truncates:
  \<open>sdiv\<close> and \<open>smod\<close>.
\<close>

record tm =
  tm_sec :: int
  tm_min :: int
  tm_hour :: int
  tm_mday :: int
  tm_mon :: int
  tm_year :: int
  tm_wday :: int
  tm_yday :: int
  tm_isdst :: int

definition SECS_PER_HOUR :: int where "SECS_PER_HOUR = 60 * 60"
definition SECS_PER_DAY :: int where "SECS_PER_DAY = 24 * SECS_PER_HOUR"
definition MIN_POSIX_TIME :: int where "MIN_POSIX_TIME = -62167219200"
definition MAX_POSIX_TIME :: int where "MAX_POSIX_TIME = 253402300799"
definition INT64_MAX :: int where "INT64_MAX = 0x7fffffffffffffff"
definition INT64_MIN :: int where "INT64_MIN = -0x8000000000000000"

definition is_valid_date :: "int \<Rightarrow> int \<Rightarrow> int \<Rightarrow> bool" where
  "is_valid_date year month day \<longleftrightarrow>
     (if day < 1 \<or> month < 1 \<or> year < 0 \<or> year > 9999 then False
      else if month \<in> {1, 3, 5, 7, 8, 10, 12} then day > 0 \<and> day \<le> 31
      else if month \<in> {4, 6, 9, 11} then day > 0 \<and> day \<le> 30
      else if month = 2 then
        (if (year smod 4 = 0 \<and> year smod 100 \<noteq> 0) \<or> year smod 400 = 0 then day > 0 \<and> day \<le> 29
         else day > 0 \<and> day \<le> 28)
      else False)"

definition is_valid_time :: "int \<Rightarrow> int \<Rightarrow> int \<Rightarrow> bool" where
  "is_valid_time hours minutes seconds \<longleftrightarrow>
     \<not> (hours < 0 \<or> minutes < 0 \<or> seconds < 0 \<or> hours > 23 \<or> minutes > 59 \<or> seconds > 59)"

definition is_valid_posix_time :: "int \<Rightarrow> bool" where
  "is_valid_posix_time time \<longleftrightarrow> MIN_POSIX_TIME \<le> time \<and> time \<le> MAX_POSIX_TIME"

definition posix_time_from_utc :: "int \<Rightarrow> int \<Rightarrow> int \<Rightarrow> int \<Rightarrow> int \<Rightarrow> int \<Rightarrow> int option" where
  "posix_time_from_utc year month day hours minutes seconds =
     (if \<not> is_valid_date year month day \<or> \<not> is_valid_time hours minutes seconds then None
      else
        let year = (if month \<le> 2 then year - 1 else year);
            era = (if year \<ge> 0 then year else year - 399) sdiv 400;
            year_of_era = year - era * 400;
            day_of_year = (153 * (if month > 2 then month - 3 else month + 9) + 2) sdiv 5 + day - 1;
            day_of_era = year_of_era * 365 + year_of_era sdiv 4 - year_of_era sdiv 100 + day_of_year;
            posix_days = era * 146097 + day_of_era - 719468
        in Some (posix_days * SECS_PER_DAY + hours * SECS_PER_HOUR + minutes * 60 + seconds))"

text \<open>The result is year, month, day, hours, minutes and seconds.\<close>

definition utc_from_posix_time :: "int \<Rightarrow> (int \<times> int \<times> int \<times> int \<times> int \<times> int) option" where
  "utc_from_posix_time time =
     (if \<not> is_valid_posix_time time then None
      else
        let days = time sdiv SECS_PER_DAY;
            leftover_seconds = time smod SECS_PER_DAY;
            (days, leftover_seconds) =
              (if leftover_seconds < 0 then (days - 1, leftover_seconds + SECS_PER_DAY) else (days, leftover_seconds));
            days = days + 719468;
            era = (if days > 0 then days else days - 146096) sdiv 146097;
            day_of_era = days - era * 146097;
            year_of_era = (day_of_era - day_of_era sdiv 1460 + day_of_era sdiv 36524 - day_of_era sdiv 146096) sdiv 365;
            out_year = year_of_era + era * 400;
            day_of_year = day_of_era - (365 * year_of_era + year_of_era sdiv 4 - year_of_era sdiv 100);
            month_of_year = (5 * day_of_year + 2) sdiv 153;
            out_month = (if month_of_year < 10 then month_of_year + 3 else month_of_year - 9);
            out_year = (if out_month \<le> 2 then out_year + 1 else out_year);
            out_day = day_of_year - (153 * month_of_year + 2) sdiv 5 + 1;
            out_hours = leftover_seconds sdiv SECS_PER_HOUR;
            leftover_seconds = leftover_seconds smod SECS_PER_HOUR;
            out_minutes = leftover_seconds sdiv 60;
            out_seconds = leftover_seconds smod 60
        in Some (out_year, out_month, out_day, out_hours, out_minutes, out_seconds))"

definition OPENSSL_tm_to_posix :: "tm \<Rightarrow> int option" where
  "OPENSSL_tm_to_posix t =
     posix_time_from_utc (tm_year t + 1900) (tm_mon t + 1) (tm_mday t) (tm_hour t) (tm_min t) (tm_sec t)"

definition OPENSSL_posix_to_tm :: "int \<Rightarrow> tm option" where
  "OPENSSL_posix_to_tm time =
     (case utc_from_posix_time time of
        None \<Rightarrow> None
      | Some (year, month, day, hours, minutes, seconds) \<Rightarrow>
          Some \<lparr>tm_sec = seconds, tm_min = minutes, tm_hour = hours, tm_mday = day, tm_mon = month - 1,
                tm_year = year - 1900, tm_wday = 0, tm_yday = 0, tm_isdst = 0\<rparr>)"

text \<open>The size of \<^verbatim>\<open>time_t\<close> in bytes, 4 or 8, is a property of the platform.\<close>

definition OPENSSL_timegm :: "nat \<Rightarrow> tm \<Rightarrow> int option" where
  "OPENSSL_timegm sizeof_time_t t =
     (case OPENSSL_tm_to_posix t of
        None \<Rightarrow> None
      | Some posix_time \<Rightarrow>
          if sizeof_time_t = 4 \<and> (posix_time > 0x7fffffff \<or> posix_time < -0x80000000) then None
          else Some posix_time)"

definition OPENSSL_gmtime :: "int \<Rightarrow> tm option" where
  "OPENSSL_gmtime time = OPENSSL_posix_to_tm time"

text \<open>
  An \<^verbatim>\<open>int64_t\<close> result: \<open>None\<close> when it overflows. \<^verbatim>\<open>OPENSSL_gmtime_adj\<close> returns \<open>None\<close> when it would
  overflow, \<open>Some None\<close> for the return value 0, and the new time otherwise.
\<close>

definition int64 :: "int \<Rightarrow> int option" where
  "int64 x = (if INT64_MIN \<le> x \<and> x \<le> INT64_MAX then Some x else None)"

definition OPENSSL_gmtime_adj :: "tm \<Rightarrow> int \<Rightarrow> int \<Rightarrow> tm option option" where
  "OPENSSL_gmtime_adj t offset_day offset_sec =
     (case OPENSSL_tm_to_posix t of
        None \<Rightarrow> Some None
      | Some posix_time \<Rightarrow>
     (case int64 (offset_day * SECS_PER_DAY) of
        None \<Rightarrow> None
      | Some offset \<Rightarrow>
     (case int64 (posix_time + offset) of
        None \<Rightarrow> None
      | Some posix_time \<Rightarrow>
          if posix_time > 0 \<and> offset_sec > INT64_MAX - posix_time then Some None
          else if posix_time < 0 \<and> offset_sec < INT64_MIN - posix_time then Some None
          else (case int64 (posix_time + offset_sec) of
                  None \<Rightarrow> None
                | Some posix_time \<Rightarrow> Some (OPENSSL_posix_to_tm posix_time)))))"

text \<open>The result is the difference in days and the remaining seconds.\<close>

definition OPENSSL_gmtime_diff :: "tm \<Rightarrow> tm \<Rightarrow> (int \<times> int) option" where
  "OPENSSL_gmtime_diff from_tm to_tm =
     (case OPENSSL_tm_to_posix to_tm of
        None \<Rightarrow> None
      | Some time_to \<Rightarrow>
          (case OPENSSL_tm_to_posix from_tm of
             None \<Rightarrow> None
           | Some time_from \<Rightarrow>
               let timediff = time_to - time_from
               in Some (timediff sdiv SECS_PER_DAY, timediff smod SECS_PER_DAY)))"

section \<open>The calendar\<close>

definition leap :: "int \<Rightarrow> bool" where
  "leap y \<longleftrightarrow> (y mod 4 = 0 \<and> y mod 100 \<noteq> 0) \<or> y mod 400 = 0"

definition month_days :: "int \<Rightarrow> int \<Rightarrow> int" where
  "month_days y m = (if m = 2 then (if leap y then 29 else 28) else if m \<in> {4, 6, 9, 11} then 30 else 31)"

lemma is_valid_date_iff:
  "is_valid_date y m d \<longleftrightarrow> 0 \<le> y \<and> y \<le> 9999 \<and> 1 \<le> m \<and> m \<le> 12 \<and> 1 \<le> d \<and> d \<le> month_days y m"
proof -
  have s: "y smod k = y mod k" if "0 \<le> y" "0 < k" for k using that by (simp add: signed_modulo_int_def sgn_if)
  have "m \<in> {1, 3, 5, 7, 8, 10, 12} \<or> m \<in> {4, 6, 9, 11} \<or> m = 2" if "1 \<le> m" "m \<le> 12" using that by auto presburger
  then show ?thesis unfolding is_valid_date_def month_days_def leap_def by (auto simp: s)
qed

text \<open>The next day of the calendar.\<close>

definition next_day :: "int \<times> int \<times> int \<Rightarrow> int \<times> int \<times> int" where
  "next_day = (\<lambda>(y, m, d). if d < month_days y m then (y, m, d + 1) else if m < 12 then (y, m + 1, 1) else (y + 1, 1, 1))"

text \<open>Days before the first of March of year \<open>y\<close>, and before month \<open>k\<close> of a year that starts in March.\<close>

definition march_days :: "int \<Rightarrow> int" where
  "march_days y = 365 * y + y div 4 - y div 100 + y div 400"

definition day_number :: "int \<Rightarrow> int \<Rightarrow> int \<Rightarrow> int" where
  "day_number y m d = march_days (if m \<le> 2 then y - 1 else y) + (153 * (if m > 2 then m - 3 else m + 9) + 2) div 5 + d - 1 - 719468"

lemma div_pred: "0 < k \<Longrightarrow> (y - 1) div k = y div k - (if y mod k = 0 then 1 else (0 :: int))"
proof -
  assume k: "0 < k"
  have y: "y = k * (y div k) + y mod k" by simp
  have r: "0 \<le> y mod k" "y mod k < k" using k by simp_all
  show ?thesis
  proof (cases "y mod k = 0")
    case True
    then have "y - 1 = k * (y div k - 1) + (k - 1)" using y by (simp add: algebra_simps)
    from int_div_pos_eq [OF this] k True show ?thesis by simp
  next
    case False
    have "y - 1 = k * (y div k) + (y mod k - 1)" using y by simp
    from int_div_pos_eq [OF this] r False show ?thesis by simp
  qed
qed

lemma march_days_leap: "march_days y = march_days (y - 1) + (if leap y then 366 else 365)"
proof -
  have "y mod 400 = 0 \<Longrightarrow> y mod 100 = 0" "y mod 100 = 0 \<Longrightarrow> y mod 4 = 0" by presburger+
  then show ?thesis unfolding march_days_def leap_def by (auto simp: div_pred)
qed

lemma march_days_era: "march_days (e * 400 + r) = e * 146097 + march_days r"
proof -
  have "(e * 400 + r) div 4 = e * 100 + r div 4" "(e * 400 + r) div 100 = e * 4 + r div 100"
    using div_mult_self3 [of 4 "e * 100" r] div_mult_self3 [of 100 "e * 4" r] by simp_all
  then show ?thesis by (simp add: march_days_def algebra_simps)
qed

lemma sdiv_nonneg: "0 \<le> a \<Longrightarrow> 0 < b \<Longrightarrow> a sdiv b = a div (b :: int)"
  by (simp add: signed_divide_int_def sgn_if)

lemma smod_nonneg: "0 \<le> a \<Longrightarrow> 0 < b \<Longrightarrow> a smod b = a mod (b :: int)"
  by (simp add: signed_modulo_int_def sgn_if)

lemma sdiv_neg: "a < 0 \<Longrightarrow> 0 < b \<Longrightarrow> (a - (b - 1)) sdiv b = a div (b :: int)"
proof -
  assume a: "a < 0" "0 < b"
  let ?q = "a div b" and ?r = "a mod b"
  have e: "a = b * ?q + ?r" by simp
  have r: "0 \<le> ?r" "?r < b" using a by simp_all
  have q: "?q < 0" using a by (simp add: pos_imp_zdiv_neg_iff)
  have "\<bar>a - (b - 1)\<bar> = b * (- ?q) + (b - 1 - ?r)" using a e r by (simp add: algebra_simps)
  from int_div_pos_eq [OF this] r have "\<bar>a - (b - 1)\<bar> div b = - ?q" by simp
  then show ?thesis using a by (simp add: signed_divide_int_def sgn_if)
qed

text \<open>The two expressions for the era are floor divisions.\<close>

lemma floor_year: "(if y \<ge> 0 then y else y - 399) sdiv 400 = y div (400 :: int)"
  using sdiv_neg [of y 400] by (simp add: sdiv_nonneg)

lemma floor_days: "(if d > 0 then d else d - 146096) sdiv 146097 = d div (146097 :: int)"
  using sdiv_neg [of d 146097] by (cases "d = 0") (auto simp: sdiv_nonneg signed_divide_int_def)

lemma posix_time_from_utc_day_number:
  "posix_time_from_utc y m d H M S =
     (if is_valid_date y m d \<and> is_valid_time H M S then Some (day_number y m d * 86400 + H * 3600 + M * 60 + S) else None)"
proof (cases "is_valid_date y m d \<and> is_valid_time H M S")
  case True
  define z where "z = (if m \<le> 2 then y - 1 else y)"
  define k where "k = (if m > 2 then m - 3 else m + 9)"
  have "0 \<le> k" using True by (auto simp: k_def is_valid_date_iff)
  then have kd: "(153 * k + 2) sdiv 5 = (153 * k + 2) div 5" by (simp add: sdiv_nonneg)
  define r where "r = z - z div 400 * 400"
  have r: "r = z mod 400" by (simp add: r_def minus_div_mult_eq_mod)
  then have rr: "0 \<le> r" "r < 400" by simp_all
  have "march_days z = z div 400 * 146097 + march_days r"
    using march_days_era [of "z div 400" r] unfolding r_def by simp
  moreover have "march_days r = r * 365 + r sdiv 4 - r sdiv 100" using rr by (simp add: march_days_def sdiv_nonneg)
  ultimately show ?thesis using True
    unfolding posix_time_from_utc_def Let_def z_def [symmetric] k_def [symmetric] floor_year r_def [symmetric] kd day_number_def
    by (simp add: SECS_PER_DAY_def SECS_PER_HOUR_def)
qed (auto simp: posix_time_from_utc_def)

lemma month_cases:
  assumes "1 \<le> m" and "m \<le> (12 :: int)"
  obtains "m = 1" | "m = 2" | "m = 3" | "m = 4" | "m = 5" | "m = 6" | "m = 7" | "m = 8" | "m = 9" | "m = 10" | "m = 11" | "m = 12"
  using assms by atomize_elim presburger

lemma day_number_next:
  assumes "1 \<le> m" and "m \<le> 12" and "d \<le> month_days y m" and "next_day (y, m, d) = (y', m', d')"
  shows "day_number y' m' d' = day_number y m d + 1"
proof (cases "d < month_days y m")
  case True
  then show ?thesis using assms(4) by (auto simp: next_day_def day_number_def)
next
  case False
  then have "d = month_days y m" using assms(3) by simp
  then show ?thesis using assms(4) march_days_leap [of y]
    by (cases rule: month_cases [OF assms(1,2)]) (auto simp: next_day_def day_number_def month_days_def)
qed

section \<open>The inverse\<close>

definition year_of :: "int \<Rightarrow> int" where
  "year_of doe = (doe - doe div 1460 + doe div 36524 - doe div 146096) div 365"

lemma sub_div_mono: "0 < k \<Longrightarrow> a \<le> b \<Longrightarrow> a - a div k \<le> b - b div (k :: int)"
proof -
  assume k: "0 < k" and ab: "a \<le> b"
  have "b div k \<le> (a + (b - a) * k) div k"
  proof (rule zdiv_mono1 [OF _ k])
    have "(b - a) * 1 \<le> (b - a) * k" using k ab by (intro mult_left_mono) auto
    then show "b \<le> a + (b - a) * k" by simp
  qed
  also have "\<dots> = a div k + (b - a)" using k by simp
  finally show ?thesis by simp
qed

lemma year_of_mono:
  assumes "a \<le> b"
  shows "year_of a \<le> year_of b"
proof -
  have e: "x div 146096 = x div 36524 div 4" for x :: int using zdiv_zmult2_eq [of 4 x 36524] by simp
  have "a div 36524 \<le> b div 36524" using assms by (intro zdiv_mono1) auto
  then have "a div 36524 - a div 36524 div 4 \<le> b div 36524 - b div 36524 div 4" by (intro sub_div_mono) auto
  moreover have "a - a div 1460 \<le> b - b div 1460" using assms by (intro sub_div_mono) auto
  ultimately show ?thesis unfolding year_of_def e by (intro zdiv_mono1) auto
qed

text \<open>The formula is right at both ends of each of the 400 years of an era.\<close>

definition year_ends_ok :: "int \<Rightarrow> bool" where
  "year_ends_ok r \<longleftrightarrow> year_of (march_days r) = r \<and> year_of (march_days r + 364) = r \<and> 0 \<le> march_days r \<and>
     (if leap (r + 1) then year_of (march_days r + 365) = r \<and> march_days r + 365 \<le> 146096 else march_days r + 364 \<le> 146096)"

lemma year_ends_all: "list_all year_ends_ok [0..399]"
  by code_simp

lemma year_of_day:
  assumes "0 \<le> r" and "r < 400" and "0 \<le> k" and "k \<le> (if leap (r + 1) then 365 else 364)"
  shows "year_of (march_days r + k) = r \<and> 0 \<le> march_days r + k \<and> march_days r + k < 146097"
proof -
  have ok: "year_ends_ok r" using year_ends_all assms(1,2) by (simp add: list_all_iff)
  define e where "e = (if leap (r + 1) then 365 else 364 :: int)"
  have "year_of (march_days r) \<le> year_of (march_days r + k)" "year_of (march_days r + k) \<le> year_of (march_days r + e)"
    using assms(3,4) by (auto intro!: year_of_mono simp: e_def)
  moreover have "year_of (march_days r + e) = r" "march_days r + e \<le> 146096" "0 \<le> march_days r" "year_of (march_days r) = r"
    using ok by (auto simp: year_ends_ok_def e_def split: if_splits)
  ultimately show ?thesis using assms(3,4) by (auto simp: e_def)
qed

lemma leap_era: "leap (e * 400 + r) \<longleftrightarrow> leap r"
proof -
  have "(e * 400 + r) mod 4 = r mod 4" "(e * 400 + r) mod 100 = r mod 100"
    using mod_mult_self3 [of "e * 100" 4 r] mod_mult_self3 [of "e * 4" 100 r] by (simp_all add: mult.commute)
  then show ?thesis by (simp add: leap_def)
qed

lemma split_seconds:
  fixes t :: int
  assumes "0 < k"
  shows "(if t smod k < 0 then (t sdiv k - 1, t smod k + k) else (t sdiv k, t smod k)) = (t div k, t mod k)"
proof (cases "t smod k < 0")
  case True
  have "\<bar>t smod k\<bar> < k" using assms by (simp add: signed_modulo_int_def abs_mult sgn_if)
  moreover have "t = k * (t sdiv k - 1) + (t smod k + k)" using sdiv_mult_smod_eq [of t k] by (simp add: algebra_simps)
  ultimately have "t div k = t sdiv k - 1" "t mod k = t smod k + k"
    using True int_div_pos_eq [of t k "t sdiv k - 1" "t smod k + k"] int_mod_pos_eq [of t k "t sdiv k - 1" "t smod k + k"] by auto
  then show ?thesis using True by simp
next
  case False
  have "\<bar>t smod k\<bar> < k" using assms by (simp add: signed_modulo_int_def abs_mult sgn_if)
  moreover have "t = k * (t sdiv k) + t smod k" using sdiv_mult_smod_eq [of t k] by (simp add: algebra_simps)
  ultimately have "t div k = t sdiv k" "t mod k = t smod k"
    using False int_div_pos_eq [of t k "t sdiv k" "t smod k"] int_mod_pos_eq [of t k "t sdiv k" "t smod k"] by auto
  then show ?thesis using False by simp
qed

text \<open>Month and day of month from the day of a year that starts in March.\<close>

lemma month_of_day:
  assumes "1 \<le> m" and "m \<le> 12" and "1 \<le> d" and "d \<le> month_days y m"
    and k: "k = (153 * (if m > 2 then m - 3 else m + 9) + 2) div 5 + d - 1"
  shows "0 \<le> k \<and> k \<le> (if m = 2 then 336 + month_days y 2 else 364) \<and> (if m \<le> 2 then 306 \<le> k else k \<le> 305) \<and> (5 * k + 2) div 153 = (if m > 2 then m - 3 else m + 9)"
proof -
  have "d \<le> 31" "m \<in> {4, 6, 9, 11} \<Longrightarrow> d \<le> 30" "m = 2 \<Longrightarrow> d \<le> 29 \<and> month_days y 2 = month_days y m"
    using assms(4) by (auto simp: month_days_def split: if_splits)
  then show ?thesis using assms(3,4) unfolding k
    by (cases rule: month_cases [OF assms(1,2)]) (auto simp: div_pos_geq intro!: int_div_pos_eq)
qed

lemma march_days_mono:
  assumes "a \<le> b"
  shows "march_days a + 365 * (b - a) \<le> march_days b"
proof -
  have e: "x div 100 = x div 4 div 25" for x :: int using zdiv_zmult2_eq [of 25 x 4] by simp
  have "a div 4 \<le> b div 4" "a div 400 \<le> b div 400" using assms by (intro zdiv_mono1; simp)+
  moreover from this(1) have "a div 4 - a div 4 div 25 \<le> b div 4 - b div 4 div 25" by (intro sub_div_mono) auto
  ultimately show ?thesis unfolding march_days_def e by (simp add: algebra_simps)
qed

lemma day_number_range:
  assumes "is_valid_date y m d"
  shows "-719528 \<le> day_number y m d \<and> day_number y m d \<le> 2932896"
proof -
  define z where "z = (if m \<le> 2 then y - 1 else y)"
  define k where "k = (153 * (if m > 2 then m - 3 else m + 9) + 2) div 5 + d - 1"
  have v: "0 \<le> y" "y \<le> 9999" "1 \<le> m" "m \<le> 12" "1 \<le> d" "d \<le> month_days y m" using assms by (auto simp: is_valid_date_iff)
  have k: "0 \<le> k" "k \<le> 365" "if m \<le> 2 then 306 \<le> k else k \<le> 305"
    using month_of_day [OF v(3-6) k_def] by (auto simp: month_days_def split: if_splits)
  have dn: "day_number y m d = march_days z + k - 719468" by (simp add: day_number_def z_def k_def)
  have "march_days (-1) = -366" "march_days 0 = 0" "march_days 9998 = 3651694" "march_days 9999 = 3652059" by code_simp+
  moreover have "-1 \<le> z" "z \<le> 9999" using v by (auto simp: z_def)
  ultimately show ?thesis unfolding dn
    using march_days_mono [of "-1" z] march_days_mono [of 0 z] march_days_mono [of z 9998] march_days_mono [of z 9999] k v
    by (cases "z = -1"; cases "z = 9999") (auto simp: z_def split: if_splits)
qed

lemma date_steps:
  fixes r k :: int
  assumes y: "year_of (g + k) = r" "0 \<le> g + k" and r: "0 \<le> r" "r < 400" and g: "g = 365 * r + r div 4 - r div 100"
    and k: "0 \<le> k" "(5 * k + 2) div 153 = mp"
  shows "(g + k - (g + k) sdiv 1460 + (g + k) sdiv 36524 - (g + k) sdiv 146096) sdiv 365 = r"
    "g + k - (365 * r + r sdiv 4 - r sdiv 100) = k" "(5 * k + 2) sdiv 153 = mp"
proof -
  define n where "n = g + k - (g + k) div 1460 + (g + k) div 36524 - (g + k) div 146096"
  have n: "n div 365 = r" using y(1) by (simp add: year_of_def n_def)
  then have "0 \<le> n" using r(1) pos_imp_zdiv_nonneg_iff [of 365 n] by simp
  then show "(g + k - (g + k) sdiv 1460 + (g + k) sdiv 36524 - (g + k) sdiv 146096) sdiv 365 = r"
    using n y(2) by (simp add: sdiv_nonneg n_def)
  show "g + k - (365 * r + r sdiv 4 - r sdiv 100) = k" "(5 * k + 2) sdiv 153 = mp"
    using r k g by (simp_all add: sdiv_nonneg)
qed

lemma time_steps:
  fixes H M S :: int
  assumes "0 \<le> H" "H \<le> 23" "0 \<le> M" "M \<le> 59" "0 \<le> S" "S \<le> 59"
  shows "(H * 3600 + M * 60 + S) sdiv 3600 = H" "(H * 3600 + M * 60 + S) smod 3600 sdiv 60 = M"
    "(H * 3600 + M * 60 + S) smod 3600 smod 60 = S"
proof -
  have e: "H * 3600 + M * 60 + S = 3600 * H + (M * 60 + S)" "M * 60 + S = 60 * M + S" by simp_all
  have "(H * 3600 + M * 60 + S) div 3600 = H" "(H * 3600 + M * 60 + S) mod 3600 = M * 60 + S" "(M * 60 + S) div 60 = M" "(M * 60 + S) mod 60 = S"
    using int_div_pos_eq [OF e(1)] int_mod_pos_eq [OF e(1)] int_div_pos_eq [OF e(2)] int_mod_pos_eq [OF e(2)] assms by auto
  then show "(H * 3600 + M * 60 + S) sdiv 3600 = H" "(H * 3600 + M * 60 + S) smod 3600 sdiv 60 = M"
    "(H * 3600 + M * 60 + S) smod 3600 smod 60 = S"
    using assms by (simp_all add: sdiv_nonneg smod_nonneg)
qed

lemma utc_from_day_number:
  assumes d: "is_valid_date y m d" and "is_valid_time H M S"
  shows "utc_from_posix_time (day_number y m d * 86400 + H * 3600 + M * 60 + S) = Some (y, m, d, H, M, S)"
proof -
  define t where "t = day_number y m d * 86400 + H * 3600 + M * 60 + S"
  define s where "s = H * 3600 + M * 60 + S"
  have hms: "0 \<le> H" "H \<le> 23" "0 \<le> M" "M \<le> 59" "0 \<le> S" "S \<le> 59" using assms(2) by (auto simp: is_valid_time_def)
  then have s: "0 \<le> s" "s < 86400" by (auto simp: s_def)
  have ts: "t = 86400 * day_number y m d + s" by (simp add: t_def s_def)
  have dm: "t div 86400 = day_number y m d" "t mod 86400 = s"
    using int_div_pos_eq [OF ts] int_mod_pos_eq [OF ts] s by auto
  have "is_valid_posix_time t"
    using day_number_range [OF d] s unfolding is_valid_posix_time_def MIN_POSIX_TIME_def MAX_POSIX_TIME_def ts by auto
  define z where "z = (if m \<le> 2 then y - 1 else y)"
  define mp where "mp = (if m > 2 then m - 3 else m + 9)"
  define k where "k = (153 * mp + 2) div 5 + d - 1"
  have v: "0 \<le> y" "y \<le> 9999" "1 \<le> m" "m \<le> 12" "1 \<le> d" "d \<le> month_days y m" using d by (auto simp: is_valid_date_iff)
  have k: "0 \<le> k" "k \<le> (if m = 2 then 336 + month_days y 2 else 364)" "(5 * k + 2) div 153 = mp"
    using month_of_day [OF v(3-6) k_def [unfolded mp_def]] by (auto simp: mp_def)
  define r where "r = z mod 400"
  have z: "z = z div 400 * 400 + r" by (simp add: r_def)
  have rr: "0 \<le> r" "r < 400" by (simp_all add: r_def)
  have "leap (r + 1) \<longleftrightarrow> leap (z + 1)" using leap_era [of "z div 400" "r + 1"] z by (simp add: add.assoc [symmetric])
  then have "k \<le> (if leap (r + 1) then 365 else 364)" using k(2) by (auto simp: month_days_def z_def split: if_splits)
  from year_of_day [OF rr k(1) this] have yr: "year_of (march_days r + k) = r" "0 \<le> march_days r + k" "march_days r + k < 146097"
    by auto
  define D where "D = day_number y m d + 719468"
  have D: "D = 146097 * (z div 400) + (march_days r + k)"
    using march_days_era [of "z div 400" r] z unfolding D_def day_number_def z_def [symmetric] mp_def [symmetric] k_def by simp
  have era: "D div 146097 = z div 400" using int_div_pos_eq [OF D] yr by simp
  have doe: "D - z div 400 * 146097 = march_days r + k" using D by simp
  have m400: "march_days r = 365 * r + r div 4 - r div 100" using rr by (simp add: march_days_def)
  note ints = date_steps [OF yr(1,2) rr m400 k(1,3)]
  have "0 \<le> mp" using v by (auto simp: mp_def)
  then have day: "k - (153 * mp + 2) sdiv 5 + 1 = d" by (simp add: k_def sdiv_nonneg)
  have secs: "SECS_PER_DAY = 86400" "SECS_PER_HOUR = 3600" by (simp_all add: SECS_PER_DAY_def SECS_PER_HOUR_def)
  show ?thesis
    unfolding t_def [symmetric] utc_from_posix_time_def Let_def secs split_seconds [of 86400 t, simplified] dm prod.case
      D_def [symmetric] floor_days era doe ints day time_steps [OF hms, folded s_def]
    using \<open>is_valid_posix_time t\<close> v z by (auto simp: mp_def z_def)
qed

lemma next_day_valid:
  assumes "is_valid_date y m d" and "next_day (y, m, d) = (y', m', d')" and "y' \<le> 9999"
  shows "is_valid_date y' m' d'"
proof -
  have "28 \<le> month_days a b" for a b by (simp add: month_days_def)
  then have "1 \<le> month_days a b" for a b using order.trans [of 1 28 "month_days a b"] by simp
  then show ?thesis using assms by (auto simp: is_valid_date_iff next_day_def split: if_splits)
qed

text \<open>Every day number in the range is the number of a date: step there from the first one.\<close>

lemma day_number_onto:
  assumes "-719528 \<le> n"
  shows "n \<le> 2932896 \<longrightarrow> (\<exists>y m d. is_valid_date y m d \<and> day_number y m d = n)"
  using assms
proof (induction n rule: int_ge_induct)
  case base
  have "is_valid_date 0 1 1 \<and> day_number 0 1 1 = -719528" by code_simp
  then show ?case by blast
next
  case (step n)
  show ?case
  proof
    assume n: "n + 1 \<le> 2932896"
    then obtain y m d where d: "is_valid_date y m d" "day_number y m d = n" using step by auto
    obtain y' m' d' where nx: "next_day (y, m, d) = (y', m', d')" by (cases "next_day (y, m, d)")
    have v: "1 \<le> m" "m \<le> 12" "d \<le> month_days y m" "y \<le> 9999" using d by (auto simp: is_valid_date_iff)
    have nn: "day_number y' m' d' = n + 1" using day_number_next [OF v(1-3) nx] d(2) by simp
    have "y' \<le> 9999"
    proof (rule ccontr)
      assume "\<not> y' \<le> 9999"
      then have "y = 9999" "m = 12" "y' = 10000" "m' = 1" "d' = 1" using nx v by (auto simp: next_day_def split: if_splits)
      then have "day_number y' m' d' = 2932897" by simp code_simp
      then show False using nn n by simp
    qed
    from next_day_valid [OF d(1) nx this] nn show "\<exists>y m d. is_valid_date y m d \<and> day_number y m d = n + 1" by blast
  qed
qed

lemma valid_time_onto:
  assumes "0 \<le> s" and "s < 86400"
  shows "\<exists>H M S. is_valid_time H M S \<and> s = H * 3600 + M * 60 + S"
proof (intro exI conjI)
  have m: "0 \<le> s mod 3600" "s mod 3600 \<le> 3599" "0 \<le> s mod 3600 mod 60" "s mod 3600 mod 60 \<le> 59"
    using pos_mod_bound [of 3600 s] pos_mod_bound [of 60 "s mod 3600"] by simp_all
  have "s div 3600 \<le> 23" "s mod 3600 div 60 \<le> 59"
    using assms m(2) zdiv_mono1 [of s 86399 3600] zdiv_mono1 [of "s mod 3600" 3599 60] by simp_all
  moreover have "0 \<le> s div 3600" "0 \<le> s mod 3600 div 60" using assms(1) m(1) by (simp_all add: pos_imp_zdiv_nonneg_iff)
  ultimately show "is_valid_time (s div 3600) (s mod 3600 div 60) (s mod 3600 mod 60)"
    using m(3,4) by (simp add: is_valid_time_def not_less)
  show "s = s div 3600 * 3600 + s mod 3600 div 60 * 60 + s mod 3600 mod 60" by simp
qed

lemma posix_time_onto:
  assumes "is_valid_posix_time t"
  shows "\<exists>y m d H M S. posix_time_from_utc y m d H M S = Some t"
proof -
  have "-719528 \<le> t div 86400" "t div 86400 \<le> 2932896"
    using assms zdiv_mono1 [of "-62167219200" t 86400] zdiv_mono1 [of t 253402300799 86400]
    by (simp_all add: is_valid_posix_time_def MIN_POSIX_TIME_def MAX_POSIX_TIME_def)
  with day_number_onto obtain y m d where d: "is_valid_date y m d" "day_number y m d = t div 86400" by blast
  obtain H M S where h: "is_valid_time H M S" "t mod 86400 = H * 3600 + M * 60 + S" using valid_time_onto [of "t mod 86400"] by auto
  have "t = t div 86400 * 86400 + t mod 86400" by simp
  then have "posix_time_from_utc y m d H M S = Some t" using d h by (simp add: posix_time_from_utc_day_number)
  then show ?thesis by blast
qed

lemma posix_time_iff:
  "posix_time_from_utc y m d H M S = Some t \<longleftrightarrow> utc_from_posix_time t = Some (y, m, d, H, M, S)"
proof
  assume "posix_time_from_utc y m d H M S = Some t"
  then show "utc_from_posix_time t = Some (y, m, d, H, M, S)"
    using utc_from_day_number by (auto simp: posix_time_from_utc_day_number split: if_splits)
next
  assume a: "utc_from_posix_time t = Some (y, m, d, H, M, S)"
  then have "is_valid_posix_time t" by (auto simp: utc_from_posix_time_def split: if_splits)
  then obtain y' m' d' H' M' S' where b: "posix_time_from_utc y' m' d' H' M' S' = Some t" using posix_time_onto by blast
  then have "utc_from_posix_time t = Some (y', m', d', H', M', S')"
    using utc_from_day_number by (auto simp: posix_time_from_utc_day_number split: if_splits)
  with a b show "posix_time_from_utc y m d H M S = Some t" by simp
qed

lemma posix_to_tm_iff:
  "OPENSSL_posix_to_tm t = Some x \<longleftrightarrow> OPENSSL_tm_to_posix x = Some t \<and> tm_wday x = 0 \<and> tm_yday x = 0 \<and> tm_isdst x = 0"
  unfolding OPENSSL_tm_to_posix_def posix_time_iff OPENSSL_posix_to_tm_def by (cases x) (auto split: option.splits)

lemma posix_to_tm_None: "OPENSSL_posix_to_tm t = None \<longleftrightarrow> \<not> is_valid_posix_time t"
  by (auto simp: OPENSSL_posix_to_tm_def utc_from_posix_time_def Let_def split: prod.splits)

lemma tm_to_posix_valid: "OPENSSL_tm_to_posix x = Some t \<Longrightarrow> is_valid_posix_time t"
  unfolding OPENSSL_tm_to_posix_def posix_time_iff by (auto simp: utc_from_posix_time_def split: if_splits)

text \<open>The arguments of \<^verbatim>\<open>OPENSSL_gmtime_adj\<close> have the types \<^verbatim>\<open>int\<close> and \<^verbatim>\<open>int64_t\<close>.\<close>

definition adj_args :: "int \<Rightarrow> int \<Rightarrow> bool" where
  "adj_args days secs \<longleftrightarrow> (- (2 ^ 31) \<le> days \<and> days < 2 ^ 31) \<and> (- (2 ^ 63) \<le> secs \<and> secs < 2 ^ 63)"

lemma gmtime_adj_eq:
  assumes "OPENSSL_tm_to_posix x = Some t" and "adj_args days secs"
  shows "OPENSSL_gmtime_adj x days secs = Some (OPENSSL_posix_to_tm (t + days * 86400 + secs))"
proof -
  have s: "SECS_PER_DAY = 86400" by (simp add: SECS_PER_DAY_def SECS_PER_HOUR_def)
  have t: "-62167219200 \<le> t" "t \<le> 253402300799"
    using tm_to_posix_valid [OF assms(1)] by (auto simp: is_valid_posix_time_def MIN_POSIX_TIME_def MAX_POSIX_TIME_def)
  have b: "int64 (days * 86400) = Some (days * 86400)" "int64 (t + days * 86400) = Some (t + days * 86400)"
    using t assms(2) by (auto simp: int64_def INT64_MIN_def INT64_MAX_def adj_args_def)
  have far: "OPENSSL_posix_to_tm u = None" if "\<not> (INT64_MIN \<le> u \<and> u \<le> INT64_MAX)" for u
    using that unfolding posix_to_tm_None
    by (auto simp: is_valid_posix_time_def MIN_POSIX_TIME_def MAX_POSIX_TIME_def INT64_MIN_def INT64_MAX_def)
  define p where "p = t + days * 86400"
  have e: "OPENSSL_gmtime_adj x days secs =
      (if p > 0 \<and> secs > INT64_MAX - p then Some None else if p < 0 \<and> secs < INT64_MIN - p then Some None
       else (case int64 (p + secs) of None \<Rightarrow> None | Some u \<Rightarrow> Some (OPENSSL_posix_to_tm u)))"
    by (simp add: OPENSSL_gmtime_adj_def assms(1) s b p_def)
  have "INT64_MIN \<le> secs" "secs \<le> INT64_MAX" using assms(2) by (auto simp: adj_args_def INT64_MIN_def INT64_MAX_def)
  then have "int64 (p + secs) = Some (p + secs)"
    if "\<not> (p > 0 \<and> secs > INT64_MAX - p)" "\<not> (p < 0 \<and> secs < INT64_MIN - p)"
    using that by (auto simp: int64_def)
  then have "OPENSSL_gmtime_adj x days secs = Some (OPENSSL_posix_to_tm (p + secs))"
    unfolding e using far [of "p + secs"] by auto
  then show ?thesis by (simp add: p_def)
qed

section \<open>Properties\<close>

text \<open>
  C7: the two conversions are inverse to each other: a date and time has POSIX time \<open>t\<close> exactly when \<open>t\<close>
  converts to that date and time, and they are defined on all of the years 0 to 9999 (the times from
  \<^verbatim>\<open>MIN_POSIX_TIME\<close> to \<^verbatim>\<open>MAX_POSIX_TIME\<close>) and nowhere else.
\<close>

theorem posix_time_round_trip:
  "(posix_time_from_utc y m d H M S = Some t \<longleftrightarrow> utc_from_posix_time t = Some (y, m, d, H, M, S)) \<and>
   ((\<exists>x. utc_from_posix_time t = Some x) \<longleftrightarrow> -62167219200 \<le> t \<and> t \<le> 253402300799) \<and>
   ((\<exists>u. posix_time_from_utc y m d H M S = Some u) \<longleftrightarrow> is_valid_date y m d \<and> is_valid_time H M S)"
proof -
  have "(\<exists>x. utc_from_posix_time t = Some x) \<longleftrightarrow> is_valid_posix_time t"
    using posix_to_tm_None [of t] by (cases "utc_from_posix_time t") (auto simp: OPENSSL_posix_to_tm_def)
  then have "(\<exists>x. utc_from_posix_time t = Some x) \<longleftrightarrow> -62167219200 \<le> t \<and> t \<le> 253402300799"
    by (simp only: is_valid_posix_time_def MIN_POSIX_TIME_def MAX_POSIX_TIME_def)
  moreover have "(\<exists>u. posix_time_from_utc y m d H M S = Some u) \<longleftrightarrow> is_valid_date y m d \<and> is_valid_time H M S"
    by (simp add: posix_time_from_utc_day_number)
  ultimately show ?thesis using posix_time_iff by blast
qed

text \<open>
  C24: the conversion counts days of the Gregorian calendar. The first of January 1970 is zero, the day after a
  date (with its month lengths and leap years) is 86400 seconds later, and the time of day is the number
  of seconds since midnight. Together these determine the conversion.
\<close>

theorem posix_time_calendar:
  assumes "posix_time_from_utc y m d H M S = Some t" and "next_day (y, m, d) = (y', m', d')" and "y' \<le> 9999"
  shows "posix_time_from_utc y' m' d' H M S = Some (t + 86400) \<and> t mod 86400 = H * 3600 + M * 60 + S \<and>
    posix_time_from_utc 1970 1 1 0 0 0 = Some 0"
proof -
  have v: "is_valid_date y m d" "is_valid_time H M S" and t: "t = day_number y m d * 86400 + H * 3600 + M * 60 + S"
    using assms(1) by (auto simp: posix_time_from_utc_day_number split: if_splits)
  have b: "1 \<le> m" "m \<le> 12" "d \<le> month_days y m" using v(1) by (auto simp: is_valid_date_iff)
  have "is_valid_date y' m' d'" by (rule next_day_valid [OF v(1) assms(2,3)])
  then have nx: "posix_time_from_utc y' m' d' H M S = Some (t + 86400)"
    using v(2) day_number_next [OF b assms(2)] t by (simp add: posix_time_from_utc_day_number)
  have e: "t = 86400 * day_number y m d + (H * 3600 + M * 60 + S)" using t by simp
  have "t mod 86400 = H * 3600 + M * 60 + S"
    by (rule int_mod_pos_eq [OF e]) (use v(2) in \<open>auto simp: is_valid_time_def\<close>)
  moreover have "posix_time_from_utc 1970 1 1 0 0 0 = Some 0" by code_simp
  ultimately show ?thesis using nx by blast
qed

theorem posix_time_calendar_witness:
  "posix_time_from_utc 2000 2 29 23 59 59 = Some 951868799 \<and> next_day (2000, 2, 29) = (2000, 3, 1) \<and>
   posix_time_from_utc 2000 3 1 23 59 59 = Some (951868799 + 86400)"
proof -
  have a: "posix_time_from_utc 2000 2 29 23 59 59 = Some 951868799" and b: "next_day (2000, 2, 29) = (2000, 3, 1)"
    by code_simp+
  from posix_time_calendar [OF a b] a b show ?thesis by simp
qed

text \<open>
  C26: for every \<^verbatim>\<open>int\<close> number of days and every \<^verbatim>\<open>int64_t\<close> number of seconds, \<^verbatim>\<open>OPENSSL_gmtime_adj\<close> on a
  valid time \<open>x\<close> computes without signed overflow; when the sum of the time and the offsets lies in the
  years 0 to 9999 the result denotes exactly that sum, and otherwise the function fails. The two guards in front of the
  last addition are what keeps it from overflowing.
\<close>

theorem gmtime_adj_adds:
  assumes "OPENSSL_tm_to_posix x = Some t" and "adj_args days secs"
  shows "if -62167219200 \<le> t + days * 86400 + secs \<and> t + days * 86400 + secs \<le> 253402300799
    then \<exists>x'. OPENSSL_gmtime_adj x days secs = Some (Some x') \<and> OPENSSL_tm_to_posix x' = Some (t + days * 86400 + secs)
    else OPENSSL_gmtime_adj x days secs = Some None"
proof -
  have v: "is_valid_posix_time u \<longleftrightarrow> -62167219200 \<le> u \<and> u \<le> 253402300799" for u
    by (simp only: is_valid_posix_time_def MIN_POSIX_TIME_def MAX_POSIX_TIME_def)
  show ?thesis unfolding gmtime_adj_eq [OF assms] v [symmetric]
    by (cases "OPENSSL_posix_to_tm (t + days * 86400 + secs)") (auto simp: posix_to_tm_iff simp flip: posix_to_tm_None)
qed

theorem gmtime_adj_adds_witness:
  "(\<exists>x'. OPENSSL_gmtime_adj \<lparr>tm_sec = 59, tm_min = 59, tm_hour = 23, tm_mday = 31, tm_mon = 11, tm_year = 99,
      tm_wday = 0, tm_yday = 0, tm_isdst = 0\<rparr> (- 1) 86401 = Some (Some x') \<and> OPENSSL_tm_to_posix x' = Some 946684800) \<and>
   OPENSSL_gmtime_adj \<lparr>tm_sec = 59, tm_min = 59, tm_hour = 23, tm_mday = 31, tm_mon = 11, tm_year = 99,
      tm_wday = 0, tm_yday = 0, tm_isdst = 0\<rparr> 1 (2 ^ 63 - 1) = Some None"
proof -
  let ?x = "\<lparr>tm_sec = 59, tm_min = 59, tm_hour = 23, tm_mday = 31, tm_mon = 11, tm_year = 99,
      tm_wday = 0, tm_yday = 0, tm_isdst = 0\<rparr>"
  have t: "OPENSSL_tm_to_posix ?x = Some 946684799" by code_simp
  have a: "adj_args (- 1) 86401" "adj_args 1 (2 ^ 63 - 1)" by (simp_all add: adj_args_def)
  show ?thesis using gmtime_adj_adds [OF t a(1)] gmtime_adj_adds [OF t a(2)] by simp
qed

text \<open>
  \<^verbatim>\<open>OPENSSL_gmtime_diff\<close> returns days and seconds of the same sign, less than a day of seconds, whose sum is the
  difference of the two times; moving the first time by them reaches the second.
\<close>

lemma gmtime_diff_exact:
  assumes "OPENSSL_tm_to_posix a = Some s" and "OPENSSL_tm_to_posix b = Some t"
  shows "\<exists>days secs. OPENSSL_gmtime_diff a b = Some (days, secs) \<and> t - s = days * 86400 + secs \<and> \<bar>secs\<bar> < 86400 \<and>
    0 \<le> days * secs \<and> (\<exists>x. OPENSSL_gmtime_adj a days secs = Some (Some x) \<and> OPENSSL_tm_to_posix x = Some t)"
proof -
  have r: "SECS_PER_DAY = 86400" by (simp add: SECS_PER_DAY_def SECS_PER_HOUR_def)
  define days secs where "days = (t - s) sdiv 86400" and "secs = (t - s) smod 86400"
  have d: "OPENSSL_gmtime_diff a b = Some (days, secs)"
    using assms by (simp add: OPENSSL_gmtime_diff_def r Let_def days_def secs_def)
  have sum: "t - s = days * 86400 + secs" unfolding days_def secs_def by (rule sdiv_mult_smod_eq [symmetric])
  have m: "\<bar>secs\<bar> < 86400" by (simp add: secs_def signed_modulo_int_def abs_mult sgn_if)
  have sg: "0 \<le> days * secs"
    unfolding days_def secs_def signed_divide_int_def signed_modulo_int_def
    by (cases "t - s" "0 :: int" rule: linorder_cases) (auto simp: sgn_if pos_imp_zdiv_nonneg_iff)
  have v: "is_valid_posix_time t" using assms tm_to_posix_valid by auto
  have "s + days * 86400 + secs = t" using sum by simp
  moreover have "adj_args days secs"
    using sum m tm_to_posix_valid [OF assms(1)] v
    by (auto simp: adj_args_def is_valid_posix_time_def MIN_POSIX_TIME_def MAX_POSIX_TIME_def)
  ultimately have "OPENSSL_gmtime_adj a days secs = Some (OPENSSL_posix_to_tm t)"
    by (simp only: gmtime_adj_eq [OF assms(1)])
  moreover obtain x where "OPENSSL_posix_to_tm t = Some x" using v posix_to_tm_None [of t] by (cases "OPENSSL_posix_to_tm t") auto
  ultimately show ?thesis using d sum m sg by (auto simp: posix_to_tm_iff)
qed

end
