(* ===== verification/Cbs_Time.thy ===== *)
theory Cbs_Time
  imports Cbs_Ints Posix_Time
begin

text \<open>
  The last part of \<^verbatim>\<open>bytestring/cbs.c\<close>: parsing UTCTime and GeneralizedTime as RFC 5280 restricts them,
  with the time zone offset that the code still tolerates.
\<close>

definition cbs_get_two_digits :: "int parser" where
  "cbs_get_two_digits cbs =
     (case CBS_get_u8 cbs of
        (None, cbs) \<Rightarrow> (None, cbs)
      | (Some first_digit, cbs) \<Rightarrow>
          if \<not> OPENSSL_isdigit (uint first_digit) then (None, cbs)
          else (case CBS_get_u8 cbs of
                  (None, cbs) \<Rightarrow> (None, cbs)
                | (Some second_digit, cbs) \<Rightarrow>
                    if \<not> OPENSSL_isdigit (uint second_digit) then (None, cbs)
                    else (Some ((uint first_digit - 0x30) * 10 + (uint second_digit - 0x30)), cbs)))"

definition is_valid_day :: "int \<Rightarrow> int \<Rightarrow> int \<Rightarrow> bool" where
  "is_valid_day year month day \<longleftrightarrow>
     (if day < 1 then False
      else if month \<in> {1, 3, 5, 7, 8, 10, 12} then day \<le> 31
      else if month \<in> {4, 6, 9, 11} then day \<le> 30
      else if month = 2 then
        (if (year smod 4 = 0 \<and> year smod 100 \<noteq> 0) \<or> year smod 400 = 0 then day \<le> 29 else day \<le> 28)
      else False)"

text \<open>The year, which the two forms write differently.\<close>

definition parse_time_year :: "bool \<Rightarrow> int parser" where
  "parse_time_year is_gentime copy =
     (if is_gentime then
        (case cbs_get_two_digits copy of
           (None, copy) \<Rightarrow> (None, copy)
         | (Some tmp, copy) \<Rightarrow>
             let year = tmp * 100 in
             (case cbs_get_two_digits copy of
                (None, copy) \<Rightarrow> (None, copy)
              | (Some tmp, copy) \<Rightarrow> (Some (year + tmp), copy)))
      else
        (case cbs_get_two_digits copy of
           (None, copy) \<Rightarrow> (None, copy)
         | (Some tmp, copy) \<Rightarrow>
             let year = 1900 + tmp;
                 year = (if year < 1950 then year + 100 else year)
             in if year \<ge> 2050 then (None, copy) else (Some year, copy)))"

text \<open>A two-digit field with the check that follows it.\<close>

definition parse_time_field :: "(int \<Rightarrow> bool) \<Rightarrow> int parser" where
  "parse_time_field ok copy =
     (case cbs_get_two_digits copy of
        (None, copy) \<Rightarrow> (None, copy)
      | (Some v, copy) \<Rightarrow> if ok v then (Some v, copy) else (None, copy))"

text \<open>The time zone: the offset in seconds.\<close>

definition parse_time_zone :: "bool \<Rightarrow> int parser" where
  "parse_time_zone allow_timezone_offset copy =
     (case CBS_get_u8 copy of
        (None, copy) \<Rightarrow> (None, copy)
      | (Some tz, copy) \<Rightarrow>
          if tz = 0x5a then (Some 0, copy)
          else if tz = 0x2b \<or> tz = 0x2d then
            (let offset_sign = (if tz = 0x2b then 1 else -1) in
             if \<not> allow_timezone_offset then (None, copy)
             else (case parse_time_field (\<lambda>h. h \<le> 23) copy of
                     (None, copy) \<Rightarrow> (None, copy)
                   | (Some offset_hours, copy) \<Rightarrow>
                       (case parse_time_field (\<lambda>m. m \<le> 59) copy of
                          (None, copy) \<Rightarrow> (None, copy)
                        | (Some offset_minutes, copy) \<Rightarrow>
                            (Some (offset_sign * (offset_hours * 3600 + offset_minutes * 60)), copy))))
          else (None, copy))"

text \<open>
  \<open>out_tm\<close> is the pointer: \<open>None\<close> when it is \<^verbatim>\<open>NULL\<close>, otherwise the structure it points to. The result is the
  return value and the structure afterwards; \<open>None\<close> stands for an overflow in \<^verbatim>\<open>OPENSSL_gmtime_adj\<close>.
\<close>

definition CBS_parse_rfc5280_time_internal :: "CBS \<Rightarrow> bool \<Rightarrow> bool \<Rightarrow> tm option \<Rightarrow> (bool \<times> tm option) option" where
  "CBS_parse_rfc5280_time_internal cbs is_gentime allow_timezone_offset out_tm =
     (case parse_time_year is_gentime cbs of
        (None, _) \<Rightarrow> Some (False, out_tm)
      | (Some year, copy) \<Rightarrow>
     (case parse_time_field (\<lambda>month. \<not> (month < 1 \<or> month > 12)) copy of
        (None, _) \<Rightarrow> Some (False, out_tm)
      | (Some month, copy) \<Rightarrow>
     (case parse_time_field (is_valid_day year month) copy of
        (None, _) \<Rightarrow> Some (False, out_tm)
      | (Some day, copy) \<Rightarrow>
     (case parse_time_field (\<lambda>hour. \<not> hour > 23) copy of
        (None, _) \<Rightarrow> Some (False, out_tm)
      | (Some hour, copy) \<Rightarrow>
     (case parse_time_field (\<lambda>minute. \<not> minute > 59) copy of
        (None, _) \<Rightarrow> Some (False, out_tm)
      | (Some minute, copy) \<Rightarrow>
     (case parse_time_field (\<lambda>sec. \<not> sec > 59) copy of
        (None, _) \<Rightarrow> Some (False, out_tm)
      | (Some sec, copy) \<Rightarrow>
     (case parse_time_zone allow_timezone_offset copy of
        (None, _) \<Rightarrow> Some (False, out_tm)
      | (Some offset_seconds, copy) \<Rightarrow>
          if length copy \<noteq> 0 then Some (False, out_tm)
          else case out_tm of
                 None \<Rightarrow> Some (True, None)
               | Some t \<Rightarrow>
                   let t = t\<lparr>tm_year := year - 1900, tm_mon := month - 1, tm_mday := day,
                             tm_hour := hour, tm_min := minute, tm_sec := sec\<rparr>
                   in if offset_seconds \<noteq> 0 then
                        (case OPENSSL_gmtime_adj t 0 offset_seconds of
                           None \<Rightarrow> None
                         | Some None \<Rightarrow> Some (False, Some t)
                         | Some (Some t) \<Rightarrow> Some (True, Some t))
                      else Some (True, Some t))))))))"

definition CBS_parse_generalized_time :: "CBS \<Rightarrow> tm option \<Rightarrow> bool \<Rightarrow> (bool \<times> tm option) option" where
  "CBS_parse_generalized_time cbs out_tm allow_timezone_offset =
     CBS_parse_rfc5280_time_internal cbs True allow_timezone_offset out_tm"

definition CBS_parse_utc_time :: "CBS \<Rightarrow> tm option \<Rightarrow> bool \<Rightarrow> (bool \<times> tm option) option" where
  "CBS_parse_utc_time cbs out_tm allow_timezone_offset =
     CBS_parse_rfc5280_time_internal cbs False allow_timezone_offset out_tm"

section \<open>Fields\<close>

definition digits2 :: "int \<Rightarrow> bytes" where
  "digits2 n = [of_int (0x30 + n div 10), of_int (0x30 + n mod 10)]"

lemma digit_u8: "OPENSSL_isdigit (uint c) \<Longrightarrow> (c :: u8) = of_int (0x30 + (uint c - 0x30))"
  by simp

lemma uint_digit:
  assumes "0 \<le> k" and "k \<le> 9"
  shows "uint (of_int (0x30 + k) :: u8) = 0x30 + k"
  using assms by (simp only: uint_word_of_int) (simp add: take_bit_eq_mod)

lemma two_digits_iff:
  "cbs_get_two_digits cbs = (Some n, r) \<longleftrightarrow> (0 \<le> n \<and> n \<le> 99) \<and> cbs = digits2 n @ r"
proof
  assume a: "cbs_get_two_digits cbs = (Some n, r)"
  then obtain a b where cbs: "cbs = a # b # r" and d: "OPENSSL_isdigit (uint a)" "OPENSSL_isdigit (uint b)"
    and n: "n = 10 * (uint a - 0x30) + (uint b - 0x30)"
    by (cases cbs rule: list.exhaust; cases "tl cbs") (auto simp: cbs_get_two_digits_def split: if_splits)
  have "n div 10 = uint a - 0x30" "n mod 10 = uint b - 0x30"
    using int_div_pos_eq [OF n] int_mod_pos_eq [OF n] d by (auto simp: OPENSSL_isdigit_def)
  then show "(0 \<le> n \<and> n \<le> 99) \<and> cbs = digits2 n @ r" using d n by (simp add: cbs digits2_def OPENSSL_isdigit_def)
next
  assume a: "(0 \<le> n \<and> n \<le> 99) \<and> cbs = digits2 n @ r"
  then have b: "0 \<le> n div 10" "n div 10 \<le> 9" "0 \<le> n mod 10" "n mod 10 \<le> 9"
    using zdiv_mono1 [of n 99 10] pos_mod_bound [of 10 n] by (simp_all add: pos_imp_zdiv_nonneg_iff)
  then show "cbs_get_two_digits cbs = (Some n, r)" using a uint_digit [OF b(1,2)] uint_digit [OF b(3,4)]
    by (simp add: cbs_get_two_digits_def digits2_def OPENSSL_isdigit_def)
qed

interpretation two_digits: canonical_codec digits2 cbs_get_two_digits "\<lambda>n. 0 \<le> n \<and> n \<le> 99"
  by unfold_locales (simp_all only: two_digits_iff simp_thms)

lemma parse_time_field_iff:
  "parse_time_field ok cbs = (Some v, r) \<longleftrightarrow> (ok v \<and> 0 \<le> v \<and> v \<le> 99) \<and> cbs = digits2 v @ r"
proof -
  have "parse_time_field ok cbs = (Some v, r) \<longleftrightarrow> ok v \<and> cbs_get_two_digits cbs = (Some v, r)"
    by (auto simp: parse_time_field_def split: prod.splits option.splits)
  then show ?thesis by (simp only: two_digits_iff conj_assoc)
qed

text \<open>The text of the year in the two forms.\<close>

definition year_text :: "bool \<Rightarrow> int \<Rightarrow> bytes" where
  "year_text is_gentime y = (if is_gentime then digits2 (y div 100) @ digits2 (y mod 100) else digits2 (y mod 100))"

definition year_ok :: "bool \<Rightarrow> int \<Rightarrow> bool" where
  "year_ok is_gentime y \<longleftrightarrow> (if is_gentime then 0 \<le> y \<and> y \<le> 9999 else 1950 \<le> y \<and> y < 2050)"

lemma parse_time_year_iff:
  "parse_time_year g cbs = (Some y, r) \<longleftrightarrow> year_ok g y \<and> cbs = year_text g y @ r"
proof (cases g)
  case True
  have "parse_time_year True cbs = (Some y, r) \<longleftrightarrow>
      (\<exists>a b c. cbs_get_two_digits cbs = (Some a, c) \<and> cbs_get_two_digits c = (Some b, r) \<and> y = 100 * a + b)"
    by (auto simp: parse_time_year_def Let_def split: prod.splits option.splits)
  also have "\<dots> \<longleftrightarrow> (\<exists>a b. (0 \<le> a \<and> a \<le> 99) \<and> (0 \<le> b \<and> b \<le> 99) \<and> cbs = digits2 a @ digits2 b @ r \<and> y = 100 * a + b)"
    unfolding two_digits_iff by blast
  also have "\<dots> \<longleftrightarrow> (0 \<le> y \<and> y \<le> 9999) \<and> cbs = digits2 (y div 100) @ digits2 (y mod 100) @ r"
  proof (intro iffI; (elim exE conjE)?)
    fix a b
    assume a: "0 \<le> a" "a \<le> 99" "0 \<le> b" "b \<le> 99" "cbs = digits2 a @ digits2 b @ r" and y: "y = 100 * a + b"
    have "y div 100 = a" "y mod 100 = b" using int_div_pos_eq [OF y] int_mod_pos_eq [OF y] a by auto
    then show "(0 \<le> y \<and> y \<le> 9999) \<and> cbs = digits2 (y div 100) @ digits2 (y mod 100) @ r" using a y by simp
  next
    assume "0 \<le> y" "y \<le> 9999" "cbs = digits2 (y div 100) @ digits2 (y mod 100) @ r"
    then show "\<exists>a b. (0 \<le> a \<and> a \<le> 99) \<and> (0 \<le> b \<and> b \<le> 99) \<and> cbs = digits2 a @ digits2 b @ r \<and> y = 100 * a + b"
      using zdiv_mono1 [of y 9999 100] pos_mod_bound [of 100 y]
      by (intro exI [of _ "y div 100"] exI [of _ "y mod 100"]) (simp add: pos_imp_zdiv_nonneg_iff)
  qed
  finally show ?thesis using True by (simp add: year_ok_def year_text_def)
next
  case False
  obtain v c where e: "cbs_get_two_digits cbs = (v, c)" by (cases "cbs_get_two_digits cbs")
  have "parse_time_year False cbs = (Some y, r) \<longleftrightarrow>
      (\<exists>a. cbs_get_two_digits cbs = (Some a, r) \<and> y = (if a < 50 then 2000 + a else 1900 + a) \<and> y < 2050)"
    by (cases v) (auto simp: parse_time_year_def Let_def e)
  also have "\<dots> \<longleftrightarrow> (\<exists>a. ((0 \<le> a \<and> a \<le> 99) \<and> y = (if a < 50 then 2000 + a else 1900 + a)) \<and> cbs = digits2 a @ r)"
  proof -
    have "(if a < 50 then 2000 + a else 1900 + a) < 2050" if "a \<le> (99 :: int)" for a using that by auto
    then show ?thesis unfolding two_digits_iff by blast
  qed
  also have "\<dots> \<longleftrightarrow> (1950 \<le> y \<and> y < 2050) \<and> cbs = digits2 (y mod 100) @ r"
  proof -
    have "y mod 100 = (if y < 2000 then y - 1900 else y - 2000)" if "1950 \<le> y" "y < 2050"
      using that int_mod_pos_eq [of y 100 19 "y - 1900"] int_mod_pos_eq [of y 100 20 "y - 2000"] by auto
    then have "(0 \<le> a \<and> a \<le> 99) \<and> y = (if a < 50 then 2000 + a else 1900 + a) \<longleftrightarrow> (1950 \<le> y \<and> y < 2050) \<and> a = y mod 100" for a
      by (auto split: if_splits)
    then show ?thesis by (simp only: conj_assoc simp_thms ex_simps)
  qed
  finally show ?thesis using False by (simp add: year_ok_def year_text_def)
qed


lemma parse_time_zone_Z: "parse_time_zone False cbs = (Some z, r) \<longleftrightarrow> z = 0 \<and> cbs = 0x5a # r"
  by (cases cbs) (auto simp: parse_time_zone_def Let_def)

lemma is_valid_day_iff:
  assumes "0 \<le> y" and "1 \<le> m" and "m \<le> 12"
  shows "is_valid_day y m d \<longleftrightarrow> 1 \<le> d \<and> d \<le> month_days y m"
proof -
  have "y smod k = y mod k" if "0 < k" for k using that assms(1) by (rule smod_nonneg [rotated])
  then show ?thesis
    by (cases rule: month_cases [OF assms(2,3)]) (auto simp: is_valid_day_def month_days_def leap_def)
qed

section \<open>Properties\<close>

text \<open>The text of a time in the form that RFC 5280 allows.\<close>

definition time_text :: "bool \<Rightarrow> int \<Rightarrow> int \<Rightarrow> int \<Rightarrow> int \<Rightarrow> int \<Rightarrow> int \<Rightarrow> bytes" where
  "time_text g y m d H M S =
     year_text g y @ digits2 m @ digits2 d @ digits2 H @ digits2 M @ digits2 S @ [0x5a]"

lemma rfc5280_time_iff:
  "CBS_parse_rfc5280_time_internal cbs g False (Some t) = Some (True, out) \<longleftrightarrow>
     (\<exists>y m d H M S. year_ok g y \<and> is_valid_date y m d \<and> is_valid_time H M S \<and> cbs = time_text g y m d H M S \<and>
        out = Some (t\<lparr>tm_year := y - 1900, tm_mon := m - 1, tm_mday := d, tm_hour := H, tm_min := M, tm_sec := S\<rparr>))"
proof (intro iffI; (elim exE conjE)?)
  assume "CBS_parse_rfc5280_time_internal cbs g False (Some t) = Some (True, out)"
  then have "\<exists>y c1 m c2 d c3 H c4 M c5 S c6. parse_time_year g cbs = (Some y, c1) \<and>
       parse_time_field (\<lambda>month. \<not> (month < 1 \<or> month > 12)) c1 = (Some m, c2) \<and>
       parse_time_field (is_valid_day y m) c2 = (Some d, c3) \<and>
       parse_time_field (\<lambda>hour. \<not> hour > 23) c3 = (Some H, c4) \<and>
       parse_time_field (\<lambda>minute. \<not> minute > 59) c4 = (Some M, c5) \<and>
       parse_time_field (\<lambda>sec. \<not> sec > 59) c5 = (Some S, c6) \<and> parse_time_zone False c6 = (Some 0, []) \<and>
       out = Some (t\<lparr>tm_year := y - 1900, tm_mon := m - 1, tm_mday := d, tm_hour := H, tm_min := M, tm_sec := S\<rparr>)"
    by (auto simp: CBS_parse_rfc5280_time_internal_def parse_time_zone_Z Let_def split: prod.splits option.splits if_splits)
  then obtain y c1 m c2 d c3 H c4 M c5 S c6 where c:
      "year_ok g y" "cbs = year_text g y @ c1" "1 \<le> m" "m \<le> 12" "c1 = digits2 m @ c2" "is_valid_day y m d" "c2 = digits2 d @ c3"
      "0 \<le> H" "H \<le> 23" "c3 = digits2 H @ c4" "0 \<le> M" "M \<le> 59" "c4 = digits2 M @ c5" "0 \<le> S" "S \<le> 59" "c5 = digits2 S @ c6" "c6 = [0x5a]"
      and out: "out = Some (t\<lparr>tm_year := y - 1900, tm_mon := m - 1, tm_mday := d, tm_hour := H, tm_min := M, tm_sec := S\<rparr>)"
      unfolding parse_time_year_iff parse_time_field_iff parse_time_zone_Z not_less not_le de_Morgan_disj by blast
    have "0 \<le> y" "y \<le> 9999" using c(1) by (auto simp: year_ok_def split: if_splits)
    then have "is_valid_date y m d" using c(3,4,6) is_valid_day_iff [of y m d] by (auto simp: is_valid_date_iff)
    moreover have "is_valid_time H M S" using c by (simp add: is_valid_time_def)
    moreover have "cbs = time_text g y m d H M S" by (simp add: c(2,5,7,10,13,16,17) time_text_def)
    ultimately show "\<exists>y m d H M S. year_ok g y \<and> is_valid_date y m d \<and> is_valid_time H M S \<and> cbs = time_text g y m d H M S \<and>
        out = Some (t\<lparr>tm_year := y - 1900, tm_mon := m - 1, tm_mday := d, tm_hour := H, tm_min := M, tm_sec := S\<rparr>)"
      using c(1) out by blast
next
  fix y m d H M S
  assume c: "year_ok g y" "is_valid_date y m d" "is_valid_time H M S" "cbs = time_text g y m d H M S"
    "out = Some (t\<lparr>tm_year := y - 1900, tm_mon := m - 1, tm_mday := d, tm_hour := H, tm_min := M, tm_sec := S\<rparr>)"
  have d: "0 \<le> y" "1 \<le> m" "m \<le> 12" "1 \<le> d" "d \<le> month_days y m" using c(2) by (auto simp: is_valid_date_iff)
  moreover have "month_days y m \<le> 31" by (simp add: month_days_def)
  moreover have "0 \<le> H" "H \<le> 23" "0 \<le> M" "M \<le> 59" "0 \<le> S" "S \<le> 59" using c(3) by (auto simp: is_valid_time_def)
  moreover have "is_valid_day y m d" using is_valid_day_iff d by blast
  ultimately have
    "parse_time_field (\<lambda>month. \<not> (month < 1 \<or> month > 12)) (digits2 m @ r) = (Some m, r)"
    "parse_time_field (is_valid_day y m) (digits2 d @ r) = (Some d, r)"
    "parse_time_field (\<lambda>hour. \<not> hour > 23) (digits2 H @ r) = (Some H, r)"
    "parse_time_field (\<lambda>minute. \<not> minute > 59) (digits2 M @ r) = (Some M, r)"
    "parse_time_field (\<lambda>sec. \<not> sec > 59) (digits2 S @ r) = (Some S, r)" for r
    unfolding parse_time_field_iff by auto
  moreover have "parse_time_year g (year_text g y @ r) = (Some y, r)" for r using c(1) parse_time_year_iff by blast
  moreover have "parse_time_zone False [0x5a] = (Some 0, [])" by (simp add: parse_time_zone_Z)
  ultimately show "CBS_parse_rfc5280_time_internal cbs g False (Some t) = Some (True, out)"
    unfolding CBS_parse_rfc5280_time_internal_def c(4) time_text_def by (simp add: c(5) del: not_less)
qed

text \<open>
  What the parsers leave in \<^verbatim>\<open>out_tm\<close>: the six fields of the date and the time are set, and the others keep the
  value they had.
\<close>

lemma rfc5280_time_kept:
  assumes "CBS_parse_rfc5280_time_internal cbs g False (Some t) = Some (True, Some t')"
  shows "tm_wday t' = tm_wday t \<and> tm_yday t' = tm_yday t \<and> tm_isdst t' = tm_isdst t"
  using assms unfolding rfc5280_time_iff by auto

lemma rfc5280_time_fields:
  "(\<exists>t'. CBS_parse_rfc5280_time_internal cbs g False (Some t) = Some (True, Some t') \<and>
      (tm_year t' + 1900, tm_mon t' + 1, tm_mday t', tm_hour t', tm_min t', tm_sec t') = (y, m, d, H, M, S)) \<longleftrightarrow>
   year_ok g y \<and> is_valid_date y m d \<and> is_valid_time H M S \<and> cbs = time_text g y m d H M S"
proof
  assume "year_ok g y \<and> is_valid_date y m d \<and> is_valid_time H M S \<and> cbs = time_text g y m d H M S"
  then have "CBS_parse_rfc5280_time_internal cbs g False (Some t) = Some (True, Some (t\<lparr>tm_year := y - 1900,
      tm_mon := m - 1, tm_mday := d, tm_hour := H, tm_min := M, tm_sec := S\<rparr>))"
    unfolding rfc5280_time_iff by blast
  then show "\<exists>t'. CBS_parse_rfc5280_time_internal cbs g False (Some t) = Some (True, Some t') \<and>
      (tm_year t' + 1900, tm_mon t' + 1, tm_mday t', tm_hour t', tm_min t', tm_sec t') = (y, m, d, H, M, S)"
    by (intro exI conjI) (assumption, simp)
qed (auto simp: rfc5280_time_iff)

text \<open>The offset of a time zone is less than a day, so applying it does not overflow.\<close>

lemma parse_time_zone_bound:
  assumes "parse_time_zone a cbs = (Some z, r)"
  shows "adj_args 0 z"
proof (cases "z = 0")
  case False
  then obtain h m where "0 \<le> h" "h \<le> 23" "0 \<le> m" "m \<le> 59" "z = h * 3600 + m * 60 \<or> z = - (h * 3600 + m * 60)"
    using assms by (auto simp: parse_time_zone_def Let_def parse_time_field_iff split: prod.splits option.splits if_splits)
  then show ?thesis by (auto simp: adj_args_def)
qed (simp add: adj_args_def)

lemma gmtime_adj_defined: "adj_args days secs \<Longrightarrow> OPENSSL_gmtime_adj t days secs \<noteq> None"
  by (cases "OPENSSL_tm_to_posix t") (simp_all add: gmtime_adj_eq, simp add: OPENSSL_gmtime_adj_def)

lemma rfc5280_time_defined: "CBS_parse_rfc5280_time_internal cbs g a out \<noteq> None"
  unfolding CBS_parse_rfc5280_time_internal_def Let_def
  by (auto split: prod.splits option.splits dest!: parse_time_zone_bound dest: gmtime_adj_defined)

text \<open>
  C25: with \<^verbatim>\<open>allow_timezone_offset\<close> zero, \<^verbatim>\<open>CBS_parse_generalized_time\<close> succeeds with the year, month, day, hour,
  minute and second of a time in the corresponding fields of \<^verbatim>\<open>out_tm\<close> exactly when the input is the text
  \<^verbatim>\<open>YYYYMMDDHHMMSSZ\<close> of that time and the time exists in the Gregorian calendar; \<^verbatim>\<open>CBS_parse_utc_time\<close> does for
  the text \<^verbatim>\<open>YYMMDDHHMMSSZ\<close> of times from 1950 to 2049. On every input, and also with time zone offsets, both
  return without signed overflow.
\<close>

theorem rfc5280_time_canonical:
  "((\<exists>t'. CBS_parse_generalized_time cbs (Some t) False = Some (True, Some t') \<and>
      (tm_year t' + 1900, tm_mon t' + 1, tm_mday t', tm_hour t', tm_min t', tm_sec t') = (y, m, d, H, M, S)) \<longleftrightarrow>
    (0 \<le> y \<and> y \<le> 9999) \<and> (1 \<le> m \<and> m \<le> 12) \<and> (1 \<le> d \<and> d \<le> month_days y m) \<and>
    (0 \<le> H \<and> H \<le> 23) \<and> (0 \<le> M \<and> M \<le> 59) \<and> (0 \<le> S \<and> S \<le> 59) \<and> cbs = time_text True y m d H M S) \<and>
   ((\<exists>t'. CBS_parse_utc_time cbs (Some t) False = Some (True, Some t') \<and>
      (tm_year t' + 1900, tm_mon t' + 1, tm_mday t', tm_hour t', tm_min t', tm_sec t') = (y, m, d, H, M, S)) \<longleftrightarrow>
    (1950 \<le> y \<and> y \<le> 2049) \<and> (1 \<le> m \<and> m \<le> 12) \<and> (1 \<le> d \<and> d \<le> month_days y m) \<and>
    (0 \<le> H \<and> H \<le> 23) \<and> (0 \<le> M \<and> M \<le> 59) \<and> (0 \<le> S \<and> S \<le> 59) \<and> cbs = time_text False y m d H M S) \<and>
   CBS_parse_generalized_time cbs out a \<noteq> None \<and> CBS_parse_utc_time cbs out a \<noteq> None"
  unfolding CBS_parse_generalized_time_def CBS_parse_utc_time_def rfc5280_time_fields is_valid_date_iff is_valid_time_def year_ok_def
  using rfc5280_time_defined by auto

text \<open>
  Where offsets are allowed the code adds an offset \<^verbatim>\<open>+hhmm\<close> to the local time, although local time is ahead of
  UTC by that much: noon at one hour ahead of UTC is eleven o'clock UTC, not thirteen.
\<close>

lemma utc_time_offset_sign:
  "CBS_parse_utc_time (digits2 85 @ digits2 1 @ digits2 1 @ digits2 12 @ digits2 0 @ digits2 0 @ [0x2b] @ digits2 1 @ digits2 0)
     (Some t) True =
   Some (True, Some \<lparr>tm_sec = 0, tm_min = 0, tm_hour = 13, tm_mday = 1, tm_mon = 0, tm_year = 85, tm_wday = 0, tm_yday = 0, tm_isdst = 0\<rparr>)"
proof -
  have adj: "OPENSSL_gmtime_adj (t\<lparr>tm_year := 85, tm_mon := 0, tm_mday := 1, tm_hour := 12, tm_min := 0, tm_sec := 0\<rparr>) 0 3600 =
      Some (Some \<lparr>tm_sec = 0, tm_min = 0, tm_hour = 13, tm_mday = 1, tm_mon = 0, tm_year = 85, tm_wday = 0, tm_yday = 0, tm_isdst = 0\<rparr>)"
  proof -
    have "posix_time_from_utc 1985 1 1 12 0 0 = Some 473428800" by code_simp
    then have "OPENSSL_tm_to_posix (t\<lparr>tm_year := 85, tm_mon := 0, tm_mday := 1, tm_hour := 12, tm_min := 0, tm_sec := 0\<rparr>) = Some 473428800"
      by (simp add: OPENSSL_tm_to_posix_def)
    from gmtime_adj_eq [OF this, of 0 3600] show ?thesis by (simp add: adj_args_def) code_simp
  qed
  have z: "parse_time_zone True ([0x2b] @ digits2 1 @ digits2 0) = (Some 3600, [])" by code_simp
  have y: "parse_time_year False (digits2 85 @ r) = (Some 1985, r)" for r
    using parse_time_year_iff [of False "digits2 85 @ r" 1985 r] by (simp add: year_ok_def year_text_def)
  have f: "parse_time_field ok (digits2 v @ r) = (Some v, r)" if "ok v" "0 \<le> v" "v \<le> 99" for ok v r
    using that parse_time_field_iff by blast
  show ?thesis
    unfolding CBS_parse_utc_time_def CBS_parse_rfc5280_time_internal_def
    by (simp add: y f z adj is_valid_day_def del: append_Cons)
qed

end
