(* ===== verification/Ber.thy ===== *)
theory Ber
  imports Cbb_Asn1 Der
begin

text \<open>
  \<^verbatim>\<open>crypto/bytestring/ber.c\<close>: conversion of BER to DER. A first walk looks for anything that is not DER; only
  when it finds something is the input rewritten, with indefinite lengths and constructed strings replaced.
\<close>

definition kMaxDepth :: nat where "kMaxDepth = 128"

definition string_tags :: "CBS_ASN1_TAG set" where
  "string_tags = {0x4, 0xc, 0x12, 0x13, 0x14, 0x15, 0x16, 0x19, 0x1a, 0x1b, 0x1c, 0x1e}"

definition is_string_type :: "CBS_ASN1_TAG \<Rightarrow> bool" where
  "is_string_type tag \<longleftrightarrow> tag AND NOT CBS_ASN1_CONSTRUCTED \<in> string_tags"

definition constructed :: "CBS_ASN1_TAG \<Rightarrow> bool" where
  "constructed tag \<longleftrightarrow> tag AND CBS_ASN1_CONSTRUCTED \<noteq> 0"

lemma der_not_Nil [simp]: "der t d \<noteq> []"
  using length_der_tag [of t] by (auto simp: der_def)

text \<open>Every element consumes input.\<close>

lemma ber_element_consumes:
  assumes "CBS_get_any_ber_asn1_element cbs = (Some e, r)"
  shows "cbs = elt_out e @ r" "2 \<le> elt_header_len e" "elt_header_len e \<le> length (elt_out e)"
    "length r + 2 \<le> length cbs"
  using cbs_get_any_asn1_element_consumed [of cbs True] assms
  by (auto simp: CBS_get_any_ber_asn1_element_def element_consumed_def)

lemma CBS_skip_drop: "n \<le> length cbs \<Longrightarrow> CBS_skip cbs n = (True, drop n cbs)"
  by (simp add: CBS_skip_def cbs_get_def)

lemma CBS_skip_True: "CBS_skip cbs n = (True, r) \<Longrightarrow> length r \<le> length cbs - n"
  by (auto simp: CBS_skip_def cbs_get_def split: if_splits)

text \<open>The walk: \<open>None\<close> is a zero return, \<open>Some\<close> the value of \<^verbatim>\<open>*ber_found\<close>.\<close>

function cbs_find_ber :: "nat \<Rightarrow> CBS \<Rightarrow> bool option" where
  "cbs_find_ber depth inp =
     (if depth > kMaxDepth then None
      else if length inp = 0 then Some False
      else case CBS_get_any_ber_asn1_element inp of
             (None, _) \<Rightarrow> None
           | (Some e, inp) \<Rightarrow>
               if elt_ber_found e then Some True
               else if constructed (elt_tag e) then
                 (if is_string_type (elt_tag e) then Some True
                  else case CBS_skip (elt_out e) (elt_header_len e) of
                         (False, _) \<Rightarrow> None
                       | (True, body) \<Rightarrow>
                           (case cbs_find_ber (depth + 1) body of
                              None \<Rightarrow> None
                            | Some True \<Rightarrow> Some True
                            | Some False \<Rightarrow> cbs_find_ber depth inp))
               else cbs_find_ber depth inp)"
  by pat_completeness auto
termination
proof (relation "measure (\<lambda>(depth, inp). length inp)", simp, goal_cases)
  case (1 depth inp x y e b body)
  have "length body \<le> length (elt_out e) - elt_header_len e" by (rule CBS_skip_True) (use 1 in simp)
  moreover note ber_element_consumes [OF 1(3) [unfolded 1(4), symmetric]]
  moreover from this(1) have "length inp = length (elt_out e) + length y" by simp
  ultimately have "length body < length inp" by linarith
  then show ?case by simp
next
  case (2 depth inp x y e b body)
  from ber_element_consumes(4) [OF 2(3) [unfolded 2(4), symmetric]] show ?case by simp
next
  case (3 depth inp x y e)
  from ber_element_consumes(4) [OF 3(3) [unfolded 3(4), symmetric]] show ?case by simp
qed

declare cbs_find_ber.simps [simp del]

definition cbs_get_eoc :: "CBS \<Rightarrow> bool \<times> CBS" where
  "cbs_get_eoc cbs = (if length cbs \<ge> 2 \<and> cbs ! 0 = 0 \<and> cbs ! 1 = 0 then CBS_skip cbs 2 else (False, cbs))"

text \<open>
  How an element is written. Inside a constructed string (\<open>string_tag\<close> is not zero) its contents go to \<^verbatim>\<open>out\<close>
  itself; otherwise a child is opened, with the constructed bit of a string cleared and the tag of the string
  passed on to the fragments.
\<close>

definition ber_out_tag :: "CBS_ASN1_TAG \<Rightarrow> CBS_ASN1_TAG" where
  "ber_out_tag tag = (if constructed tag \<and> is_string_type tag then tag AND NOT CBS_ASN1_CONSTRUCTED else tag)"

definition ber_child_string_tag :: "CBS_ASN1_TAG \<Rightarrow> CBS_ASN1_TAG \<Rightarrow> CBS_ASN1_TAG" where
  "ber_child_string_tag string_tag tag =
     (if string_tag \<noteq> 0 then string_tag else if constructed tag \<and> is_string_type tag then ber_out_tag tag else string_tag)"

definition ber_open :: "allocator \<Rightarrow> CBB \<Rightarrow> nat \<Rightarrow> CBS_ASN1_TAG \<Rightarrow> CBS_ASN1_TAG \<Rightarrow> bool \<times> CBB" where
  "ber_open M c k string_tag tag =
     (if string_tag \<noteq> 0 then (tag AND NOT CBS_ASN1_CONSTRUCTED = string_tag, c) else CBB_add_asn1 M c k (ber_out_tag tag))"

definition ber_out_contents :: "nat \<Rightarrow> CBS_ASN1_TAG \<Rightarrow> nat" where
  "ber_out_contents k string_tag = (if string_tag \<noteq> 0 then k else Suc k)"

text \<open>
  The conversion: whether it returned one, what is left of the input, and the builder. \<open>k\<close> is the handle
  \<^verbatim>\<open>out\<close>.
\<close>

function cbs_convert_ber :: "allocator \<Rightarrow> CBB \<Rightarrow> nat \<Rightarrow> CBS_ASN1_TAG \<Rightarrow> bool \<Rightarrow> nat \<Rightarrow> CBS \<Rightarrow> bool \<times> CBS \<times> CBB" where
  "cbs_convert_ber M c k string_tag looking_for_eoc depth inp =
     (if depth > kMaxDepth then (False, inp, c)
      else if length inp = 0 then (\<not> looking_for_eoc, inp, c)
      else if looking_for_eoc \<and> fst (cbs_get_eoc inp) then (True, snd (cbs_get_eoc inp), c)
      else case CBS_get_any_ber_asn1_element inp of
             (None, inp) \<Rightarrow> (False, inp, c)
           | (Some e, inp) \<Rightarrow>
               (case ber_open M c k string_tag (elt_tag e) of
                  (False, c) \<Rightarrow> (False, inp, c)
                | (True, c) \<Rightarrow>
                    if elt_indefinite e then
                      (case cbs_convert_ber M c (ber_out_contents k string_tag)
                              (ber_child_string_tag string_tag (elt_tag e)) True (depth + 1) inp of
                         (False, inp, c) \<Rightarrow> (False, inp, c)
                       | (True, inp, c) \<Rightarrow>
                           (case CBB_flush M c k of
                              (False, c) \<Rightarrow> (False, inp, c)
                            | (True, c) \<Rightarrow> cbs_convert_ber M c k string_tag looking_for_eoc depth inp))
                    else
                      (case CBS_skip (elt_out e) (elt_header_len e) of
                         (False, _) \<Rightarrow> (False, inp, c)
                       | (True, body) \<Rightarrow>
                           (case (if constructed (elt_tag e)
                                  then (case cbs_convert_ber M c (ber_out_contents k string_tag)
                                               (ber_child_string_tag string_tag (elt_tag e)) False (depth + 1) body of
                                          (ok, _, c) \<Rightarrow> (ok, c))
                                  else CBB_add_bytes M c (ber_out_contents k string_tag) body) of
                              (False, c) \<Rightarrow> (False, inp, c)
                            | (True, c) \<Rightarrow>
                                (case CBB_flush M c k of
                                   (False, c) \<Rightarrow> (False, inp, c)
                                 | (True, c) \<Rightarrow> cbs_convert_ber M c k string_tag looking_for_eoc depth inp)))))"
  by pat_completeness auto

lemma cbs_get_eoc_shorter: "length (snd (cbs_get_eoc inp)) \<le> length inp"
  by (simp add: cbs_get_eoc_def CBS_skip_def cbs_get_def)

text \<open>The conversion never puts input back, which is what its own termination rests on.\<close>

lemma convert_ber_shorter:
  "cbs_convert_ber_dom (M, c, k, st, eoc, depth, inp) \<Longrightarrow>
     length (fst (snd (cbs_convert_ber M c k st eoc depth inp))) \<le> length inp"
proof (induction M c k st eoc depth inp rule: cbs_convert_ber.pinduct)
  case (1 M c k st eoc depth inp)
  note eqn = cbs_convert_ber.psimps [OF 1(1)]
  show ?case
  proof (cases "depth > kMaxDepth \<or> length inp = 0 \<or> eoc \<and> fst (cbs_get_eoc inp) \<or> fst (CBS_get_any_ber_asn1_element inp) = None")
    case True
    have "snd (CBS_get_any_ber_asn1_element inp) = inp" if "fst (CBS_get_any_ber_asn1_element inp) = None"
      using that cbs_get_any_asn1_element_consumed [of inp True]
      by (cases "CBS_get_any_ber_asn1_element inp") (auto simp: CBS_get_any_ber_asn1_element_def element_consumed_def)
    with True show ?thesis by (auto simp: eqn cbs_get_eoc_shorter split: prod.split)
  next
    case False
    then obtain e r where g: "\<not> kMaxDepth < depth" "length inp \<noteq> 0" "\<not> (eoc \<and> fst (cbs_get_eoc inp))"
      and e: "CBS_get_any_ber_asn1_element inp = (Some e, r)" by (cases "CBS_get_any_ber_asn1_element inp") auto
    have r: "length r \<le> length inp" using ber_element_consumes(4) [OF e] by simp
    obtain ok1 c1 where o: "ber_open M c k st (elt_tag e) = (ok1, c1)" by (cases "ber_open M c k st (elt_tag e)")
    note eqn' = eqn [unfolded if_not_P [OF g(1)] if_not_P [OF g(2)] if_not_P [OF g(3)] e prod.case option.case o]
    note IH = 1(2-5) [OF g e [symmetric] refl o [symmetric]]
    consider "\<not> ok1" | "ok1" "elt_indefinite e" | "ok1" "\<not> elt_indefinite e" by blast
    then show ?thesis
    proof cases
      case 1
      then show ?thesis unfolding eqn' using r by simp
    next
      case 2
      obtain ok2 r2 c2 where f: "cbs_convert_ber M c1 (ber_out_contents k st) (ber_child_string_tag st (elt_tag e)) True (depth + 1) r = (ok2, r2, c2)"
        by (metis prod_cases3)
      obtain ok3 c3 where fl: "CBB_flush M c2 k = (ok3, c3)" by (cases "CBB_flush M c2 k")
      have r2: "length r2 \<le> length r" using IH(1) 2 f by simp
      have "length (fst (snd (cbs_convert_ber M c3 k st eoc depth r2))) \<le> length r2" if "ok2" "ok3"
        using IH(2) [OF _ 2(2) f [symmetric] _ refl fl [symmetric]] 2(1) that by simp
      then show ?thesis unfolding eqn' if_P [OF 2(2)] f prod.case fl using 2(1) r r2 by (cases ok2; cases ok3) simp_all
    next
      case 3
      obtain ok2 b where sk: "CBS_skip (elt_out e) (elt_header_len e) = (ok2, b)" by (cases "CBS_skip (elt_out e) (elt_header_len e)")
      obtain ok3 c3 where w: "(if constructed (elt_tag e)
          then case cbs_convert_ber M c1 (ber_out_contents k st) (ber_child_string_tag st (elt_tag e)) False (depth + 1) b of (ok, _, c) \<Rightarrow> (ok, c)
          else CBB_add_bytes M c1 (ber_out_contents k st) b) = (ok3, c3)" by fastforce
      obtain ok4 c4 where fl: "CBB_flush M c3 k = (ok4, c4)" by (cases "CBB_flush M c3 k")
      have "length (fst (snd (cbs_convert_ber M c4 k st eoc depth r))) \<le> length r" if "ok2" "ok3" "ok4"
        using IH(4) [OF _ 3(2) sk [symmetric] _ w [symmetric] _ fl [symmetric]] 3(1) that by simp
      then show ?thesis unfolding eqn' if_not_P [OF 3(2)] sk prod.case w fl using 3(1) r by (cases ok2; cases ok3; cases ok4) simp_all
    qed
  qed
qed

termination cbs_convert_ber
proof (relation "measure (\<lambda>(M, c, k, st, eoc, depth, inp). length inp)", simp, goal_cases)
  case (1 M c k st eoc depth inp x y e xa ya)
  from ber_element_consumes(4) [OF 1(4) [unfolded 1(5), symmetric]] show ?case by simp
next
  case (2 M c k st eoc depth inp x y e xa ya xb yb xc yc xd yd)
  from ber_element_consumes(4) [OF 2(4) [unfolded 2(5), symmetric]] have "length y < length inp" by simp
  moreover have "length xc \<le> length y" using convert_ber_shorter [OF 2(14)] 2(9) 2(11) by (metis fst_conv snd_conv)
  ultimately show ?case by simp
next
  case (3 M c k st eoc depth inp x y e xa ya xb yb)
  have "length yb \<le> length (elt_out e) - elt_header_len e" by (rule CBS_skip_True) (use 3 in simp)
  moreover note ber_element_consumes [OF 3(4) [unfolded 3(5), symmetric]]
  moreover from this(1) have "length inp = length (elt_out e) + length y" by simp
  ultimately have "length yb < length inp" by linarith
  then show ?case by simp
next
  case (4 M c k st eoc depth inp x y e)
  from ber_element_consumes(4) [OF 4(4) [unfolded 4(5), symmetric]] show ?case by simp
qed

declare cbs_convert_ber.simps [simp del]

text \<open>The ways in which the conversion succeeds.\<close>

lemma convert_ber_True:
  assumes "cbs_convert_ber M c k st eoc depth inp = (True, rest, c')"
  obtains (finished) "depth \<le> kMaxDepth" "\<not> eoc" "inp = []" "rest = []" "c' = c"
  | (at_eoc) "depth \<le> kMaxDepth" "eoc" "fst (cbs_get_eoc inp)" "rest = snd (cbs_get_eoc inp)" "c' = c"
  | (element) e r c1 r2 c2 c3 where "depth \<le> kMaxDepth" "inp \<noteq> []" "\<not> (eoc \<and> fst (cbs_get_eoc inp))"
      "CBS_get_any_ber_asn1_element inp = (Some e, r)" "ber_open M c k st (elt_tag e) = (True, c1)"
      "if elt_indefinite e
       then cbs_convert_ber M c1 (ber_out_contents k st) (ber_child_string_tag st (elt_tag e)) True (depth + 1) r = (True, r2, c2)
       else r2 = r \<and>
         (if constructed (elt_tag e)
          then \<exists>x. cbs_convert_ber M c1 (ber_out_contents k st) (ber_child_string_tag st (elt_tag e)) False (depth + 1)
                    (drop (elt_header_len e) (elt_out e)) = (True, x, c2)
          else CBB_add_bytes M c1 (ber_out_contents k st) (drop (elt_header_len e) (elt_out e)) = (True, c2))"
      "CBB_flush M c2 k = (True, c3)" "cbs_convert_ber M c3 k st eoc depth r2 = (True, rest, c')"
proof -
  note eqn = assms [unfolded cbs_convert_ber.simps [of M c k st eoc depth inp]]
  have d: "depth \<le> kMaxDepth" using eqn by (simp add: not_less split: if_splits)
  show ?thesis
  proof (cases "inp = [] \<or> eoc \<and> fst (cbs_get_eoc inp)")
    case True
    have "\<not> fst (cbs_get_eoc [])" by (simp add: cbs_get_eoc_def)
    with True eqn d finished at_eoc show ?thesis by (auto simp: not_less split: if_splits)
  next
    case False
    then obtain e r where e: "CBS_get_any_ber_asn1_element inp = (Some e, r)"
      using eqn d by (auto simp: not_less split: if_splits prod.splits option.splits)
    have sk: "CBS_skip (elt_out e) (elt_header_len e) = (True, drop (elt_header_len e) (elt_out e))"
      using ber_element_consumes(3) [OF e] by (rule CBS_skip_drop)
    have g: "\<not> depth > kMaxDepth" "length inp \<noteq> 0" "\<not> (eoc \<and> fst (cbs_get_eoc inp))" using d False by auto
    obtain c1 where o: "ber_open M c k st (elt_tag e) = (True, c1)"
      using eqn unfolding if_not_P [OF g(1)] if_not_P [OF g(2)] if_not_P [OF g(3)] e prod.case option.case
      by (auto split: prod.splits bool.splits)
    note eqn' = eqn [unfolded if_not_P [OF g(1)] if_not_P [OF g(2)] if_not_P [OF g(3)] e prod.case option.case o bool.case sk]
    show ?thesis
    proof (cases "elt_indefinite e")
      case True
      then obtain r2 c2 c3 where "cbs_convert_ber M c1 (ber_out_contents k st) (ber_child_string_tag st (elt_tag e)) True (depth + 1) r = (True, r2, c2)"
        "CBB_flush M c2 k = (True, c3)" "cbs_convert_ber M c3 k st eoc depth r2 = (True, rest, c')"
        using eqn' by (auto split: prod.splits bool.splits)
      then show ?thesis using element [OF d _ _ e o] True False by auto
    next
      case ni: False
      then obtain c2 c3 where b: "(if constructed (elt_tag e)
          then case cbs_convert_ber M c1 (ber_out_contents k st) (ber_child_string_tag st (elt_tag e)) False (depth + 1)
                 (drop (elt_header_len e) (elt_out e)) of (ok, _, c) \<Rightarrow> (ok, c)
          else CBB_add_bytes M c1 (ber_out_contents k st) (drop (elt_header_len e) (elt_out e))) = (True, c2)"
        and f: "CBB_flush M c2 k = (True, c3)" "cbs_convert_ber M c3 k st eoc depth r = (True, rest, c')"
        using eqn' unfolding if_not_P [OF ni] by (auto split: prod.splits bool.splits)
      have "if constructed (elt_tag e)
          then \<exists>x. cbs_convert_ber M c1 (ber_out_contents k st) (ber_child_string_tag st (elt_tag e)) False (depth + 1)
                    (drop (elt_header_len e) (elt_out e)) = (True, x, c2)
          else CBB_add_bytes M c1 (ber_out_contents k st) (drop (elt_header_len e) (elt_out e)) = (True, c2)"
        using b by (auto split: prod.splits if_splits)
      then show ?thesis using element [OF d _ _ e o _ f] ni False by auto
    qed
  qed
qed

text \<open>
  The result is \<^verbatim>\<open>*out\<close> and \<^verbatim>\<open>*out_storage\<close> (\<open>None\<close> when the function returns zero), and what is left
  of the input.
\<close>

definition CBS_asn1_ber_to_der :: "allocator \<Rightarrow> CBS \<Rightarrow> (CBS \<times> bytes option) option \<times> CBS" where
  "CBS_asn1_ber_to_der M inp =
     (case cbs_find_ber 0 inp of
        None \<Rightarrow> (None, inp)
      | Some conversion_needed \<Rightarrow>
          if \<not> conversion_needed then
            (case CBS_get_any_asn1_element inp of
               (None, inp) \<Rightarrow> (None, inp)
             | (Some e, inp) \<Rightarrow> (Some (elt_out e, None), inp))
          else
            (case CBB_init M (length inp) of
               (False, _) \<Rightarrow> (None, inp)
             | (True, c) \<Rightarrow>
                 (case cbs_convert_ber M c 0 0 False 0 inp of
                    (False, inp, _) \<Rightarrow> (None, inp)
                  | (True, inp, c) \<Rightarrow>
                      (case CBB_finish M True c 0 of
                         (None, _) \<Rightarrow> (None, inp)
                       | (Some (out_storage, len), _) \<Rightarrow> (Some (take len out_storage, Some out_storage), inp)))))"

text \<open>The loop of \<^verbatim>\<open>CBS_get_asn1_implicit_string\<close> over the fragments.\<close>

function implicit_string_loop :: "allocator \<Rightarrow> CBB \<Rightarrow> CBS_ASN1_TAG \<Rightarrow> CBS \<Rightarrow> bool \<times> CBB" where
  "implicit_string_loop M c inner_tag child =
     (if length child > 0 then
        (case CBS_get_asn1 inner_tag child of
           (None, _) \<Rightarrow> (False, c)
         | (Some chunk, child) \<Rightarrow>
             (case CBB_add_bytes M c 0 chunk of
                (False, c) \<Rightarrow> (False, c)
              | (True, c) \<Rightarrow> implicit_string_loop M c inner_tag child))
      else (True, c))"
  by pat_completeness auto
termination
proof (relation "measure (\<lambda>(M, c, inner_tag, child). length child)", simp, goal_cases)
  case (1 M c inner_tag child x y chunk xa ya)
  then have "CBS_get_asn1 inner_tag child = (Some chunk, y)" by simp
  then have "child = der inner_tag chunk @ y" by (simp add: CBS_get_asn1_iff)
  then show ?case by simp
qed

declare implicit_string_loop.simps [simp del]

definition CBS_get_asn1_implicit_string ::
    "allocator \<Rightarrow> CBS_ASN1_TAG \<Rightarrow> CBS_ASN1_TAG \<Rightarrow> CBS \<Rightarrow> (CBS \<times> bytes option) option \<times> CBS" where
  "CBS_get_asn1_implicit_string M outer_tag inner_tag inp =
     (if CBS_peek_asn1_tag inp outer_tag then
        (case CBS_get_asn1 outer_tag inp of (None, inp) \<Rightarrow> (None, inp) | (Some out, inp) \<Rightarrow> (Some (out, None), inp))
      else
        (case CBB_init M (length inp) of
           (False, _) \<Rightarrow> (None, inp)
         | (True, c) \<Rightarrow>
             (case CBS_get_asn1 (outer_tag OR CBS_ASN1_CONSTRUCTED) inp of
                (None, inp) \<Rightarrow> (None, inp)
              | (Some child, inp) \<Rightarrow>
                  (case implicit_string_loop M c inner_tag child of
                     (False, _) \<Rightarrow> (None, inp)
                   | (True, c) \<Rightarrow>
                       (case CBB_finish M True c 0 of
                          (None, _) \<Rightarrow> (None, inp)
                        | (Some (data, len), _) \<Rightarrow> (Some (take len data, Some data), inp))))))"

section \<open>The walk\<close>

text \<open>Walking over an element that is DER.\<close>

lemma find_ber_Nil: "depth \<le> kMaxDepth \<Longrightarrow> cbs_find_ber depth [] = Some False"
  by (simp add: cbs_find_ber.simps)

lemma find_ber_der:
  assumes "depth \<le> kMaxDepth" and "tag_ok t" and "length d < 2 ^ 32"
    and "constructed t \<longrightarrow> \<not> is_string_type t \<and> cbs_find_ber (depth + 1) d = Some False"
  shows "cbs_find_ber depth (der t d @ r) = cbs_find_ber depth r"
proof -
  have e: "CBS_get_any_ber_asn1_element (der t d @ r) = (Some (der_element t d), r)" "\<not> elt_ber_found (der_element t d)"
    using CBS_get_any_asn1_element_complete [OF assms(2,3), of r] der_reader_iff by auto
  have "CBS_skip (elt_out (der_element t d)) (elt_header_len (der_element t d)) = (True, d)"
    by (simp add: der_element_def CBS_skip_def cbs_get_def der_def)
  moreover have "length (der t d @ r) \<noteq> 0" by simp
  moreover have "elt_tag (der_element t d) = t" by (simp add: der_element_def)
  ultimately show ?thesis
    using assms(1,4) e by (subst cbs_find_ber.simps) (simp add: not_less del: length_append)
qed

text \<open>Input without BER is a sequence of DER elements.\<close>

lemma find_ber_cases:
  assumes "cbs_find_ber depth inp = Some False"
  obtains (finished) "depth \<le> kMaxDepth" "inp = []"
  | (element) t d r where "depth \<le> kMaxDepth" "tag_ok t" "length d < 2 ^ 32" "inp = der t d @ r"
      "constructed t \<longrightarrow> \<not> is_string_type t \<and> cbs_find_ber (depth + 1) d = Some False" "cbs_find_ber depth r = Some False"
proof (cases "inp = []")
  case True
  then show ?thesis using assms finished by (subst (asm) cbs_find_ber.simps) (auto split: if_splits)
next
  case False
  then obtain e r where d: "depth \<le> kMaxDepth" and e: "CBS_get_any_ber_asn1_element inp = (Some e, r)" and b: "\<not> elt_ber_found e"
    using assms by (subst (asm) cbs_find_ber.simps) (auto simp: not_less split: if_splits prod.splits option.splits)
  then have "CBS_get_any_asn1_element inp = (Some e, r)" using der_reader_iff by blast
  from CBS_get_any_asn1_element_sound [OF this] obtain t c where t: "tag_ok t" "length c < 2 ^ 32" "inp = der t c @ r" "e = der_element t c" by blast
  have sk: "CBS_skip (elt_out e) (elt_header_len e) = (True, c)"
    by (simp add: t(4) der_element_def CBS_skip_def cbs_get_def der_def)
  have tg: "elt_tag e = t" by (simp add: t(4) der_element_def)
  have "(constructed t \<longrightarrow> \<not> is_string_type t \<and> cbs_find_ber (depth + 1) c = Some False) \<and> cbs_find_ber depth r = Some False"
    using assms False d b sk tg by (subst (asm) cbs_find_ber.simps) (auto simp: e not_less split: if_splits option.splits bool.splits)
  with element d t show ?thesis by blast
qed

end
