(* ===== verification/Ber_Grammar.thy ===== *)
theory Ber_Grammar
  imports Der
begin

text \<open>
  BER and its conversion to DER as grammars over byte strings (ITU-T X.690, 8.1), written without the functions of
  \<^verbatim>\<open>cbs.c\<close> and \<^verbatim>\<open>ber.c\<close>, and the proof that the element reader of \<^verbatim>\<open>cbs.c\<close> accepts exactly the BER elements.
\<close>

section \<open>Elements\<close>

text \<open>The length octets that announce \<open>n\<close> octets: the short form, or one to four octets of any width that fits.\<close>

definition ber_len :: "bytes \<Rightarrow> nat \<Rightarrow> bool" where
  "ber_len ls n \<longleftrightarrow> n < 128 \<and> ls = [of_nat n] \<or>
     (\<exists>k. 1 \<le> k \<and> k \<le> 4 \<and> n < 256 ^ k \<and> ls = of_nat (128 + k) # be_bytes k n)"

text \<open>The constructed flag is bit 29 of a tag of the library; bit 6 of the identifier octet.\<close>

definition con :: "CBS_ASN1_TAG \<Rightarrow> bool" where
  "con t \<longleftrightarrow> bit t 29"

definition primitive :: "CBS_ASN1_TAG \<Rightarrow> CBS_ASN1_TAG" where
  "primitive t = unset_bit 29 t"

text \<open>
  The universal string types: OCTET STRING, UTF8String, NumericString, PrintableString, TeletexString,
  VideotexString, IA5String, GraphicString, VisibleString, GeneralString, UniversalString and BMPString. (BIT STRING
  is not among those that are reassembled.)
\<close>

definition string_type :: "CBS_ASN1_TAG \<Rightarrow> bool" where
  "string_type t \<longleftrightarrow> primitive t \<in> {4, 12, 18, 19, 20, 21, 22, 25, 26, 27, 28, 30}"

section \<open>DER that the conversion leaves alone\<close>

text \<open>
  A sequence of elements with minimal definite lengths in which no constructed element has one of the string types,
  at any depth; the nesting is at most 128 levels deep.
\<close>

inductive plain_der :: "nat \<Rightarrow> bytes \<Rightarrow> bool" where
  plain_end: "depth \<le> 128 \<Longrightarrow> plain_der depth []"
| plain_prim: "depth \<le> 128 \<Longrightarrow> tag_ok t \<Longrightarrow> \<not> con t \<Longrightarrow> length c < 2 ^ 32 \<Longrightarrow> plain_der depth r \<Longrightarrow>
    plain_der depth (der t c @ r)"
| plain_cons: "depth \<le> 128 \<Longrightarrow> tag_ok t \<Longrightarrow> con t \<Longrightarrow> \<not> string_type t \<Longrightarrow> length c < 2 ^ 32 \<Longrightarrow>
    plain_der (depth + 1) c \<Longrightarrow> plain_der depth r \<Longrightarrow> plain_der depth (der t c @ r)"

section \<open>The conversion\<close>

text \<open>
  The string type that the contents of an element are fragments of, when the element itself is a fragment of \<open>st\<close>.
\<close>

definition fragments_of :: "CBS_ASN1_TAG option \<Rightarrow> CBS_ASN1_TAG \<Rightarrow> CBS_ASN1_TAG option" where
  "fragments_of st t =
     (case st of Some s \<Rightarrow> Some s | None \<Rightarrow> if con t \<and> string_type t then Some (primitive t) else None)"

text \<open>
  What is written for an element whose converted contents are \<open>d\<close>: inside a constructed string the contents
  alone, and the element must have the type of the string; elsewhere a DER element, where a constructed string becomes
  primitive. The builder writes lengths up to 0xfffffffe.
\<close>

definition rewritten :: "CBS_ASN1_TAG option \<Rightarrow> CBS_ASN1_TAG \<Rightarrow> bytes \<Rightarrow> bytes \<Rightarrow> bool" where
  "rewritten st t d out \<longleftrightarrow>
     (case st of
        Some s \<Rightarrow> primitive t = s \<and> out = d
      | None \<Rightarrow> length d \<le> 0xfffffffe \<and> out = der (if string_type t then primitive t else t) d)"

text \<open>
  \<open>ber_der st eoc depth inp out rest\<close>: the elements at the front of \<open>inp\<close> convert to \<open>out\<close> and leave \<open>rest\<close>. With
  \<open>eoc\<close> they end at the first end-of-contents, two zero octets; otherwise at the end of the input.
\<close>

inductive ber_der :: "CBS_ASN1_TAG option \<Rightarrow> bool \<Rightarrow> nat \<Rightarrow> bytes \<Rightarrow> bytes \<Rightarrow> bytes \<Rightarrow> bool" where
  bd_end: "depth \<le> 128 \<Longrightarrow> ber_der st False depth [] [] []"
| bd_eoc: "depth \<le> 128 \<Longrightarrow> ber_der st True depth (0 # 0 # r) [] r"
| bd_prim: "depth \<le> 128 \<Longrightarrow> tag_ok t \<Longrightarrow> \<not> con t \<Longrightarrow> ber_len ls (length c) \<Longrightarrow> rewritten st t c o1 \<Longrightarrow>
    ber_der st eoc depth r o2 rest \<Longrightarrow> ber_der st eoc depth (der_tag t @ ls @ c @ r) (o1 @ o2) rest"
| bd_cons: "depth \<le> 128 \<Longrightarrow> tag_ok t \<Longrightarrow> con t \<Longrightarrow> ber_len ls (length c) \<Longrightarrow>
    ber_der (fragments_of st t) False (depth + 1) c d [] \<Longrightarrow> rewritten st t d o1 \<Longrightarrow>
    ber_der st eoc depth r o2 rest \<Longrightarrow> ber_der st eoc depth (der_tag t @ ls @ c @ r) (o1 @ o2) rest"
| bd_indef: "depth \<le> 128 \<Longrightarrow> tag_ok t \<Longrightarrow> con t \<Longrightarrow>
    ber_der (fragments_of st t) True (depth + 1) r d r2 \<Longrightarrow> rewritten st t d o1 \<Longrightarrow>
    ber_der st eoc depth r2 o2 rest \<Longrightarrow> ber_der st eoc depth (der_tag t @ 0x80 # r) (o1 @ o2) rest"

section \<open>The reader of BER elements\<close>

lemma con_flag: "con t \<longleftrightarrow> t AND CBS_ASN1_CONSTRUCTED \<noteq> 0"
proof -
  have c: "CBS_ASN1_CONSTRUCTED = 2 ^ 29" by code_simp
  show ?thesis unfolding con_def c and_exp_eq_0_iff_not_bit by simp
qed

lemma primitive_mask: "primitive t = t AND NOT CBS_ASN1_CONSTRUCTED"
proof -
  have "CBS_ASN1_CONSTRUCTED = push_bit 29 1" by code_simp
  then show ?thesis by (simp add: primitive_def unset_bit_eq_and_not)
qed

definition ber_definite :: "CBS_ASN1_TAG \<Rightarrow> bytes \<Rightarrow> bytes \<Rightarrow> asn1_element" where
  "ber_definite t ls c =
     \<lparr>elt_out = der_tag t @ ls @ c, elt_tag = t, elt_header_len = length (der_tag t) + length ls,
      elt_ber_found = (ls \<noteq> der_len (length c)), elt_indefinite = False\<rparr>"

definition ber_indefinite :: "CBS_ASN1_TAG \<Rightarrow> asn1_element" where
  "ber_indefinite t =
     \<lparr>elt_out = der_tag t @ [0x80], elt_tag = t, elt_header_len = length (der_tag t) + 1,
      elt_ber_found = True, elt_indefinite = True\<rparr>"

lemma ber_len_length: "ber_len ls n \<Longrightarrow> 1 \<le> length ls \<and> length ls \<le> 5 \<and> n < 2 ^ 32"
proof -
  assume a: "ber_len ls n"
  have "(256 :: nat) ^ k \<le> 256 ^ 4" if "k \<le> 4" for k using that by (intro power_increasing) auto
  then show ?thesis using a by (fastforce simp: ber_len_def)
qed

lemma long_form_minimal:
  assumes "1 \<le> k" and "k \<le> 4" and "n < 256 ^ k"
  shows "of_nat (128 + k) # be_bytes k n = der_len n \<longleftrightarrow> 128 \<le> n \<and> 256 ^ (k - 1) \<le> n"
proof
  assume a: "of_nat (128 + k) # be_bytes k n = der_len n"
  then have l: "length (der_len n) = Suc k" by (metis length_Cons length_be_bytes)
  have "128 \<le> n" using l assms(1) by (cases "n < 128") (auto simp: der_len_def)
  moreover from this l have "len_octets n = k" by (simp add: der_len_def)
  ultimately show "128 \<le> n \<and> 256 ^ (k - 1) \<le> n" using len_octets_ge [of n] by auto
next
  assume "128 \<le> n \<and> 256 ^ (k - 1) \<le> n"
  then show "of_nat (128 + k) # be_bytes k n = der_len n" using der_len_long [OF assms] by simp
qed


lemma length_byte_cases:
  fixes b :: u8
  obtains (short) "b AND 0x80 = 0" "unat b < 128" | (long) k where "b AND 0x80 \<noteq> 0" "unat (b AND 0x7f) = k" "unat b = 128 + k"
proof (cases "b AND 0x80 = 0")
  case False
  have ge: "128 \<le> unat b" using False by (simp add: u8_and_80)
  have "unat b - 128 < 128" using unat_u8_less [of b] by linarith
  then have "unat b = 128 + unat (b AND 0x7f)" using ge by (simp add: u8_and_7f le_mod_geq)
  with False show ?thesis using long by blast
qed (use short in \<open>simp add: u8_and_80\<close>)

lemma ber_reader_sound:
  assumes "CBS_get_any_ber_asn1_element cbs = (Some e, r)"
  shows "(\<exists>t ls c. tag_ok t \<and> ber_len ls (length c) \<and> cbs = der_tag t @ ls @ c @ r \<and> e = ber_definite t ls c) \<or>
    (\<exists>t. tag_ok t \<and> con t \<and> cbs = der_tag t @ 0x80 # r \<and> e = ber_indefinite t)"
proof -
  from assms obtain t h b h' where tag: "parse_asn1_tag cbs = (Some t, h)"
    and len: "CBS_get_u8 h = (Some b, h')"
    by (auto simp: CBS_get_any_ber_asn1_element_def cbs_get_any_asn1_element_def split: prod.splits option.splits)
  have t: "tag_ok t" and cbs: "cbs = der_tag t @ b # h'"
    using parse_asn1_tag_sound [OF tag] len by (cases h; auto)+
  let ?n = "Suc (length (der_tag t))"
  show ?thesis
  proof (cases b rule: length_byte_cases)
    case short
    have "asn1_element_of cbs (unat b + ?n) t ?n False False = (Some e, r)"
      using assms tag len short by (simp add: CBS_get_any_ber_asn1_element_def cbs_get_any_asn1_element_def cbs)
    then have l: "unat b \<le> length h'" "r = drop (unat b) h'"
      and e: "e = \<lparr>elt_out = der_tag t @ b # take (unat b) h', elt_tag = t, elt_header_len = ?n,
               elt_ber_found = False, elt_indefinite = False\<rparr>"
      by (auto simp: asn1_element_of_Some cbs)
    have "ber_len [b] (length (take (unat b) h'))" "der_len (length (take (unat b) h')) = [b]"
      using short l by (simp_all add: ber_len_def der_len_def min_def)
    then show ?thesis
      using t l e by (intro disjI1 exI [of _ t] exI [of _ "[b]"] exI [of _ "take (unat b) h'"])
        (simp add: cbs ber_definite_def)
  next
    case (long k)
    note eqn = assms [unfolded CBS_get_any_ber_asn1_element_def cbs_get_any_asn1_element_def tag prod.case option.case len Let_def if_not_P [OF long(1)]]
    show ?thesis
    proof (cases "t AND CBS_ASN1_CONSTRUCTED \<noteq> 0 \<and> k = 0")
      case True
      then have "asn1_element_of cbs ?n t ?n True True = (Some e, r)" using eqn long by (simp add: cbs)
      then have e: "r = h'" "e = \<lparr>elt_out = der_tag t @ [b], elt_tag = t, elt_header_len = ?n, elt_ber_found = True, elt_indefinite = True\<rparr>"
        by (auto simp: asn1_element_of_Some cbs)
      have "b = 0x80" using long True by (simp add: word_unat_eq_iff)
      then show ?thesis using t True e by (intro disjI2 exI [of _ t]) (simp add: cbs ber_indefinite_def con_flag)
    next
      case False
      then obtain v h'' where k: "1 \<le> k" "k \<le> 4" and u: "cbs_get_u h' k = (Some v, h'')"
        and el: "asn1_element_of cbs (size_add (unat v) (?n + k)) t (?n + k) (unat v < 128 \<or> unat v < 256 ^ (k - 1)) False = (Some e, r)"
        using eqn long by (auto simp: cbs minimal_len_iff [unfolded One_nat_def] word_less_nat_alt
            split: if_splits prod.splits option.splits)
      have v: "unat v < 256 ^ k" "h' = be_bytes k (unat v) @ h''" using u k by (simp_all add: cbs_get_u_iff)
      have "size_add (unat v) (?n + k) = ?n + k + unat v"
        using length_octets_no_wrap [OF u k(2), of "?n + k"] k(2) length_der_tag [of t] by simp
      then have l: "unat v \<le> length h''" "r = drop (unat v) h''"
        and e: "e = \<lparr>elt_out = der_tag t @ b # be_bytes k (unat v) @ take (unat v) h'', elt_tag = t,
                 elt_header_len = ?n + k, elt_ber_found = (unat v < 128 \<or> unat v < 256 ^ (k - 1)), elt_indefinite = False\<rparr>"
        using el by (auto simp: asn1_element_of_Some cbs v(2))
      have b: "b = of_nat (128 + k)" using long(3) by (metis of_nat_unat ucast_id)
      have "ber_len (b # be_bytes k (unat v)) (length (take (unat v) h''))"
        using k v(1) l unfolding ber_len_def b by (intro disjI2 exI [of _ k]) (simp add: min_def)
      moreover have "(unat v < 128 \<or> unat v < 256 ^ (k - 1)) \<longleftrightarrow> b # be_bytes k (unat v) \<noteq> der_len (unat v)"
        using long_form_minimal [OF k v(1)] unfolding b by auto
      ultimately show ?thesis
        using t l e by (intro disjI1 exI [of _ t] exI [of _ "b # be_bytes k (unat v)"] exI [of _ "take (unat v) h''"])
          (simp add: cbs v(2) ber_definite_def min_def)
    qed
  qed
qed

lemma ber_reader_definite:
  assumes "tag_ok t" and "ber_len ls (length c)"
  shows "CBS_get_any_ber_asn1_element (der_tag t @ ls @ c @ r) = (Some (ber_definite t ls c), r)"
proof -
  have tag: "parse_asn1_tag (der_tag t @ ls @ c @ r) = (Some t, ls @ c @ r)"
    using parse_asn1_tag_complete [OF assms(1)] by simp
  from assms(2) consider "length c < 128" "ls = [of_nat (length c)]" |
    k where "1 \<le> k" "k \<le> 4" "length c < 256 ^ k" "ls = of_nat (128 + k) # be_bytes k (length c)"
    by (auto simp: ber_len_def)
  then show ?thesis
  proof cases
    case 1
    define b where "b = (of_nat (length c) :: u8)"
    have b: "unat b = length c" using 1 by (simp add: b_def)
    then have "b AND 0x80 = 0" using 1 by (simp add: u8_and_80)
    moreover have "der_len (length c) = [b]" "ls = [b]" using 1 by (simp_all add: der_len_def b_def)
    ultimately show ?thesis
      using tag b by (simp add: CBS_get_any_ber_asn1_element_def cbs_get_any_asn1_element_def asn1_element_of_Some ber_definite_def)
  next
    case (2 k)
    define b where "b = (of_nat (128 + k) :: u8)"
    define v where "v = (of_nat (length c) :: u64)"
    have "unat b = 128 + k" using 2 by (simp add: b_def del: of_nat_add)
    then have bk: "b AND 0x80 \<noteq> 0" "unat (b AND 0x7f) = k" using 2 by (simp_all add: u8_and_80 u8_and_7f)
    have lt: "length c < 2 ^ 32" using ber_len_length [OF assms(2)] by simp
    then have v: "unat v = length c" by (simp add: v_def unat_of_nat)
    have u: "cbs_get_u (be_bytes k (length c) @ c @ r) k = (Some v, c @ r)" using 2 by (simp add: cbs_get_u_iff v)
    have sz: "size_add (length c) (Suc (length (der_tag t)) + k) = length c + (Suc (length (der_tag t)) + k)"
      using length_octets_no_wrap [OF u 2(2), of "Suc (length (der_tag t)) + k"] v 2(2) length_der_tag [of t] by simp
    have min: "(v < 128 \<or> drop_bit ((k - 1) * 8) v = 0) \<longleftrightarrow> b # be_bytes k (length c) \<noteq> der_len (length c)"
      using long_form_minimal [OF 2(1-3)] unfolding minimal_len_iff b_def by (auto simp: word_less_nat_alt v)
    show ?thesis
      using tag 2(1,2) bk u v sz unfolding 2(4) b_def [symmetric]
      by (simp add: CBS_get_any_ber_asn1_element_def cbs_get_any_asn1_element_def asn1_element_of_Some
          ber_definite_def min Let_def del: One_nat_def)
  qed
qed

lemma ber_reader_indefinite:
  assumes "tag_ok t" and "con t"
  shows "CBS_get_any_ber_asn1_element (der_tag t @ 0x80 # r) = (Some (ber_indefinite t), r)"
proof -
  have tag: "parse_asn1_tag (der_tag t @ 0x80 # r) = (Some t, 0x80 # r)"
    using parse_asn1_tag_complete [OF assms(1)] by simp
  have "(0x80 :: u8) AND 0x80 \<noteq> 0" "unat ((0x80 :: u8) AND 0x7f) = 0" by code_simp+
  then show ?thesis
    using tag assms(2) by (simp add: CBS_get_any_ber_asn1_element_def cbs_get_any_asn1_element_def asn1_element_of_Some
        ber_indefinite_def con_flag)
qed

end
