(* ===== verification/Ber_Spec.thy ===== *)
theory Ber_Spec
  imports Ber Cbb_Der Ber_Grammar
begin

text \<open>
  What \<^verbatim>\<open>cbs_convert_ber\<close> writes, first as a relation \<open>converts\<close> between input and output that follows the code
  but does not mention the builder, with the proof that the code implements it in both directions; then the
  proof that this relation is the grammar of \<open>Ber_Grammar\<close>, and the properties in terms of that grammar.
\<close>

section \<open>The conversion as a relation\<close>

text \<open>The output for an element whose converted contents are \<open>d\<close>.\<close>

definition ber_wrap :: "CBS_ASN1_TAG \<Rightarrow> CBS_ASN1_TAG \<Rightarrow> bytes \<Rightarrow> bytes" where
  "ber_wrap st tag d = (if st \<noteq> 0 then d else der (ber_out_tag tag) d)"

definition ber_fits :: "CBS_ASN1_TAG \<Rightarrow> CBS_ASN1_TAG \<Rightarrow> bytes \<Rightarrow> bool" where
  "ber_fits st tag d \<longleftrightarrow> (if st \<noteq> 0 then tag AND NOT CBS_ASN1_CONSTRUCTED = st else length d \<le> 0xfffffffe)"

inductive converts :: "CBS_ASN1_TAG \<Rightarrow> bool \<Rightarrow> nat \<Rightarrow> CBS \<Rightarrow> bytes \<Rightarrow> CBS \<Rightarrow> bool" where
  conv_end: "depth \<le> kMaxDepth \<Longrightarrow> converts st False depth [] [] []"
| conv_eoc: "depth \<le> kMaxDepth \<Longrightarrow> fst (cbs_get_eoc inp) \<Longrightarrow> converts st True depth inp [] (snd (cbs_get_eoc inp))"
| conv_prim: "depth \<le> kMaxDepth \<Longrightarrow> inp \<noteq> [] \<Longrightarrow> \<not> (eoc \<and> fst (cbs_get_eoc inp)) \<Longrightarrow>
    CBS_get_any_ber_asn1_element inp = (Some e, r) \<Longrightarrow> \<not> elt_indefinite e \<Longrightarrow> \<not> constructed (elt_tag e) \<Longrightarrow>
    d = drop (elt_header_len e) (elt_out e) \<Longrightarrow> ber_fits st (elt_tag e) d \<Longrightarrow>
    converts st eoc depth r d' rest \<Longrightarrow> converts st eoc depth inp (ber_wrap st (elt_tag e) d @ d') rest"
| conv_cons: "depth \<le> kMaxDepth \<Longrightarrow> inp \<noteq> [] \<Longrightarrow> \<not> (eoc \<and> fst (cbs_get_eoc inp)) \<Longrightarrow>
    CBS_get_any_ber_asn1_element inp = (Some e, r) \<Longrightarrow> \<not> elt_indefinite e \<Longrightarrow> constructed (elt_tag e) \<Longrightarrow>
    converts (ber_child_string_tag st (elt_tag e)) False (depth + 1) (drop (elt_header_len e) (elt_out e)) d x \<Longrightarrow>
    ber_fits st (elt_tag e) d \<Longrightarrow>
    converts st eoc depth r d' rest \<Longrightarrow> converts st eoc depth inp (ber_wrap st (elt_tag e) d @ d') rest"
| conv_indef: "depth \<le> kMaxDepth \<Longrightarrow> inp \<noteq> [] \<Longrightarrow> \<not> (eoc \<and> fst (cbs_get_eoc inp)) \<Longrightarrow>
    CBS_get_any_ber_asn1_element inp = (Some e, r) \<Longrightarrow> elt_indefinite e \<Longrightarrow>
    converts (ber_child_string_tag st (elt_tag e)) True (depth + 1) r d r2 \<Longrightarrow>
    ber_fits st (elt_tag e) d \<Longrightarrow>
    converts st eoc depth r2 d' rest \<Longrightarrow> converts st eoc depth inp (ber_wrap st (elt_tag e) d @ d') rest"

section \<open>One element in the builder\<close>

lemma flush_at_depth:
  assumes "cbb_wf c" and "malloc_ok M" and "length (cbb_chain c) = k" and "CBB_flush M c k = (True, c')"
  shows "CBB_abs c' = CBB_abs c"
  using refines_True [OF CBB_flush_contract [OF assms(1,2), of k, unfolded assms(4)]] spec_flush_innermost [of k c] assms(3) by simp

lemma abs_depth: "length (snd (CBB_abs c)) = length (cbb_chain c)"
  by (simp add: CBB_abs_def)

lemma ber_open_True:
  assumes "cbb_wf c" and "malloc_ok M" and "\<not> cb_error (cbb_base c)" and "length (cbb_chain c) = k"
    and "ber_open M c k st tag = (True, c1)"
  shows "grown c c1 \<and> length (cbb_chain c1) = ber_out_contents k st"
proof (cases "st = 0")
  case False
  then show ?thesis using assms by (simp add: ber_open_def ber_out_contents_def grown_def)
next
  case True
  then have a: "CBB_add_asn1 M c k (ber_out_tag tag) = (True, c1)" using assms(5) by (simp add: ber_open_def)
  note r = refines_True [OF CBB_add_asn1_contract [OF assms(1,2), of k "ber_out_tag tag", unfolded a]]
  then have "length (snd (CBB_abs c1)) = Suc k" using spec_open_asn1_depth [OF builder_wf_abs] by blast
  then show ?thesis using r True by (simp add: abs_depth ber_out_contents_def)
qed

lemma element_written:
  assumes wf: "cbb_wf c" and M: "malloc_ok M" and "\<not> cb_error (cbb_base c)" and k: "length (cbb_chain c) = k"
    and o: "ber_open M c k st tag = (True, c1)" and g: "grown c1 c2"
    and w: "spec_append (ber_out_contents k st) d (CBB_abs c1) = Some (CBB_abs c2)" and f: "CBB_flush M c2 k = (True, c3)"
  shows "ber_fits st tag d \<and> spec_append k (ber_wrap st tag d) (CBB_abs c) = Some (CBB_abs c3) \<and> grown c c3 \<and>
    length (cbb_chain c3) = k"
proof -
  have w2: "cbb_wf c2" using g by (simp add: grown_def)
  note fl = refines_True [OF CBB_flush_contract [OF w2 M, of k, unfolded f]]
  have g3: "grown c c3" using ber_open_True [OF assms(1-4) o] g fl grown_trans by blast
  have k3: "length (cbb_chain c3) = k"
    using spec_flush_idem [OF builder_wf_abs, of k c2 "CBB_abs c3"] fl by (simp add: abs_depth)
  show ?thesis
  proof (cases "st = 0")
    case False
    then have c1: "c1 = c" "tag AND NOT CBS_ASN1_CONSTRUCTED = st" using o by (simp_all add: ber_open_def)
    then have a: "spec_append k d (CBB_abs c) = Some (CBB_abs c2)" using w False by (simp add: ber_out_contents_def)
    then have "length (cbb_chain c2) = k" using spec_append_depth [OF builder_wf_abs a] by (simp add: abs_depth)
    then have "CBB_abs c3 = CBB_abs c2" by (rule flush_at_depth [OF w2 M _ f])
    then show ?thesis using a c1 False g3 k3 by (simp add: ber_fits_def ber_wrap_def)
  next
    case True
    then have a: "CBB_add_asn1 M c k (ber_out_tag tag) = (True, c1)" using o by (simp add: ber_open_def)
    have "spec_open_asn1 k (ber_out_tag tag) (CBB_abs c) = Some (CBB_abs c1)"
      using refines_True [OF CBB_add_asn1_contract [OF wf M, of k "ber_out_tag tag", unfolded a]] by simp
    then have "Option.bind (spec_open_asn1 k (ber_out_tag tag) (CBB_abs c)) (\<lambda>B. Option.bind (spec_append (Suc k) d B) (spec_flush k)) = Some (CBB_abs c3)"
      using w fl True by (simp add: ber_out_contents_def)
    then show ?thesis using True g3 k3 by (simp add: spec_asn1_element ber_fits_def ber_wrap_def split: if_splits)
  qed
qed

section \<open>The code follows the relation\<close>

lemma body_shorter:
  assumes "CBS_get_any_ber_asn1_element inp = (Some e, r)"
  shows "length (drop (elt_header_len e) (elt_out e)) < length inp" "length r < length inp"
    "length (drop (elt_header_len e) (elt_out e)) < 2 ^ 32"
proof -
  note c = ber_element_consumes [OF assms]
  have "length inp = length (elt_out e) + length r" using c(1) by simp
  then show "length (drop (elt_header_len e) (elt_out e)) < length inp" using c(2,3) by simp
  show "length r < length inp" using c(4) by simp
  show "length (drop (elt_header_len e) (elt_out e)) < 2 ^ 32"
    using ber_element_shape [OF assms] c(3) by (simp add: element_shape_def less_diff_conv2)
qed

text \<open>The rules for the three kinds of element as one.\<close>

definition converts_contents :: "CBS_ASN1_TAG \<Rightarrow> nat \<Rightarrow> asn1_element \<Rightarrow> CBS \<Rightarrow> bytes \<Rightarrow> CBS \<Rightarrow> bool" where
  "converts_contents st depth e r d r2 \<longleftrightarrow>
     (if elt_indefinite e then converts st True (depth + 1) r d r2
      else r2 = r \<and>
        (let body = drop (elt_header_len e) (elt_out e)
         in if constructed (elt_tag e) then \<exists>x. converts st False (depth + 1) body d x else d = body))"

lemma converts_element:
  assumes "depth \<le> kMaxDepth" and "inp \<noteq> []" and "\<not> (eoc \<and> fst (cbs_get_eoc inp))"
    and "CBS_get_any_ber_asn1_element inp = (Some e, r)"
    and "converts_contents (ber_child_string_tag st (elt_tag e)) depth e r d r2" and "ber_fits st (elt_tag e) d"
    and "converts st eoc depth r2 d' rest"
  shows "converts st eoc depth inp (ber_wrap st (elt_tag e) d @ d') rest"
  using assms(5-7) conv_prim [OF assms(1-4)] conv_cons [OF assms(1-4)] conv_indef [OF assms(1-4)]
  by (auto simp: converts_contents_def Let_def split: if_splits)

text \<open>The contents of an element, given that shorter inputs are converted as the relation says.\<close>

lemma contents_sound:
  assumes M: "malloc_ok M" and e: "CBS_get_any_ber_asn1_element inp = (Some e, r)"
    and c1: "cbb_wf c1" "\<not> cb_error (cbb_base c1)" "length (cbb_chain c1) = k"
    and code: "if elt_indefinite e then cbs_convert_ber M c1 k st True (depth + 1) r = (True, r2, c2)
       else r2 = r \<and>
         (if constructed (elt_tag e)
          then \<exists>x. cbs_convert_ber M c1 k st False (depth + 1) (drop (elt_header_len e) (elt_out e)) = (True, x, c2)
          else CBB_add_bytes M c1 k (drop (elt_header_len e) (elt_out e)) = (True, c2))"
    and shorter: "\<And>inp' eoc rest. length inp' < length inp \<Longrightarrow> cbs_convert_ber M c1 k st eoc (depth + 1) inp' = (True, rest, c2) \<Longrightarrow>
      \<exists>d. converts st eoc (depth + 1) inp' d rest \<and> spec_append k d (CBB_abs c1) = Some (CBB_abs c2) \<and> grown c1 c2 \<and>
        length rest \<le> length inp'"
  shows "\<exists>d. converts_contents st depth e r d r2 \<and> spec_append k d (CBB_abs c1) = Some (CBB_abs c2) \<and> grown c1 c2 \<and> length r2 \<le> length r"
proof -
  let ?body = "drop (elt_header_len e) (elt_out e)"
  note sh = body_shorter [OF e]
  consider "elt_indefinite e" | "\<not> elt_indefinite e" "constructed (elt_tag e)" | "\<not> elt_indefinite e" "\<not> constructed (elt_tag e)" by blast
  then show ?thesis
  proof cases
    case 1
    then show ?thesis using shorter [OF sh(2)] code by (simp add: converts_contents_def)
  next
    case 2
    then obtain x where "cbs_convert_ber M c1 k st False (depth + 1) ?body = (True, x, c2)" "r2 = r" using code by auto
    with shorter [OF sh(1)] show ?thesis using 2 by (fastforce simp: converts_contents_def)
  next
    case 3
    then have w: "CBB_add_bytes M c1 k ?body = (True, c2)" "r2 = r" using code by auto
    have "length ?body < 2 ^ 64" using sh(3) by simp
    from refines_True [OF CBB_add_bytes_contract [OF c1(1) M this, of k, unfolded w(1)]]
    show ?thesis using 3 w(2) by (simp add: converts_contents_def)
  qed
qed

lemma convert_ber_sound:
  assumes M: "malloc_ok M"
  shows "cbb_wf c \<Longrightarrow> \<not> cb_error (cbb_base c) \<Longrightarrow> length (cbb_chain c) = k \<Longrightarrow>
    cbs_convert_ber M c k st eoc depth inp = (True, rest, c') \<Longrightarrow>
    \<exists>d. converts st eoc depth inp d rest \<and> spec_append k d (CBB_abs c) = Some (CBB_abs c') \<and> grown c c' \<and>
      length rest \<le> length inp"
proof (induction "length inp" arbitrary: inp c k st eoc depth rest c' rule: less_induct)
  case less
  note c = less.prems(1-3)
  from less.prems(4) show ?case
  proof (cases rule: convert_ber_True)
    case finished
    then show ?thesis
      using c conv_end [OF finished(1), of st] by (intro exI [of _ "[]"]) (simp add: spec_append_Nil grown_def)
  next
    case at_eoc
    then show ?thesis
      using c conv_eoc [OF at_eoc(1,3), of st] cbs_get_eoc_shorter [of inp]
      by (intro exI [of _ "[]"]) (simp add: spec_append_Nil grown_def)
  next
    case (element e r c1 r2 c2 c3)
    let ?k = "ber_out_contents k st" and ?st = "ber_child_string_tag st (elt_tag e)"
    note sh = body_shorter [OF element(4)]
    have o: "cbb_wf c1" "\<not> cb_error (cbb_base c1)" "length (cbb_chain c1) = ?k"
      using ber_open_True [OF c(1) M c(2,3) element(5)] by (simp_all add: grown_def)
    have "\<exists>d. converts_contents ?st depth e r d r2 \<and>
        spec_append ?k d (CBB_abs c1) = Some (CBB_abs c2) \<and> grown c1 c2 \<and> length r2 \<le> length r"
      by (rule contents_sound [OF M element(4) o element(6) less.hyps [OF _ o]])
    then obtain d where d: "converts_contents ?st depth e r d r2"
      and w: "spec_append ?k d (CBB_abs c1) = Some (CBB_abs c2)" "grown c1 c2" "length r2 \<le> length r" by blast
    note ew = element_written [OF c(1) M c(2,3) element(5) w(2,1) element(7)]
    have "length r2 < length inp" using w(3) sh(2) by simp
    from less.hyps [OF this _ _ _ element(8)] ew obtain d' where
      d': "converts st eoc depth r2 d' rest" "spec_append k d' (CBB_abs c3) = Some (CBB_abs c')" "grown c3 c'" "length rest \<le> length r2"
      by (auto simp: grown_def)
    have "spec_append k (ber_wrap st (elt_tag e) d @ d') (CBB_abs c) = Some (CBB_abs c')"
      using spec_append_append [OF builder_wf_abs, of k "ber_wrap st (elt_tag e) d" c d'] ew d'(2) by simp
    with converts_element [OF element(1-4) d _ d'(1)] show ?thesis
      using ew d'(3,4) grown_trans \<open>length r2 < length inp\<close> by fastforce
  qed
qed

section \<open>The output is DER\<close>

lemma constructed_cleared: "\<not> constructed (t AND NOT CBS_ASN1_CONSTRUCTED)"
  by (simp add: constructed_def and.assoc)

lemma tag_ok_cleared: "tag_ok t \<Longrightarrow> tag_ok (t AND NOT CBS_ASN1_CONSTRUCTED)"
  by (simp add: tag_ok_def and.assoc)

lemma out_element_der:
  assumes e: "CBS_get_any_ber_asn1_element inp = (Some e, r)" and depth: "depth \<le> kMaxDepth" and len: "length d \<le> 0xfffffffe"
    and sub: "constructed (elt_tag e) \<Longrightarrow> \<not> is_string_type (elt_tag e) \<Longrightarrow> cbs_find_ber (depth + 1) d = Some False"
  shows "cbs_find_ber depth (der (ber_out_tag (elt_tag e)) d @ d') = cbs_find_ber depth d'"
proof (rule find_ber_der [OF depth])
  have "tag_ok (elt_tag e)" using ber_element_shape [OF e] by (simp add: element_shape_def)
  then show "tag_ok (ber_out_tag (elt_tag e))" by (simp add: ber_out_tag_def tag_ok_cleared)
  show "length d < 2 ^ 32" using len by simp
  show "constructed (ber_out_tag (elt_tag e)) \<longrightarrow> \<not> is_string_type (ber_out_tag (elt_tag e)) \<and> cbs_find_ber (depth + 1) d = Some False"
    using sub by (auto simp: ber_out_tag_def constructed_cleared)
qed

lemma converts_der: "converts st eoc depth inp d rest \<Longrightarrow> st = 0 \<Longrightarrow> cbs_find_ber depth d = Some False"
proof (induction rule: converts.induct)
  case (conv_prim depth inp eoc e r d st d' rest)
  then show ?case using out_element_der [OF conv_prim(4,1), of d d'] by (simp add: ber_wrap_def ber_fits_def)
next
  case (conv_cons depth inp eoc e r st d x d' rest)
  then have "cbs_find_ber (depth + 1) d = Some False" if "\<not> is_string_type (elt_tag e)"
    using that by (simp add: ber_child_string_tag_def)
  then show ?case using conv_cons by (simp add: ber_wrap_def ber_fits_def out_element_der [OF conv_cons(4)])
next
  case (conv_indef depth inp eoc e r st d r2 d' rest)
  then have "cbs_find_ber (depth + 1) d = Some False" if "\<not> is_string_type (elt_tag e)"
    using that by (simp add: ber_child_string_tag_def)
  then show ?case using conv_indef by (simp add: ber_wrap_def ber_fits_def out_element_der [OF conv_indef(4)])
qed (simp_all add: find_ber_Nil)

lemma ber_to_der_converts:
  assumes M: "malloc_ok M" and len: "length inp < 2 ^ 64" and r: "CBS_asn1_ber_to_der M inp = (Some (out, Some storage), rest)"
  shows "cbs_find_ber 0 inp = Some True \<and> converts 0 False 0 inp out rest \<and> out = take (length out) storage"
proof -
  obtain c rst c' b l c2 where f: "cbs_find_ber 0 inp = Some True" and i: "CBB_init M (length inp) = (True, c)"
    and cv: "cbs_convert_ber M c 0 0 False 0 inp = (True, rest, c')" and fin: "CBB_finish M True c' 0 = (Some (b, l), c2)"
    and out: "out = take l b" "storage = b"
    using r by (auto simp: CBS_asn1_ber_to_der_def split: option.splits prod.splits if_splits bool.splits)
  note ci = CBB_init_abs [OF M len i]
  obtain d where d: "converts 0 False 0 inp d rest" "spec_append 0 d (CBB_abs c) = Some (CBB_abs c')" "grown c c'"
    using convert_ber_sound [OF M _ _ _ cv] ci by auto
  then have "CBB_abs c' = ([d], [])" using ci by simp
  moreover have "cbb_wf c'" using d(3) by (simp add: grown_def)
  note CBB_finish_abs [OF this M fin]
  ultimately have "d = out" "l \<le> length b" using out by (simp_all add: spec_flush.simps)
  then show ?thesis using f d(1) out by simp
qed

section \<open>The relation is followed by the code\<close>

text \<open>The builder's side of a conversion, and the conversion of the contents of one element.\<close>

definition written :: "bool \<times> CBS \<times> CBB \<Rightarrow> bool \<times> CBB" where
  "written r = (fst r, snd (snd r))"

definition ber_contents :: "allocator \<Rightarrow> CBB \<Rightarrow> nat \<Rightarrow> CBS_ASN1_TAG \<Rightarrow> nat \<Rightarrow> asn1_element \<Rightarrow> CBS \<Rightarrow> bool \<times> CBS \<times> CBB" where
  "ber_contents M c k st depth e r =
     (if elt_indefinite e then cbs_convert_ber M c k st True (depth + 1) r
      else let body = drop (elt_header_len e) (elt_out e);
               w = (if constructed (elt_tag e) then written (cbs_convert_ber M c k st False (depth + 1) body)
                    else CBB_add_bytes M c k body)
           in (fst w, r, snd w))"

lemma convert_ber_step:
  assumes d: "depth \<le> kMaxDepth" and i: "inp \<noteq> []" and g: "\<not> (eoc \<and> fst (cbs_get_eoc inp))"
    and e: "CBS_get_any_ber_asn1_element inp = (Some e, r)"
  shows "cbs_convert_ber M c k st eoc depth inp =
    (case ber_open M c k st (elt_tag e) of
       (False, c) \<Rightarrow> (False, r, c)
     | (True, c) \<Rightarrow>
         (case ber_contents M c (ber_out_contents k st) (ber_child_string_tag st (elt_tag e)) depth e r of
            (False, r, c) \<Rightarrow> (False, r, c)
          | (True, r, c) \<Rightarrow>
              (case CBB_flush M c k of
                 (False, c) \<Rightarrow> (False, r, c)
               | (True, c) \<Rightarrow> cbs_convert_ber M c k st eoc depth r)))"
proof -
  have sk: "CBS_skip (elt_out e) (elt_header_len e) = (True, drop (elt_header_len e) (elt_out e))"
    using ber_element_consumes(3) [OF e] by (rule CBS_skip_drop)
  have g': "\<not> depth > kMaxDepth" "length inp \<noteq> 0" using d i by auto
  note eqn = cbs_convert_ber.simps [of M c k st eoc depth inp, unfolded if_not_P [OF g'(1)] if_not_P [OF g'(2)] if_not_P [OF g] e prod.case option.case]
  obtain ok c1 where o: "ber_open M c k st (elt_tag e) = (ok, c1)" by (cases "ber_open M c k st (elt_tag e)")
  show ?thesis
  proof (cases ok)
    case False
    then show ?thesis unfolding eqn o by simp
  next
    case True
    let ?b = "drop (elt_header_len e) (elt_out e)" and ?k = "ber_out_contents k st" and ?st = "ber_child_string_tag st (elt_tag e)"
    define w where "w = (if constructed (elt_tag e) then written (cbs_convert_ber M c1 ?k ?st False (depth + 1) ?b)
      else CBB_add_bytes M c1 ?k ?b)"
    have w: "(case x of (ok, _, c) \<Rightarrow> (ok, c)) = written x" for x by (simp add: written_def split_beta)
    obtain ok2 c2 where w2: "w = (ok2, c2)" by (cases w)
    have "ber_contents M c1 ?k ?st depth e r =
        (if elt_indefinite e then cbs_convert_ber M c1 ?k ?st True (depth + 1) r else (ok2, r, c2))"
      unfolding ber_contents_def Let_def w_def [symmetric] w2 by simp
    then show ?thesis
      unfolding eqn o eqTrueI [OF True] prod.case bool.case sk w w_def [symmetric] w2 by (cases "elt_indefinite e"; cases ok2) simp_all
  qed
qed

lemma spec_append_then_flush:
  assumes "builder_wf B"
  shows "Option.bind (spec_append k d B) (spec_flush k) = spec_append k d B"
proof (cases "spec_flush k B")
  case (Some B')
  note w = spec_flush_idem [OF assms Some]
  obtain fs ks where B': "B' = (fs, ks)" and l: "length fs = Suc k" "length ks = k"
    using w by (cases B') (auto simp: builder_wf_def)
  then show ?thesis using Some by (simp add: spec_append_def spec_flush.simps butlast_conv_take)
qed (simp add: spec_append_def)

text \<open>Opening, writing the contents and flushing append the element.\<close>

lemma ber_element_contract:
  assumes wf: "cbb_wf c" and M: "malloc_ok M" and c: "\<not> cb_error (cbb_base c)" "length (cbb_chain c) = k"
    and fits: "ber_fits st tag d"
    and body: "\<And>c1. cbb_wf c1 \<Longrightarrow> \<not> cb_error (cbb_base c1) \<Longrightarrow> length (cbb_chain c1) = ber_out_contents k st \<Longrightarrow>
      refines M c1 (ber_out_contents k st) n (spec_append (ber_out_contents k st) d (CBB_abs c1)) (body c1)"
  shows "refines M c k (n + 11) (spec_append k (ber_wrap st tag d) (CBB_abs c))
    (case ber_open M c k st tag of
       (False, c) \<Rightarrow> (False, c)
     | (True, c) \<Rightarrow> (case body c of (False, c) \<Rightarrow> (False, c) | (True, c) \<Rightarrow> CBB_flush M c k))"
proof (cases "st = 0")
  case True
  have len: "length d \<le> 0xfffffffe" using fits True by (simp add: ber_fits_def)
  have b: "refines M c1 (Suc k) n (spec_append (Suc k) d (CBB_abs c1)) (body c1)"
    if "cbb_wf c1" "\<not> cb_error (cbb_base c1)" "length (cbb_chain c1) = Suc k" for c1
    using body [of c1] that True by (simp add: ber_out_contents_def)
  have le: "length (der_tag (ber_out_tag tag)) + n + 5 \<le> n + 11" using length_der_tag [of "ber_out_tag tag"] by simp
  have eqs: "ber_open M c k st tag = CBB_add_asn1 M c k (ber_out_tag tag)" "ber_wrap st tag d = der (ber_out_tag tag) d"
    using True by (simp_all add: ber_open_def ber_wrap_def)
  note contract = asn1_child_contract [OF wf M b, where tag = "ber_out_tag tag", unfolded if_P [OF len]]
  show ?thesis unfolding eqs by (rule refines_weaken [OF contract le])
next
  case False
  then have o: "ber_open M c k st tag = (True, c)" "ber_out_contents k st = k" "ber_wrap st tag d = d"
    using fits by (simp_all add: ber_open_def ber_fits_def ber_out_contents_def ber_wrap_def)
  have "refines M c k (n + 0) (Option.bind (spec_append k d (CBB_abs c)) (spec_flush k))
      (case body c of (False, c) \<Rightarrow> (False, c) | (True, c) \<Rightarrow> CBB_flush M c k)"
  proof (rule refines_seq)
    show "refines M c k n (spec_append k d (CBB_abs c)) (body c)" using body [of c] wf c o(2) by simp
    show "refines M c1 k 0 (spec_flush k (CBB_abs c1)) (CBB_flush M c1 k)" if "grown c c1" for c1
      using that CBB_flush_contract [OF _ M] by (simp add: grown_def)
  qed
  then have "refines M c k (n + 11) (spec_append k d (CBB_abs c)) (case body c of (False, c) \<Rightarrow> (False, c) | (True, c) \<Rightarrow> CBB_flush M c k)"
    unfolding spec_append_then_flush [OF builder_wf_abs] by (rule refines_weaken) simp
  then show ?thesis unfolding o prod.case bool.case .
qed

text \<open>
  At handle \<open>k\<close> an operation appends \<open>d\<close> with at most \<open>n\<close> more bytes of space, and when it succeeds leaves
  \<open>rest\<close> of the input.
\<close>

definition appends_leaving :: "allocator \<Rightarrow> nat \<Rightarrow> nat \<Rightarrow> bytes \<Rightarrow> CBS \<Rightarrow> (CBB \<Rightarrow> bool \<times> CBS \<times> CBB) \<Rightarrow> bool" where
  "appends_leaving M k n d rest op \<longleftrightarrow>
     (\<forall>c. cbb_wf c \<and> \<not> cb_error (cbb_base c) \<and> length (cbb_chain c) = k \<longrightarrow>
        refines M c k n (spec_append k d (CBB_abs c)) (written (op c)) \<and> (fst (op c) \<longrightarrow> fst (snd (op c)) = rest))"

lemma appends_leavingI:
  assumes "\<And>c. cbb_wf c \<Longrightarrow> \<not> cb_error (cbb_base c) \<Longrightarrow> length (cbb_chain c) = k \<Longrightarrow>
      refines M c k n (spec_append k d (CBB_abs c)) (written (op c)) \<and> (fst (op c) \<longrightarrow> fst (snd (op c)) = rest)"
  shows "appends_leaving M k n d rest op"
  using assms unfolding appends_leaving_def by blast

lemma appends_leavingD:
  assumes "appends_leaving M k n d rest op" and "cbb_wf c" and "\<not> cb_error (cbb_base c)" and "length (cbb_chain c) = k"
  shows "refines M c k n (spec_append k d (CBB_abs c)) (written (op c)) \<and> (fst (op c) \<longrightarrow> fst (snd (op c)) = rest)"
  using assms unfolding appends_leaving_def by blast

lemma appends_nothing:
  assumes "\<And>c. op c = (True, rest, c)"
  shows "appends_leaving M k n [] rest op"
proof (rule appends_leavingI)
  fix c assume "cbb_wf c" "\<not> cb_error (cbb_base c)" "length (cbb_chain c) = k"
  from append_nothing [OF this] have "refines M c k n (spec_append k [] (CBB_abs c)) (True, c)" by (rule refines_weaken) simp
  then show "refines M c k n (spec_append k [] (CBB_abs c)) (written (op c)) \<and> (fst (op c) \<longrightarrow> fst (snd (op c)) = rest)"
    unfolding assms written_def fst_conv snd_conv by simp
qed

lemma convert_step_appends:
  assumes M: "malloc_ok M" and step: "depth \<le> kMaxDepth" "inp \<noteq> []" "\<not> (eoc \<and> fst (cbs_get_eoc inp))"
      "CBS_get_any_ber_asn1_element inp = (Some e, r)"
    and fits: "ber_fits st (elt_tag e) d"
    and body: "appends_leaving M (ber_out_contents k st) n d r2
      (\<lambda>c. ber_contents M c (ber_out_contents k st) (ber_child_string_tag st (elt_tag e)) depth e r)"
    and loop: "appends_leaving M k m d' rest (\<lambda>c. cbs_convert_ber M c k st eoc depth r2)"
    and le: "n + 11 + m \<le> N"
  shows "appends_leaving M k N (ber_wrap st (elt_tag e) d @ d') rest (\<lambda>c. cbs_convert_ber M c k st eoc depth inp)"
proof (rule appends_leavingI)
  fix c assume c: "cbb_wf c" "\<not> cb_error (cbb_base c)" "length (cbb_chain c) = k"
  let ?B = "\<lambda>c. ber_contents M c (ber_out_contents k st) (ber_child_string_tag st (elt_tag e)) depth e r"
  let ?X = "case ber_open M c k st (elt_tag e) of (False, c) \<Rightarrow> (False, c)
     | (True, c) \<Rightarrow> (case written (?B c) of (False, c) \<Rightarrow> (False, c) | (True, c) \<Rightarrow> CBB_flush M c k)"
  let ?R = "\<lambda>c. cbs_convert_ber M c k st eoc depth r2"
  have X: "refines M c k (n + 11) (spec_append k (ber_wrap st (elt_tag e) d) (CBB_abs c)) ?X"
    by (rule ber_element_contract [OF c(1) M c(2,3) fits]) (use appends_leavingD [OF body] in blast)
  have "refines M c k (n + 11 + m) (spec_append k (ber_wrap st (elt_tag e) d @ d') (CBB_abs c))
      (case ?X of (False, c) \<Rightarrow> (False, c) | (True, c) \<Rightarrow> written (?R c))"
    by (rule append_seq_need [OF X]) (use appends_leavingD [OF loop] in blast)
  then have XR: "refines M c k N (spec_append k (ber_wrap st (elt_tag e) d @ d') (CBB_abs c))
      (case ?X of (False, c) \<Rightarrow> (False, c) | (True, c) \<Rightarrow> written (?R c))"
    by (rule refines_weaken [OF _ le])
  obtain ok1 c1 where o: "ber_open M c k st (elt_tag e) = (ok1, c1)" by (cases "ber_open M c k st (elt_tag e)")
  obtain ok2 x c2 where b: "?B c1 = (ok2, x, c2)" by (metis prod_cases3)
  obtain ok3 c3 where f: "CBB_flush M c2 k = (ok3, c3)" by (cases "CBB_flush M c2 k")
  have x: "x = r2" if ok1 ok2
  proof -
    have "cbb_wf c1" "\<not> cb_error (cbb_base c1)" "length (cbb_chain c1) = ber_out_contents k st"
      using ber_open_True [OF c(1) M c(2,3)] o that(1) by (simp_all add: grown_def)
    from appends_leavingD [OF body this] b that(2) show ?thesis by simp
  qed
  have rest: "fst (?R c3) \<longrightarrow> fst (snd (?R c3)) = rest" if ok1 ok2 ok3
  proof -
    have "?X = (True, c3)" using that o b f by (simp add: written_def)
    from refines_True [OF X [unfolded this]] have g: "grown c c3"
      and a: "spec_append k (ber_wrap st (elt_tag e) d) (CBB_abs c) = Some (CBB_abs c3)" by auto
    have "length (cbb_chain c3) = k" using spec_append_depth [OF builder_wf_abs a] by (simp add: abs_depth)
    with appends_leavingD [OF loop, of c3] g show ?thesis by (simp add: grown_def)
  qed
  have eqn: "cbs_convert_ber M c k st eoc depth inp =
      (if \<not> ok1 then (False, r, c1) else if \<not> ok2 then (False, x, c2) else if \<not> ok3 then (False, x, c3) else ?R c3)"
    unfolding convert_ber_step [OF step] o prod.case b f using x by (cases ok1; cases ok2; cases ok3) simp_all
  have W: "written (cbs_convert_ber M c k st eoc depth inp) = (case ?X of (False, c) \<Rightarrow> (False, c) | (True, c) \<Rightarrow> written (?R c))"
    unfolding eqn o prod.case b written_def fst_conv snd_conv by (cases ok1; cases ok2; cases ok3) (simp_all add: f)
  have "fst (cbs_convert_ber M c k st eoc depth inp) \<longrightarrow> fst (snd (cbs_convert_ber M c k st eoc depth inp)) = rest"
    unfolding eqn using rest by (cases ok1; cases ok2; cases ok3) simp_all
  with XR W show "refines M c k N (spec_append k (ber_wrap st (elt_tag e) d @ d') (CBB_abs c)) (written (cbs_convert_ber M c k st eoc depth inp)) \<and>
      (fst (cbs_convert_ber M c k st eoc depth inp) \<longrightarrow> fst (snd (cbs_convert_ber M c k st eoc depth inp)) = rest)" by (simp only:)
qed

lemma converts_shorter: "converts st eoc depth inp d rest \<Longrightarrow> length rest \<le> length inp"
proof (induction rule: converts.induct)
  case (conv_eoc depth inp st)
  then show ?case by (rule_tac cbs_get_eoc_shorter)
next
  case (conv_prim depth inp eoc e r d st d' rest)
  then show ?case using body_shorter(2) [OF conv_prim(4)] by simp
next
  case (conv_cons depth inp eoc e r st d x d' rest)
  then show ?case using body_shorter(2) [OF conv_cons(4)] by simp
next
  case (conv_indef depth inp eoc e r st d r2 d' rest)
  then show ?case using body_shorter(2) [OF conv_indef(4)] by simp
qed simp

lemma element_length:
  "CBS_get_any_ber_asn1_element inp = (Some e, r) \<Longrightarrow>
     length inp = elt_header_len e + length (drop (elt_header_len e) (elt_out e)) + length r \<and> 2 \<le> elt_header_len e"
  using ber_element_consumes [of inp e r] by (metis add_diff_cancel_right' le_add_diff_inverse length_append length_drop)

lemma convert_ber_complete:
  assumes M: "malloc_ok M"
  shows "converts st eoc depth inp d rest \<Longrightarrow>
    appends_leaving M k (10 * (length inp - length rest)) d rest (\<lambda>c. cbs_convert_ber M c k st eoc depth inp)"
proof (induction arbitrary: k rule: converts.induct)
  case (conv_end depth st)
  then show ?case by (intro appends_nothing) (simp add: cbs_convert_ber.simps)
next
  case (conv_eoc depth inp st)
  then have "inp \<noteq> []" by (auto simp: cbs_get_eoc_def)
  with conv_eoc show ?case by (intro appends_nothing) (simp add: cbs_convert_ber.simps)
next
  case (conv_prim depth inp eoc e r d st d' rest)
  note el = element_length [OF conv_prim(4)] and sh = converts_shorter [OF conv_prim(9)]
  have d: "length d < 2 ^ 64" using body_shorter(3) [OF conv_prim(4)] conv_prim(7) by simp
  have "appends_leaving M (ber_out_contents k st) (length d) d r
      (\<lambda>c. ber_contents M c (ber_out_contents k st) (ber_child_string_tag st (elt_tag e)) depth e r)"
    by (rule appends_leavingI)
       (use conv_prim(5-7) CBB_add_bytes_contract [OF _ M d] in \<open>simp add: ber_contents_def written_def Let_def\<close>)
  moreover have "length d + 11 + 10 * (length r - length rest) \<le> 10 * (length inp - length rest)" using el sh unfolding conv_prim(7) by linarith
  ultimately show ?case by (rule convert_step_appends [OF M conv_prim(1-4,8) _ conv_prim.IH])
next
  case (conv_cons depth inp eoc e r st d x d' rest)
  let ?b = "drop (elt_header_len e) (elt_out e)" and ?k = "ber_out_contents k st"
  note el = element_length [OF conv_cons(4)] and sh = converts_shorter [OF conv_cons(9)]
  have "appends_leaving M ?k (10 * (length ?b - length x)) d r (\<lambda>c. ber_contents M c ?k (ber_child_string_tag st (elt_tag e)) depth e r)"
    by (rule appends_leavingI)
       (use conv_cons(5,6) appends_leavingD [OF conv_cons.IH(1)] in \<open>simp add: ber_contents_def written_def Let_def\<close>)
  moreover have "10 * (length ?b - length x) + 11 + 10 * (length r - length rest) \<le> 10 * (length inp - length rest)"
    using el sh by linarith
  ultimately show ?case by (rule convert_step_appends [OF M conv_cons(1-4,8) _ conv_cons.IH(2)])
next
  case (conv_indef depth inp eoc e r st d r2 d' rest)
  let ?k = "ber_out_contents k st"
  note el = element_length [OF conv_indef(4)] and sh = converts_shorter [OF conv_indef(6)] converts_shorter [OF conv_indef(8)]
  have "appends_leaving M ?k (10 * (length r - length r2)) d r2 (\<lambda>c. ber_contents M c ?k (ber_child_string_tag st (elt_tag e)) depth e r)"
    using conv_indef(5) conv_indef.IH(1) by (simp add: ber_contents_def)
  moreover have "10 * (length r - length r2) + 11 + 10 * (length r2 - length rest) \<le> 10 * (length inp - length rest)"
    using el sh by linarith
  ultimately show ?case by (rule convert_step_appends [OF M conv_indef(1-4,7) _ conv_indef.IH(2)])
qed

section \<open>DER converts to itself\<close>


lemma der_converts:
  "cbs_find_ber depth inp = Some False \<Longrightarrow> length inp \<le> 0xfffffffe \<Longrightarrow> converts 0 False depth inp inp []"
proof (induction "length inp" arbitrary: inp depth rule: less_induct)
  case less
  from less.prems(1) show ?case
  proof (cases rule: find_ber_cases)
    case finished
    then show ?thesis by (simp add: conv_end)
  next
    case (element t d r)
    have e: "CBS_get_any_ber_asn1_element inp = (Some (der_element t d), r)"
      using CBS_get_any_asn1_element_complete [OF element(2,3), of r] der_reader_iff element(4) by blast
    have el: "elt_tag (der_element t d) = t" "drop (elt_header_len (der_element t d)) (elt_out (der_element t d)) = d"
      "\<not> elt_indefinite (der_element t d)" by (simp_all add: der_element_def der_def)
    have ot: "ber_out_tag t = t" "ber_child_string_tag 0 t = 0" using element(5) by (auto simp: ber_out_tag_def ber_child_string_tag_def)
    have l: "length d < length inp" "length r < length inp" "length d \<le> 0xfffffffe" "length r \<le> 0xfffffffe"
      using body_shorter [OF e] el less.prems(2) by simp_all
    have r: "converts 0 False depth r r []" using less.hyps [OF l(2) element(6) l(4)] .
    have i: "inp \<noteq> []" using l by auto
    have w: "ber_wrap 0 (elt_tag (der_element t d)) d @ r = inp" "ber_fits 0 (elt_tag (der_element t d)) d"
      using el ot element(4) l(3) by (simp_all add: ber_wrap_def ber_fits_def)
    show ?thesis
    proof (cases "constructed t")
      case True
      then have "converts 0 False (depth + 1) d d []" using element(5) less.hyps [OF l(1) _ l(3)] by blast
      then show ?thesis using conv_cons [OF element(1) i _ e el(3) _ _ w(2) r] True el ot w(1) by simp
    next
      case False
      then show ?thesis using conv_prim [OF element(1) i _ e el(3) _ el(2) [symmetric] w(2) r] el w(1) by simp
    qed
  qed
qed

text \<open>So the fast path of \<^verbatim>\<open>CBS_asn1_ber_to_der\<close>, which copies nothing, agrees with the slow one.\<close>

lemma ber_fast_path:
  assumes "malloc_ok M" and "cbs_find_ber depth inp = Some False" and "length inp \<le> 0xfffffffe"
  shows "appends_leaving M k (10 * length inp) inp [] (\<lambda>c. cbs_convert_ber M c k 0 False depth inp)"
  using convert_ber_complete [OF assms(1) der_converts [OF assms(2,3)], of k] by simp

section \<open>Implicitly tagged strings\<close>

text \<open>The loop concatenates the contents of the fragments, which make up all of its input.\<close>

lemma implicit_string_loop_True:
  assumes M: "malloc_ok M"
  shows "cbb_wf c \<Longrightarrow> length child < 2 ^ 64 \<Longrightarrow> CBB_abs c = ([d], []) \<Longrightarrow> implicit_string_loop M c inner_tag child = (True, c') \<Longrightarrow>
    \<exists>chunks. child = concat (map (der inner_tag) chunks) \<and> CBB_abs c' = ([d @ concat chunks], []) \<and> cbb_wf c'"
proof (induction "length child" arbitrary: child c d rule: less_induct)
  case less
  show ?case
  proof (cases "child = []")
    case True
    then show ?thesis using less.prems by (intro exI [of _ "[]"]) (simp add: implicit_string_loop.simps)
  next
    case False
    obtain chunk r c1 where g: "CBS_get_asn1 inner_tag child = (Some chunk, r)" and w: "CBB_add_bytes M c 0 chunk = (True, c1)"
      and l: "implicit_string_loop M c1 inner_tag r = (True, c')"
      using less.prems(4) False by (subst (asm) implicit_string_loop.simps) (auto split: prod.splits option.splits bool.splits)
    have ch: "child = der inner_tag chunk @ r" using g by (simp add: CBS_get_asn1_iff)
    then have len: "length r < length child" "length chunk < 2 ^ 64" "length r < 2 ^ 64" using less.prems(2) length_der_tag [of inner_tag] by (auto simp: der_length)
    from refines_True [OF CBB_add_bytes_contract [OF less.prems(1) M len(2), of 0, unfolded w]]
    have "cbb_wf c1" "CBB_abs c1 = ([d @ chunk], [])" using less.prems(3) by (simp_all add: grown_def)
    from less.hyps [OF len(1) this(1) len(3) this(2) l] obtain chunks where
      "r = concat (map (der inner_tag) chunks)" "CBB_abs c' = ([(d @ chunk) @ concat chunks], [])" "cbb_wf c'" by blast
    then show ?thesis using ch by (intro exI [of _ "chunk # chunks"]) simp
  qed
qed

lemma implicit_string_sound:
  assumes M: "malloc_ok M" and len: "length inp < 2 ^ 64" and r: "CBS_get_asn1_implicit_string M outer_tag inner_tag inp = (Some (out, storage), rest)"
  shows "if storage = None then inp = der outer_tag out @ rest
    else \<exists>chunks. inp = der (outer_tag OR CBS_ASN1_CONSTRUCTED) (concat (map (der inner_tag) chunks)) @ rest \<and> out = concat chunks"
proof (cases "CBS_peek_asn1_tag inp outer_tag")
  case True
  then show ?thesis using r by (auto simp: CBS_get_asn1_implicit_string_def CBS_get_asn1_iff split: prod.splits option.splits)
next
  case False
  then obtain c child c' b l c2 where i: "CBB_init M (length inp) = (True, c)"
    and g: "CBS_get_asn1 (outer_tag OR CBS_ASN1_CONSTRUCTED) inp = (Some child, rest)"
    and lp: "implicit_string_loop M c inner_tag child = (True, c')" and fin: "CBB_finish M True c' 0 = (Some (b, l), c2)"
    and out: "out = take l b" "storage = Some b"
    using r by (auto simp: CBS_get_asn1_implicit_string_def split: option.splits prod.splits bool.splits)
  note ci = CBB_init_abs [OF M len i]
  have inp: "inp = der (outer_tag OR CBS_ASN1_CONSTRUCTED) child @ rest" using g by (simp add: CBS_get_asn1_iff)
  then have "length child < 2 ^ 64" using len by (simp add: der_def)
  from implicit_string_loop_True [OF M _ this _ lp, of "[]"] ci obtain chunks where
    ch: "child = concat (map (der inner_tag) chunks)" "CBB_abs c' = ([concat chunks], [])" "cbb_wf c'" by auto
  have "out = concat chunks" using CBB_finish_abs [OF ch(3) M fin] ch(2) out by (simp add: spec_flush.simps)
  then show ?thesis using inp ch(1) out(2) by auto
qed

section \<open>The whole function\<close>

lemma CBB_init_granted:
  assumes "malloc_ok M" and "granted M" and "cap \<le> 2 ^ 62"
  shows "\<exists>c. CBB_init M cap = (True, c)"
proof -
  have "M (cap + OPENSSL_MALLOC_PREFIX) \<noteq> None" using assms(2,3) by (simp add: granted_def OPENSSL_MALLOC_PREFIX_def)
  then show ?thesis using assms(3)
    by (auto simp: CBB_init_def OPENSSL_malloc_def OPENSSL_MALLOC_PREFIX_def size_add_def split: option.splits)
qed

text \<open>With memory, the conversion succeeds on everything the relation accepts.\<close>

lemma ber_to_der_live:
  assumes M: "malloc_ok M" "granted M" and len: "10 * length inp \<le> 2 ^ 62" and f: "cbs_find_ber 0 inp = Some True"
    and d: "converts 0 False 0 inp d rest"
  shows "\<exists>storage. CBS_asn1_ber_to_der M inp = (Some (d, Some storage), rest)"
proof -
  have l62: "length inp \<le> 2 ^ 62" and l64: "length inp < 2 ^ 64" using len by simp_all
  obtain c where i: "CBB_init M (length inp) = (True, c)" using CBB_init_granted [OF M l62] by blast
  note ci = CBB_init_abs [OF M(1) l64 i]
  have k: "length (cbb_chain c) = 0" "cbb_live c 0" "budget c 0 = 0" using ci by (simp_all add: cbb_live_def budget_def)
  have sp: "spec_append 0 d (CBB_abs c) = Some ([d], [])" using ci by simp
  let ?cv = "cbs_convert_ber M c 0 0 False 0 inp"
  note a = appends_leavingD [OF convert_ber_complete [OF M(1) d, of 0] _ _ k(1)]
  have le: "10 * (length inp - length rest) \<le> 2 ^ 62" using len by linarith
  then have room: "room M (cbb_base c) (budget c 0 + 10 * (length inp - length rest))" using ci k(3) M(2) unfolding room_def by simp
  obtain c' where w: "written ?cv = (True, c')" and b: "budget c' 0 \<le> budget c 0 + 10 * (length inp - length rest)"
    using refines_room [OF conjunct1 [OF a] k(2) _ _ room] ci sp by auto
  then have cv: "?cv = (True, rest, c')" using a ci by (cases ?cv) (simp add: written_def)
  have rf: "refines M c 0 (10 * (length inp - length rest)) (Some ([d], [])) (True, c')" using a ci w sp by simp
  have g: "grown c c'" and ab: "CBB_abs c' = ([d], [])" using refines_True [OF rf] by simp_all
  have "room M (cbb_base c') (budget c' 0)" using g ci le_trans [OF b [unfolded k(3) add_0] le] M(2) unfolding room_def grown_def by simp
  moreover have "cbb_wf c'" "\<not> cb_error (cbb_base c')" using g by (simp_all add: grown_def)
  ultimately obtain buf l c2 where fin: "CBB_finish M True c' 0 = (Some (buf, l), c2)"
    using CBB_finish_room [of c' M] M(1) ab by (auto simp: spec_flush.simps)
  have "take l buf = d" using CBB_finish_abs [OF \<open>cbb_wf c'\<close> M(1) fin] ab by (simp add: spec_flush.simps)
  then show ?thesis using f i cv fin by (auto simp: CBS_asn1_ber_to_der_def)
qed

section \<open>The grammar\<close>

text \<open>
  The relation above follows the code: it uses its element reader, its tests and its numbers. It is the same as the
  grammar of \<open>Ber_Grammar\<close>, which does not.
\<close>

lemma constructed_con [simp]: "constructed t = con t"
  by (simp add: constructed_def con_flag)

lemma is_string_type_iff [simp]: "is_string_type t = string_type t"
  by (simp add: is_string_type_def string_tags_def string_type_def primitive_mask)









lemma definite_parts [simp]:
  "elt_tag (ber_definite t ls c) = t" "elt_indefinite (ber_definite t ls c) = False"
  "drop (elt_header_len (ber_definite t ls c)) (elt_out (ber_definite t ls c)) = c"
  "elt_tag (ber_indefinite t) = t" "elt_indefinite (ber_indefinite t) = True"
  by (simp_all add: ber_definite_def ber_indefinite_def)





lemma plain_der_iff: "cbs_find_ber depth inp = Some False \<longleftrightarrow> plain_der depth inp"
proof
  show "plain_der depth inp \<Longrightarrow> cbs_find_ber depth inp = Some False"
    by (induction rule: plain_der.induct) (simp_all add: find_ber_Nil find_ber_der kMaxDepth_def)
  show "cbs_find_ber depth inp = Some False \<Longrightarrow> plain_der depth inp"
  proof (induction "length inp" arbitrary: depth inp rule: less_induct)
    case less
    from less.prems show ?case
    proof (cases rule: find_ber_cases)
      case finished
      then show ?thesis using plain_end by (simp add: kMaxDepth_def)
    next
      case (element t d r)
      have l: "length d < length inp" "length r < length inp"
        using length_der_tag [of t] length_der_len [of "length d"] by (auto simp: element(4) der_length)
      show ?thesis
        using element less.hyps [OF l(1), of "depth + 1"] less.hyps [OF l(2), of depth]
          plain_prim [of depth t d r] plain_cons [of depth t d r] by (auto simp: kMaxDepth_def)
    qed
  qed
qed



section \<open>Properties\<close>

text \<open>An indefinite-length sequence holding an octet string in two fragments, and its DER.\<close>

definition sample_ber :: CBS where
  "sample_ber = [0x30, 0x80, 0x24, 0x06, 0x04, 0x01, 0x61, 0x04, 0x01, 0x62, 0x00, 0x00]"

definition sample_der :: CBS where
  "sample_der = [0x30, 0x04, 0x04, 0x02, 0x61, 0x62]"

lemma sample_ber_elements:
  "CBS_get_any_ber_asn1_element sample_ber = (Some \<lparr>elt_out = [0x30, 0x80], elt_tag = 0x20000010, elt_header_len = 2,
      elt_ber_found = True, elt_indefinite = True\<rparr>, drop 2 sample_ber)"
  "CBS_get_any_ber_asn1_element (drop 2 sample_ber) = (Some \<lparr>elt_out = take 8 (drop 2 sample_ber), elt_tag = 0x20000004,
      elt_header_len = 2, elt_ber_found = False, elt_indefinite = False\<rparr>, [0, 0])"
  "CBS_get_any_ber_asn1_element [4, 1, 0x61, 4, 1, 0x62] = (Some \<lparr>elt_out = [4, 1, 0x61], elt_tag = 4,
      elt_header_len = 2, elt_ber_found = False, elt_indefinite = False\<rparr>, [4, 1, 0x62])"
  "CBS_get_any_ber_asn1_element [4, 1, 0x62] = (Some \<lparr>elt_out = [4, 1, 0x62], elt_tag = 4,
      elt_header_len = 2, elt_ber_found = False, elt_indefinite = False\<rparr>, [])"
  by code_simp+

lemma sample_tags:
  "constructed 0x20000010 \<and> \<not> is_string_type 0x20000010 \<and> constructed 0x20000004 \<and> is_string_type 0x20000004 \<and> \<not> constructed 4"
  "ber_child_string_tag 0 0x20000010 = 0 \<and> ber_child_string_tag 0 0x20000004 = 4"
  by code_simp+

lemma sample_out_tags: "ber_out_tag 0x20000010 = 0x20000010 \<and> ber_out_tag 0x20000004 = 4"
  by code_simp

lemma sample_der_tags: "der_tag 0x20000010 = [0x30] \<and> der_tag 4 = [4]"
  by (simp add: der_tag_def)

lemma sample_wrap:
  "ber_wrap 0 0x20000010 [4, 2, 0x61, 0x62] @ [] = sample_der" "ber_wrap 0 0x20000004 [0x61, 0x62] @ [] = [4, 2, 0x61, 0x62]"
  by (simp_all add: ber_wrap_def sample_out_tags sample_der_tags der_def der_len_def sample_der_def)

lemma sample_fits: "ber_fits 0 0x20000010 [4, 2, 0x61, 0x62] \<and> ber_fits 0 0x20000004 [0x61, 0x62] \<and> ber_fits 4 4 [0x61] \<and> ber_fits 4 4 [0x62]"
  by (simp add: ber_fits_def CBS_ASN1_CONSTRUCTED_def CBS_ASN1_TAG_SHIFT_def)

lemma sample_found: "cbs_find_ber 0 sample_ber = Some True"
  by (subst cbs_find_ber.simps) (simp add: kMaxDepth_def sample_ber_elements, simp add: sample_ber_def)

lemma sample_converts: "converts 0 False 0 sample_ber sample_der []"
proof -
  have fragments: "converts 4 False 2 [4, 1, 0x61, 4, 1, 0x62] [0x61, 0x62] []"
    using conv_prim [where depth = 2 and eoc = False and st = 4, OF _ _ _ sample_ber_elements(3) _ _ refl _
        conv_prim [where depth = 2 and eoc = False and st = 4, OF _ _ _ sample_ber_elements(4) _ _ refl _ conv_end]]
      sample_tags sample_fits by (simp add: kMaxDepth_def ber_wrap_def)
  have eoc: "fst (cbs_get_eoc [0, 0]) \<and> snd (cbs_get_eoc [0, 0]) = []" "\<not> fst (cbs_get_eoc (drop 2 sample_ber))" by code_simp+
  have bd: "drop 2 (take 8 (drop 2 sample_ber)) = [4, 1, 0x61, 4, 1, 0x62]" "drop 2 sample_ber \<noteq> []" "sample_ber \<noteq> []"
    by (simp_all add: sample_ber_def)
  have "converts 0 True 1 (drop 2 sample_ber) [4, 2, 0x61, 0x62] []"
    using conv_cons [where depth = 1 and eoc = True and st = 0 and d = "[0x61, 0x62]" and x = "[]" and d' = "[]" and rest = "[]",
        OF _ bd(2) _ sample_ber_elements(2)] conv_eoc [of 1 "[0, 0]" 0] eoc bd fragments sample_tags sample_wrap sample_fits
    by (simp add: kMaxDepth_def numeral_2_eq_2)
  then show ?thesis
    using conv_indef [where depth = 0 and eoc = False and st = 0 and d = "[4, 2, 0x61, 0x62]" and d' = "[]" and rest = "[]",
        OF _ bd(3) _ sample_ber_elements(1)] conv_end [of 0 0] sample_tags sample_wrap sample_fits by (simp add: kMaxDepth_def)
qed





text \<open>
  C12: with any allocator, what \<^verbatim>\<open>CBS_asn1_ber_to_der\<close> returns is plain DER in the sense of the grammar
  \<open>plain_der\<close>: a sequence of elements, nested at most 128 deep, all of whose lengths are definite and minimal and none of
  which is a constructed element of one of the twelve string types listed there (a constructed BIT STRING, and BER
  inside the contents of a primitive element, are returned as they are). When no storage was allocated, what it
  returns is the front of the input itself.
\<close>

theorem ber_to_der_is_der:
  assumes "malloc_ok M" and "length inp < 2 ^ 64" and "CBS_asn1_ber_to_der M inp = (Some (out, storage), rest)"
  shows "plain_der 0 out \<and> (storage = None \<longrightarrow> inp = out @ rest)"
proof (cases storage)
  case (Some b)
  then show ?thesis using ber_to_der_converts [OF assms(1,2)] assms(3) converts_der plain_der_iff [of 0 out] by blast
next
  case None
  obtain e where f: "cbs_find_ber 0 inp = Some False" and e: "CBS_get_any_asn1_element inp = (Some e, rest)" and o: "out = elt_out e"
    using assms(3) None by (auto simp: CBS_asn1_ber_to_der_def split: option.splits prod.splits if_splits bool.splits)
  have ne: "inp \<noteq> []" using ber_element_consumes(4) [of inp e rest] e der_reader_iff by auto
  from f show ?thesis
  proof (cases rule: find_ber_cases)
    case (element t d r)
    then have "e = der_element t d" "rest = r" using CBS_get_any_asn1_element_complete [OF element(2,3), of r] e by auto
    then have od: "out = der t d" "inp = out @ rest" using o element(4) by (simp_all add: der_element_def)
    have "cbs_find_ber 0 (der t d @ []) = cbs_find_ber 0 []" by (rule find_ber_der [OF element(1-3)]) (use element(5) in simp)
    then show ?thesis using od find_ber_Nil [of 0] plain_der_iff [of 0 out] by (simp add: element(1))
  qed (use ne in simp)
qed

theorem ber_to_der_is_der_witness:
  "\<exists>storage. CBS_asn1_ber_to_der plentiful sample_ber = (Some (sample_der, storage), []) \<and> plain_der 0 sample_der"
proof -
  have l: "10 * length sample_ber \<le> 2 ^ 62" "length sample_ber < 2 ^ 64" by (simp_all add: sample_ber_def)
  obtain b where "CBS_asn1_ber_to_der plentiful sample_ber = (Some (sample_der, Some b), [])"
    using ber_to_der_live [OF malloc_ok_plentiful granted_plentiful l(1) sample_found sample_converts] by blast
  with ber_to_der_is_der [OF malloc_ok_plentiful l(2) this] show ?thesis by blast
qed

end
