(* ===== verification/Pb_Stream.thy ===== *)
theory Pb_Stream
  imports Prelude
begin

text \<open>
  \<^verbatim>\<open>nanopb/pb_decode.c\<close> and \<^verbatim>\<open>nanopb/pb_encode.c\<close>: the streams, and the functions that read and write the
  protobuf wire format on them. The build defines \<^verbatim>\<open>PB_FIELD_32BIT\<close> and \<^verbatim>\<open>PB_ENABLE_MALLOC\<close>, and neither
  \<^verbatim>\<open>PB_BUFFER_ONLY\<close>, \<^verbatim>\<open>PB_NO_ERRMSG\<close> nor \<^verbatim>\<open>PB_WITHOUT_64BIT\<close>.
\<close>

section \<open>Input streams\<close>

text \<open>
  The members \<^verbatim>\<open>callback\<close> and \<^verbatim>\<open>state\<close> are one value: either the callback is \<^verbatim>\<open>buf_read\<close> and the state the bytes
  it points to, or it is the application's and the state whatever that uses. A callback fails or delivers bytes.
\<close>

datatype 's pb_source =
    Buf_read bytes
  | In_callback "'s \<Rightarrow> nat \<Rightarrow> bytes option \<times> 's" 's

record 's pb_istream_t =
  is_source :: "'s pb_source"
  is_bytes_left :: nat
  is_errmsg :: "string option"

text \<open>\<^verbatim>\<open>PB_SET_ERROR\<close>: the first message stays.\<close>

definition set_error :: "string option \<Rightarrow> string \<Rightarrow> string option" where
  "set_error e msg = (case e of None \<Rightarrow> Some msg | Some m \<Rightarrow> Some m)"

definition is_fail :: "'s pb_istream_t \<Rightarrow> string \<Rightarrow> 's pb_istream_t" where
  "is_fail s msg = s\<lparr>is_errmsg := set_error (is_errmsg s) msg\<rparr>"

definition buf_read :: "bytes \<Rightarrow> nat \<Rightarrow> bytes \<times> bytes" where
  "buf_read source count = (take count source, drop count source)"

fun source_read :: "'s pb_source \<Rightarrow> nat \<Rightarrow> bytes option \<times> 's pb_source" where
  "source_read (Buf_read source) count = (case buf_read source count of (bs, source) \<Rightarrow> (Some bs, Buf_read source))"
| "source_read (In_callback f st) count = (case f st count of (r, st) \<Rightarrow> (r, In_callback f st))"

fun is_buf_read :: "'s pb_source \<Rightarrow> bool" where
  "is_buf_read (Buf_read _) = True"
| "is_buf_read (In_callback _ _) = False"

text \<open>
  \<^verbatim>\<open>pb_read\<close>. The part after the skipping of input, the loop that skips, and the whole: \<open>buf\<close> says whether the
  pointer is not \<^verbatim>\<open>NULL\<close>.
\<close>

definition pb_read_bytes :: "'s pb_istream_t \<Rightarrow> nat \<Rightarrow> bytes option \<times> 's pb_istream_t" where
  "pb_read_bytes s count =
     (if count = 0 then (Some [], s)
      else if is_bytes_left s < count then (None, is_fail s ''end-of-stream'')
      else case source_read (is_source s) count of
             (None, src) \<Rightarrow> (None, is_fail (s\<lparr>is_source := src\<rparr>) ''io error'')
           | (Some bs, src) \<Rightarrow> (Some bs, s\<lparr>is_source := src, is_bytes_left := is_bytes_left s - count\<rparr>))"

fun pb_skip_loop :: "'s pb_istream_t \<Rightarrow> nat \<Rightarrow> bytes option \<times> 's pb_istream_t" where
  "pb_skip_loop s count =
     (if count > 16 then
        (case pb_read_bytes s 16 of (None, s) \<Rightarrow> (None, s) | (Some _, s) \<Rightarrow> pb_skip_loop s (count - 16))
      else pb_read_bytes s count)"

declare pb_skip_loop.simps [simp del]

definition pb_read :: "'s pb_istream_t \<Rightarrow> bool \<Rightarrow> nat \<Rightarrow> bytes option \<times> 's pb_istream_t" where
  "pb_read s buf count =
     (if count = 0 then (Some [], s)
      else if \<not> buf \<and> \<not> is_buf_read (is_source s) then pb_skip_loop s count
      else pb_read_bytes s count)"

definition pb_readbyte :: "'s pb_istream_t \<Rightarrow> u8 option \<times> 's pb_istream_t" where
  "pb_readbyte s =
     (if is_bytes_left s = 0 then (None, is_fail s ''end-of-stream'')
      else case source_read (is_source s) 1 of
             (None, src) \<Rightarrow> (None, is_fail (s\<lparr>is_source := src\<rparr>) ''io error'')
           | (Some bs, src) \<Rightarrow> (Some (hd bs), s\<lparr>is_source := src, is_bytes_left := is_bytes_left s - 1\<rparr>))"

definition pb_istream_from_buffer :: "bytes \<Rightarrow> nat \<Rightarrow> 's pb_istream_t" where
  "pb_istream_from_buffer buf bufsize = \<lparr>is_source = Buf_read buf, is_bytes_left = bufsize, is_errmsg = None\<rparr>"

section \<open>Reading varints\<close>

text \<open>The loop of \<^verbatim>\<open>pb_decode_varint\<close>. The position is a \<^verbatim>\<open>uint_fast8_t\<close>, eight bits wide.\<close>

lemma readbyte_left: "pb_readbyte s = (Some b, s') \<Longrightarrow> is_bytes_left s' < is_bytes_left s"
  by (auto simp: pb_readbyte_def split: if_splits prod.splits option.splits)

function decode_varint_loop :: "'s pb_istream_t \<Rightarrow> u8 \<Rightarrow> u64 \<Rightarrow> u64 option \<times> 's pb_istream_t" where
  "decode_varint_loop s bitpos result =
     (if bitpos \<ge> 64 then (None, is_fail s ''varint overflow'')
      else case pb_readbyte s of
             (None, s) \<Rightarrow> (None, s)
           | (Some byte, s) \<Rightarrow>
               let result = result OR push_bit (unat bitpos) (ucast (byte AND 0x7f))
               in if byte AND 0x80 \<noteq> 0 then decode_varint_loop s (bitpos + 7) result else (Some result, s))"
  by pat_completeness auto
termination
  by (relation "measure (\<lambda>(s, bitpos, result). is_bytes_left s)") (auto dest: readbyte_left [OF sym])

declare decode_varint_loop.simps [simp del]

definition pb_decode_varint :: "'s pb_istream_t \<Rightarrow> u64 option \<times> 's pb_istream_t" where
  "pb_decode_varint s = decode_varint_loop s 0 0"

text \<open>The loop of \<^verbatim>\<open>pb_decode_varint32_eof\<close> after a first byte with the continuation bit.\<close>

function varint32_loop :: "'s pb_istream_t \<Rightarrow> u8 \<Rightarrow> u32 \<Rightarrow> u32 option \<times> 's pb_istream_t" where
  "varint32_loop s bitpos result =
     (case pb_readbyte s of
        (None, s) \<Rightarrow> (None, s)
      | (Some byte, s) \<Rightarrow>
          let sign_extension = (if bitpos < 63 then 0xff else 0x01) in
          if bitpos \<ge> 32 \<and> byte AND 0x7f \<noteq> 0 \<and> (drop_bit 31 result = 0 \<or> byte \<noteq> sign_extension)
          then (None, is_fail s ''varint overflow'')
          else
            let result = (if bitpos \<ge> 32 then result else result OR push_bit (unat bitpos) (ucast (byte AND 0x7f)));
                bitpos = bitpos + 7
            in if byte AND 0x80 \<noteq> 0 then varint32_loop s bitpos result
               else if bitpos = 35 \<and> byte AND 0x70 \<noteq> 0 then (None, is_fail s ''varint overflow'')
               else (Some result, s))"
  by pat_completeness auto
termination
  by (relation "measure (\<lambda>(s, bitpos, result). is_bytes_left s)") (auto dest: readbyte_left [OF sym])

declare varint32_loop.simps [simp del]

text \<open>The last component of the result is whether \<^verbatim>\<open>*eof\<close> was set to true.\<close>

definition pb_decode_varint32_eof :: "'s pb_istream_t \<Rightarrow> (u32 option \<times> 's pb_istream_t) \<times> bool" where
  "pb_decode_varint32_eof s =
     (case pb_readbyte s of
        (None, s) \<Rightarrow> ((None, s), is_bytes_left s = 0)
      | (Some byte, s) \<Rightarrow>
          if byte AND 0x80 = 0 then ((Some (ucast byte), s), False)
          else (varint32_loop s 7 (ucast (byte AND 0x7f)), False))"

definition pb_decode_varint32 :: "'s pb_istream_t \<Rightarrow> u32 option \<times> 's pb_istream_t" where
  "pb_decode_varint32 s = fst (pb_decode_varint32_eof s)"

definition pb_decode_svarint :: "'s pb_istream_t \<Rightarrow> u64 option \<times> 's pb_istream_t" where
  "pb_decode_svarint s =
     (case pb_decode_varint s of
        (None, s) \<Rightarrow> (None, s)
      | (Some value, s) \<Rightarrow> (Some (if value AND 1 \<noteq> 0 then NOT (drop_bit 1 value) else drop_bit 1 value), s))"

definition pb_decode_fixed32 :: "'s pb_istream_t \<Rightarrow> u32 option \<times> 's pb_istream_t" where
  "pb_decode_fixed32 s =
     (case pb_read s True 4 of
        (None, s) \<Rightarrow> (None, s)
      | (Some bytes, s) \<Rightarrow>
          (Some (push_bit 0 (ucast (bytes ! 0)) OR push_bit 8 (ucast (bytes ! 1)) OR push_bit 16 (ucast (bytes ! 2)) OR
                 push_bit 24 (ucast (bytes ! 3))), s))"

definition pb_decode_fixed64 :: "'s pb_istream_t \<Rightarrow> u64 option \<times> 's pb_istream_t" where
  "pb_decode_fixed64 s =
     (case pb_read s True 8 of
        (None, s) \<Rightarrow> (None, s)
      | (Some bytes, s) \<Rightarrow>
          (Some (push_bit 0 (ucast (bytes ! 0)) OR push_bit 8 (ucast (bytes ! 1)) OR push_bit 16 (ucast (bytes ! 2)) OR
                 push_bit 24 (ucast (bytes ! 3)) OR push_bit 32 (ucast (bytes ! 4)) OR push_bit 40 (ucast (bytes ! 5)) OR
                 push_bit 48 (ucast (bytes ! 6)) OR push_bit 56 (ucast (bytes ! 7))), s))"

section \<open>Tags, skipping and substreams\<close>

text \<open>The wire type is the three bits of the tag: C lets the enumeration hold values it does not name.\<close>

type_synonym pb_wire_type_t = u32

definition PB_WT_VARINT :: pb_wire_type_t where "PB_WT_VARINT = 0"
definition PB_WT_64BIT :: pb_wire_type_t where "PB_WT_64BIT = 1"
definition PB_WT_STRING :: pb_wire_type_t where "PB_WT_STRING = 2"
definition PB_WT_32BIT :: pb_wire_type_t where "PB_WT_32BIT = 5"

lemmas wire_types = PB_WT_VARINT_def PB_WT_64BIT_def PB_WT_STRING_def PB_WT_32BIT_def

text \<open>The result is the wire type and the tag, and the flag \<^verbatim>\<open>*eof\<close>.\<close>

definition pb_decode_tag :: "'s pb_istream_t \<Rightarrow> (pb_wire_type_t \<times> u32) option \<times> bool \<times> 's pb_istream_t" where
  "pb_decode_tag s =
     (case pb_decode_varint32_eof s of
        ((None, s), eof) \<Rightarrow> (None, eof, s)
      | ((Some temp, s), _) \<Rightarrow>
          if temp = 0 then (None, True, s) else (Some (temp AND 7, drop_bit 3 temp), False, s))"

lemma read_bytes_left: "0 < n \<Longrightarrow> pb_read_bytes s n = (Some bs, s') \<Longrightarrow> is_bytes_left s' < is_bytes_left s"
  by (auto simp: pb_read_bytes_def split: if_splits prod.splits option.splits)

lemma read_left: "0 < n \<Longrightarrow> pb_read s True n = (Some bs, s') \<Longrightarrow> is_bytes_left s' < is_bytes_left s"
  by (auto simp: pb_read_def split: if_splits dest: read_bytes_left)

lemma read1_left: "(Some bs, s') = pb_read s True (Suc 0) \<Longrightarrow> is_bytes_left s' < is_bytes_left s"
  using read_left [of "Suc 0" s bs s'] by simp

function pb_skip_varint :: "'s pb_istream_t \<Rightarrow> bool \<times> 's pb_istream_t" where
  "pb_skip_varint s =
     (case pb_read s True 1 of
        (None, s) \<Rightarrow> (False, s)
      | (Some bs, s) \<Rightarrow> if hd bs AND 0x80 \<noteq> 0 then pb_skip_varint s else (True, s))"
  by pat_completeness auto
termination
  by (relation "measure is_bytes_left") (auto dest: read1_left)

declare pb_skip_varint.simps [simp del]

text \<open>The bool that a call to \<^verbatim>\<open>pb_read\<close> returns.\<close>

definition read_ok :: "bytes option \<times> 's pb_istream_t \<Rightarrow> bool \<times> 's pb_istream_t" where
  "read_ok r = (fst r \<noteq> None, snd r)"

definition pb_skip_string :: "'s pb_istream_t \<Rightarrow> bool \<times> 's pb_istream_t" where
  "pb_skip_string s =
     (case pb_decode_varint32 s of (None, s) \<Rightarrow> (False, s) | (Some len, s) \<Rightarrow> read_ok (pb_read s False (unat len)))"

definition pb_skip_field :: "'s pb_istream_t \<Rightarrow> pb_wire_type_t \<Rightarrow> bool \<times> 's pb_istream_t" where
  "pb_skip_field s wire_type =
     (if wire_type = PB_WT_VARINT then pb_skip_varint s
      else if wire_type = PB_WT_64BIT then read_ok (pb_read s False 8)
      else if wire_type = PB_WT_STRING then pb_skip_string s
      else if wire_type = PB_WT_32BIT then read_ok (pb_read s False 4)
      else (False, is_fail s ''invalid wire_type''))"

text \<open>\<^verbatim>\<open>read_raw_value\<close> returns the bytes it stored, whose number is \<^verbatim>\<open>*size\<close> on return.\<close>

function raw_varint_loop :: "'s pb_istream_t \<Rightarrow> nat \<Rightarrow> nat \<Rightarrow> bytes \<Rightarrow> bytes option \<times> 's pb_istream_t" where
  "raw_varint_loop s max_size sz buf =
     (if sz + 1 > max_size then (None, s)
      else case pb_read s True 1 of
             (None, s) \<Rightarrow> (None, s)
           | (Some bs, s) \<Rightarrow>
               if hd bs AND 0x80 \<noteq> 0 then raw_varint_loop s max_size (sz + 1) (buf @ [hd bs])
               else (Some (buf @ [hd bs]), s))"
  by pat_completeness auto
termination
  by (relation "measure (\<lambda>(s, m, n, buf). is_bytes_left s)") (auto dest: read1_left)

declare raw_varint_loop.simps [simp del]

definition read_raw_value :: "'s pb_istream_t \<Rightarrow> pb_wire_type_t \<Rightarrow> nat \<Rightarrow> bytes option \<times> 's pb_istream_t" where
  "read_raw_value s wire_type max_size =
     (if wire_type = PB_WT_VARINT then raw_varint_loop s max_size 0 []
      else if wire_type = PB_WT_64BIT then pb_read s True 8
      else if wire_type = PB_WT_32BIT then pb_read s True 4
      else (None, is_fail s ''invalid wire_type''))"

text \<open>The substream and the stream after \<^verbatim>\<open>pb_make_string_substream\<close>.\<close>

definition pb_make_string_substream :: "'s pb_istream_t \<Rightarrow> 's pb_istream_t option \<times> 's pb_istream_t" where
  "pb_make_string_substream s =
     (case pb_decode_varint32 s of
        (None, s) \<Rightarrow> (None, s)
      | (Some sz, s) \<Rightarrow>
          if is_bytes_left s < unat sz then (None, is_fail s ''parent stream too short'')
          else (Some (s\<lparr>is_bytes_left := unat sz\<rparr>), s\<lparr>is_bytes_left := is_bytes_left s - unat sz\<rparr>))"

definition pb_close_string_substream :: "'s pb_istream_t \<Rightarrow> 's pb_istream_t \<Rightarrow> bool \<times> 's pb_istream_t" where
  "pb_close_string_substream s substream =
     (case (if is_bytes_left substream \<noteq> 0 then read_ok (pb_read substream False (is_bytes_left substream)) else (True, substream)) of
        (False, _) \<Rightarrow> (False, s)
      | (True, substream) \<Rightarrow> (True, s\<lparr>is_source := is_source substream, is_errmsg := is_errmsg substream\<rparr>))"

section \<open>Output streams\<close>

text \<open>
  As for input: no callback for a stream that only counts, \<^verbatim>\<open>buf_write\<close> with the region it writes to and the
  position the state points at, or a callback of the application.
\<close>

datatype 's pb_sink =
    No_callback
  | Buf_write bytes nat
  | Out_callback "'s \<Rightarrow> bytes \<Rightarrow> bool \<times> 's" 's

record 's pb_ostream_t =
  os_sink :: "'s pb_sink"
  os_max_size :: nat
  os_bytes_written :: nat
  os_errmsg :: "string option"

definition os_fail :: "'s pb_ostream_t \<Rightarrow> string \<Rightarrow> 's pb_ostream_t" where
  "os_fail s msg = s\<lparr>os_errmsg := set_error (os_errmsg s) msg\<rparr>"

definition buf_write :: "bytes \<Rightarrow> nat \<Rightarrow> bytes \<Rightarrow> bytes \<times> nat" where
  "buf_write region dest buf = (write_at region dest buf, dest + length buf)"

fun sink_write :: "'s pb_sink \<Rightarrow> bytes \<Rightarrow> bool \<times> 's pb_sink" where
  "sink_write No_callback buf = (True, No_callback)"
| "sink_write (Buf_write region dest) buf = (case buf_write region dest buf of (region, dest) \<Rightarrow> (True, Buf_write region dest))"
| "sink_write (Out_callback f st) buf = (case f st buf of (ok, st) \<Rightarrow> (ok, Out_callback f st))"

definition pb_ostream_from_buffer :: "bytes \<Rightarrow> nat \<Rightarrow> 's pb_ostream_t" where
  "pb_ostream_from_buffer buf bufsize =
     \<lparr>os_sink = Buf_write buf 0, os_max_size = bufsize, os_bytes_written = 0, os_errmsg = None\<rparr>"

definition PB_OSTREAM_SIZING :: "'s pb_ostream_t" where
  "PB_OSTREAM_SIZING = \<lparr>os_sink = No_callback, os_max_size = 0, os_bytes_written = 0, os_errmsg = None\<rparr>"

fun has_callback :: "'s pb_sink \<Rightarrow> bool" where
  "has_callback No_callback = False"
| "has_callback _ = True"

definition pb_write :: "'s pb_ostream_t \<Rightarrow> bytes \<Rightarrow> bool \<times> 's pb_ostream_t" where
  "pb_write s buf =
     (let count = length buf; written = size_add (os_bytes_written s) count in
      if count > 0 \<and> has_callback (os_sink s) then
        (if written < os_bytes_written s \<or> written > os_max_size s then (False, os_fail s ''stream full'')
         else case sink_write (os_sink s) buf of
                (False, k) \<Rightarrow> (False, os_fail (s\<lparr>os_sink := k\<rparr>) ''io error'')
              | (True, k) \<Rightarrow> (True, s\<lparr>os_sink := k, os_bytes_written := written\<rparr>))
      else (True, s\<lparr>os_bytes_written := written\<rparr>))"

text \<open>The loop of \<^verbatim>\<open>pb_encode_varint\<close> that fills the buffer.\<close>

lemma drop_7_less: "v \<noteq> 0 \<Longrightarrow> unat (drop_bit 7 (v :: u64)) < unat v"
  using unat_drop_bit [of 7 v] by (simp add: div_less_dividend unat_gt_0)

function varint_bytes_loop :: "u64 \<Rightarrow> bytes \<Rightarrow> bytes" where
  "varint_bytes_loop value buffer =
     (if value \<noteq> 0 then varint_bytes_loop (drop_bit 7 value) (buffer @ [ucast ((value AND 0x7f) OR 0x80)]) else buffer)"
  by pat_completeness auto
termination
  by (relation "measure (\<lambda>(v, b). unat v)") (auto simp: drop_7_less)

declare varint_bytes_loop.simps [simp del]

definition pb_encode_varint :: "'s pb_ostream_t \<Rightarrow> u64 \<Rightarrow> bool \<times> 's pb_ostream_t" where
  "pb_encode_varint s value =
     (if value \<le> 0x7f then pb_write s [ucast value]
      else let buffer = varint_bytes_loop value [];
               i = length buffer
           in pb_write s (buffer[i - 1 := buffer ! (i - 1) AND 0x7f]))"

definition pb_encode_svarint :: "'s pb_ostream_t \<Rightarrow> u64 \<Rightarrow> bool \<times> 's pb_ostream_t" where
  "pb_encode_svarint s value =
     pb_encode_varint s (if value <s 0 then NOT (push_bit 1 value) else push_bit 1 value)"

definition pb_encode_fixed32 :: "'s pb_ostream_t \<Rightarrow> u32 \<Rightarrow> bool \<times> 's pb_ostream_t" where
  "pb_encode_fixed32 s val =
     pb_write s [ucast (val AND 0xff), ucast (drop_bit 8 val AND 0xff), ucast (drop_bit 16 val AND 0xff),
                 ucast (drop_bit 24 val AND 0xff)]"

definition pb_encode_fixed64 :: "'s pb_ostream_t \<Rightarrow> u64 \<Rightarrow> bool \<times> 's pb_ostream_t" where
  "pb_encode_fixed64 s val =
     pb_write s [ucast (val AND 0xff), ucast (drop_bit 8 val AND 0xff), ucast (drop_bit 16 val AND 0xff),
                 ucast (drop_bit 24 val AND 0xff), ucast (drop_bit 32 val AND 0xff), ucast (drop_bit 40 val AND 0xff),
                 ucast (drop_bit 48 val AND 0xff), ucast (drop_bit 56 val AND 0xff)]"

definition pb_encode_tag :: "'s pb_ostream_t \<Rightarrow> pb_wire_type_t \<Rightarrow> u32 \<Rightarrow> bool \<times> 's pb_ostream_t" where
  "pb_encode_tag s wiretype field_number =
     pb_encode_varint s (push_bit 3 (ucast field_number) OR ucast wiretype)"

definition pb_encode_string :: "'s pb_ostream_t \<Rightarrow> bytes \<Rightarrow> bool \<times> 's pb_ostream_t" where
  "pb_encode_string s buffer =
     (case pb_encode_varint s (of_nat (length buffer)) of (False, s) \<Rightarrow> (False, s) | (True, s) \<Rightarrow> pb_write s buffer)"

end
