(* ===== verification/Pb_Varint.thy ===== *)
theory Pb_Varint
  imports Pb_Stream
begin

text \<open>
  The numbers of the protobuf wire format in nanopb: base-128 varints with the low digits first and little-endian
  fixed-width values. What the writers emit is stated for every stream, and what the readers do for every source of
  bytes that keeps the contract of a callback (locale \<open>pb_input\<close>), on canonical and on arbitrary input.
\<close>

section \<open>Varints\<close>

fun varint :: "nat \<Rightarrow> bytes" where
  "varint n = (if n < 128 then [of_nat n] else of_nat (128 + n mod 128) # varint (n div 128))"

declare varint.simps [simp del]

fun leb_val :: "bytes \<Rightarrow> nat" where
  "leb_val [] = 0"
| "leb_val (b # bs) = unat b mod 128 + 128 * leb_val bs"

text \<open>The bytes up to the first without a continuation bit, and the rest.\<close>

fun leb_split :: "bytes \<Rightarrow> (bytes \<times> bytes) option" where
  "leb_split [] = None"
| "leb_split (b # bs) = (if unat b < 128 then Some ([b], bs) else map_option (\<lambda>(p, r). (b # p, r)) (leb_split bs))"

lemma u8_of_nat_unat: "n < 256 \<Longrightarrow> unat (of_nat n :: u8) = n"
  by simp

lemma varint_head: "unat (of_nat (128 + n mod 128) :: u8) = 128 + n mod 128"
  by (rule u8_of_nat_unat) (use mod_less_divisor [of 128 n] in linarith)

lemma leb_split_varint: "leb_split (varint n @ r) = Some (varint n, r)"
proof (induction n rule: varint.induct)
  case (1 n)
  show ?case
  proof (cases "n < 128")
    case True
    then show ?thesis by (simp add: varint.simps)
  next
    case False
    then show ?thesis using 1 varint_head [of n] by (simp add: varint.simps [of n] del: of_nat_add)
  qed
qed

lemma leb_val_varint: "leb_val (varint n) = n"
proof (induction n rule: varint.induct)
  case (1 n)
  show ?case
  proof (cases "n < 128")
    case True
    then show ?thesis by (simp add: varint.simps)
  next
    case False
    then show ?thesis using 1 varint_head [of n] by (simp add: varint.simps [of n] del: of_nat_add)
  qed
qed

lemma length_varint: "0 < k \<Longrightarrow> n < 128 ^ k \<Longrightarrow> 1 \<le> length (varint n) \<and> length (varint n) \<le> k"
proof (induction k arbitrary: n)
  case (Suc k)
  show ?case
  proof (cases "n < 128")
    case False
    then have "k \<noteq> 0" using Suc.prems by (cases k) auto
    moreover have "n div 128 < 128 ^ k" using Suc.prems by (simp add: div_less_iff_less_mult mult.commute)
    ultimately show ?thesis using Suc.IH [of "n div 128"] False by (simp add: varint.simps [of n])
  qed (simp add: varint.simps)
qed simp

lemma length_varint_u64: "length (varint (unat (v :: u64))) \<le> 10"
proof -
  have "unat v < 2 ^ 64" using unat_less [of v] by simp
  also have "\<dots> \<le> 128 ^ 10" by simp
  finally show ?thesis using length_varint [of 10 "unat v"] by simp
qed

section \<open>The writers\<close>

text \<open>The loop fills the buffer with the digits, all marked as continued.\<close>

fun marked :: "nat \<Rightarrow> bytes" where
  "marked n = (if n = 0 then [] else of_nat (128 + n mod 128) # marked (n div 128))"

declare marked.simps [simp del]

lemma varint_byte: "(ucast (((v :: u64) AND 0x7f) OR 0x80) :: u8) = of_nat (128 + unat v mod 128)"
proof -
  have v: "unat (v AND 0x7f) = unat v mod 128" using unat_and_mask [of v 7] by (simp add: mask_eq_exp_minus_1)
  have "unat (push_bit 7 (1::u64) OR (v AND 0x7f)) = 1 * 2 ^ 7 + unat (v AND 0x7f)"
    using unat_shift_or [of "1::u64" 7 "v AND 0x7f"] by (simp add: v)
  then have "unat ((v AND 0x7f) OR 0x80) = 128 + unat v mod 128" by (simp add: v or.commute)
  then show ?thesis by (simp add: word_unat_eq_iff unat_ucast_mod del: of_nat_add)
qed

lemma varint_loop_marked: "varint_bytes_loop v buf = buf @ marked (unat v)"
proof (induction v buf rule: varint_bytes_loop.induct)
  case (1 v buf)
  show ?case
  proof (cases "v = 0")
    case True
    then show ?thesis by (simp add: varint_bytes_loop.simps marked.simps)
  next
    case False
    moreover have "unat (drop_bit 7 v) = unat v div 128" using unat_drop_bit [of 7 v] by simp
    moreover have "unat v \<noteq> 0" using False by (simp add: unat_eq_zero)
    ultimately show ?thesis using 1
      by (simp add: varint_bytes_loop.simps [of v] marked.simps [of "unat v"] varint_byte del: of_nat_add)
  qed
qed

lemma update_last: "xs \<noteq> [] \<Longrightarrow> xs[length xs - 1 := y] = butlast xs @ [y]"
  by (induction xs rule: rev_induct) simp_all

lemma marked_varint: "0 < n \<Longrightarrow> marked n \<noteq> [] \<and> butlast (marked n) @ [last (marked n) AND 0x7f] = varint n"
proof (induction n rule: marked.induct)
  case (1 n)
  show ?case
  proof (cases "n < 128")
    case True
    then have "marked n = [of_nat (128 + n)]" using 1(2) by (simp add: marked.simps [of n] marked.simps [of 0])
    moreover have "(of_nat (128 + n) :: u8) AND 0x7f = of_nat n"
      using u8_and_7f [of "of_nat (128 + n)"] True by (simp add: word_unat_eq_iff del: of_nat_add)
    ultimately show ?thesis using True by (simp add: varint.simps del: of_nat_add)
  next
    case False
    then have "0 < n div 128" by (simp add: div_greater_zero_iff)
    with 1 False have IH: "marked (n div 128) \<noteq> []"
      "butlast (marked (n div 128)) @ [last (marked (n div 128)) AND 0x7f] = varint (n div 128)" by auto
    have "marked n = of_nat (128 + n mod 128) # marked (n div 128)" using False by (simp add: marked.simps [of n])
    then show ?thesis using IH False by (simp add: varint.simps [of n] del: of_nat_add)
  qed
qed

lemma pb_encode_varint_write: "pb_encode_varint s v = pb_write s (varint (unat v))"
proof (cases "v \<le> 0x7f")
  case True
  then have "unat v < 128" by (simp add: word_le_nat_alt)
  moreover have "(ucast v :: u8) = of_nat (unat v)" by (simp add: word_unat_eq_iff unat_ucast_mod)
  ultimately show ?thesis using True by (simp add: pb_encode_varint_def varint.simps)
next
  case False
  then have "v \<noteq> 0" by auto
  then have "0 < unat v" by (simp add: unat_gt_0)
  note m = marked_varint [OF this]
  then show ?thesis
    using False update_last [of "marked (unat v)"] last_conv_nth [of "marked (unat v)"]
    by (simp add: pb_encode_varint_def varint_loop_marked Let_def)
qed

text \<open>Fixed-width values, low octets first.\<close>

definition octet :: "'a::len word \<Rightarrow> nat \<Rightarrow> u8" where
  "octet v k = ucast (drop_bit k v AND 0xff)"

definition fixed32_bytes :: "u32 \<Rightarrow> bytes" where
  "fixed32_bytes v = map (octet v) [0, 8, 16, 24]"

definition fixed64_bytes :: "u64 \<Rightarrow> bytes" where
  "fixed64_bytes v = map (octet v) [0, 8, 16, 24, 32, 40, 48, 56]"

lemma length_fixed [simp]: "length (fixed32_bytes v) = 4" "length (fixed64_bytes w) = 8"
  by (simp_all add: fixed32_bytes_def fixed64_bytes_def)

lemma pb_encode_fixed_write:
  "pb_encode_fixed32 s v = pb_write s (fixed32_bytes v)" "pb_encode_fixed64 s w = pb_write s (fixed64_bytes w)"
  by (simp_all add: pb_encode_fixed32_def pb_encode_fixed64_def fixed32_bytes_def fixed64_bytes_def octet_def)

lemma or_shift_unat:
  fixes w v :: "'a::len word"
  assumes "unat w < 2 ^ n"
  shows "unat (w OR push_bit n v) = (unat w + unat v * 2 ^ n) mod 2 ^ LENGTH('a)"
proof -
  have "take_bit n w = w"
    using assms by (simp add: word_unat_eq_iff unsigned_take_bit_eq take_bit_nat_eq_self_iff)
  then have w: "bit w i \<Longrightarrow> i < n" for i by (metis bit_take_bit_iff)
  have "w OR push_bit n v = w + push_bit n v"
    by (rule disjunctive_add_eq_or [symmetric]) (auto simp: bit_eq_iff bit_and_iff bit_push_bit_iff dest: w)
  moreover have "unat (push_bit n v) = unat v * 2 ^ n mod 2 ^ LENGTH('a)"
    by (simp only: unsigned_push_bit_eq) (simp add: push_bit_eq_mult take_bit_eq_mod)
  ultimately show ?thesis by (simp only: unat_word_ariths mod_add_right_eq)
qed

lemma unat_octet: "8 \<le> LENGTH('a) \<Longrightarrow> unat (octet (v :: 'a::len word) k) = unat v div 2 ^ k mod 256"
  using unat_and_mask [of "drop_bit k v" 8] by (simp add: octet_def mask_eq_exp_minus_1 unat_drop_bit unat_ucast_mod)

lemma collect_octet:
  fixes r v :: "'a::len word"
  assumes "8 \<le> LENGTH('a)" and "unat r = unat v mod 2 ^ k"
  shows "unat (r OR push_bit k (ucast (octet v k))) = unat v mod 2 ^ (k + 8)"
proof -
  have "unat r < 2 ^ k" using assms(2) by simp
  from or_shift_unat [OF this, of "ucast (octet v k)"] have
    "unat (r OR push_bit k (ucast (octet v k))) = (unat v mod 2 ^ k + (unat v div 2 ^ k mod 256) * 2 ^ k) mod 2 ^ LENGTH('a)"
    using assms by (simp add: unat_ucast_up unat_octet)
  also have "unat v mod 2 ^ k + (unat v div 2 ^ k mod 256) * 2 ^ k = unat v mod 2 ^ (k + 8)"
    using mod_mult2_eq [of "unat v" "2 ^ k" 256] by (simp add: power_add mult.commute)
  also have "\<dots> mod 2 ^ LENGTH('a) = unat v mod 2 ^ (k + 8)"
    by (rule mod_less) (rule le_less_trans [OF mod_less_eq_dividend unat_less])
  finally show ?thesis .
qed

lemma fixed32_collect:
  "push_bit 0 (ucast (fixed32_bytes v ! 0)) OR push_bit 8 (ucast (fixed32_bytes v ! 1)) OR push_bit 16 (ucast (fixed32_bytes v ! 2)) OR
     push_bit 24 (ucast (fixed32_bytes v ! 3)) = v"
proof -
  let ?o = "\<lambda>k. push_bit k (ucast (octet v k)) :: u32"
  have l: "8 \<le> LENGTH(32)" by simp
  have c1: "unat (?o 0) = unat v mod 2 ^ 8" using collect_octet [OF l, of 0 v 0] by simp
  have c2: "unat (?o 0 OR ?o 8) = unat v mod 2 ^ 16" using collect_octet [OF l c1] by simp
  have c3: "unat ((?o 0 OR ?o 8) OR ?o 16) = unat v mod 2 ^ 24" using collect_octet [OF l c2] by simp
  have c4: "unat (((?o 0 OR ?o 8) OR ?o 16) OR ?o 24) = unat v mod 2 ^ 32" using collect_octet [OF l c3] by simp
  have "((?o 0 OR ?o 8) OR ?o 16) OR ?o 24 = v" using c4 unat_less [of v] by (simp add: word_unat_eq_iff)
  then show ?thesis by (simp add: fixed32_bytes_def or.assoc)
qed

lemma fixed64_collect:
  "push_bit 0 (ucast (fixed64_bytes v ! 0)) OR push_bit 8 (ucast (fixed64_bytes v ! 1)) OR push_bit 16 (ucast (fixed64_bytes v ! 2)) OR
     push_bit 24 (ucast (fixed64_bytes v ! 3)) OR push_bit 32 (ucast (fixed64_bytes v ! 4)) OR push_bit 40 (ucast (fixed64_bytes v ! 5)) OR
     push_bit 48 (ucast (fixed64_bytes v ! 6)) OR push_bit 56 (ucast (fixed64_bytes v ! 7)) = v"
proof -
  let ?o = "\<lambda>k. push_bit k (ucast (octet v k)) :: u64"
  have l: "8 \<le> LENGTH(64)" by simp
  have c1: "unat (?o 0) = unat v mod 2 ^ 8" using collect_octet [OF l, of 0 v 0] by simp
  have c2: "unat (?o 0 OR ?o 8) = unat v mod 2 ^ 16" using collect_octet [OF l c1] by simp
  have c3: "unat ((?o 0 OR ?o 8) OR ?o 16) = unat v mod 2 ^ 24" using collect_octet [OF l c2] by simp
  have c4: "unat (((?o 0 OR ?o 8) OR ?o 16) OR ?o 24) = unat v mod 2 ^ 32" using collect_octet [OF l c3] by simp
  have c5: "unat ((((?o 0 OR ?o 8) OR ?o 16) OR ?o 24) OR ?o 32) = unat v mod 2 ^ 40" using collect_octet [OF l c4] by simp
  have c6: "unat (((((?o 0 OR ?o 8) OR ?o 16) OR ?o 24) OR ?o 32) OR ?o 40) = unat v mod 2 ^ 48" using collect_octet [OF l c5] by simp
  have c7: "unat ((((((?o 0 OR ?o 8) OR ?o 16) OR ?o 24) OR ?o 32) OR ?o 40) OR ?o 48) = unat v mod 2 ^ 56" using collect_octet [OF l c6] by simp
  have c8: "unat (((((((?o 0 OR ?o 8) OR ?o 16) OR ?o 24) OR ?o 32) OR ?o 40) OR ?o 48) OR ?o 56) = unat v mod 2 ^ 64" using collect_octet [OF l c7] by simp
  have "((((((?o 0 OR ?o 8) OR ?o 16) OR ?o 24) OR ?o 32) OR ?o 40) OR ?o 48) OR ?o 56 = v" using c8 unat_less [of v] by (simp add: word_unat_eq_iff)
  then show ?thesis by (simp add: fixed64_bytes_def or.assoc)
qed

section \<open>The readers\<close>

text \<open>
  The contract of a source: it stands for a sequence of bytes, of which it delivers as many as are asked for. A stream
  then reads \<open>bs\<close> when that many bytes are left of it, with \<open>rest\<close> behind them in the source.
\<close>

definition reads :: "('s pb_source \<Rightarrow> bytes \<Rightarrow> bool) \<Rightarrow> 's pb_istream_t \<Rightarrow> bytes \<Rightarrow> bytes \<Rightarrow> bool" where
  "reads yields s bs rest \<longleftrightarrow> is_bytes_left s = length bs \<and> yields (is_source s) (bs @ rest)"

text \<open>An outcome: the value expected, the input advanced, and on success the message of the stream untouched.\<close>

definition outcome ::
    "('s pb_source \<Rightarrow> bytes \<Rightarrow> bool) \<Rightarrow> 's pb_istream_t \<Rightarrow> bytes \<Rightarrow> ('a option \<times> bytes) \<Rightarrow> 'a option \<times> 's pb_istream_t \<Rightarrow> bool" where
  "outcome yields s rest x r \<longleftrightarrow>
     fst r = fst x \<and> (fst x \<noteq> None \<longrightarrow> reads yields (snd r) (snd x) rest \<and> is_errmsg (snd r) = is_errmsg s)"

lemma outcomeD:
  assumes "outcome yields s rest (Some v, bs) r"
  obtains s' where "r = (Some v, s')" "reads yields s' bs rest" "is_errmsg s' = is_errmsg s"
  using assms by (cases r) (auto simp: outcome_def)

lemma outcome_Some: "reads yields s' bs rest \<Longrightarrow> is_errmsg s' = is_errmsg s \<Longrightarrow> outcome yields s rest (Some v, bs) (Some v, s')"
  by (simp add: outcome_def)

lemma outcome_None: "outcome yields s rest (None, bs) (None, s')"
  by (simp add: outcome_def)

text \<open>What the readers of varints compute, on the bytes left of the stream.\<close>

definition varint_read :: "bytes \<Rightarrow> u64 option \<times> bytes" where
  "varint_read bs =
     (case leb_split bs of
        Some (p, r) \<Rightarrow> if length p \<le> 10 then (Some (of_nat (leb_val p)), r) else (None, [])
      | None \<Rightarrow> (None, []))"

lemma collect_digit64:
  fixes result :: u64 and b :: u8 and i :: nat
  defines "res \<equiv> result OR push_bit (7 * i) (ucast (b AND 0x7f))"
  assumes "unat result < 128 ^ i"
  shows "unat res < 128 ^ Suc i"
    and "of_nat (unat res + 128 ^ Suc i * x) = (of_nat (unat result + 128 ^ i * (unat b mod 128 + 128 * x)) :: u64)"
proof -
  have r: "unat res = (unat result + (unat b mod 128) * 128 ^ i) mod 2 ^ 64"
    using or_shift_unat [of result "7 * i" "ucast (b AND 0x7f)"] assms(2)
    by (simp add: res_def unat_ucast_up u8_and_7f power_mult)
  have "(unat b mod 128) * 128 ^ i + 128 ^ i \<le> 128 * (128::nat) ^ i"
    using mult_le_mono1 [of "unat b mod 128 + 1" 128 "128 ^ i"] mod_less_divisor [of 128 "unat b"] by (simp add: add.commute)
  then have "unat result + (unat b mod 128) * 128 ^ i < 128 ^ Suc i" unfolding power_Suc using assms(2) by linarith
  then show "unat res < 128 ^ Suc i" unfolding r by (rule le_less_trans [OF mod_less_eq_dividend])
  have base: "res = of_nat (unat result + (unat b mod 128) * 128 ^ i)"
    by (rule word_unat_eq_iff [THEN iffD2]) (simp only: r unat_of_nat, simp)
  have "of_nat (unat res + 128 ^ Suc i * x) = res + of_nat (128 ^ Suc i * x)" by simp
  also have "\<dots> = of_nat ((unat result + (unat b mod 128) * 128 ^ i) + 128 ^ Suc i * x)"
    by (simp only: base of_nat_add [symmetric])
  also have "(unat result + (unat b mod 128) * 128 ^ i) + 128 ^ Suc i * x = unat result + 128 ^ i * (unat b mod 128 + 128 * x)"
    by (simp add: algebra_simps)
  finally show "of_nat (unat res + 128 ^ Suc i * x) = (of_nat (unat result + 128 ^ i * (unat b mod 128 + 128 * x)) :: u64)" .
qed

lemma u8_and_70: "unat (b :: u8) < 128 \<Longrightarrow> b AND 0x70 \<noteq> 0 \<longleftrightarrow> 16 \<le> unat b"
proof -
  have "\<forall>n\<in>set [0..<256]. unat (of_nat n :: u8) < 128 \<longrightarrow> ((of_nat n :: u8) AND 0x70 \<noteq> 0) = (16 \<le> unat (of_nat n :: u8))"
    by code_simp
  from u8_all [OF this, of b] show "unat b < 128 \<Longrightarrow> b AND 0x70 \<noteq> 0 \<longleftrightarrow> 16 \<le> unat b" by blast
qed

text \<open>What the loop of the 32-bit reader does with byte \<open>i\<close>, counted from zero, when that is \<open>b\<close>.\<close>

definition varint32_byte :: "nat \<Rightarrow> u8 \<Rightarrow> u32 \<Rightarrow> 's pb_istream_t \<Rightarrow> u32 option \<times> 's pb_istream_t" where
  "varint32_byte i b result s =
     (if 5 \<le> i \<and> unat b mod 128 \<noteq> 0 \<and> (drop_bit 31 result = 0 \<or> b \<noteq> (if i < 9 then 0xff else 0x01))
      then (None, is_fail s ''varint overflow'')
      else let result = (if 5 \<le> i then result else result OR push_bit (7 * i) (ucast (b AND 0x7f)))
           in if 128 \<le> unat b then varint32_loop s (of_nat (7 * Suc i)) result
              else if i = 4 \<and> 16 \<le> unat b then (None, is_fail s ''varint overflow'')
              else (Some result, s))"

locale pb_input =
  fixes yields :: "'s pb_source \<Rightarrow> bytes \<Rightarrow> bool"
  assumes yields_read: "yields src bs \<Longrightarrow> n \<le> length bs \<Longrightarrow>
    \<exists>src'. source_read src n = (Some (take n bs), src') \<and> yields src' (drop n bs)"
begin

lemma readbyte_Cons:
  assumes "reads yields s (b # bs) rest"
  obtains s' where "pb_readbyte s = (Some b, s')" "reads yields s' bs rest" "is_errmsg s' = is_errmsg s"
proof -
  from yields_read [of "is_source s" "b # bs @ rest" 1] assms obtain src' where
    "source_read (is_source s) 1 = (Some [b], src')" "yields src' (bs @ rest)" by (auto simp: reads_def)
  with that show ?thesis using assms by (simp add: pb_readbyte_def reads_def)
qed

lemma readbyte_Nil: "reads yields s [] rest \<Longrightarrow> fst (pb_readbyte s) = None \<and> is_bytes_left (snd (pb_readbyte s)) = 0"
  by (simp add: pb_readbyte_def reads_def is_fail_def)

lemma read_bytes_take:
  assumes "reads yields s bs rest" and "n \<le> length bs"
  shows "outcome yields s rest (Some (take n bs), drop n bs) (pb_read_bytes s n)"
proof (cases "n = 0")
  case True
  then show ?thesis using assms by (simp add: pb_read_bytes_def outcome_def)
next
  case False
  from yields_read [of "is_source s" "bs @ rest" n] assms obtain src' where
    "source_read (is_source s) n = (Some (take n bs), src')" "yields src' (drop n bs @ rest)" by (auto simp: reads_def)
  then show ?thesis using assms False by (simp add: pb_read_bytes_def outcome_def reads_def)
qed

lemma read_bytes_short:
  assumes "reads yields s bs rest" and "length bs < n"
  shows "fst (pb_read_bytes s n) = None"
  using assms by (simp add: pb_read_bytes_def reads_def)

lemma skip_loop_take:
  "reads yields s bs rest \<Longrightarrow> n \<le> length bs \<Longrightarrow>
     \<exists>v. outcome yields s rest (Some v, drop n bs) (pb_skip_loop s n)"
proof (induction s n arbitrary: bs rule: pb_skip_loop.induct)
  case (1 s n)
  show ?case
  proof (cases "n > 16")
    case True
    from read_bytes_take [OF 1(2), of 16] True 1(3) obtain s' where
      s': "pb_read_bytes s 16 = (Some (take 16 bs), s')" "reads yields s' (drop 16 bs) rest" "is_errmsg s' = is_errmsg s"
      by (auto elim: outcomeD)
    from 1(1) [OF True s'(1) [symmetric] refl s'(2)] True 1(3) s' show ?thesis
      by (subst pb_skip_loop.simps) (auto simp: outcome_def)
  next
    case False
    then show ?thesis using read_bytes_take [OF 1(2,3)] by (subst pb_skip_loop.simps) auto
  qed
qed

lemma read_take:
  assumes "reads yields s bs rest" and "n \<le> length bs"
  shows "outcome yields s rest (Some (take n bs), drop n bs) (pb_read s True n)"
  using read_bytes_take [OF assms] assms by (auto simp: pb_read_def outcome_def)

lemma skip_take:
  assumes "reads yields s bs rest" and "n \<le> length bs"
  shows "\<exists>s'. read_ok (pb_read s False n) = (True, s') \<and> reads yields s' (drop n bs) rest"
  using skip_loop_take [OF assms] read_bytes_take [OF assms] assms
  by (auto simp: pb_read_def outcome_def read_ok_def)

text \<open>One byte of the loop, the \<open>i\<close>-th counted from zero.\<close>

lemma decode_varint_step:
  assumes "reads yields s (b # bs) rest" and "i < 10"
  obtains s' where "reads yields s' bs rest" "is_errmsg s' = is_errmsg s"
    "decode_varint_loop s (of_nat (7 * i)) result =
       (let result = result OR push_bit (7 * i) (ucast (b AND 0x7f))
        in if unat b < 128 then (Some result, s') else decode_varint_loop s' (of_nat (7 * Suc i)) result)"
proof -
  obtain s' where s': "pb_readbyte s = (Some b, s')" "reads yields s' bs rest" "is_errmsg s' = is_errmsg s"
    using readbyte_Cons [OF assms(1)] .
  have u: "unat (of_nat (7 * i) :: u8) = 7 * i" by (rule u8_of_nat_unat) (use assms(2) in simp)
  then have p: "\<not> (of_nat (7 * i) :: u8) \<ge> 64" using assms(2) by (simp add: word_le_nat_alt del: of_nat_mult)
  have nxt: "of_nat (7 * i) + 7 = (of_nat (7 * Suc i) :: u8)" by simp
  have "7 * i < 256" using assms(2) by simp
  then show ?thesis
    by (intro that [OF s'(2,3)])
       (subst decode_varint_loop.simps, simp add: p u s'(1) Let_def u8_and_80 nxt del: of_nat_mult mult_Suc_right)
qed

lemma decode_varint_loop_spec:
  "reads yields s bs rest \<Longrightarrow> i \<le> 10 \<Longrightarrow> unat result < 128 ^ i \<Longrightarrow>
     outcome yields s rest
       (case leb_split bs of
          Some (p, r) \<Rightarrow> if i + length p \<le> 10 then (Some (of_nat (unat result + 128 ^ i * leb_val p)), r) else (None, [])
        | None \<Rightarrow> (None, []))
       (decode_varint_loop s (of_nat (7 * i)) result)"
proof (induction bs arbitrary: s i result)
  case Nil
  obtain s' where "pb_readbyte s = (None, s')" using readbyte_Nil [OF Nil(1)] by (cases "pb_readbyte s") auto
  then show ?case by (subst decode_varint_loop.simps) (simp add: outcome_None)
next
  case (Cons b bs)
  show ?case
  proof (cases "i = 10")
    case True
    have "length p \<noteq> 0" if "leb_split (b # bs) = Some (p, r)" for p r
      using that by (auto split: if_splits)
    then show ?thesis using True by (subst decode_varint_loop.simps) (auto simp: outcome_None split: option.split)
  next
    case False
    let ?res = "result OR push_bit (7 * i) (ucast (b AND 0x7f))"
    note digit = collect_digit64 [OF Cons.prems(3), of b]
    have i: "i < 10" using False Cons.prems(2) by simp
    obtain s' where s': "reads yields s' bs rest" "is_errmsg s' = is_errmsg s"
      "decode_varint_loop s (of_nat (7 * i)) result =
         (let result = ?res in if unat b < 128 then (Some result, s') else decode_varint_loop s' (of_nat (7 * Suc i)) result)"
      using decode_varint_step [OF Cons.prems(1) i] .
    show ?thesis
    proof (cases "unat b < 128")
      case True
      then show ?thesis using s' digit(2) [of 0] i by (simp add: Let_def outcome_def)
    next
      case nb: False
      have "outcome yields s' rest
         (case leb_split bs of
            Some (p, r) \<Rightarrow> if Suc i + length p \<le> 10 then (Some (of_nat (unat ?res + 128 ^ Suc i * leb_val p)), r) else (None, [])
          | None \<Rightarrow> (None, [])) (decode_varint_loop s (of_nat (7 * i)) result)"
        using Cons.IH [OF s'(1) _ digit(1)] i s'(3) nb by (simp add: Let_def)
      then show ?thesis using nb s'(2) unfolding digit(2)
        by (cases "leb_split bs") (auto simp: outcome_def split: if_splits)
    qed
  qed
qed

lemma decode_varint_exact: "reads yields s bs rest \<Longrightarrow> outcome yields s rest (varint_read bs) (pb_decode_varint s)"
  using decode_varint_loop_spec [of s bs rest 0 0]
  by (cases "leb_split bs") (auto simp: pb_decode_varint_def varint_read_def)

lemma decode_varint:
  assumes "reads yields s (varint (unat v) @ bs) rest"
  shows "outcome yields s rest (Some v, bs) (pb_decode_varint s)"
  using decode_varint_exact [OF assms] length_varint_u64 [of v] by (simp add: varint_read_def leb_split_varint leb_val_varint)

text \<open>
  The 32-bit reader on the encoding of a number \<open>n\<close> that may be larger. One byte of the loop, at position \<open>7 * i\<close>
  with \<open>i\<close> at most nine, in terms of what is left of the number.
\<close>

lemma varint32_step:
  assumes "reads yields s (b # bs) rest" and "0 < i" and "i \<le> 9"
  obtains s' where "reads yields s' bs rest" "is_errmsg s' = is_errmsg s"
    "varint32_loop s (of_nat (7 * i)) result = varint32_byte i b result s'"
proof -
  obtain s' where s': "pb_readbyte s = (Some b, s')" "reads yields s' bs rest" "is_errmsg s' = is_errmsg s"
    using readbyte_Cons [OF assms(1)] .
  have u: "unat (of_nat (7 * i) :: u8) = 7 * i" "unat (of_nat (7 * Suc i) :: u8) = 7 * Suc i"
    by (rule u8_of_nat_unat, use assms(3) in simp)+
  have p: "(of_nat (7 * i) :: u8) \<ge> 32 \<longleftrightarrow> 5 \<le> i" "(of_nat (7 * i) :: u8) < 63 \<longleftrightarrow> i < 9"
    unfolding word_le_nat_alt word_less_nat_alt u by auto
  have q: "of_nat (7 * i) + 7 = (of_nat (7 * Suc i) :: u8)" by simp
  have q4: "(of_nat (7 * Suc i) :: u8) = 35 \<longleftrightarrow> i = 4" unfolding word_unat_eq_iff u by auto
  have b: "b AND 0x80 \<noteq> 0 \<longleftrightarrow> 128 \<le> unat b" "b AND 0x7f \<noteq> 0 \<longleftrightarrow> unat b mod 128 \<noteq> 0"
    using u8_and_80 [of b] u8_and_7f [of b] by (auto simp: word_unat_eq_iff)
  have b70: "\<not> 128 \<le> unat b \<Longrightarrow> (b AND 0x70 \<noteq> 0) = (16 \<le> unat b)" using u8_and_70 [of b] by simp
  show ?thesis
    by (rule that [OF s'(2,3)])
       (subst varint32_loop.simps, simp only: varint32_byte_def s'(1) prod.case option.case Let_def p q q4 b u(1), cases "128 \<le> unat b", auto simp: b70 simp del: of_nat_mult mult_Suc_right)
qed

text \<open>While the position is below 32, the result collects the low digits.\<close>

lemma collect_digit:
  assumes "unat (result :: u32) = n mod 128 ^ i mod 2 ^ 32" and "i \<le> 4" and "unat (b :: u8) mod 128 = n div 128 ^ i mod 128"
  shows "unat (result OR push_bit (7 * i) (ucast (b AND 0x7f))) = n mod 128 ^ Suc i mod 2 ^ 32"
proof -
  have "n mod 128 ^ i mod 2 ^ 32 \<le> n mod 128 ^ i" "n mod 128 ^ i < 128 ^ i" by simp_all
  then have "unat result < 128 ^ i" unfolding assms(1) by (rule le_less_trans)
  then have "unat result < 2 ^ (7 * i)" by (simp add: power_mult)
  from or_shift_unat [OF this, of "ucast (b AND 0x7f)"] have
    "unat (result OR push_bit (7 * i) (ucast (b AND 0x7f))) = (n mod 128 ^ i + n div 128 ^ i mod 128 * 128 ^ i) mod 2 ^ 32"
    by (simp add: unat_ucast_up u8_and_7f power_mult assms mod_add_left_eq)
  also have "n mod 128 ^ i + n div 128 ^ i mod 128 * 128 ^ i = n mod 128 ^ Suc i"
    unfolding power_Suc2 mod_mult2_eq by simp
  finally show ?thesis .
qed

lemma varint32_continue:
  assumes "reads yields s (varint (n div 128 ^ i) @ bs) rest" and "0 < i" and "i \<le> 4"
    and "unat result = n mod 128 ^ i mod 2 ^ 32" and "128 ^ Suc i \<le> n"
  obtains s' result' where "reads yields s' (varint (n div 128 ^ Suc i) @ bs) rest" "is_errmsg s' = is_errmsg s"
    "varint32_loop s (of_nat (7 * i)) result = varint32_loop s' (of_nat (7 * Suc i)) result'"
    "unat result' = n mod 128 ^ Suc i mod 2 ^ 32"
proof -
  let ?m = "n div 128 ^ i"
  let ?b = "of_nat (128 + ?m mod 128) :: u8"
  have "128 \<le> ?m" using assms(5) by (simp add: less_eq_div_iff_mult_less_eq)
  then have v: "varint ?m = ?b # varint (n div 128 ^ Suc i)"
    by (subst varint.simps) (simp add: div_mult2_eq [symmetric] mult.commute del: of_nat_add)
  have b: "unat ?b = 128 + ?m mod 128" by (rule varint_head)
  then have bm: "unat ?b mod 128 = ?m mod 128" by simp
  have rd: "reads yields s (?b # varint (n div 128 ^ Suc i) @ bs) rest" using assms(1) v by simp
  have i9: "i \<le> 9" "\<not> 5 \<le> i" using assms(3) by simp_all
  obtain s' where s': "reads yields s' (varint (n div 128 ^ Suc i) @ bs) rest" "is_errmsg s' = is_errmsg s"
    "varint32_loop s (of_nat (7 * i)) result = varint32_byte i ?b result s'" using varint32_step [OF rd assms(2) i9(1)] .
  have "varint32_byte i ?b result s' = varint32_loop s' (of_nat (7 * Suc i)) (result OR push_bit (7 * i) (ucast (?b AND 0x7f)))"
    unfolding varint32_byte_def b Let_def using i9(2) by simp
  then show ?thesis using that [OF s'(1,2)] s'(3) collect_digit [OF assms(4,3) bm] by simp
qed

lemma varint32_small:
  "reads yields s (varint (n div 128 ^ i) @ bs) rest \<Longrightarrow> 0 < i \<Longrightarrow> i \<le> 4 \<Longrightarrow> unat result = n mod 128 ^ i mod 2 ^ 32 \<Longrightarrow>
     n < 2 ^ 32 \<Longrightarrow> outcome yields s rest (Some (of_nat n), bs) (varint32_loop s (of_nat (7 * i)) result)"
proof (induction "5 - i" arbitrary: i s result)
  case (Suc j)
  show ?case
  proof (cases "128 ^ Suc i \<le> n")
    case True
    have "i < 4"
    proof (rule ccontr)
      assume "\<not> i < 4"
      then have "i = 4" using Suc.prems(3) by simp
      then show False using True Suc.prems(5) by simp
    qed
    obtain s' result' where s': "reads yields s' (varint (n div 128 ^ Suc i) @ bs) rest" "is_errmsg s' = is_errmsg s"
      "varint32_loop s (of_nat (7 * i)) result = varint32_loop s' (of_nat (7 * Suc i)) result'"
      "unat result' = n mod 128 ^ Suc i mod 2 ^ 32"
      using varint32_continue [OF Suc.prems(1-4) True] .
    have "outcome yields s' rest (Some (of_nat n), bs) (varint32_loop s' (of_nat (7 * Suc i)) result')"
      by (rule Suc.hyps(1) [OF _ s'(1) _ _ s'(4) Suc.prems(5)]) (use Suc.hyps(2) \<open>i < 4\<close> in simp_all)
    then show ?thesis unfolding s'(3) by (simp add: outcome_def s'(2))
  next
    case False
    let ?m = "n div 128 ^ i"
    have m: "?m < 128" using False by (simp add: div_less_iff_less_mult)
    then have v: "varint ?m = [of_nat ?m]" by (simp add: varint.simps)
    have b: "unat (of_nat ?m :: u8) = ?m" by (rule u8_of_nat_unat) (use m in simp)
    then have bm: "unat (of_nat ?m :: u8) mod 128 = ?m mod 128" by (simp only:)
    have r: "result OR push_bit (7 * i) (ucast ((of_nat ?m :: u8) AND 0x7f)) = of_nat n"
      using collect_digit [OF Suc.prems(4,3) bm] False Suc.prems(5) by (simp add: word_unat_eq_iff unat_of_nat)
    have "\<not> (i = 4 \<and> 16 \<le> ?m)" using Suc.prems(5) by (auto simp: div_less_iff_less_mult not_le)
    moreover have "\<not> 5 \<le> i" "i \<le> 9" using Suc.prems(3) by simp_all
    moreover have rd: "reads yields s (of_nat ?m # bs) rest" using Suc.prems(1) v by simp
    obtain s' where s': "reads yields s' bs rest" "is_errmsg s' = is_errmsg s"
      "varint32_loop s (of_nat (7 * i)) result = varint32_byte i (of_nat ?m) result s'"
      using varint32_step [OF rd Suc.prems(2) \<open>i \<le> 9\<close>] .
    ultimately have "varint32_byte i (of_nat ?m) result s' = (Some (of_nat n), s')"
      unfolding varint32_byte_def b Let_def r using m by simp
    then show ?thesis unfolding s'(3) using s'(1,2) by (simp add: outcome_Some)
  qed
qed simp

text \<open>A negative 32-bit number is encoded with sign extension to 64 bits.\<close>

lemma varint32_sign:
  "reads yields s (varint (2 ^ (64 - 7 * i) - 1) @ bs) rest \<Longrightarrow> 5 \<le> i \<Longrightarrow> i \<le> 9 \<Longrightarrow> drop_bit 31 result \<noteq> 0 \<Longrightarrow>
     outcome yields s rest (Some result, bs) (varint32_loop s (of_nat (7 * i)) result)"
proof (induction "9 - i" arbitrary: i s)
  case 0
  then have i: "i = 9" by simp
  have v: "varint (2 ^ (64 - 7 * i) - 1) = [1]" by (simp add: i varint.simps)
  then have rd: "reads yields s (1 # bs) rest" using 0 by simp
  obtain s' where s': "reads yields s' bs rest" "is_errmsg s' = is_errmsg s"
    "varint32_loop s (of_nat (7 * i)) result = varint32_byte i 1 result s'" using varint32_step [OF rd, of i] 0 i by auto
  have "varint32_byte i 1 result s' = (Some result, s')" using 0(5) i by (simp add: varint32_byte_def)
  then show ?case unfolding s'(3) using s'(1,2) by (simp add: outcome_Some)
next
  case (Suc j)
  let ?m = "2 ^ (64 - 7 * i) - 1 :: nat"
  obtain q where q: "(2::nat) ^ (64 - 7 * Suc i) = Suc q" by (metis gr0_implies_Suc zero_less_numeral zero_less_power)
  have "64 - 7 * i = (64 - 7 * Suc i) + 7" using Suc.hyps(2) by simp
  then have "(2::nat) ^ (64 - 7 * i) = Suc q * 128" by (simp only: power_add q) simp
  then have m: "?m = 128 * q + 127" by simp
  have "(2::nat) ^ 1 \<le> 2 ^ (64 - 7 * Suc i)" by (rule power_increasing) (use Suc.hyps(2) Suc.prems(3) in simp_all)
  then have "1 \<le> q" unfolding q by simp
  then have v: "varint ?m = 0xff # varint (2 ^ (64 - 7 * Suc i) - 1)" unfolding m q by (subst varint.simps) simp
  have rd: "reads yields s (0xff # varint (2 ^ (64 - 7 * Suc i) - 1) @ bs) rest" using Suc.prems(1) v by simp
  have i9: "0 < i" "i < 9" using Suc.prems Suc.hyps(2) by simp_all
  obtain s' where s': "reads yields s' (varint (2 ^ (64 - 7 * Suc i) - 1) @ bs) rest" "is_errmsg s' = is_errmsg s"
    "varint32_loop s (of_nat (7 * i)) result = varint32_byte i 0xff result s'"
    using varint32_step [OF rd i9(1) less_imp_le [OF i9(2)]] .
  have st: "varint32_byte i 0xff result s' = varint32_loop s' (of_nat (7 * Suc i)) result"
  proof -
    have "unat (0xff :: u8) = 255" by simp
    then show ?thesis unfolding varint32_byte_def Let_def using Suc.prems(2,4) i9(2) by (simp only:) simp
  qed
  have "outcome yields s' rest (Some result, bs) (varint32_loop s' (of_nat (7 * Suc i)) result)"
    by (rule Suc.hyps(1) [OF _ s'(1)]) (use Suc.hyps(2) Suc.prems in simp_all)
  then show ?case unfolding s'(3) st by (simp add: outcome_def s'(2))
qed

lemma varint32_high:
  "reads yields s (varint m @ bs) rest \<Longrightarrow> 5 \<le> i \<Longrightarrow> i \<le> 9 \<Longrightarrow> 0 < m \<Longrightarrow> m < 2 ^ (64 - 7 * i) \<Longrightarrow>
     fst (varint32_loop s (of_nat (7 * i)) result) = Some w \<Longrightarrow> w = result \<and> drop_bit 31 result \<noteq> 0 \<and> 2 ^ (63 - 7 * i) \<le> m"
proof (induction "9 - i" arbitrary: i s m)
  case 0
  then have i: "i = 9" by simp
  then have m: "m = 1" using 0 by simp
  then have rd: "reads yields s (1 # bs) rest" using 0(2) by (simp add: varint.simps)
  obtain s' where "varint32_loop s (of_nat (7 * i)) result = varint32_byte i 1 result s'" using varint32_step [OF rd, of i] i by auto
  then show ?case using 0(7) i m by (auto simp: varint32_byte_def split: if_splits)
next
  case (Suc j)
  have i9: "0 < i" "i \<le> 9" "i < 9" using Suc.prems Suc.hyps(2) by simp_all
  show ?case
  proof (cases "m < 128")
    case True
    have b: "unat (of_nat m :: u8) = m" by (rule u8_of_nat_unat) (use True in simp)
    have rd: "reads yields s (of_nat m # bs) rest" using Suc.prems(1) True by (simp add: varint.simps)
    obtain s' where s': "varint32_loop s (of_nat (7 * i)) result = varint32_byte i (of_nat m) result s'"
      using varint32_step [OF rd i9(1,2)] by blast
    have "(of_nat m :: u8) \<noteq> 0xff" unfolding word_unat_eq_iff b using True by simp
    then have "varint32_byte i (of_nat m) result s' = (None, is_fail s' ''varint overflow'')"
      unfolding varint32_byte_def b using Suc.prems(2,4) i9(3) True by simp
    then show ?thesis using Suc.prems(6) s' by simp
  next
    case False
    let ?b = "of_nat (128 + m mod 128) :: u8"
    have v: "varint m = ?b # varint (m div 128)" using False by (subst varint.simps) simp
    have rd: "reads yields s (?b # varint (m div 128) @ bs) rest" using Suc.prems(1) v by simp
    obtain s' where s': "reads yields s' (varint (m div 128) @ bs) rest"
      "varint32_loop s (of_nat (7 * i)) result = varint32_byte i ?b result s'"
      using varint32_step [OF rd i9(1,2)] by blast
    have l: "fst (varint32_loop s' (of_nat (7 * Suc i)) result) = Some w"
      using Suc.prems(2,6) unfolding s'(2) varint32_byte_def varint_head Let_def by (simp split: if_splits)
    have "64 - 7 * i = 7 + (64 - 7 * Suc i)" "63 - 7 * i = 7 + (63 - 7 * Suc i)" using i9(3) by simp_all
    then have e: "(2::nat) ^ (64 - 7 * i) = 2 ^ (64 - 7 * Suc i) * 128" "(2::nat) ^ (63 - 7 * i) = 2 ^ (63 - 7 * Suc i) * 128"
      by (simp_all only: power_add) simp_all
    have "w = result \<and> drop_bit 31 result \<noteq> 0 \<and> 2 ^ (63 - 7 * Suc i) \<le> m div 128"
      by (rule Suc.hyps(1) [OF _ s'(1) _ _ _ _ l])
         (use Suc.hyps(2) Suc.prems(2,5) i9(3) False e(1) in \<open>simp_all add: div_less_iff_less_mult div_greater_zero_iff\<close>)
    then show ?thesis unfolding e(2) by (simp add: less_eq_div_iff_mult_less_eq)
  qed
qed

text \<open>The first byte, and the digits below position 35 of a number that has more.\<close>

lemma varint32_first:
  assumes "reads yields s (varint n @ bs) rest" and "128 \<le> n"
  obtains s' where "reads yields s' (varint (n div 128) @ bs) rest" "is_errmsg s' = is_errmsg s"
    "pb_decode_varint32_eof s = (varint32_loop s' 7 (of_nat (n mod 128)), False)"
proof -
  let ?b = "of_nat (128 + n mod 128) :: u8"
  have v: "varint n = ?b # varint (n div 128)" using assms(2) by (subst varint.simps) simp
  have rd: "reads yields s (?b # varint (n div 128) @ bs) rest" using assms(1) v by simp
  obtain s' where s': "pb_readbyte s = (Some ?b, s')" "reads yields s' (varint (n div 128) @ bs) rest" "is_errmsg s' = is_errmsg s"
    using readbyte_Cons [OF rd] .
  have b: "unat ?b = 128 + n mod 128" by (rule varint_head)
  have "\<not> ?b AND 0x80 = 0" unfolding u8_and_80 b by simp
  moreover have "ucast (?b AND 0x7f) = (of_nat (n mod 128) :: u32)"
    using u8_and_7f [of ?b] b by (simp add: word_unat_eq_iff unat_ucast_up unat_of_nat del: of_nat_add)
  ultimately show ?thesis using that [OF s'(2,3)] s'(1) by (simp add: pb_decode_varint32_eof_def del: of_nat_add)
qed

lemma varint32_low:
  assumes "reads yields s (varint (n div 128) @ bs) rest" and "128 ^ 4 \<le> n"
  obtains s' result where "reads yields s' (varint (n div 128 ^ 4) @ bs) rest" "is_errmsg s' = is_errmsg s"
    "varint32_loop s 7 (of_nat (n mod 128)) = varint32_loop s' (of_nat (7 * 4)) result" "unat result = n mod 128 ^ 4 mod 2 ^ 32"
proof -
  have big: "128 ^ Suc i \<le> n" if "i \<le> 3" for i
    using power_increasing [of "Suc i" 4 "128::nat"] that assms(2) by simp
  have "unat (of_nat (n mod 128) :: u32) = n mod 128" by (simp add: unat_of_nat)
  then have r1: "unat (of_nat (n mod 128) :: u32) = n mod 128 ^ 1 mod 2 ^ 32" by simp
  have rd1: "reads yields s (varint (n div 128 ^ 1) @ bs) rest" using assms(1) by simp
  obtain s2 q2 where 2: "reads yields s2 (varint (n div 128 ^ Suc 1) @ bs) rest" "is_errmsg s2 = is_errmsg s"
    "varint32_loop s (of_nat (7 * 1)) (of_nat (n mod 128)) = varint32_loop s2 (of_nat (7 * Suc 1)) q2" "unat q2 = n mod 128 ^ Suc 1 mod 2 ^ 32"
    using varint32_continue [OF rd1 _ _ r1 big] by auto
  obtain s3 q3 where 3: "reads yields s3 (varint (n div 128 ^ Suc (Suc 1)) @ bs) rest" "is_errmsg s3 = is_errmsg s2"
    "varint32_loop s2 (of_nat (7 * Suc 1)) q2 = varint32_loop s3 (of_nat (7 * Suc (Suc 1))) q3" "unat q3 = n mod 128 ^ Suc (Suc 1) mod 2 ^ 32"
    using varint32_continue [OF 2(1) _ _ 2(4) big] by auto
  obtain s4 q4 where 4: "reads yields s4 (varint (n div 128 ^ Suc (Suc (Suc 1))) @ bs) rest" "is_errmsg s4 = is_errmsg s3"
    "varint32_loop s3 (of_nat (7 * Suc (Suc 1))) q3 = varint32_loop s4 (of_nat (7 * Suc (Suc (Suc 1)))) q4"
    "unat q4 = n mod 128 ^ Suc (Suc (Suc 1)) mod 2 ^ 32"
    using varint32_continue [OF 3(1) _ _ 3(4) big] by auto
  have n4: "Suc (Suc (Suc 1)) = (4::nat)" and p: "of_nat (7 * 1) = (7::u8)" by simp_all
  note chain = trans [OF trans [OF 2(3) 3(3)] 4(3), unfolded n4 p]
  show ?thesis using that [OF 4(1) [unfolded n4] _ chain 4(4) [unfolded n4]] 2(2) 3(2) 4(2) by simp
qed

lemma varint32_middle:
  assumes "reads yields s (varint (n div 128) @ bs) rest" and "128 ^ 5 \<le> n"
  obtains s' result where "reads yields s' (varint (n div 128 ^ 5) @ bs) rest" "is_errmsg s' = is_errmsg s"
    "varint32_loop s 7 (of_nat (n mod 128)) = varint32_loop s' (of_nat (7 * 5)) result" "unat result = n mod 2 ^ 32"
proof -
  have big: "128 ^ 4 \<le> n" "128 ^ Suc 4 \<le> n" using assms(2) by simp_all
  obtain s4 q4 where 4: "reads yields s4 (varint (n div 128 ^ 4) @ bs) rest" "is_errmsg s4 = is_errmsg s"
    "varint32_loop s 7 (of_nat (n mod 128)) = varint32_loop s4 (of_nat (7 * 4)) q4" "unat q4 = n mod 128 ^ 4 mod 2 ^ 32"
    using varint32_low [OF assms(1) big(1)] .
  obtain s5 q5 where 5: "reads yields s5 (varint (n div 128 ^ Suc 4) @ bs) rest" "is_errmsg s5 = is_errmsg s4"
    "varint32_loop s4 (of_nat (7 * 4)) q4 = varint32_loop s5 (of_nat (7 * Suc 4)) q5" "unat q5 = n mod 128 ^ Suc 4 mod 2 ^ 32"
    using varint32_continue [OF 4(1) _ _ 4(4) big(2)] by auto
  have n5: "Suc 4 = (5::nat)" by simp
  have "n mod 128 ^ 5 mod 2 ^ 32 = n mod 2 ^ 32" by (rule mod_mod_cancel) simp
  then show ?thesis using that [OF 5(1) [unfolded n5] _ trans [OF 4(3) 5(3) [unfolded n5]]] 4(2) 5(2,4) unfolding n5 by simp
qed

text \<open>A number of 33 to 35 bits is refused at its fifth byte.\<close>

lemma varint32_five_bytes:
  assumes "reads yields s (varint (n div 128) @ bs) rest" and "2 ^ 32 \<le> n" and "n < 128 ^ 5"
  shows "fst (varint32_loop s 7 (of_nat (n mod 128))) = None"
proof -
  have "128 ^ 4 \<le> n" using assms(2) by simp
  then obtain s4 q4 where 4: "reads yields s4 (varint (n div 128 ^ 4) @ bs) rest"
    "varint32_loop s 7 (of_nat (n mod 128)) = varint32_loop s4 (of_nat (7 * 4)) q4" using varint32_low [OF assms(1)] by blast
  let ?m = "n div 128 ^ 4"
  have m: "?m < 128" "16 \<le> ?m" using assms(2,3) by (simp_all add: div_less_iff_less_mult less_eq_div_iff_mult_less_eq)
  have b: "unat (of_nat ?m :: u8) = ?m" by (rule u8_of_nat_unat) (use m in simp)
  have rd: "reads yields s4 (of_nat ?m # bs) rest" using 4(1) m(1) by (simp add: varint.simps)
  obtain s5 where "varint32_loop s4 (of_nat (7 * 4)) q4 = varint32_byte 4 (of_nat ?m) q4 s5"
    using varint32_step [OF rd, of 4] by auto
  then show ?thesis unfolding 4(2) using m unfolding varint32_byte_def b Let_def by simp
qed

lemma decode_varint32_eof_small:
  assumes "reads yields s (varint n @ bs) rest" and "n < 2 ^ 32"
  shows "outcome yields s rest (Some (of_nat n), bs) (fst (pb_decode_varint32_eof s)) \<and> \<not> snd (pb_decode_varint32_eof s)"
proof (cases "n < 128")
  case True
  have rd: "reads yields s (of_nat n # bs) rest" using assms(1) True by (simp add: varint.simps)
  obtain s' where s': "pb_readbyte s = (Some (of_nat n), s')" "reads yields s' bs rest" "is_errmsg s' = is_errmsg s"
    using readbyte_Cons [OF rd] .
  have "unat (of_nat n :: u8) = n" by (rule u8_of_nat_unat) (use True in simp)
  then have "(of_nat n :: u8) AND 0x80 = 0" "(ucast (of_nat n :: u8) :: u32) = of_nat n"
    using True u8_and_80 [of "of_nat n"] by (simp, simp add: word_unat_eq_iff unat_ucast_up unat_of_nat)
  then show ?thesis using s' by (simp add: pb_decode_varint32_eof_def outcome_Some)
next
  case False
  then obtain s' where s': "reads yields s' (varint (n div 128) @ bs) rest" "is_errmsg s' = is_errmsg s"
    "pb_decode_varint32_eof s = (varint32_loop s' 7 (of_nat (n mod 128)), False)"
    using varint32_first [OF assms(1)] by (auto simp: not_less)
  have "unat (of_nat (n mod 128) :: u32) = n mod 128 ^ 1 mod 2 ^ 32" by (simp add: unat_of_nat)
  then have "outcome yields s' rest (Some (of_nat n), bs) (varint32_loop s' (of_nat (7 * 1)) (of_nat (n mod 128)))"
    by (intro varint32_small) (use s'(1) assms(2) in simp_all)
  then show ?thesis using s' by (simp add: outcome_def)
qed

lemma decode_varint32_small:
  "reads yields s (varint n @ bs) rest \<Longrightarrow> n < 2 ^ 32 \<Longrightarrow> outcome yields s rest (Some (of_nat n), bs) (pb_decode_varint32 s)"
  using decode_varint32_eof_small by (simp add: pb_decode_varint32_def)

lemma decode_varint32_negative:
  assumes "reads yields s (varint n @ bs) rest" and "2 ^ 64 - 2 ^ 31 \<le> n" and "n < 2 ^ 64"
  shows "outcome yields s rest (Some (of_nat n), bs) (pb_decode_varint32 s)"
proof -
  have big: "128 \<le> n" "128 ^ 5 \<le> n" using assms(2) by simp_all
  obtain s1 where s1: "reads yields s1 (varint (n div 128) @ bs) rest" "is_errmsg s1 = is_errmsg s"
    "pb_decode_varint32_eof s = (varint32_loop s1 7 (of_nat (n mod 128)), False)" using varint32_first [OF assms(1) big(1)] .
  obtain s2 q where s2: "reads yields s2 (varint (n div 128 ^ 5) @ bs) rest" "is_errmsg s2 = is_errmsg s1"
    "varint32_loop s1 7 (of_nat (n mod 128)) = varint32_loop s2 (of_nat (7 * 5)) q" "unat q = n mod 2 ^ 32"
    using varint32_middle [OF s1(1) big(2)] .
  obtain d where d: "n = 2 ^ 64 - 2 ^ 31 + d" using assms(2) le_Suc_ex by blast
  then have dl: "d < 2 ^ 31" using assms(3) by simp
  have "n mod 2 ^ 32 = 2 ^ 31 + d"
  proof -
    have "n = (2 ^ 31 + d) + 2 ^ 32 * (2 ^ 32 - 1)" using d by simp
    then show ?thesis using dl by (simp only: mod_mult_self2) simp
  qed
  then have uq: "unat q = 2 ^ 31 + d" using s2(4) by simp
  then have q31: "drop_bit 31 q \<noteq> 0" using unat_drop_bit [of 31 q] dl by (auto simp: word_unat_eq_iff)
  have "n div 128 ^ 5 = 2 ^ (64 - 7 * 5) - 1"
    by (rule div_nat_eqI) (use assms(2,3) in simp_all)
  then have "outcome yields s2 rest (Some q, bs) (varint32_loop s2 (of_nat (7 * 5)) q)"
    by (intro varint32_sign) (use s2(1) q31 in simp_all)
  moreover have "q = of_nat n" using s2(4) by (simp add: word_unat_eq_iff unat_of_nat)
  ultimately show ?thesis using s1 s2 by (simp add: pb_decode_varint32_def outcome_def)
qed

lemma decode_varint32_range:
  assumes "reads yields s (varint n @ bs) rest" and "n < 2 ^ 64" and "fst (pb_decode_varint32 s) = Some w"
  shows "w = of_nat n \<and> (n < 2 ^ 32 \<or> 2 ^ 63 \<le> n \<and> 2 ^ 31 \<le> n mod 2 ^ 32)"
proof (cases "n < 2 ^ 32")
  case True
  then show ?thesis using decode_varint32_small [OF assms(1)] assms(3) by (simp add: outcome_def)
next
  case False
  then have big: "128 \<le> n" by simp
  obtain s1 where s1: "reads yields s1 (varint (n div 128) @ bs) rest"
    "pb_decode_varint32_eof s = (varint32_loop s1 7 (of_nat (n mod 128)), False)" using varint32_first [OF assms(1) big] .
  show ?thesis
  proof (cases "128 ^ 5 \<le> n")
    case True
    obtain s2 q where s2: "reads yields s2 (varint (n div 128 ^ 5) @ bs) rest"
      "varint32_loop s1 7 (of_nat (n mod 128)) = varint32_loop s2 (of_nat (7 * 5)) q" "unat q = n mod 2 ^ 32"
      using varint32_middle [OF s1(1) True] by blast
    have "0 < n div 128 ^ 5" using True by (simp add: div_greater_zero_iff)
    moreover have "n div 128 ^ 5 < 2 ^ (64 - 7 * 5)" using assms(2) by (simp add: div_less_iff_less_mult)
    moreover have "fst (varint32_loop s2 (of_nat (7 * 5)) q) = Some w" using assms(3) s1(2) s2(2) by (simp add: pb_decode_varint32_def)
    ultimately have h: "w = q" "drop_bit 31 q \<noteq> 0" "2 ^ (63 - 7 * 5) \<le> n div 128 ^ 5"
      using varint32_high [OF s2(1), of 5] by auto
    have "2 ^ 63 \<le> n" using h(3) by (simp add: less_eq_div_iff_mult_less_eq)
    moreover have "unat q div 2 ^ 31 \<noteq> 0" using h(2) unat_drop_bit [of 31 q] by (auto simp: word_unat_eq_iff)
    then have "2 ^ 31 \<le> n mod 2 ^ 32" unfolding s2(3) by (simp add: div_eq_0_iff)
    moreover have "q = of_nat n" using s2(3) by (simp add: word_unat_eq_iff unat_of_nat)
    ultimately show ?thesis using h(1) by simp
  next
    case lt: False
    have "fst (varint32_loop s1 7 (of_nat (n mod 128))) = None"
      by (rule varint32_five_bytes [OF s1(1)]) (use False lt in simp_all)
    then show ?thesis using assms(3) s1(2) by (simp add: pb_decode_varint32_def)
  qed
qed

end

text \<open>Streams over a buffer keep the contract, and so does any callback that does.\<close>

definition buf_yields :: "'s pb_source \<Rightarrow> bytes \<Rightarrow> bool" where
  "buf_yields src bs \<longleftrightarrow> src = Buf_read bs"

interpretation buf_in: pb_input buf_yields
  by unfold_locales (simp add: buf_yields_def buf_read_def)

lemma reads_from_buffer: "reads buf_yields (pb_istream_from_buffer (bs @ rest) (length bs)) bs rest"
  by (simp add: reads_def pb_istream_from_buffer_def buf_yields_def)

lemma reads_buffer: "reads buf_yields s bs rest \<longleftrightarrow> is_source s = Buf_read (bs @ rest) \<and> is_bytes_left s = length bs"
  by (auto simp: reads_def buf_yields_def)

section \<open>Properties\<close>

text \<open>
  C17: \<^verbatim>\<open>pb_decode_varint\<close> on any input whatever: it looks for the first byte without a continuation bit, fails if there
  is none or more than ten bytes would be needed, and otherwise returns the seven-bit digits, low ones first, modulo
  \<open>2 ^ 64\<close>, leaving what follows.
\<close>

theorem pb_decode_varint_exact:
  fixes bs :: bytes
  shows "case pb_decode_varint (pb_istream_from_buffer bs (length bs) :: unit pb_istream_t) of
      (v, s) \<Rightarrow>
        (case leb_split bs of
           Some (p, r) \<Rightarrow> if length p \<le> 10 then v = Some (of_nat (leb_val p)) \<and> is_source s = Buf_read r \<and> is_bytes_left s = length r
                          else v = None
         | None \<Rightarrow> v = None)"
proof -
  let ?s = "pb_istream_from_buffer bs (length bs) :: unit pb_istream_t"
  have "reads buf_yields ?s bs []" using reads_from_buffer [of bs "[]"] by simp
  from buf_in.decode_varint_exact [OF this] show ?thesis
    by (cases "leb_split bs"; cases "pb_decode_varint ?s") (auto simp: varint_read_def outcome_def reads_buffer split: if_splits)
qed

text \<open>
  C20: the 32-bit reader on the minimal encoding of a 64-bit number \<open>n\<close>. Numbers below \<open>2 ^ 32\<close>, and the sign extensions of
  negative 32-bit numbers, are returned; whatever else is accepted in its minimal encoding has bits 31 and 63 set, so that no
  minimally encoded number between \<open>2 ^ 32\<close> and \<open>2 ^ 63\<close> passes for a length, a tag or a field. (Encodings padded with
  zero digits, which the reader also takes, are not covered: 80 80 80 80 90 00, a padded encoding of \<open>2 ^ 32\<close>, is
  read as zero.)
\<close>

theorem pb_decode_varint32_range:
  fixes bs :: bytes
  assumes "n < 2 ^ 64"
  defines "s \<equiv> pb_istream_from_buffer (varint n @ bs) (length (varint n @ bs)) :: unit pb_istream_t"
  shows "(n < 2 ^ 32 \<or> 2 ^ 64 - 2 ^ 31 \<le> n \<longrightarrow> (\<exists>s'. pb_decode_varint32 s = (Some (of_nat n), s') \<and> is_source s' = Buf_read bs)) \<and>
    (\<forall>w. fst (pb_decode_varint32 s) = Some w \<longrightarrow> w = of_nat n \<and> (n < 2 ^ 32 \<or> 2 ^ 63 \<le> n \<and> 2 ^ 31 \<le> n mod 2 ^ 32))"
proof -
  have rd: "reads buf_yields s (varint n @ bs) []" using reads_from_buffer [of "varint n @ bs" "[]"] by (simp add: s_def)
  have "outcome buf_yields s [] (Some (of_nat n), bs) (pb_decode_varint32 s)" if "n < 2 ^ 32 \<or> 2 ^ 64 - 2 ^ 31 \<le> n"
    using that buf_in.decode_varint32_small [OF rd] buf_in.decode_varint32_negative [OF rd _ assms(1)] by blast
  then have a: "n < 2 ^ 32 \<or> 2 ^ 64 - 2 ^ 31 \<le> n \<longrightarrow> (\<exists>s'. pb_decode_varint32 s = (Some (of_nat n), s') \<and> is_source s' = Buf_read bs)"
    by (fastforce simp: reads_buffer elim: outcomeD)
  show ?thesis using a buf_in.decode_varint32_range [OF rd assms(1)] by blast
qed

theorem pb_decode_varint32_range_witness:
  "(300::nat) < 2 ^ 64 \<and>
   (\<exists>s'. pb_decode_varint32 (pb_istream_from_buffer (varint 300 @ [7]) (length (varint 300 @ [7])) :: unit pb_istream_t) = (Some 300, s') \<and>
      is_source s' = Buf_read [7])"
  using pb_decode_varint32_range [of 300 "[7]"] by simp

text \<open>
  Where the overflow check of the 32-bit reader gives way: a 64-bit number that is no sign extension is truncated, and a
  number padded with empty digits comes back at the wrong position once the eight-bit position wraps around.
\<close>

lemma varint32_truncates:
  "fst (pb_decode_varint32 (pb_istream_from_buffer [0x80, 0x80, 0x80, 0x80, 0x88, 0x80, 0xff, 0xff, 0xff, 0x01] 10 :: unit pb_istream_t)) = Some 0x80000000"
  by code_simp

lemma varint32_padded:
  "fst (pb_decode_varint32 (pb_istream_from_buffer [0x80, 0x80, 0x80, 0x80, 0x90, 0x00] 6 :: unit pb_istream_t)) = Some 0"
  by code_simp

lemma varint32_position_wraps:
  "fst (pb_decode_varint32 (pb_istream_from_buffer (replicate 37 0x80 @ [0x01]) 38 :: unit pb_istream_t)) = Some 8"
  by code_simp

end
