(* ===== verification/Pb_Wire.thy ===== *)
theory Pb_Wire
  imports Pb_Varint
begin

text \<open>
  The fields of the protobuf wire format in nanopb: tags, strings and their substreams, skipping, and sequences of
  fields written to an output stream and read back. Output streams have a contract too (locale \<open>pb_output\<close>), which
  buffers and streams that only count keep.
\<close>

section \<open>Fields\<close>

text \<open>
  A field as the wire format sees it: a number and a value of one of the four wire types. Writing and reading one is
  what encoders and decoders of messages do with the functions above, the substream included.
\<close>

datatype pb_value = Pb_varint u64 | Pb_64bit u64 | Pb_string bytes | Pb_32bit u32

fun value_type :: "pb_value \<Rightarrow> pb_wire_type_t" where
  "value_type (Pb_varint _) = PB_WT_VARINT"
| "value_type (Pb_64bit _) = PB_WT_64BIT"
| "value_type (Pb_string _) = PB_WT_STRING"
| "value_type (Pb_32bit _) = PB_WT_32BIT"

fun value_bytes :: "pb_value \<Rightarrow> bytes" where
  "value_bytes (Pb_varint v) = varint (unat v)"
| "value_bytes (Pb_64bit v) = fixed64_bytes v"
| "value_bytes (Pb_string d) = varint (length d) @ d"
| "value_bytes (Pb_32bit v) = fixed32_bytes v"

definition field_bytes :: "u32 \<times> pb_value \<Rightarrow> bytes" where
  "field_bytes f = varint (8 * unat (fst f) + unat (value_type (snd f))) @ value_bytes (snd f)"

definition field_ok :: "u32 \<times> pb_value \<Rightarrow> bool" where
  "field_ok f \<longleftrightarrow> fst f \<noteq> 0 \<and> unat (fst f) < 2 ^ 29 \<and> (\<forall>d. snd f = Pb_string d \<longrightarrow> length d < 2 ^ 32)"

fun put_value :: "'s pb_ostream_t \<Rightarrow> pb_value \<Rightarrow> bool \<times> 's pb_ostream_t" where
  "put_value s (Pb_varint v) = pb_encode_varint s v"
| "put_value s (Pb_64bit v) = pb_encode_fixed64 s v"
| "put_value s (Pb_string d) = pb_encode_string s d"
| "put_value s (Pb_32bit v) = pb_encode_fixed32 s v"

definition put_field :: "'s pb_ostream_t \<Rightarrow> u32 \<times> pb_value \<Rightarrow> bool \<times> 's pb_ostream_t" where
  "put_field s f = (case pb_encode_tag s (value_type (snd f)) (fst f) of (False, s) \<Rightarrow> (False, s) | (True, s) \<Rightarrow> put_value s (snd f))"

fun put_fields :: "'s pb_ostream_t \<Rightarrow> (u32 \<times> pb_value) list \<Rightarrow> bool \<times> 's pb_ostream_t" where
  "put_fields s [] = (True, s)"
| "put_fields s (f # fs) = (case put_field s f of (False, s) \<Rightarrow> (False, s) | (True, s) \<Rightarrow> put_fields s fs)"

definition get_string :: "'s pb_istream_t \<Rightarrow> bytes option \<times> 's pb_istream_t" where
  "get_string s =
     (case pb_make_string_substream s of
        (None, s) \<Rightarrow> (None, s)
      | (Some sub, s) \<Rightarrow>
          (case pb_read sub True (is_bytes_left sub) of
             (None, _) \<Rightarrow> (None, s)
           | (Some d, sub) \<Rightarrow>
               (case pb_close_string_substream s sub of (False, s) \<Rightarrow> (None, s) | (True, s) \<Rightarrow> (Some d, s))))"

definition get_value :: "'s pb_istream_t \<Rightarrow> pb_wire_type_t \<Rightarrow> pb_value option \<times> 's pb_istream_t" where
  "get_value s wt =
     (if wt = PB_WT_VARINT then (case pb_decode_varint s of (v, s) \<Rightarrow> (map_option Pb_varint v, s))
      else if wt = PB_WT_64BIT then (case pb_decode_fixed64 s of (v, s) \<Rightarrow> (map_option Pb_64bit v, s))
      else if wt = PB_WT_STRING then (case get_string s of (v, s) \<Rightarrow> (map_option Pb_string v, s))
      else if wt = PB_WT_32BIT then (case pb_decode_fixed32 s of (v, s) \<Rightarrow> (map_option Pb_32bit v, s))
      else (None, s))"

fun get_fields :: "nat \<Rightarrow> 's pb_istream_t \<Rightarrow> (u32 \<times> pb_value) list option \<times> 's pb_istream_t" where
  "get_fields 0 s = (Some [], s)"
| "get_fields (Suc n) s =
     (case pb_decode_tag s of
        (None, _, s) \<Rightarrow> (None, s)
      | (Some (wt, num), _, s) \<Rightarrow>
          (case get_value s wt of
             (None, s) \<Rightarrow> (None, s)
           | (Some v, s) \<Rightarrow> (case get_fields n s of (None, s) \<Rightarrow> (None, s) | (Some fs, s) \<Rightarrow> (Some ((num, v) # fs), s))))"

text \<open>Passing over fields without looking at them, as the decoder does with those it does not know.\<close>

fun skip_fields :: "nat \<Rightarrow> 's pb_istream_t \<Rightarrow> bool \<times> 's pb_istream_t" where
  "skip_fields 0 s = (True, s)"
| "skip_fields (Suc n) s =
     (case pb_decode_tag s of
        (None, _, s) \<Rightarrow> (False, s)
      | (Some (wt, num), _, s) \<Rightarrow> (case pb_skip_field s wt of (False, s) \<Rightarrow> (False, s) | (True, s) \<Rightarrow> skip_fields n s))"

lemma value_type_less: "unat (value_type v) < 8"
  by (cases v) (simp_all add: wire_types)

lemma pb_encode_tag_write:
  assumes "unat wt < 8"
  shows "pb_encode_tag s wt num = pb_write s (varint (8 * unat num + unat wt))"
proof -
  have "unat (push_bit 3 (ucast num :: u64) OR ucast wt) = unat num * 2 ^ 3 + unat wt"
    using unat_shift_or [of "ucast num :: u64" 3 "ucast wt"] unat_less [of num] assms by (simp add: unat_ucast_up)
  then show ?thesis by (simp add: pb_encode_tag_def pb_encode_varint_write mult.commute)
qed

lemma zigzag_inverse:
  fixes v :: u64
  defines "z \<equiv> if v <s 0 then NOT (push_bit 1 v) else push_bit 1 v"
  shows "(if z AND 1 \<noteq> 0 then NOT (drop_bit 1 z) else drop_bit 1 z) = v"
proof -
  define p where "p = push_bit 1 v"
  have p: "bit p n \<longleftrightarrow> 1 \<le> n \<and> n < 64 \<and> bit v (n - 1)" for n
    unfolding p_def bit_push_bit_iff by (auto dest: bit_imp_le_length)
  have s: "v <s 0 \<longleftrightarrow> bit v 63" using bit_last_iff [of v] by (simp add: word_sless_alt)
  have z: "z = (if bit v 63 then NOT p else p)" by (simp only: z_def s p_def)
  have one: "w AND 1 \<noteq> 0 \<longleftrightarrow> bit w 0" for w :: u64 using bit_iff_and_push_bit_not_eq_0 [of w 0] by simp
  show ?thesis
  proof (cases "bit v 63")
    case True
    have "bit (NOT (drop_bit 1 (NOT p))) n = bit v n" if "n < 64" for n
      using that True p [of "Suc n"] by (cases "n = 63") (auto simp: bit_not_iff bit_drop_bit_eq)
    then have "NOT (drop_bit 1 (NOT p)) = v" by (intro bit_word_eqI) simp
    moreover have "NOT p AND 1 \<noteq> 0" unfolding one using p [of 0] by (simp add: bit_not_iff)
    ultimately show ?thesis using True z by simp
  next
    case False
    have "bit (drop_bit 1 p) n = bit v n" if "n < 64" for n
      using that False p [of "Suc n"] by (cases "n = 63") (auto simp: bit_drop_bit_eq)
    then have "drop_bit 1 p = v" by (intro bit_word_eqI) simp
    moreover have "\<not> p AND 1 \<noteq> 0" unfolding one using p [of 0] by simp
    ultimately show ?thesis using False z by simp
  qed
qed

section \<open>Reading fields\<close>

context pb_input
begin

lemma decode_tag:
  assumes "reads yields s (varint (8 * unat num + unat wt) @ bs) rest" and "unat num < 2 ^ 29" and "unat wt < 8"
    and "num \<noteq> 0 \<or> wt \<noteq> 0"
  obtains s' where "pb_decode_tag s = (Some (wt, num), False, s')" "reads yields s' bs rest" "is_errmsg s' = is_errmsg s"
proof -
  let ?n = "8 * unat num + unat wt" and ?t = "of_nat (8 * unat num + unat wt) :: u32"
  have n: "?n < 2 ^ 32" using assms(2,3) by simp
  then have t: "unat ?t = ?n" by (subst unat_of_nat) simp
  obtain s' where s': "pb_decode_varint32_eof s = ((Some ?t, s'), False)" "reads yields s' bs rest" "is_errmsg s' = is_errmsg s"
    using decode_varint32_eof_small [OF assms(1) n] by (cases "pb_decode_varint32_eof s") (auto elim: outcomeD)
  have "unat (?t AND 7) = unat wt" using unat_and_mask [of ?t 3] assms(3) unfolding t by (simp add: mask_eq_exp_minus_1)
  moreover have "unat (drop_bit 3 ?t) = unat num" using unat_drop_bit [of 3 ?t] assms(3) unfolding t by simp
  moreover have "?t \<noteq> 0" unfolding word_unat_eq_iff t using assms(4) by (auto simp: word_unat_eq_iff)
  ultimately have "pb_decode_tag s = (Some (wt, num), False, s')" using s'(1) by (simp add: pb_decode_tag_def word_unat_eq_iff)
  then show ?thesis using that s' by blast
qed

lemma decode_tag_end: "reads yields s [] rest \<Longrightarrow> fst (pb_decode_tag s) = None \<and> fst (snd (pb_decode_tag s))"
  using readbyte_Nil [of s rest] by (cases "pb_readbyte s") (simp add: pb_decode_tag_def pb_decode_varint32_eof_def)

lemma skip_varint:
  "reads yields s (varint n @ bs) rest \<Longrightarrow> \<exists>s'. pb_skip_varint s = (True, s') \<and> reads yields s' bs rest"
proof (induction n arbitrary: s rule: varint.induct)
  case (1 n)
  let ?b = "hd (varint n)" and ?t = "tl (varint n)"
  have v: "varint n = ?b # ?t" by (simp add: varint.simps [of n])
  have "reads yields s (?b # ?t @ bs) rest" using "1.prems" v by (metis append_Cons)
  from read_take [OF this, of 1] obtain s' where s': "pb_read s True 1 = (Some [?b], s')" "reads yields s' (?t @ bs) rest"
    by (auto elim: outcomeD)
  show ?case
  proof (cases "n < 128")
    case True
    then have "?b AND 0x80 = 0" "?t = []" using u8_and_80 [of "of_nat n"] by (simp_all add: varint.simps [of n])
    then show ?thesis using s' by (subst pb_skip_varint.simps) simp
  next
    case False
    then have b: "?b = of_nat (128 + n mod 128)" "?t = varint (n div 128)" by (simp_all add: varint.simps [of n])
    have "?b AND 0x80 \<noteq> 0" unfolding u8_and_80 b(1) varint_head by simp
    then show ?thesis using 1(1) [OF False, of s'] s' b(2) by (subst pb_skip_varint.simps) simp
  qed
qed

lemma skip_string:
  assumes "reads yields s (varint (length d) @ d @ bs) rest" and "length d < 2 ^ 32"
  shows "\<exists>s'. pb_skip_string s = (True, s') \<and> reads yields s' bs rest"
proof -
  obtain s1 where s1: "pb_decode_varint32 s = (Some (of_nat (length d)), s1)" "reads yields s1 (d @ bs) rest"
    using decode_varint32_small [OF assms] by (auto elim: outcomeD)
  have "unat (of_nat (length d) :: u32) = length d" using assms(2) by (simp add: unat_of_nat)
  then show ?thesis using skip_take [OF s1(2), of "length d"] s1(1) by (simp add: pb_skip_string_def)
qed

text \<open>A length-delimited part as a stream of its own: what was not read of it is skipped when it is closed.\<close>

lemma make_substream:
  assumes "reads yields s (varint (length d) @ d @ bs) rest" and "length d < 2 ^ 32"
  obtains sub s' where "pb_make_string_substream s = (Some sub, s')" "reads yields sub d (bs @ rest)" "is_bytes_left s' = length bs"
    "is_errmsg s' = is_errmsg s" "is_errmsg sub = is_errmsg s"
proof -
  obtain s1 where s1: "pb_decode_varint32 s = (Some (of_nat (length d)), s1)" "reads yields s1 (d @ bs) rest" "is_errmsg s1 = is_errmsg s"
    using decode_varint32_small [OF assms] by (auto elim: outcomeD)
  have u: "unat (of_nat (length d) :: u32) = length d" using assms(2) by (simp add: unat_of_nat)
  show ?thesis
    by (rule that [of "s1\<lparr>is_bytes_left := length d\<rparr>" "s1\<lparr>is_bytes_left := length bs\<rparr>"])
       (use s1 u in \<open>simp_all add: pb_make_string_substream_def reads_def\<close>)
qed

lemma close_substream:
  assumes "reads yields sub unread (bs @ rest)" and "is_bytes_left s = length bs"
  shows "\<exists>s'. pb_close_string_substream s sub = (True, s') \<and> reads yields s' bs rest"
proof -
  obtain s2 where "(if is_bytes_left sub \<noteq> 0 then read_ok (pb_read sub False (is_bytes_left sub)) else (True, sub)) = (True, s2)"
    "reads yields s2 [] (bs @ rest)"
    using skip_take [OF assms(1), of "length unread"] assms(1) by (cases "unread = []") (auto simp: reads_def)
  then show ?thesis using assms(2) by (simp add: pb_close_string_substream_def reads_def)
qed

text \<open>Fixed-width values.\<close>

lemma decode_fixed32:
  assumes "reads yields s (fixed32_bytes v @ bs) rest"
  shows "outcome yields s rest (Some v, bs) (pb_decode_fixed32 s)"
proof -
  have "outcome yields s rest (Some (fixed32_bytes v), bs) (pb_read s True 4)"
    using read_take [OF assms, of 4] by (simp add: length_fixed)
  then obtain s' where s': "pb_read s True 4 = (Some (fixed32_bytes v), s')" "reads yields s' bs rest" "is_errmsg s' = is_errmsg s"
    by (auto elim: outcomeD)
  then show ?thesis using fixed32_collect [of v] by (simp add: pb_decode_fixed32_def outcome_Some)
qed

lemma decode_fixed64:
  assumes "reads yields s (fixed64_bytes v @ bs) rest"
  shows "outcome yields s rest (Some v, bs) (pb_decode_fixed64 s)"
proof -
  have "outcome yields s rest (Some (fixed64_bytes v), bs) (pb_read s True 8)"
    using read_take [OF assms, of 8] by (simp add: length_fixed)
  then obtain s' where s': "pb_read s True 8 = (Some (fixed64_bytes v), s')" "reads yields s' bs rest" "is_errmsg s' = is_errmsg s"
    by (auto elim: outcomeD)
  then show ?thesis using fixed64_collect [of v] by (simp add: pb_decode_fixed64_def outcome_Some)
qed

lemma get_string:
  assumes "reads yields s (varint (length d) @ d @ bs) rest" and "length d < 2 ^ 32"
  shows "\<exists>s'. get_string s = (Some d, s') \<and> reads yields s' bs rest"
proof -
  obtain sub s1 where s1: "pb_make_string_substream s = (Some sub, s1)" "reads yields sub d (bs @ rest)" "is_bytes_left s1 = length bs"
    using make_substream [OF assms] .
  obtain sub' where sub': "pb_read sub True (is_bytes_left sub) = (Some d, sub')" "reads yields sub' [] (bs @ rest)"
    using read_take [OF s1(2), of "length d"] s1(2) by (auto simp: reads_def elim: outcomeD)
  from close_substream [OF sub'(2) s1(3)] show ?thesis using s1(1) sub'(1) by (auto simp: get_string_def)
qed

lemma get_value:
  assumes "reads yields s (value_bytes v @ bs) rest" and "\<And>d. v = Pb_string d \<Longrightarrow> length d < 2 ^ 32"
  shows "\<exists>s'. get_value s (value_type v) = (Some v, s') \<and> reads yields s' bs rest"
proof (cases v)
  case (Pb_varint w)
  then show ?thesis using decode_varint [of s w bs rest] assms(1) by (auto simp: get_value_def wire_types elim: outcomeD)
next
  case (Pb_64bit w)
  then show ?thesis using decode_fixed64 [of s w bs rest] assms(1) by (auto simp: get_value_def wire_types elim: outcomeD)
next
  case (Pb_string d)
  then show ?thesis using get_string [of s d bs rest] assms by (auto simp: get_value_def wire_types)
next
  case (Pb_32bit w)
  then show ?thesis using decode_fixed32 [of s w bs rest] assms(1) by (auto simp: get_value_def wire_types elim: outcomeD)
qed

lemma skip_value:
  assumes "reads yields s (value_bytes v @ bs) rest" and "\<And>d. v = Pb_string d \<Longrightarrow> length d < 2 ^ 32"
  shows "\<exists>s'. pb_skip_field s (value_type v) = (True, s') \<and> reads yields s' bs rest"
proof (cases v)
  case (Pb_varint w)
  then show ?thesis using skip_varint [of s "unat w" bs rest] assms(1) by (simp add: pb_skip_field_def wire_types)
next
  case (Pb_64bit w)
  then show ?thesis using skip_take [of s "fixed64_bytes w @ bs" rest 8] assms(1) by (simp add: pb_skip_field_def wire_types)
next
  case (Pb_string d)
  then show ?thesis using skip_string [of s d bs rest] assms by (simp add: pb_skip_field_def wire_types)
next
  case (Pb_32bit w)
  then show ?thesis using skip_take [of s "fixed32_bytes w @ bs" rest 4] assms(1) by (simp add: pb_skip_field_def wire_types)
qed

lemma field_tag:
  assumes "reads yields s (field_bytes f @ bs) rest" and "field_ok f"
  obtains s' where "pb_decode_tag s = (Some (value_type (snd f), fst f), False, s')" "reads yields s' (value_bytes (snd f) @ bs) rest"
proof -
  have rd: "reads yields s (varint (8 * unat (fst f) + unat (value_type (snd f))) @ value_bytes (snd f) @ bs) rest"
    using assms(1) by (simp add: field_bytes_def)
  have n: "unat (fst f) < 2 ^ 29" "fst f \<noteq> 0 \<or> value_type (snd f) \<noteq> 0" using assms(2) by (simp_all add: field_ok_def)
  from decode_tag [OF rd n(1) value_type_less n(2)] that show ?thesis by blast
qed

lemma get_fields:
  "reads yields s (concat (map field_bytes fs) @ bs) rest \<Longrightarrow> list_all field_ok fs \<Longrightarrow>
     \<exists>s'. get_fields (length fs) s = (Some fs, s') \<and> reads yields s' bs rest"
proof (induction fs arbitrary: s)
  case (Cons f fs)
  have rd: "reads yields s (field_bytes f @ concat (map field_bytes fs) @ bs) rest" and ok: "field_ok f" using Cons.prems by simp_all
  obtain s1 where s1: "pb_decode_tag s = (Some (value_type (snd f), fst f), False, s1)"
    "reads yields s1 (value_bytes (snd f) @ concat (map field_bytes fs) @ bs) rest" using field_tag [OF rd ok] .
  obtain s2 where "get_value s1 (value_type (snd f)) = (Some (snd f), s2)" "reads yields s2 (concat (map field_bytes fs) @ bs) rest"
    using get_value [OF s1(2)] ok by (auto simp: field_ok_def)
  with Cons.IH [of s2] Cons.prems(2) s1(1) show ?case by auto
qed simp

lemma skip_fields:
  "reads yields s (concat (map field_bytes fs) @ bs) rest \<Longrightarrow> list_all field_ok fs \<Longrightarrow>
     \<exists>s'. skip_fields (length fs) s = (True, s') \<and> reads yields s' bs rest"
proof (induction fs arbitrary: s)
  case (Cons f fs)
  have rd: "reads yields s (field_bytes f @ concat (map field_bytes fs) @ bs) rest" and ok: "field_ok f" using Cons.prems by simp_all
  obtain s1 where s1: "pb_decode_tag s = (Some (value_type (snd f), fst f), False, s1)"
    "reads yields s1 (value_bytes (snd f) @ concat (map field_bytes fs) @ bs) rest" using field_tag [OF rd ok] .
  obtain s2 where "pb_skip_field s1 (value_type (snd f)) = (True, s2)" "reads yields s2 (concat (map field_bytes fs) @ bs) rest"
    using skip_value [OF s1(2)] ok by (auto simp: field_ok_def)
  with Cons.IH [of s2] Cons.prems(2) s1(1) show ?case by auto
qed simp

end

section \<open>Output\<close>

text \<open>
  The contract of an output stream: \<open>wrote s out\<close> when \<open>out\<close> has been written so far, and a write succeeds exactly as
  long as the whole fits.
\<close>

locale pb_output =
  fixes wrote :: "'s pb_ostream_t \<Rightarrow> bytes \<Rightarrow> bool"
    and fits :: "bytes \<Rightarrow> bool"
  assumes write_fits: "wrote s out \<Longrightarrow> fits (out @ bs) \<Longrightarrow> \<exists>s'. pb_write s bs = (True, s') \<and> wrote s' (out @ bs)"
    and write_full: "wrote s out \<Longrightarrow> length bs < 2 ^ 64 \<Longrightarrow> \<not> fits (out @ bs) \<Longrightarrow> \<not> fst (pb_write s bs)"
    and fits_prefix: "fits (out @ bs) \<Longrightarrow> fits out"
    and wrote_fits: "wrote s out \<Longrightarrow> fits out"
begin

text \<open>An operation emits \<open>bs\<close> if it appends them when they fit and fails otherwise.\<close>

definition emits :: "('s pb_ostream_t \<Rightarrow> bool \<times> 's pb_ostream_t) \<Rightarrow> bytes \<Rightarrow> bool" where
  "emits op bs \<longleftrightarrow> (\<forall>s out. wrote s out \<longrightarrow>
     (if fits (out @ bs) then \<exists>s'. op s = (True, s') \<and> wrote s' (out @ bs) else \<not> fst (op s)))"

lemma emitsI:
  assumes "\<And>s out. wrote s out \<Longrightarrow> fits (out @ bs) \<Longrightarrow> \<exists>s'. op s = (True, s') \<and> wrote s' (out @ bs)"
    and "\<And>s out. wrote s out \<Longrightarrow> \<not> fits (out @ bs) \<Longrightarrow> \<not> fst (op s)"
  shows "emits op bs"
  using assms unfolding emits_def by simp

lemma emitsD:
  assumes "emits op bs" and "wrote s out"
  shows "fits (out @ bs) \<Longrightarrow> \<exists>s'. op s = (True, s') \<and> wrote s' (out @ bs)" "\<not> fits (out @ bs) \<Longrightarrow> \<not> fst (op s)"
  using assms unfolding emits_def by (metis (full_types))+

lemma emits_write: "length bs < 2 ^ 64 \<Longrightarrow> emits (\<lambda>s. pb_write s bs) bs"
  by (rule emitsI) (use write_fits write_full in auto)

lemma emits_varint: "n < 2 ^ 64 \<Longrightarrow> emits (\<lambda>s. pb_write s (varint n)) (varint n)"
  using length_varint [of 10 n] by (intro emits_write) simp

lemma emits_seq:
  assumes "emits op1 a" and "emits op2 b"
  shows "emits (\<lambda>s. case op1 s of (False, s) \<Rightarrow> (False, s) | (True, s) \<Rightarrow> op2 s) (a @ b)"
proof (rule emitsI)
  fix s out
  assume w: "wrote s out" and f: "fits (out @ a @ b)"
  then have "fits (out @ a)" using fits_prefix [of "out @ a" b] by simp
  then obtain s1 where "op1 s = (True, s1)" "wrote s1 (out @ a)" using emitsD(1) [OF assms(1) w] by blast
  then show "\<exists>s'. (case op1 s of (False, s) \<Rightarrow> (False, s) | (True, s) \<Rightarrow> op2 s) = (True, s') \<and> wrote s' (out @ a @ b)"
    using emitsD(1) [OF assms(2)] f by fastforce
next
  fix s out
  assume w: "wrote s out" and f: "\<not> fits (out @ a @ b)"
  show "\<not> fst (case op1 s of (False, s) \<Rightarrow> (False, s) | (True, s) \<Rightarrow> op2 s)"
  proof (cases "fits (out @ a)")
    case True
    then obtain s1 where "op1 s = (True, s1)" "wrote s1 (out @ a)" using emitsD(1) [OF assms(1) w] by blast
    then show ?thesis using emitsD(2) [OF assms(2)] f by fastforce
  next
    case False
    then show ?thesis using emitsD(2) [OF assms(1) w] by (cases "op1 s") auto
  qed
qed

lemma emits_value:
  assumes "\<And>d. v = Pb_string d \<Longrightarrow> length d < 2 ^ 32"
  shows "emits (\<lambda>s. put_value s v) (value_bytes v)"
proof (cases v)
  case (Pb_string d)
  then have "unat (of_nat (length d) :: u64) = length d" using assms by (simp add: unat_of_nat)
  then show ?thesis
    unfolding Pb_string put_value.simps value_bytes.simps pb_encode_string_def pb_encode_varint_write
    using emits_seq [OF emits_varint emits_write, of "length d" d] assms [OF Pb_string] by simp
next
  case (Pb_varint w)
  then show ?thesis using emits_varint [of "unat w"] unat_less [of w] by (simp add: pb_encode_varint_write)
qed (simp_all add: emits_write pb_encode_fixed_write)

lemma emits_field:
  assumes "field_ok f"
  shows "emits (\<lambda>s. put_field s f) (field_bytes f)"
proof -
  have v: "emits (\<lambda>s. put_value s (snd f)) (value_bytes (snd f))" by (rule emits_value) (use assms in \<open>auto simp: field_ok_def\<close>)
  have "8 * unat (fst f) + unat (value_type (snd f)) < 2 ^ 64"
    using assms value_type_less [of "snd f"] by (simp add: field_ok_def)
  from emits_seq [OF emits_varint [OF this] v] show ?thesis
    unfolding put_field_def field_bytes_def pb_encode_tag_write [OF value_type_less] .
qed

lemma emits_fields: "list_all field_ok fs \<Longrightarrow> emits (\<lambda>s. put_fields s fs) (concat (map field_bytes fs))"
proof (induction fs)
  case Nil
  show ?case by (rule emitsI) (use wrote_fits in auto)
next
  case (Cons f fs)
  then have "emits (\<lambda>s. put_field s f) (field_bytes f)" "emits (\<lambda>s. put_fields s fs) (concat (map field_bytes fs))"
    using emits_field by simp_all
  from emits_seq [OF this] show ?case by simp
qed

end

text \<open>A stream over a buffer of \<open>n\<close> bytes, and one that only counts.\<close>

definition buf_wrote :: "nat \<Rightarrow> 's pb_ostream_t \<Rightarrow> bytes \<Rightarrow> bool" where
  "buf_wrote n s out \<longleftrightarrow>
     (\<exists>region. os_sink s = Buf_write region (length out) \<and> take (length out) region = out \<and> length region = n) \<and>
     os_bytes_written s = length out \<and> os_max_size s = n \<and> n < 2 ^ 64"

definition counted :: "'s pb_ostream_t \<Rightarrow> bytes \<Rightarrow> bool" where
  "counted s out \<longleftrightarrow> os_sink s = No_callback \<and> os_bytes_written s = length out mod 2 ^ 64"

lemma buf_wrote_le: "buf_wrote n s out \<Longrightarrow> length out \<le> n"
  by (auto simp: buf_wrote_def) (metis length_take min.cobounded1 min.absorb_iff2 min.commute)

lemma size_add_fits: "a + b < 2 ^ 64 \<Longrightarrow> size_add a b = a + b"
  by (simp add: size_add_def)

lemma buf_write_fits:
  assumes "buf_wrote n s out" and "length (out @ bs) \<le> n"
  shows "\<exists>s'. pb_write s bs = (True, s') \<and> buf_wrote n s' (out @ bs)"
proof (cases "bs = []")
  case True
  have "size_add (os_bytes_written s) 0 = os_bytes_written s" using assms by (auto simp: buf_wrote_def size_add_def)
  then show ?thesis using assms True by (auto simp: pb_write_def buf_wrote_def)
next
  case False
  obtain region where r: "os_sink s = Buf_write region (length out)" "take (length out) region = out" "length region = n"
    and b: "os_bytes_written s = length out" "os_max_size s = n" "n < 2 ^ 64" using assms(1) by (auto simp: buf_wrote_def)
  have w: "size_add (length out) (length bs) = length out + length bs" using assms(2) b(3) by (intro size_add_fits) simp
  have "take (length (out @ bs)) (write_at region (length out) bs) = out @ bs"
    using r assms(2) by (simp add: take_write_at_end)
  moreover have "length (write_at region (length out) bs) = n" using r assms(2) by (simp add: length_write_at)
  ultimately show ?thesis using r(1) b w assms(2) False by (auto simp: pb_write_def Let_def buf_write_def buf_wrote_def)
qed

lemma buf_write_full:
  assumes "buf_wrote n s out" and "length bs < 2 ^ 64" and "\<not> length (out @ bs) \<le> n"
  shows "\<not> fst (pb_write s bs)"
proof -
  obtain region where r: "os_sink s = Buf_write region (length out)"
    and b: "os_bytes_written s = length out" "os_max_size s = n" "n < 2 ^ 64" using assms(1) by (auto simp: buf_wrote_def)
  have "length bs > 0" using assms(3) buf_wrote_le [OF assms(1)] by (cases bs) auto
  moreover have "size_add (length out) (length bs) < length out \<or> n < size_add (length out) (length bs)"
    using assms(2,3) b(3) buf_wrote_le [OF assms(1)] by (auto simp: size_add_def mod_if)
  ultimately show ?thesis using r b by (simp add: pb_write_def Let_def)
qed

interpretation buf_out: pb_output "buf_wrote n" "\<lambda>out. length out \<le> n" for n
proof
  show "\<exists>s'. pb_write s bs = (True, s') \<and> buf_wrote n s' (out @ bs)" if "buf_wrote n s out" "length (out @ bs) \<le> n"
    for s :: "'s pb_ostream_t" and out bs using buf_write_fits [OF that] .
  show "\<not> fst (pb_write s bs)" if "buf_wrote n s out" "length bs < 2 ^ 64" "\<not> length (out @ bs) \<le> n"
    for s :: "'s pb_ostream_t" and out bs using buf_write_full [OF that] .
qed (simp_all add: buf_wrote_le)

interpretation counting: pb_output counted "\<lambda>_. True"
  by unfold_locales (auto simp: counted_def pb_write_def Let_def size_add_def mod_simps)

lemma wrote_from_buffer: "length buf < 2 ^ 64 \<Longrightarrow> buf_wrote (length buf) (pb_ostream_from_buffer buf (length buf)) []"
  by (simp add: buf_wrote_def pb_ostream_from_buffer_def)

lemma counted_start: "counted PB_OSTREAM_SIZING []"
  by (simp add: counted_def PB_OSTREAM_SIZING_def)

section \<open>Properties\<close>

lemma put_fields_buffer:
  fixes fs :: "(u32 \<times> pb_value) list"
  assumes "list_all field_ok fs" and "length buf < 2 ^ 64"
  shows "length (concat (map field_bytes fs)) \<le> length buf \<Longrightarrow>
      \<exists>s. put_fields (pb_ostream_from_buffer buf (length buf) :: 's pb_ostream_t) fs = (True, s) \<and>
        buf_wrote (length buf) s (concat (map field_bytes fs))"
    and "\<not> length (concat (map field_bytes fs)) \<le> length buf \<Longrightarrow>
      \<not> fst (put_fields (pb_ostream_from_buffer buf (length buf) :: 's pb_ostream_t) fs)"
  using buf_out.emitsD [where s = "pb_ostream_from_buffer buf (length buf) :: 's pb_ostream_t" and out = "[]",
      OF buf_out.emits_fields [OF assms(1)] wrote_from_buffer [OF assms(2)]] by simp_all

text \<open>
  C13: fields written with the encoders of nanopb into a large enough buffer come back: the tags, the varints, the
  fixed-width values and the strings that the decoders read are the ones written, the substream of every string ends
  where the string does, and then the input is at its end. Passing over the same fields with \<^verbatim>\<open>pb_skip_field\<close> ends at
  the same place.
\<close>

theorem pb_fields_round_trip:
  fixes fs :: "(u32 \<times> pb_value) list"
  assumes "list_all field_ok fs" and "length buf < 2 ^ 64" and "length (concat (map field_bytes fs)) \<le> length buf"
  shows "\<exists>(s :: unit pb_ostream_t) region. put_fields (pb_ostream_from_buffer buf (length buf)) fs = (True, s) \<and>
    os_sink s = Buf_write region (os_bytes_written s) \<and> length region = length buf \<and>
    (let i = pb_istream_from_buffer region (os_bytes_written s) :: unit pb_istream_t in
       \<exists>s1 s2. get_fields (length fs) i = (Some fs, s1) \<and> is_bytes_left s1 = 0 \<and> skip_fields (length fs) i = (True, s2) \<and> is_bytes_left s2 = 0)"
proof -
  let ?out = "concat (map field_bytes fs)"
  obtain s :: "unit pb_ostream_t" where s: "put_fields (pb_ostream_from_buffer buf (length buf)) fs = (True, s)" "buf_wrote (length buf) s ?out"
    using put_fields_buffer(1) [OF assms, where 's = unit] by blast
  then obtain region where r: "os_sink s = Buf_write region (length ?out)" "take (length ?out) region = ?out" "length region = length buf"
    "os_bytes_written s = length ?out" by (auto simp: buf_wrote_def)
  have "region = ?out @ drop (length ?out) region" using r(2) append_take_drop_id [of "length ?out" region] by metis
  then have rd: "reads buf_yields (pb_istream_from_buffer region (length ?out) :: unit pb_istream_t) (?out @ []) (drop (length ?out) region)"
    using reads_from_buffer [of ?out "drop (length ?out) region"] by simp
  from buf_in.get_fields [OF rd assms(1)] buf_in.skip_fields [OF rd assms(1)] show ?thesis
    using s(1) r unfolding Let_def by (intro exI [of _ s] exI [of _ region]) (auto simp: reads_buffer)
qed

definition sample_fields :: "(u32 \<times> pb_value) list" where
  "sample_fields = [(1, Pb_varint 300), (2, Pb_string [0x68, 0x69])]"

lemma sample_fields_ok: "list_all field_ok sample_fields" "length (concat (map field_bytes sample_fields)) = 7"
  by (simp_all add: sample_fields_def field_ok_def field_bytes_def wire_types varint.simps)

theorem pb_fields_round_trip_witness:
  "\<exists>(s :: unit pb_ostream_t) region. put_fields (pb_ostream_from_buffer (replicate 8 0) 8) sample_fields = (True, s) \<and>
    os_sink s = Buf_write region (os_bytes_written s) \<and> length region = 8 \<and>
    (\<exists>s1. get_fields 2 (pb_istream_from_buffer region (os_bytes_written s) :: unit pb_istream_t) = (Some sample_fields, s1) \<and> is_bytes_left s1 = 0)"
proof -
  have "length sample_fields = 2" by (simp add: sample_fields_def)
  moreover have "length (replicate 8 (0::u8)) < 2 ^ 64" "length (concat (map field_bytes sample_fields)) \<le> length (replicate 8 (0::u8))"
    using sample_fields_ok(2) by simp_all
  note pb_fields_round_trip [OF sample_fields_ok(1) this]
  ultimately show ?thesis unfolding Let_def length_replicate by metis
qed

text \<open>
  C21: a stream without a callback counts exactly the bytes that the same fields take: writing them to a buffer of \<open>n\<close>
  bytes succeeds if and only if the count is at most \<open>n\<close>, and then writes that many bytes and stays inside the buffer.
\<close>

theorem pb_size_exact:
  fixes fs :: "(u32 \<times> pb_value) list"
  assumes "list_all field_ok fs" and "length buf < 2 ^ 64" and "length (concat (map field_bytes fs)) < 2 ^ 64"
  shows "\<exists>(z :: unit pb_ostream_t) ok (s :: unit pb_ostream_t).
    put_fields PB_OSTREAM_SIZING fs = (True, z) \<and> put_fields (pb_ostream_from_buffer buf (length buf)) fs = (ok, s) \<and>
    (ok \<longleftrightarrow> os_bytes_written z \<le> length buf) \<and>
    (ok \<longrightarrow> os_bytes_written s = os_bytes_written z \<and> (\<exists>region. os_sink s = Buf_write region (os_bytes_written z) \<and> length region = length buf))"
proof -
  obtain z :: "unit pb_ostream_t" where z: "put_fields PB_OSTREAM_SIZING fs = (True, z)" "os_bytes_written z = length (concat (map field_bytes fs))"
    using counting.emitsD(1) [OF counting.emits_fields [OF assms(1)] counted_start] assms(3) by (auto simp: counted_def)
  obtain ok and s :: "unit pb_ostream_t" where s: "put_fields (pb_ostream_from_buffer buf (length buf)) fs = (ok, s)" by (cases "put_fields (pb_ostream_from_buffer buf (length buf) :: unit pb_ostream_t) fs")
  show ?thesis
    using put_fields_buffer [OF assms(1,2), where 's = unit] z s by (intro exI [of _ z] exI [of _ ok] exI [of _ s]) (auto simp: buf_wrote_def)
qed

theorem pb_size_exact_witness:
  "\<exists>(z :: unit pb_ostream_t) ok (s :: unit pb_ostream_t).
    put_fields PB_OSTREAM_SIZING sample_fields = (True, z) \<and> put_fields (pb_ostream_from_buffer (replicate 8 0) 8) sample_fields = (ok, s) \<and>
    (ok \<longleftrightarrow> os_bytes_written z \<le> 8)"
  using pb_size_exact [OF sample_fields_ok(1), of "replicate 8 0"] sample_fields_ok(2) unfolding length_replicate by fastforce

end
