(* ===== verification/Pb_Mem.thy ===== *)
theory Pb_Mem
  imports Prelude
begin

text \<open>
  The memory that the message codecs of \<^verbatim>\<open>nanopb\<close> work on. Messages are C structures reached through addresses computed
  from descriptors, and a field may hold the address of another object, so memory is one array of bytes; an address is a
  number, \<open>0\<close> the null pointer. Integers and addresses are stored little-endian, as on every target of the build, with
  addresses of eight bytes.
\<close>

section \<open>Integers in memory\<close>

fun le_val :: "bytes \<Rightarrow> nat" where
  "le_val [] = 0"
| "le_val (b # bs) = unat b + 256 * le_val bs"

fun le_bytes :: "nat \<Rightarrow> nat \<Rightarrow> bytes" where
  "le_bytes 0 v = []"
| "le_bytes (Suc n) v = of_nat v # le_bytes n (v div 256)"

lemma le_val_le_bytes: "le_val (le_bytes n v) = v mod 256 ^ n"
proof (induction n arbitrary: v)
  case (Suc n)
  then show ?case using mod_mult2_eq [of v 256 "256 ^ n"] by simp
qed simp

lemma le_val_less: "le_val bs < 256 ^ length bs"
proof (induction bs)
  case (Cons b bs)
  have "unat b + 256 * le_val bs < 256 * (le_val bs + 1)" using unat_u8_less [of b] by (simp del: unat_u8_less)
  also have "\<dots> \<le> 256 * 256 ^ length bs" using Cons by (intro mult_le_mono2) simp
  finally show ?case by simp
qed simp

lemma le_bytes_le_val: "le_bytes (length bs) (le_val bs) = bs"
proof (induction bs)
  case (Cons b bs)
  have "(of_nat (unat b + 256 * le_val bs) :: u8) = b"
    by (simp add: word_unat_eq_iff del: of_nat_add of_nat_mult)
  moreover have "(unat b + 256 * le_val bs) div 256 = le_val bs" by simp
  ultimately show ?case using Cons by (simp del: of_nat_add of_nat_mult)
qed simp

lemma length_le_bytes [simp]: "length (le_bytes n v) = n"
  by (induction n arbitrary: v) simp_all

lemma le_bytes_mod: "le_bytes n (v mod 256 ^ n) = le_bytes n v"
  by (metis le_val_le_bytes le_bytes_le_val length_le_bytes)

lemma le_bytes_eq: "v mod 256 ^ length bs = le_val bs \<Longrightarrow> le_bytes (length bs) v = bs"
  by (metis le_bytes_mod le_bytes_le_val)

section \<open>Memory\<close>

type_synonym addr = nat
type_synonym pb_mem = "addr \<Rightarrow> u8"

definition mload :: "pb_mem \<Rightarrow> addr \<Rightarrow> nat \<Rightarrow> bytes" where
  "mload m p n = map m [p..<p + n]"

definition mstore :: "pb_mem \<Rightarrow> addr \<Rightarrow> bytes \<Rightarrow> pb_mem" where
  "mstore m p bs a = (if p \<le> a \<and> a < p + length bs then bs ! (a - p) else m a)"

text \<open>Reads through a pointer to \<^verbatim>\<open>pb_size_t\<close> (32 bits) and through a pointer to a pointer.\<close>

definition load_size :: "pb_mem \<Rightarrow> addr \<Rightarrow> u32" where
  "load_size m p = of_nat (le_val (mload m p 4))"

definition load_ptr :: "pb_mem \<Rightarrow> addr \<Rightarrow> addr" where
  "load_ptr m p = le_val (mload m p 8)"

text \<open>The addresses from \<open>p\<close> on of an object of \<open>n\<close> bytes, and two memories that agree outside a set of addresses.\<close>

definition span :: "addr \<Rightarrow> nat \<Rightarrow> addr set" where
  "span p n = {p..<p + n}"

definition agree_off :: "addr set \<Rightarrow> pb_mem \<Rightarrow> pb_mem \<Rightarrow> bool" where
  "agree_off A m m' \<longleftrightarrow> (\<forall>a. a \<notin> A \<longrightarrow> m' a = m a)"

lemma length_mload [simp]: "length (mload m p n) = n"
  by (simp add: mload_def)

lemma nth_mload [simp]: "i < n \<Longrightarrow> mload m p n ! i = m (p + i)"
  by (simp add: mload_def)

lemma take_mload [simp]: "take k (mload m p n) = mload m p (min k n)"
  by (rule nth_equalityI) simp_all

lemma mload_append: "mload m p (a + b) = mload m p a @ mload m (p + a) b"
  by (rule nth_equalityI) (auto simp: nth_append)

lemma mload_0 [simp]: "mload m p 0 = []"
  by (simp add: mload_def)

lemma mload_Suc: "mload m p (Suc n) = m p # mload m (Suc p) n"
  by (simp add: mload_def upt_conv_Cons del: upt_Suc)

lemma mstore_Nil [simp]: "mstore m p [] = m"
  by (rule ext) (auto simp: mstore_def)

lemma mload_mstore_same [simp]: "n = length bs \<Longrightarrow> mload (mstore m p bs) p n = bs"
  by (rule nth_equalityI) (simp_all add: mstore_def)

lemma mload_cong: "(\<And>a. a \<in> span p n \<Longrightarrow> m a = m' a) \<Longrightarrow> mload m p n = mload m' p n"
  by (rule nth_equalityI) (simp_all add: span_def)

lemma mload_agree: "agree_off A m m' \<Longrightarrow> span p n \<inter> A = {} \<Longrightarrow> mload m' p n = mload m p n"
  by (rule mload_cong) (auto simp: agree_off_def)

lemma mload_mstore_other: "span p n \<inter> span q (length bs) = {} \<Longrightarrow> mload (mstore m q bs) p n = mload m p n"
  by (rule mload_cong) (auto simp: mstore_def span_def)

lemma mload_mstore_prefix: "n \<le> length bs \<Longrightarrow> mload (mstore m p bs) p n = take n bs"
  by (rule nth_equalityI) (simp_all add: mstore_def)

lemma agree_off_refl [simp, intro]: "agree_off A m m"
  by (simp add: agree_off_def)

lemma agree_off_trans [trans]: "agree_off A m m' \<Longrightarrow> agree_off A m' m'' \<Longrightarrow> agree_off A m m''"
  by (simp add: agree_off_def)

lemma agree_off_mono: "agree_off A m m' \<Longrightarrow> A \<subseteq> B \<Longrightarrow> agree_off B m m'"
  by (auto simp: agree_off_def)

lemma agree_off_mstore: "span p (length bs) \<subseteq> A \<Longrightarrow> agree_off A m (mstore m p bs)"
  by (auto simp: agree_off_def mstore_def span_def)

lemma span_mono: "p \<le> q \<Longrightarrow> q + k \<le> p + n \<Longrightarrow> span q k \<subseteq> span p n"
  by (auto simp: span_def)

lemma span_0 [simp]: "span p 0 = {}"
  by (simp add: span_def)

lemma load_size_agree: "agree_off A m m' \<Longrightarrow> span p 4 \<inter> A = {} \<Longrightarrow> load_size m' p = load_size m p"
  by (simp add: load_size_def mload_agree)

lemma load_size_mstore [simp]: "load_size (mstore m p (le_bytes 4 v)) p = of_nat v"
  by (simp add: load_size_def le_val_le_bytes word_unat_eq_iff unat_of_nat)

section \<open>The heap\<close>

text \<open>
  The objects that exist, with their sizes, are kept beside the memory. \<^verbatim>\<open>pb_realloc\<close> is C's \<^verbatim>\<open>realloc\<close>, which moves the
  contents of a block; where the new block goes, and whether there is one, is a parameter. A new block holds what was in memory before.
\<close>

record pb_heap =
  hp_mem :: pb_mem
  hp_objects :: "(addr \<times> nat) list"

type_synonym pb_reallocator = "pb_heap \<Rightarrow> addr \<Rightarrow> nat \<Rightarrow> addr option"

definition hstore :: "pb_heap \<Rightarrow> addr \<Rightarrow> bytes \<Rightarrow> pb_heap" where
  "hstore h p bs = h\<lparr>hp_mem := mstore (hp_mem h) p bs\<rparr>"

definition object_size :: "pb_heap \<Rightarrow> addr \<Rightarrow> nat" where
  "object_size h p = (case map_of (hp_objects h) p of None \<Rightarrow> 0 | Some n \<Rightarrow> n)"

definition pb_free :: "pb_heap \<Rightarrow> addr \<Rightarrow> pb_heap" where
  "pb_free h p = h\<lparr>hp_objects := filter (\<lambda>(a, n). a \<noteq> p) (hp_objects h)\<rparr>"

definition pb_realloc :: "pb_reallocator \<Rightarrow> pb_heap \<Rightarrow> addr \<Rightarrow> nat \<Rightarrow> addr \<times> pb_heap" where
  "pb_realloc R h p n =
     (case R h p n of
        None \<Rightarrow> (0, h)
      | Some new \<Rightarrow>
          let h' = hstore (pb_free h p) new (mload (hp_mem h) p (min n (object_size h p)))
          in (new, h'\<lparr>hp_objects := (new, n) # hp_objects h'\<rparr>))"

text \<open>
  What C promises of \<^verbatim>\<open>realloc\<close>: a block it returns is not null, lies in the address space and overlaps no other object.
\<close>

definition realloc_ok :: "pb_reallocator \<Rightarrow> bool" where
  "realloc_ok R \<longleftrightarrow>
     (\<forall>h p n a. R h p n = Some a \<longrightarrow>
        0 < a \<and> a + n \<le> 2 ^ 64 \<and> (\<forall>(b, k) \<in> set (hp_objects h). b \<noteq> p \<longrightarrow> span b k \<inter> span a n = {}))"

lemma realloc_okD:
  assumes "realloc_ok R" and "R h p n = Some a"
  shows "0 < a" and "a + n \<le> 2 ^ 64" and "(b, k) \<in> set (hp_objects h) \<Longrightarrow> b \<noteq> p \<Longrightarrow> span b k \<inter> span a n = {}"
  using assms unfolding realloc_ok_def by blast+

lemma hstore_mem [simp]: "hp_mem (hstore h p bs) = mstore (hp_mem h) p bs"
  by (simp add: hstore_def)

lemma hstore_objects [simp]: "hp_objects (hstore h p bs) = hp_objects h"
  by (simp add: hstore_def)

lemma pb_free_mem [simp]: "hp_mem (pb_free h p) = hp_mem h"
  by (simp add: pb_free_def)

lemma pb_free_objects: "x \<in> set (hp_objects (pb_free h p)) \<longleftrightarrow> x \<in> set (hp_objects h) \<and> fst x \<noteq> p"
  by (auto simp: pb_free_def)

text \<open>An allocator that places every block above everything in use meets the contract.\<close>

definition bump :: pb_reallocator where
  "bump h p n = (let a = 1 + sum_list (map (\<lambda>(b, k). b + k) (hp_objects h)) in if a + n \<le> 2 ^ 64 then Some a else None)"

lemma object_below: "(b, k) \<in> set xs \<Longrightarrow> b + k \<le> sum_list (map (\<lambda>(b, k). b + k) xs)" for xs :: "(nat \<times> nat) list"
  by (induction xs) auto

lemma realloc_ok_bump: "realloc_ok bump"
  unfolding realloc_ok_def
proof (intro allI impI)
  fix h p n a
  assume r: "bump h p n = Some a"
  then have a: "a = 1 + sum_list (map (\<lambda>(b, k). b + k) (hp_objects h))" "a + n \<le> 2 ^ 64"
    by (simp_all add: bump_def Let_def split: if_splits)
  have "span b k \<inter> span a n = {}" if "(b, k) \<in> set (hp_objects h)" for b k
    using object_below [OF that] a(1) by (auto simp: span_def)
  then show "0 < a \<and> a + n \<le> 2 ^ 64 \<and> (\<forall>(b, k) \<in> set (hp_objects h). b \<noteq> p \<longrightarrow> span b k \<inter> span a n = {})"
    using a by auto
qed

end
