(* ===== verification/Pb_Field.thy ===== *)
theory Pb_Field
  imports Pb_Wire Pb_Mem
begin

text \<open>
  \<^verbatim>\<open>nanopb/pb_decode.c\<close> and \<^verbatim>\<open>nanopb/pb_encode.c\<close>: the descriptors of fields, and the decoders and encoders of
  single fields other than messages. A callback that fails is taken to leave the destination as it was.
\<close>

section \<open>Field descriptors\<close>

text \<open>
  \<^verbatim>\<open>pb_field_t\<close>. The pointer at its end is the array of descriptors of a submessage, here the number of that array in the
  program, or the default value. \<^verbatim>\<open>size_offset\<close> is signed.
\<close>

datatype pb_ptr = Pb_null | Pb_submsg nat | Pb_default bytes

record pb_field_t =
  pf_tag :: u32
  pf_type :: u8
  pf_data_offset :: u32
  pf_size_offset :: u32
  pf_data_size :: u32
  pf_array_size :: u32
  pf_ptr :: pb_ptr

definition PB_LTYPE :: "u8 \<Rightarrow> u8" where "PB_LTYPE x = x AND 0x0f"
definition PB_HTYPE :: "u8 \<Rightarrow> u8" where "PB_HTYPE x = x AND 0x30"
definition PB_ATYPE :: "u8 \<Rightarrow> u8" where "PB_ATYPE x = x AND 0xc0"

definition PB_LTYPE_BOOL :: u8 where "PB_LTYPE_BOOL = 0x00"
definition PB_LTYPE_VARINT :: u8 where "PB_LTYPE_VARINT = 0x01"
definition PB_LTYPE_UVARINT :: u8 where "PB_LTYPE_UVARINT = 0x02"
definition PB_LTYPE_SVARINT :: u8 where "PB_LTYPE_SVARINT = 0x03"
definition PB_LTYPE_FIXED32 :: u8 where "PB_LTYPE_FIXED32 = 0x04"
definition PB_LTYPE_FIXED64 :: u8 where "PB_LTYPE_FIXED64 = 0x05"
definition PB_LTYPE_LAST_PACKABLE :: u8 where "PB_LTYPE_LAST_PACKABLE = 0x05"
definition PB_LTYPE_BYTES :: u8 where "PB_LTYPE_BYTES = 0x06"
definition PB_LTYPE_STRING :: u8 where "PB_LTYPE_STRING = 0x07"
definition PB_LTYPE_SUBMESSAGE :: u8 where "PB_LTYPE_SUBMESSAGE = 0x08"
definition PB_LTYPE_EXTENSION :: u8 where "PB_LTYPE_EXTENSION = 0x09"
definition PB_LTYPE_FIXED_LENGTH_BYTES :: u8 where "PB_LTYPE_FIXED_LENGTH_BYTES = 0x0a"
definition PB_HTYPE_REQUIRED :: u8 where "PB_HTYPE_REQUIRED = 0x00"
definition PB_HTYPE_OPTIONAL :: u8 where "PB_HTYPE_OPTIONAL = 0x10"
definition PB_HTYPE_REPEATED :: u8 where "PB_HTYPE_REPEATED = 0x20"
definition PB_HTYPE_ONEOF :: u8 where "PB_HTYPE_ONEOF = 0x30"
definition PB_ATYPE_STATIC :: u8 where "PB_ATYPE_STATIC = 0x00"
definition PB_ATYPE_CALLBACK :: u8 where "PB_ATYPE_CALLBACK = 0x40"
definition PB_ATYPE_POINTER :: u8 where "PB_ATYPE_POINTER = 0x80"

lemmas pb_ltypes = PB_LTYPE_BOOL_def PB_LTYPE_VARINT_def PB_LTYPE_UVARINT_def PB_LTYPE_SVARINT_def PB_LTYPE_FIXED32_def
  PB_LTYPE_FIXED64_def PB_LTYPE_LAST_PACKABLE_def PB_LTYPE_BYTES_def PB_LTYPE_STRING_def PB_LTYPE_SUBMESSAGE_def
  PB_LTYPE_EXTENSION_def PB_LTYPE_FIXED_LENGTH_BYTES_def
lemmas pb_htypes = PB_HTYPE_REQUIRED_def PB_HTYPE_OPTIONAL_def PB_HTYPE_REPEATED_def PB_HTYPE_ONEOF_def
lemmas pb_atypes = PB_ATYPE_STATIC_def PB_ATYPE_CALLBACK_def PB_ATYPE_POINTER_def

section \<open>Integers\<close>

text \<open>The bytes of a signed or unsigned type of \<open>n\<close> bytes, converted to 64 bits, and a number as such bytes.\<close>

definition load_s :: "nat \<Rightarrow> bytes \<Rightarrow> u64" where
  "load_s n src = signed_take_bit (8 * n - 1) (of_nat (le_val (take n src)))"

definition load_u :: "nat \<Rightarrow> bytes \<Rightarrow> u64" where
  "load_u n src = of_nat (le_val (take n src))"

definition int_sizes :: "nat set" where
  "int_sizes = {1, 2, 4, 8}"

section \<open>Decoders\<close>

text \<open>The result of a decoder: whether it returned true, the heap, and the stream.\<close>

type_synonym 's pb_decoder_t = "'s pb_istream_t \<Rightarrow> pb_field_t \<Rightarrow> addr \<Rightarrow> pb_heap \<Rightarrow> bool \<times> pb_heap \<times> 's pb_istream_t"

definition pb_dec_bool :: "'s pb_istream_t \<Rightarrow> addr \<Rightarrow> pb_heap \<Rightarrow> bool \<times> pb_heap \<times> 's pb_istream_t" where
  "pb_dec_bool s dest h =
     (case pb_decode_varint32 s of
        (None, s) \<Rightarrow> (False, h, s)
      | (Some value, s) \<Rightarrow> (True, hstore h dest [if value \<noteq> 0 then 1 else 0], s))"

text \<open>\<^verbatim>\<open>pb_decode_bool\<close> hands its argument on as the destination.\<close>

definition pb_decode_bool :: "'s pb_istream_t \<Rightarrow> addr \<Rightarrow> pb_heap \<Rightarrow> bool \<times> pb_heap \<times> 's pb_istream_t" where
  "pb_decode_bool s dest h = pb_dec_bool s dest h"

definition pb_dec_varint :: "'s pb_decoder_t" where
  "pb_dec_varint s field dest h =
     (case pb_decode_varint s of
        (None, s) \<Rightarrow> (False, h, s)
      | (Some value, s) \<Rightarrow>
          let n = unat (pf_data_size field);
              svalue = (if n = 8 then value else signed_take_bit 31 value)
          in if n \<in> int_sizes then
               (let clamped = signed_take_bit (8 * n - 1) svalue; h = hstore h dest (le_bytes n (unat svalue))
                in if clamped \<noteq> svalue then (False, h, is_fail s ''integer too large'') else (True, h, s))
             else (False, h, is_fail s ''invalid data_size''))"

definition pb_dec_uvarint :: "'s pb_decoder_t" where
  "pb_dec_uvarint s field dest h =
     (case pb_decode_varint s of
        (None, s) \<Rightarrow> (False, h, s)
      | (Some value, s) \<Rightarrow>
          let n = unat (pf_data_size field)
          in if n \<in> int_sizes then
               (let clamped = take_bit (8 * n) value; h = hstore h dest (le_bytes n (unat value))
                in if clamped \<noteq> value then (False, h, is_fail s ''integer too large'') else (True, h, s))
             else (False, h, is_fail s ''invalid data_size''))"

definition pb_dec_svarint :: "'s pb_decoder_t" where
  "pb_dec_svarint s field dest h =
     (case pb_decode_svarint s of
        (None, s) \<Rightarrow> (False, h, s)
      | (Some value, s) \<Rightarrow>
          let n = unat (pf_data_size field)
          in if n \<in> int_sizes then
               (let clamped = signed_take_bit (8 * n - 1) value; h = hstore h dest (le_bytes n (unat value))
                in if clamped \<noteq> value then (False, h, is_fail s ''integer too large'') else (True, h, s))
             else (False, h, is_fail s ''invalid data_size''))"

definition pb_dec_fixed32 :: "'s pb_decoder_t" where
  "pb_dec_fixed32 s field dest h =
     (case pb_decode_fixed32 s of
        (None, s) \<Rightarrow> (False, h, s)
      | (Some v, s) \<Rightarrow> (True, hstore h dest (le_bytes 4 (unat v)), s))"

definition pb_dec_fixed64 :: "'s pb_decoder_t" where
  "pb_dec_fixed64 s field dest h =
     (case pb_decode_fixed64 s of
        (None, s) \<Rightarrow> (False, h, s)
      | (Some v, s) \<Rightarrow> (True, hstore h dest (le_bytes 8 (unat v)), s))"

text \<open>
  \<^verbatim>\<open>allocate_field\<close>: \<^verbatim>\<open>pData\<close> is where the pointer to the storage is kept.
\<close>

definition allocate_field ::
    "pb_reallocator \<Rightarrow> 's pb_istream_t \<Rightarrow> addr \<Rightarrow> nat \<Rightarrow> nat \<Rightarrow> pb_heap \<Rightarrow> bool \<times> pb_heap \<times> 's pb_istream_t" where
  "allocate_field R s pData data_size array_size h =
     (if data_size = 0 \<or> array_size = 0 then (False, h, is_fail s ''invalid size'')
      else if (data_size \<ge> 2 ^ 32 \<or> array_size \<ge> 2 ^ 32) \<and> SIZE_MAX div array_size < data_size then (False, h, is_fail s ''size too large'')
      else case pb_realloc R h (load_ptr (hp_mem h) pData) (size_mul array_size data_size) of
             (ptr, h) \<Rightarrow> if ptr = 0 then (False, h, is_fail s ''realloc failed'') else (True, hstore h pData (le_bytes 8 ptr), s))"

text \<open>\<^verbatim>\<open>pb_read\<close> to a place in memory.\<close>

definition read_to :: "'s pb_istream_t \<Rightarrow> addr \<Rightarrow> nat \<Rightarrow> pb_heap \<Rightarrow> bool \<times> pb_heap \<times> 's pb_istream_t" where
  "read_to s p n h = (case pb_read s True n of (None, s) \<Rightarrow> (False, h, s) | (Some bs, s) \<Rightarrow> (True, hstore h p bs, s))"

text \<open>
  Strings and byte arrays go to memory inside the message or to memory the field points to, which is reallocated. A size
  never exceeds \<^verbatim>\<open>PB_SIZE_MAX\<close>, which is \<^verbatim>\<open>UINT32_MAX\<close> here. The bytes of \<^verbatim>\<open>pb_bytes_array_t\<close> follow its size directly.
\<close>

definition bytes_into :: "'s pb_istream_t \<Rightarrow> addr \<Rightarrow> nat \<Rightarrow> pb_heap \<Rightarrow> bool \<times> pb_heap \<times> 's pb_istream_t" where
  "bytes_into s bdest sz h = read_to s (bdest + 4) sz (hstore h bdest (le_bytes 4 sz))"

definition pb_dec_bytes :: "pb_reallocator \<Rightarrow> 's pb_decoder_t" where
  "pb_dec_bytes R s field dest h =
     (case pb_decode_varint32 s of
        (None, s) \<Rightarrow> (False, h, s)
      | (Some sz, s) \<Rightarrow>
          let alloc_size = size_add (unat sz) 4 in
          if unat sz > alloc_size then (False, h, is_fail s ''size too large'')
          else if PB_ATYPE (pf_type field) = PB_ATYPE_POINTER then
            (if is_bytes_left s < unat sz then (False, h, is_fail s ''end-of-stream'')
             else case allocate_field R s dest alloc_size 1 h of
                    (False, h, s) \<Rightarrow> (False, h, s)
                  | (True, h, s) \<Rightarrow> bytes_into s (load_ptr (hp_mem h) dest) (unat sz) h)
          else if alloc_size > unat (pf_data_size field) then (False, h, is_fail s ''bytes overflow'')
          else bytes_into s dest (unat sz) h)"

text \<open>The sum \<^verbatim>\<open>size + 1\<close> is taken in 32 bits. The terminator is written whether or not the read succeeded.\<close>

definition string_into :: "'s pb_istream_t \<Rightarrow> addr \<Rightarrow> nat \<Rightarrow> pb_heap \<Rightarrow> bool \<times> pb_heap \<times> 's pb_istream_t" where
  "string_into s dest sz h = (case read_to s dest sz h of (status, h, s) \<Rightarrow> (status, hstore h (dest + sz) [0], s))"

definition pb_dec_string :: "pb_reallocator \<Rightarrow> 's pb_decoder_t" where
  "pb_dec_string R s field dest h =
     (case pb_decode_varint32 s of
        (None, s) \<Rightarrow> (False, h, s)
      | (Some sz, s) \<Rightarrow>
          let alloc_size = unat (sz + 1) in
          if alloc_size < unat sz then (False, h, is_fail s ''size too large'')
          else if PB_ATYPE (pf_type field) = PB_ATYPE_POINTER then
            (if is_bytes_left s < unat sz then (False, h, is_fail s ''end-of-stream'')
             else case allocate_field R s dest alloc_size 1 h of
                    (False, h, s) \<Rightarrow> (False, h, s)
                  | (True, h, s) \<Rightarrow> string_into s (load_ptr (hp_mem h) dest) (unat sz) h)
          else if alloc_size > unat (pf_data_size field) then (False, h, is_fail s ''string overflow'')
          else string_into s dest (unat sz) h)"

definition pb_dec_fixed_length_bytes :: "'s pb_decoder_t" where
  "pb_dec_fixed_length_bytes s field dest h =
     (case pb_decode_varint32 s of
        (None, s) \<Rightarrow> (False, h, s)
      | (Some sz, s) \<Rightarrow>
          if sz = 0 then (True, hstore h dest (replicate (unat (pf_data_size field)) 0), s)
          else if sz \<noteq> pf_data_size field then (False, h, is_fail s ''incorrect fixed length bytes size'')
          else read_to s dest (unat (pf_data_size field)) h)"

section \<open>Encoders\<close>

type_synonym 's pb_encoder_t = "'s pb_ostream_t \<Rightarrow> pb_field_t \<Rightarrow> pb_mem \<Rightarrow> addr \<Rightarrow> bool \<times> 's pb_ostream_t"

definition pb_encode_tag_for_field :: "'s pb_ostream_t \<Rightarrow> pb_field_t \<Rightarrow> bool \<times> 's pb_ostream_t" where
  "pb_encode_tag_for_field s field =
     (let t = PB_LTYPE (pf_type field) in
      if t = PB_LTYPE_BOOL \<or> t = PB_LTYPE_VARINT \<or> t = PB_LTYPE_UVARINT \<or> t = PB_LTYPE_SVARINT
      then pb_encode_tag s PB_WT_VARINT (pf_tag field)
      else if t = PB_LTYPE_FIXED32 then pb_encode_tag s PB_WT_32BIT (pf_tag field)
      else if t = PB_LTYPE_FIXED64 then pb_encode_tag s PB_WT_64BIT (pf_tag field)
      else if t = PB_LTYPE_BYTES \<or> t = PB_LTYPE_STRING \<or> t = PB_LTYPE_SUBMESSAGE \<or> t = PB_LTYPE_FIXED_LENGTH_BYTES
      then pb_encode_tag s PB_WT_STRING (pf_tag field)
      else (False, os_fail s ''invalid field type''))"

text \<open>\<^verbatim>\<open>sizeof(bool)\<close> is one.\<close>

definition safe_read_bool :: "pb_mem \<Rightarrow> addr \<Rightarrow> bool" where
  "safe_read_bool m p = list_ex (\<lambda>b. b \<noteq> 0) (mload m p 1)"

definition pb_enc_bool :: "'s pb_encoder_t" where
  "pb_enc_bool s field m src = pb_encode_varint s (if safe_read_bool m src then 1 else 0)"

definition pb_enc_varint :: "'s pb_encoder_t" where
  "pb_enc_varint s field m src =
     (let n = unat (pf_data_size field)
      in if n \<in> int_sizes then pb_encode_varint s (load_s n (mload m src n)) else (False, os_fail s ''invalid data_size''))"

definition pb_enc_uvarint :: "'s pb_encoder_t" where
  "pb_enc_uvarint s field m src =
     (let n = unat (pf_data_size field)
      in if n \<in> int_sizes then pb_encode_varint s (load_u n (mload m src n)) else (False, os_fail s ''invalid data_size''))"

definition pb_enc_svarint :: "'s pb_encoder_t" where
  "pb_enc_svarint s field m src =
     (let n = unat (pf_data_size field)
      in if n \<in> int_sizes then pb_encode_svarint s (load_s n (mload m src n)) else (False, os_fail s ''invalid data_size''))"

definition pb_enc_fixed32 :: "'s pb_encoder_t" where
  "pb_enc_fixed32 s field m src = pb_encode_fixed32 s (of_nat (le_val (mload m src 4)))"

definition pb_enc_fixed64 :: "'s pb_encoder_t" where
  "pb_enc_fixed64 s field m src = pb_encode_fixed64 s (of_nat (le_val (mload m src 8)))"

definition pb_enc_bytes :: "'s pb_encoder_t" where
  "pb_enc_bytes s field m src =
     (if src = 0 then pb_encode_string s []
      else
        let sz = unat (load_size m src) in
        if PB_ATYPE (pf_type field) = PB_ATYPE_STATIC \<and> sz > (unat (pf_data_size field) + (2 ^ 64 - 4)) mod 2 ^ 64
        then (False, os_fail s ''bytes size exceeded'')
        else pb_encode_string s (mload m (src + 4) sz))"

fun strlen_loop :: "pb_mem \<Rightarrow> addr \<Rightarrow> nat \<Rightarrow> nat" where
  "strlen_loop m p max_size = (if 0 < max_size \<and> m p \<noteq> 0 then Suc (strlen_loop m (Suc p) (max_size - 1)) else 0)"

declare strlen_loop.simps [simp del]

definition pb_enc_string :: "'s pb_encoder_t" where
  "pb_enc_string s field m src =
     (let max_size = (if PB_ATYPE (pf_type field) = PB_ATYPE_POINTER then SIZE_MAX else unat (pf_data_size field)) in
      if src = 0 then pb_encode_string s [] else pb_encode_string s (mload m src (strlen_loop m src max_size)))"

definition pb_enc_fixed_length_bytes :: "'s pb_encoder_t" where
  "pb_enc_fixed_length_bytes s field m src = pb_encode_string s (mload m src (unat (pf_data_size field)))"

section \<open>Round trips\<close>

lemma store_load:
  fixes v :: u64
  assumes "n \<in> int_sizes" and "length src = n" and "take_bit (8 * n) v = take_bit (8 * n) (of_nat (le_val src))"
  shows "le_bytes n (unat v) = src"
proof -
  have l: "le_val src < 2 ^ 64"
    using le_val_less [of src] power_increasing [of n 8 "256::nat"] assms(1,2) by (auto simp: int_sizes_def)
  have "unat (take_bit (8 * n) v) = unat v mod 2 ^ (8 * n)" "unat (take_bit (8 * n) (of_nat (le_val src) :: u64)) = le_val src mod 2 ^ (8 * n)"
    using l by (simp_all only: unsigned_take_bit_eq) (simp_all add: take_bit_eq_mod unat_of_nat)
  then have "unat v mod 256 ^ n = le_val src mod 256 ^ n" using assms(3) by (simp add: power_mult)
  also have "\<dots> = le_val src" using le_val_less [of src] assms(2) by simp
  finally show ?thesis using le_bytes_eq [of "unat v" src] assms(2) by simp
qed

lemma load_s_low: "n \<in> int_sizes \<Longrightarrow> length src = n \<Longrightarrow> take_bit (8 * n) (load_s n src) = take_bit (8 * n) (of_nat (le_val src))"
  by (auto simp: load_s_def int_sizes_def take_bit_signed_take_bit)

lemma load_s_small: "n \<in> int_sizes \<Longrightarrow> signed_take_bit (8 * n - 1) (load_s n src) = load_s n src"
  by (auto simp: load_s_def int_sizes_def signed_take_bit_signed_take_bit)

lemma load_s_32: "n \<in> int_sizes \<Longrightarrow> n \<noteq> 8 \<Longrightarrow> signed_take_bit 31 (load_s n src) = load_s n src"
  by (auto simp: load_s_def int_sizes_def signed_take_bit_signed_take_bit)

lemma load_u_small: "n \<in> int_sizes \<Longrightarrow> length src = n \<Longrightarrow> take_bit (8 * n) (load_u n src) = load_u n src"
proof -
  assume n: "n \<in> int_sizes" "length src = n"
  have "le_val src < 256 ^ n" using le_val_less [of src] n by simp
  then have "le_val src < 2 ^ (8 * n)" by (simp add: power_mult)
  then have "unat (of_nat (le_val src) :: u64) mod 2 ^ (8 * n) = unat (of_nat (le_val src) :: u64)"
    by (intro mod_less) (simp add: unat_of_nat le_less_trans [OF mod_less_eq_dividend])
  then have "unat (take_bit (8 * n) (of_nat (le_val src) :: u64)) = unat (of_nat (le_val src) :: u64)"
    by (simp only: unsigned_take_bit_eq) (simp only: take_bit_eq_mod)
  then show ?thesis using n(2) by (simp add: load_u_def word_unat_eq_iff)
qed

text \<open>A varint written to a buffer and read back.\<close>

lemma varint_through_buffer:
  assumes "10 \<le> length buf" and "length buf < 2 ^ 64"
  shows "\<exists>(s :: unit pb_ostream_t) region. pb_encode_varint (pb_ostream_from_buffer buf (length buf)) v = (True, s) \<and>
    os_sink s = Buf_write region (os_bytes_written s) \<and>
    (\<exists>i. pb_decode_varint (pb_istream_from_buffer region (os_bytes_written s) :: unit pb_istream_t) = (Some v, i) \<and> is_bytes_left i = 0)"
proof -
  let ?out = "varint (unat v)"
  have "length ([] @ ?out) \<le> length buf" using length_varint_u64 [of v] assms(1) by simp
  from buf_write_fits [OF wrote_from_buffer [OF assms(2)] this] obtain s :: "unit pb_ostream_t" where
    s: "pb_encode_varint (pb_ostream_from_buffer buf (length buf)) v = (True, s)" "buf_wrote (length buf) s ?out"
    unfolding pb_encode_varint_write by auto
  then obtain region where r: "os_sink s = Buf_write region (length ?out)" "take (length ?out) region = ?out" "os_bytes_written s = length ?out"
    by (auto simp: buf_wrote_def)
  have "region = ?out @ drop (length ?out) region" using r(2) append_take_drop_id [of "length ?out" region] by metis
  then have rd: "reads buf_yields (pb_istream_from_buffer region (length ?out) :: unit pb_istream_t) (?out @ []) (drop (length ?out) region)"
    using reads_from_buffer [of ?out "drop (length ?out) region"] by simp
  from buf_in.decode_varint [OF rd] show ?thesis
    using s(1) r(1,3) by (intro exI [of _ s] exI [of _ region]) (auto simp: reads_buffer elim: outcomeD)
qed

section \<open>Reading in general\<close>

text \<open>Whatever the 32-bit reader finds, it reads forward: what is left is a suffix of what there was.\<close>

context pb_input
begin

lemma reads_fail: "reads yields (is_fail s msg) bs rest = reads yields s bs rest"
  by (simp add: reads_def is_fail_def)

lemma varint32_loop_forward:
  "reads yields s bs rest \<Longrightarrow> \<exists>p r. bs = p @ r \<and> reads yields (snd (varint32_loop s pos q)) r rest"
proof (induction bs arbitrary: s pos q)
  case Nil
  then have "varint32_loop s pos q = (None, is_fail s ''end-of-stream'')"
    by (subst varint32_loop.simps) (simp add: pb_readbyte_def reads_def)
  then show ?case using Nil by (simp add: reads_fail)
next
  case (Cons b bs)
  obtain s' where s': "pb_readbyte s = (Some b, s')" "reads yields s' bs rest" using readbyte_Cons [OF Cons.prems] .
  have "\<exists>q'. varint32_loop s pos q = varint32_loop s' (pos + 7) q' \<or> snd (varint32_loop s pos q) = s' \<or>
      snd (varint32_loop s pos q) = is_fail s' ''varint overflow''"
    by (subst (1 3 4) varint32_loop.simps) (auto simp: s'(1) Let_def)
  then obtain q' where "varint32_loop s pos q = varint32_loop s' (pos + 7) q' \<or> snd (varint32_loop s pos q) = s' \<or>
      snd (varint32_loop s pos q) = is_fail s' ''varint overflow''" by blast
  moreover obtain p r where "bs = p @ r" "reads yields (snd (varint32_loop s' (pos + 7) q')) r rest"
    using Cons.IH [OF s'(2)] by blast
  ultimately show ?case using s'(2) reads_fail by (metis append_Cons append_Nil)
qed

lemma decode_varint32_forward:
  assumes "reads yields s bs rest"
  shows "\<exists>p r. bs = p @ r \<and> reads yields (snd (pb_decode_varint32 s)) r rest"
proof (cases bs)
  case Nil
  then have "pb_readbyte s = (None, is_fail s ''end-of-stream'')" using assms by (simp add: pb_readbyte_def reads_def)
  then show ?thesis using assms Nil by (simp add: pb_decode_varint32_def pb_decode_varint32_eof_def reads_fail)
next
  case (Cons b bs')
  obtain s' where s': "pb_readbyte s = (Some b, s')" "reads yields s' bs' rest" using readbyte_Cons assms Cons by blast
  show ?thesis
  proof (cases "b AND 0x80 = 0")
    case True
    then show ?thesis using s' Cons by (auto simp: pb_decode_varint32_def pb_decode_varint32_eof_def intro: exI [of _ "[b]"])
  next
    case False
    from varint32_loop_forward [OF s'(2), of 7 "ucast (b AND 0x7f)"] obtain p r where
      "bs' = p @ r" "reads yields (snd (varint32_loop s' 7 (ucast (b AND 0x7f)))) r rest" by blast
    then show ?thesis using s' Cons False
      by (intro exI [of _ "b # p"] exI [of _ r]) (simp add: pb_decode_varint32_def pb_decode_varint32_eof_def)
  qed
qed

text \<open>A read to memory delivers the next bytes or changes nothing.\<close>

lemma read_to_forward:
  assumes "reads yields s bs rest" and "read_to s p n h = (ok, h', s')"
  shows "if n \<le> length bs then ok \<and> h' = hstore h p (take n bs) \<and> reads yields s' (drop n bs) rest
    else \<not> ok \<and> h' = h"
proof (cases "n \<le> length bs")
  case True
  obtain s1 where "pb_read s True n = (Some (take n bs), s1)" "reads yields s1 (drop n bs) rest"
    using read_take [OF assms(1) True] by (auto elim: outcomeD)
  then show ?thesis using assms(2) True by (simp add: read_to_def)
next
  case False
  then have "fst (pb_read s True n) = None" using read_bytes_short [OF assms(1)] by (auto simp: pb_read_def)
  then show ?thesis using assms(2) False by (cases "pb_read s True n") (simp add: read_to_def)
qed

lemma string_into_forward:
  assumes "reads yields s bs rest" and "string_into s p n h = (ok, h', s')"
  shows "agree_off (span p (Suc n)) (hp_mem h) (hp_mem h') \<and> hp_objects h' = hp_objects h \<and>
    (ok \<longrightarrow> n \<le> length bs \<and> mload (hp_mem h') p (Suc n) = take n bs @ [0] \<and> reads yields s' (drop n bs) rest)"
proof -
  obtain h1 where r: "read_to s p n h = (ok, h1, s')" and d: "h' = hstore h1 (p + n) [0]"
    using assms(2) by (auto simp: string_into_def split: prod.splits)
  note f = read_to_forward [OF assms(1) r]
  have z: "agree_off (span p (Suc n)) (hp_mem h1) (hp_mem h')" unfolding d hstore_mem by (rule agree_off_mstore) (auto simp: span_def)
  show ?thesis
  proof (cases "n \<le> length bs")
    case True
    then have h1: "ok" "h1 = hstore h p (take n bs)" "reads yields s' (drop n bs) rest" using f by simp_all
    have "agree_off (span p (Suc n)) (hp_mem h) (hp_mem h1)"
      unfolding h1 hstore_mem by (rule agree_off_mstore) (auto simp: span_def)
    moreover have "mload (hp_mem h') p (n + 1) = take n bs @ [0]"
      unfolding d h1(2) hstore_mem mload_append using True by (simp add: mload_mstore_other span_def)
    ultimately show ?thesis using agree_off_trans [OF _ z] h1 True d by simp
  qed (use f d z in simp)
qed

end

lemma load_ptr_mstore [simp]: "v < 2 ^ 64 \<Longrightarrow> load_ptr (mstore m p (le_bytes 8 v)) p = v"
  by (simp add: load_ptr_def le_val_le_bytes)

lemma realloc_agree:
  assumes "R h p n = Some a"
  shows "pb_realloc R h p n = (a, snd (pb_realloc R h p n)) \<and> (a, n) \<in> set (hp_objects (snd (pb_realloc R h p n))) \<and>
    agree_off (span a n) (hp_mem h) (hp_mem (snd (pb_realloc R h p n)))"
proof -
  have "agree_off (span a n) (hp_mem h) (mstore (hp_mem h) a (mload (hp_mem h) p (min n (object_size h p))))"
    by (rule agree_off_mstore) (simp add: span_mono)
  then show ?thesis using assms by (simp add: pb_realloc_def Let_def)
qed

lemma allocate_field_fail:
  assumes "realloc_ok R" and "allocate_field R s p n k h = (False, h', s')"
  shows "h' = h"
proof -
  have "fst (pb_realloc R h q m) = 0 \<Longrightarrow> snd (pb_realloc R h q m) = h" for q m
    using realloc_okD(1) [OF assms(1), of h q m 0] by (auto simp: pb_realloc_def Let_def split: option.splits)
  then show ?thesis using assms(2) unfolding allocate_field_def by (auto split: if_splits prod.splits) (metis fst_conv snd_conv)+
qed

text \<open>
  A successful allocation puts a block of the requested size into the heap and its address into the field, and leaves
  the rest of memory alone.
\<close>

lemma allocate_field_block:
  assumes "realloc_ok R" and "allocate_field R s p n 1 h = (True, h', s')" and "n < 2 ^ 64"
  shows "s' = s \<and> (\<exists>a. R h (load_ptr (hp_mem h) p) n = Some a \<and> load_ptr (hp_mem h') p = a \<and> (a, n) \<in> set (hp_objects h') \<and>
    agree_off (span p 8 \<union> span a n) (hp_mem h) (hp_mem h'))"
proof -
  have n: "size_mul 1 n = n" "size_mul (Suc 0) n = n" using assms(3) by (simp_all add: size_mul_def)
  let ?r = "pb_realloc R h (load_ptr (hp_mem h) p) n"
  have r: "fst ?r \<noteq> 0" "h' = hstore (snd ?r) p (le_bytes 8 (fst ?r))" "s' = s"
    using assms(2) n by (auto simp: allocate_field_def split: if_splits prod.splits)
  then obtain a where a: "R h (load_ptr (hp_mem h) p) n = Some a" by (auto simp: pb_realloc_def split: option.splits)
  note g = realloc_agree [of R h "load_ptr (hp_mem h) p" n a, OF a]
  have f: "fst ?r = a" using g by (metis fst_conv)
  have "0 < n" using assms(2) by (auto simp: allocate_field_def split: if_splits)
  then have "a < 2 ^ 64" using realloc_okD(2) [OF assms(1) a] by linarith
  then have "load_ptr (hp_mem h') p = a" by (simp add: r(2) f)
  moreover have "agree_off (span p 8 \<union> span a n) (hp_mem (snd ?r)) (hp_mem h')"
    unfolding r(2) hstore_mem by (rule agree_off_mstore) simp
  then have "agree_off (span p 8 \<union> span a n) (hp_mem h) (hp_mem h')"
    using g agree_off_mono [of "span a n"] by (blast intro: agree_off_trans)
  ultimately show ?thesis using a g r(2,3) by simp
qed

section \<open>Properties\<close>

lemma dec_varint_load:
  fixes s :: "'s pb_istream_t"
  assumes "unat (pf_data_size field) \<in> int_sizes" and "length src = unat (pf_data_size field)"
  shows "pb_decode_varint s = (Some (load_s (length src) src), s') \<Longrightarrow> pb_dec_varint s field dest h = (True, hstore h dest src, s')"
    and "pb_decode_varint s = (Some (load_u (length src) src), s') \<Longrightarrow> pb_dec_uvarint s field dest h = (True, hstore h dest src, s')"
    and "pb_decode_svarint s = (Some (load_s (length src) src), s') \<Longrightarrow> pb_dec_svarint s field dest h = (True, hstore h dest src, s')"
proof -
  let ?n = "unat (pf_data_size field)"
  have s: "le_bytes ?n (unat (load_s ?n src)) = src" by (rule store_load [OF assms(1) assms(2)]) (use load_s_low assms in simp_all)
  have u: "le_bytes ?n (unat (load_u ?n src)) = src" by (rule store_load [OF assms(1) assms(2)]) (use assms in \<open>simp_all add: load_u_def\<close>)
  have "(if ?n = 8 then load_s ?n src else signed_take_bit 31 (load_s ?n src)) = load_s ?n src"
    using load_s_32 [OF assms(1)] by simp
  then show "pb_decode_varint s = (Some (load_s (length src) src), s') \<Longrightarrow> pb_dec_varint s field dest h = (True, hstore h dest src, s')"
    unfolding assms(2) pb_dec_varint_def Let_def using assms(1) s load_s_small by (simp only: prod.case option.case) simp
  show "pb_decode_varint s = (Some (load_u (length src) src), s') \<Longrightarrow> pb_dec_uvarint s field dest h = (True, hstore h dest src, s')"
    using assms u load_u_small by (simp add: pb_dec_uvarint_def Let_def)
  show "pb_decode_svarint s = (Some (load_s (length src) src), s') \<Longrightarrow> pb_dec_svarint s field dest h = (True, hstore h dest src, s')"
    using assms s load_s_small by (simp add: pb_dec_svarint_def Let_def)
qed

text \<open>The result of writing the field at \<open>src\<close> with \<open>enc\<close> to a buffer and reading it back with \<open>dec\<close> to \<open>dest\<close>.\<close>

definition field_round_trip ::
    "unit pb_encoder_t \<Rightarrow> unit pb_decoder_t \<Rightarrow> pb_field_t \<Rightarrow> bytes \<Rightarrow> pb_mem \<Rightarrow> addr \<Rightarrow> addr \<Rightarrow> pb_heap \<Rightarrow> bool" where
  "field_round_trip enc dec field buf m src dest h \<longleftrightarrow>
     (\<exists>s region i. enc (pb_ostream_from_buffer buf (length buf)) field m src = (True, s) \<and>
        os_sink s = Buf_write region (os_bytes_written s) \<and>
        dec (pb_istream_from_buffer region (os_bytes_written s)) field dest h =
          (True, hstore h dest (mload m src (unat (pf_data_size field))), i) \<and> is_bytes_left i = 0)"

text \<open>
  C18: an integer field of one, two, four or eight bytes is encoded and decoded without loss, whether it is signed, unsigned
  or zigzag-encoded: the bytes the decoder stores are the bytes the encoder read, for every value, nothing else in memory
  changes, and all of the encoding is consumed.
\<close>

theorem pb_integer_fields_round_trip:
  assumes "unat (pf_data_size field) \<in> {1, 2, 4, 8}" and "10 \<le> length buf" and "length buf < 2 ^ 64"
  shows "field_round_trip pb_enc_varint pb_dec_varint field buf m src dest h \<and>
    field_round_trip pb_enc_uvarint pb_dec_uvarint field buf m src dest h \<and>
    field_round_trip pb_enc_svarint pb_dec_svarint field buf m src dest h"
proof -
  define n and v where "n = unat (pf_data_size field)" and "v = mload m src n"
  have n: "n \<in> int_sizes" "length v = n" using assms(1) by (simp_all add: int_sizes_def n_def v_def)
  let ?s = "load_s n v" and ?u = "load_u n v"
  let ?z = "if ?s <s 0 then NOT (push_bit 1 ?s) else push_bit 1 ?s"
  note load = dec_varint_load [of field v, folded n_def, OF n] and buf = varint_through_buffer [OF assms(2,3)]
  have "field_round_trip pb_enc_varint pb_dec_varint field buf m src dest h"
    unfolding field_round_trip_def pb_enc_varint_def Let_def n_def [symmetric] if_P [OF n(1)] v_def [symmetric]
    using buf [of ?s] load(1) n(2) by blast
  moreover have "field_round_trip pb_enc_uvarint pb_dec_uvarint field buf m src dest h"
    unfolding field_round_trip_def pb_enc_uvarint_def Let_def n_def [symmetric] if_P [OF n(1)] v_def [symmetric]
    using buf [of ?u] load(2) n(2) by blast
  moreover have "pb_decode_svarint s = (Some ?s, s')" if "pb_decode_varint s = (Some ?z, s')" for s s' :: "unit pb_istream_t"
    unfolding pb_decode_svarint_def that using zigzag_inverse [of ?s] by simp
  then have "field_round_trip pb_enc_svarint pb_dec_svarint field buf m src dest h"
    unfolding field_round_trip_def pb_enc_svarint_def pb_encode_svarint_def Let_def n_def [symmetric] if_P [OF n(1)] v_def [symmetric]
    using buf [of ?z] load(3) n(2) by blast
  ultimately show ?thesis by blast
qed

definition int16_field :: pb_field_t where
  "int16_field =
     \<lparr>pf_tag = 1, pf_type = 3, pf_data_offset = 0, pf_size_offset = 0, pf_data_size = 2, pf_array_size = 0, pf_ptr = Pb_null\<rparr>"

text \<open>The number -2 at address 16, read back to address 32.\<close>

theorem pb_integer_fields_round_trip_witness:
  "field_round_trip pb_enc_svarint pb_dec_svarint int16_field (replicate 10 0) (mstore (\<lambda>_. 0) 16 [0xfe, 0xff]) 16 32
     \<lparr>hp_mem = (\<lambda>_. 7), hp_objects = []\<rparr>"
  using pb_integer_fields_round_trip [of int16_field "replicate 10 0"] by (simp add: int16_field_def)

lemma unat_plus_one: "unat sz \<le> unat (sz + 1) \<Longrightarrow> unat (sz + 1) = Suc (unat (sz :: u32))"
  by (cases "sz + 1 = 0") (metis add.commute le_zero_eq unat_0 unat_eq_zero add_cancel_right_left zero_neq_one, metis add.commute unatSuc)

text \<open>
  The next \<open>n\<close> bytes of the input \<open>r\<close> and a terminating zero are at \<open>q\<close>, and the stream has moved past those bytes.
\<close>

definition stored_string :: "bytes \<Rightarrow> nat \<Rightarrow> addr \<Rightarrow> pb_heap \<Rightarrow> 's pb_istream_t \<Rightarrow> bool" where
  "stored_string r n q h s \<longleftrightarrow>
     n \<le> length r \<and> mload (hp_mem h) q (Suc n) = take n r @ [0] \<and> is_source s = Buf_read (drop n r) \<and> is_bytes_left s = length r - n"

lemma string_into_stored:
  assumes "reads buf_yields s r []" and "string_into s q n h = (ok, h', s')"
  shows "(ok \<longleftrightarrow> n \<le> length r) \<and> hp_objects h' = hp_objects h \<and> agree_off (span q (Suc n)) (hp_mem h) (hp_mem h') \<and>
    (ok \<longrightarrow> stored_string r n q h' s')"
proof -
  have "ok \<longleftrightarrow> n \<le> length r"
    using buf_in.read_to_forward [OF assms(1)] assms(2) by (fastforce simp: string_into_def split: prod.splits if_splits)
  then show ?thesis using buf_in.string_into_forward [OF assms] by (simp add: stored_string_def reads_buffer)
qed

lemma dec_string_static:
  assumes "PB_ATYPE (pf_type field) \<noteq> PB_ATYPE_POINTER" and v: "pb_decode_varint32 s = (Some sz, s1)"
    and rd: "reads buf_yields s1 r []" and d: "pb_dec_string R s field dest h = (ok, h', s')"
  shows "(ok \<longleftrightarrow> unat sz < unat (pf_data_size field) \<and> unat sz \<le> length r) \<and> hp_objects h' = hp_objects h \<and>
    agree_off (span dest (unat (pf_data_size field))) (hp_mem h) (hp_mem h') \<and> (ok \<longrightarrow> stored_string r (unat sz) dest h' s')"
proof (cases "unat (sz + 1) < unat sz")
  case True
  have "sz + 1 = 0"
  proof (rule ccontr)
    assume "sz + 1 \<noteq> 0"
    then have "unat (1 + sz) = Suc (unat sz)" by (intro unatSuc) (simp add: add.commute)
    with True show False by (simp add: add.commute)
  qed
  then have "sz = - 1" by (simp add: eq_neg_iff_add_eq_0)
  moreover have "unat (- 1 :: u32) = 4294967295" by (simp add: unsigned_minus_1_eq_mask mask_eq_exp_minus_1)
  ultimately have "\<not> unat sz < unat (pf_data_size field)" using unat_less [of "pf_data_size field"] by simp
  moreover have "\<not> ok \<and> h' = h" using True d v assms(1) by (simp add: pb_dec_string_def Let_def)
  ultimately show ?thesis by simp
next
  case False
  then have n: "unat (sz + 1) = Suc (unat sz)" by (intro unat_plus_one) simp
  show ?thesis
  proof (cases "unat sz < unat (pf_data_size field)")
    case True
    then have "string_into s1 dest (unat sz) h = (ok, h', s')" using v False n assms(1) d by (simp add: pb_dec_string_def Let_def)
    note i = string_into_stored [OF rd this]
    have "span dest (Suc (unat sz)) \<subseteq> span dest (unat (pf_data_size field))" using True by (intro span_mono) simp_all
    then show ?thesis using i True agree_off_mono by blast
  next
    case ge: False
    then show ?thesis using d v assms(1) False n by (auto simp: pb_dec_string_def Let_def)
  qed
qed

lemma dec_string_pointer:
  assumes "PB_ATYPE (pf_type field) = PB_ATYPE_POINTER" and v: "pb_decode_varint32 s = (Some sz, s1)"
    and rd: "reads buf_yields s1 r []" and "realloc_ok R"
    and cell: "(b, k) \<in> set (hp_objects h)" "b \<noteq> load_ptr (hp_mem h) dest" "span dest 8 \<subseteq> span b k"
    and d: "pb_dec_string R s field dest h = (ok, h', s')"
  shows "if ok then \<exists>q. q = load_ptr (hp_mem h') dest \<and> (q, Suc (unat sz)) \<in> set (hp_objects h') \<and>
      (\<forall>(b, k) \<in> set (hp_objects h). b \<noteq> load_ptr (hp_mem h) dest \<longrightarrow> span b k \<inter> span q (Suc (unat sz)) = {}) \<and>
      agree_off (span dest 8 \<union> span q (Suc (unat sz))) (hp_mem h) (hp_mem h') \<and> stored_string r (unat sz) q h' s'
    else h' = h"
proof (cases "unat (sz + 1) < unat sz \<or> is_bytes_left s1 < unat sz")
  case True
  then have "\<not> ok \<and> h' = h" using assms(1) d v by (simp add: pb_dec_string_def Let_def split: if_splits)
  then show ?thesis by simp
next
  case False
  then have n: "unat (sz + 1) = Suc (unat sz)" by (intro unat_plus_one) simp
  obtain ok1 h1 s2 where al: "allocate_field R s1 dest (Suc (unat sz)) 1 h = (ok1, h1, s2)" by (metis prod_cases3)
  have x: "(ok, h', s') = (if ok1 then string_into s2 (load_ptr (hp_mem h1) dest) (unat sz) h1 else (False, h1, s2))"
    unfolding d [symmetric] pb_dec_string_def Let_def using v False n assms(1) al by simp
  show ?thesis
  proof (cases ok1)
    case False
    then show ?thesis using x al allocate_field_fail [OF assms(4)] by simp
  next
    case True
    have "Suc (unat sz) < 2 ^ 64" using unat_less [of sz] by simp
    from allocate_field_block [OF assms(4) al [unfolded True[THEN eqTrueI]] this] obtain a where
      a: "s2 = s1" "R h (load_ptr (hp_mem h) dest) (Suc (unat sz)) = Some a" "load_ptr (hp_mem h1) dest = a"
        "(a, Suc (unat sz)) \<in> set (hp_objects h1)" "agree_off (span dest 8 \<union> span a (Suc (unat sz))) (hp_mem h) (hp_mem h1)"
      by blast
    have sep: "span c l \<inter> span a (Suc (unat sz)) = {}" if "(c, l) \<in> set (hp_objects h)" "c \<noteq> load_ptr (hp_mem h) dest" for c l
      using realloc_okD(3) [OF assms(4) a(2) that] .
    then have dj: "span dest 8 \<inter> span a (Suc (unat sz)) = {}" using cell by blast
    have si: "string_into s1 a (unat sz) h1 = (ok, h', s')" using x True a(1,3) by simp
    note i = string_into_stored [OF rd si]
    have ok: ok using i False rd by (simp add: reads_buffer)
    have "mload (hp_mem h') dest 8 = mload (hp_mem h1) dest 8" using mload_agree i dj by blast
    then have q: "load_ptr (hp_mem h') dest = a" using a(3) by (simp add: load_ptr_def)
    have "agree_off (span dest 8 \<union> span a (Suc (unat sz))) (hp_mem h) (hp_mem h')"
      using a(5) i agree_off_mono [of "span a (Suc (unat sz))"] by (blast intro: agree_off_trans)
    moreover have "(a, Suc (unat sz)) \<in> set (hp_objects h')" using i a(4) by simp
    ultimately show ?thesis using ok q i sep by (auto simp: Let_def)
  qed
qed

text \<open>
  C19: \<^verbatim>\<open>pb_dec_string\<close> on any input. When the length prefix cannot be read, nothing changes. Otherwise let \<open>sz\<close> be the length
  that \<^verbatim>\<open>pb_decode_varint32\<close> returned and \<open>r\<close> the input behind it. A static field is changed only within its \<^verbatim>\<open>data_size\<close> bytes; the
  call succeeds exactly when those hold \<open>sz\<close> bytes and a terminator and \<open>r\<close> has that many bytes, and then the
  field holds the first \<open>sz\<close> bytes of \<open>r\<close> and a terminating zero. For a pointer field whose pointer lies in another object, a failed call
  changes nothing at all; a successful one leaves in the pointer the address of a block of \<open>sz + 1\<close> bytes that overlaps no
  object but the one it replaces, holding the first \<open>sz\<close> bytes of \<open>r\<close> and a terminating zero, and changes nothing else.
\<close>

theorem pb_dec_string_safe:
  fixes field :: pb_field_t and bs :: bytes
  defines "s \<equiv> pb_istream_from_buffer bs (length bs) :: unit pb_istream_t"
  assumes "realloc_ok R"
    and "PB_ATYPE (pf_type field) = PB_ATYPE_POINTER \<Longrightarrow>
      \<exists>b k. (b, k) \<in> set (hp_objects h) \<and> b \<noteq> load_ptr (hp_mem h) dest \<and> {dest..<dest + 8} \<subseteq> {b..<b + k}"
    and "pb_dec_string R s field dest h = (ok, h', s')"
  shows "case pb_decode_varint32 s of
      (None, _) \<Rightarrow> \<not> ok \<and> h' = h
    | (Some sz, s1) \<Rightarrow> \<exists>p r. bs = p @ r \<and> is_source s1 = Buf_read r \<and>
        (if PB_ATYPE (pf_type field) = PB_ATYPE_POINTER then
           if ok then \<exists>q. q = load_ptr (hp_mem h') dest \<and> (q, Suc (unat sz)) \<in> set (hp_objects h') \<and>
             (\<forall>(b, k) \<in> set (hp_objects h). b \<noteq> load_ptr (hp_mem h) dest \<longrightarrow> {b..<b + k} \<inter> {q..<q + Suc (unat sz)} = {}) \<and>
             (\<forall>a. a \<notin> {dest..<dest + 8} \<union> {q..<q + Suc (unat sz)} \<longrightarrow> hp_mem h' a = hp_mem h a) \<and>
             stored_string r (unat sz) q h' s'
           else h' = h
         else (ok \<longleftrightarrow> unat sz < unat (pf_data_size field) \<and> unat sz \<le> length r) \<and> hp_objects h' = hp_objects h \<and>
           (\<forall>a. a \<notin> {dest..<dest + unat (pf_data_size field)} \<longrightarrow> hp_mem h' a = hp_mem h a) \<and>
           (ok \<longrightarrow> stored_string r (unat sz) dest h' s'))"
proof -
  have rd: "reads buf_yields s bs []" using reads_from_buffer [of bs "[]"] by (simp add: s_def)
  obtain v s1 where v: "pb_decode_varint32 s = (v, s1)" by (cases "pb_decode_varint32 s")
  from buf_in.decode_varint32_forward [OF rd] v obtain p r where pr: "bs = p @ r" "reads buf_yields s1 r []" by auto
  show ?thesis
  proof (cases v)
    case None
    then show ?thesis using assms(4) v by (simp add: pb_dec_string_def)
  next
    case (Some sz)
    note v' = v [unfolded Some]
    have src: "is_source s1 = Buf_read r" using pr(2) by (simp add: reads_buffer)
    show ?thesis
    proof (cases "PB_ATYPE (pf_type field) = PB_ATYPE_POINTER")
      case True
      from assms(3) [OF True] obtain b k where
        c: "(b, k) \<in> set (hp_objects h)" "b \<noteq> load_ptr (hp_mem h) dest" "span dest 8 \<subseteq> span b k" unfolding span_def by blast
      show ?thesis
        unfolding v' prod.case option.case if_P [OF True]
        using dec_string_pointer [OF True v' pr(2) assms(2) c assms(4), unfolded span_def agree_off_def] pr(1) src by blast
    next
      case False
      show ?thesis
        unfolding v' prod.case option.case if_not_P [OF False]
        using dec_string_static [OF False v' pr(2) assms(4), unfolded span_def agree_off_def] pr(1) src by blast
    qed
  qed
qed

definition string_field :: pb_field_t where
  "string_field =
     \<lparr>pf_tag = 1, pf_type = 7, pf_data_offset = 0, pf_size_offset = 0, pf_data_size = 4, pf_array_size = 0, pf_ptr = Pb_null\<rparr>"

definition sample_string :: "bool \<times> pb_heap \<times> unit pb_istream_t" where
  "sample_string = pb_dec_string bump (pb_istream_from_buffer [2, 0x68, 0x69, 9] (length [2, 0x68, 0x69, 9 :: u8])) string_field 16
     \<lparr>hp_mem = (\<lambda>_. 7), hp_objects = []\<rparr>"

lemma sample_string_eval: "fst sample_string \<and> mload (hp_mem (fst (snd sample_string))) 15 6 = [7, 0x68, 0x69, 0, 7, 7]"
  by code_simp

lemma sample_string_length:
  "fst (pb_decode_varint32 (pb_istream_from_buffer [2, 0x68, 0x69, 9] (length [2, 0x68, 0x69, 9 :: u8]) :: unit pb_istream_t)) = Some 2"
  by code_simp

theorem pb_dec_string_safe_witness:
  "mload (hp_mem (fst (snd sample_string))) 15 6 = [7, 0x68, 0x69, 0, 7, 7] \<and> hp_mem (fst (snd sample_string)) 20 = 7 \<and>
   (\<exists>p r. [2, 0x68, 0x69, 9] = p @ r \<and> stored_string r 2 16 (fst (snd sample_string)) (snd (snd sample_string)))"
proof -
  let ?s = "pb_istream_from_buffer [2, 0x68, 0x69, 9] (length [2, 0x68, 0x69, 9 :: u8]) :: unit pb_istream_t"
  have r: "sample_string = (True, fst (snd sample_string), snd (snd sample_string))" using sample_string_eval by (simp add: prod_eq_iff)
  have t: "PB_ATYPE (pf_type string_field) \<noteq> PB_ATYPE_POINTER" by code_simp
  obtain s1 where v: "pb_decode_varint32 ?s = (Some 2, s1)" using sample_string_length by (cases "pb_decode_varint32 ?s") simp
  have d: "unat (pf_data_size string_field) = 4" "unat (2 :: u32) = 2" by code_simp+
  from pb_dec_string_safe [OF realloc_ok_bump _ r [unfolded sample_string_def]] t
  have "\<exists>p r. [2, 0x68, 0x69, 9] = p @ r \<and> hp_mem (fst (snd sample_string)) 20 = 7 \<and>
      stored_string r 2 16 (fst (snd sample_string)) (snd (snd sample_string))"
    unfolding sample_string_def [symmetric] v prod.case option.case if_not_P [OF t] d by auto
  then show ?thesis using sample_string_eval by blast
qed

end
