(* ===== verification/Pb_Iter.thy ===== *)
theory Pb_Iter
  imports Pb_Field
begin

text \<open>
  \<^verbatim>\<open>nanopb/pb_common.c\<close>: the iterator over the fields of a message, which computes where in the structure each field lies. An
  array of descriptors is the list of its entries before the terminator \<^verbatim>\<open>PB_LAST_FIELD\<close>; a pointer into it is an index.
\<close>

section \<open>The iterator\<close>

record pb_field_iter_t =
  fi_start :: "pb_field_t list"
  fi_pos :: nat
  fi_required_field_index :: nat
  fi_dest_struct :: addr
  fi_pData :: addr
  fi_pSize :: addr

definition PB_LAST_FIELD :: pb_field_t where
  "PB_LAST_FIELD = \<lparr>pf_tag = 0, pf_type = 0, pf_data_offset = 0, pf_size_offset = 0, pf_data_size = 0, pf_array_size = 0, pf_ptr = Pb_null\<rparr>"

definition PB_SIZE_MAX :: u32 where "PB_SIZE_MAX = 0xffffffff"

definition field_at :: "pb_field_t list \<Rightarrow> nat \<Rightarrow> pb_field_t" where
  "field_at fs i = (if i < length fs then fs ! i else PB_LAST_FIELD)"

definition fi_field :: "pb_field_iter_t \<Rightarrow> pb_field_t" where
  "fi_field iter = field_at (fi_start iter) (fi_pos iter)"

text \<open>A pointer moved by the signed \<^verbatim>\<open>size_offset\<close>.\<close>

definition size_ptr :: "addr \<Rightarrow> pb_field_t \<Rightarrow> addr" where
  "size_ptr pData field = nat (int pData + sint (pf_size_offset field))"

definition pb_field_iter_begin :: "pb_field_t list \<Rightarrow> addr \<Rightarrow> bool \<times> pb_field_iter_t" where
  "pb_field_iter_begin fs dest_struct =
     (let pos = field_at fs 0;
          pData = (if dest_struct = 0 then 0 else dest_struct + unat (pf_data_offset pos));
          pSize = (if dest_struct = 0 then 0 else size_ptr pData pos)
      in (pf_tag pos \<noteq> 0,
          \<lparr>fi_start = fs, fi_pos = 0, fi_required_field_index = 0, fi_dest_struct = dest_struct, fi_pData = pData, fi_pSize = pSize\<rparr>))"

text \<open>How far the structure goes on after a field, and the exception for the members of a union.\<close>

definition prev_size :: "pb_field_t \<Rightarrow> nat" where
  "prev_size prev_field =
     (if PB_ATYPE (pf_type prev_field) = PB_ATYPE_STATIC \<and> PB_HTYPE (pf_type prev_field) = PB_HTYPE_REPEATED
      then unat (pf_data_size prev_field) * unat (pf_array_size prev_field)
      else if PB_ATYPE (pf_type prev_field) = PB_ATYPE_POINTER then 8
      else unat (pf_data_size prev_field))"

definition same_union :: "pb_field_t \<Rightarrow> pb_field_t \<Rightarrow> bool" where
  "same_union prev_field field \<longleftrightarrow>
     PB_HTYPE (pf_type prev_field) = PB_HTYPE_ONEOF \<and> PB_HTYPE (pf_type field) = PB_HTYPE_ONEOF \<and> pf_data_offset field = PB_SIZE_MAX"

definition pb_field_iter_next :: "pb_field_iter_t \<Rightarrow> bool \<times> pb_field_iter_t" where
  "pb_field_iter_next iter =
     (let prev_field = fi_field iter in
      if pf_tag prev_field = 0 then (False, iter)
      else
        let iter = iter\<lparr>fi_pos := fi_pos iter + 1\<rparr>; field = fi_field iter in
        if pf_tag field = 0 then (False, snd (pb_field_iter_begin (fi_start iter) (fi_dest_struct iter)))
        else if same_union prev_field field then (True, iter)
        else
          let required = (if PB_HTYPE (pf_type prev_field) = PB_HTYPE_REQUIRED then 1 else 0);
              pData = fi_pData iter + prev_size prev_field + unat (pf_data_offset field)
          in (True, iter\<lparr>fi_required_field_index := fi_required_field_index iter + required, fi_pData := pData, fi_pSize := size_ptr pData field\<rparr>))"

text \<open>
  The loop of \<^verbatim>\<open>pb_field_iter_find\<close> ends when it is back where it started. The first argument bounds the number of rounds;
  \<open>None\<close> says that they were not enough. One more round than there are fields is enough for every iterator that
  \<^verbatim>\<open>pb_field_iter_begin\<close> and \<^verbatim>\<open>pb_field_iter_next\<close> produce.
\<close>

primrec iter_find_loop :: "nat \<Rightarrow> nat \<Rightarrow> pb_field_iter_t \<Rightarrow> (pb_field_t \<Rightarrow> bool) \<Rightarrow> (bool \<times> pb_field_iter_t) option" where
  "iter_find_loop 0 start iter wanted = None"
| "iter_find_loop (Suc n) start iter wanted =
     (if wanted (fi_field iter) then Some (True, iter)
      else
        let iter = snd (pb_field_iter_next iter)
        in if fi_pos iter \<noteq> start then iter_find_loop n start iter wanted else Some (False, iter))"

definition pb_field_iter_find :: "pb_field_iter_t \<Rightarrow> u32 \<Rightarrow> (bool \<times> pb_field_iter_t) option" where
  "pb_field_iter_find iter tag =
     iter_find_loop (Suc (length (fi_start iter))) (fi_pos iter) iter
       (\<lambda>field. pf_tag field = tag \<and> PB_LTYPE (pf_type field) \<noteq> PB_LTYPE_EXTENSION)"

text \<open>\<^verbatim>\<open>find_extension_field\<close> of \<^verbatim>\<open>pb_decode.c\<close> is the same loop with another condition.\<close>

definition find_extension_field :: "pb_field_iter_t \<Rightarrow> (bool \<times> pb_field_iter_t) option" where
  "find_extension_field iter =
     iter_find_loop (Suc (length (fi_start iter))) (fi_pos iter) iter (\<lambda>field. PB_LTYPE (pf_type field) = PB_LTYPE_EXTENSION)"

section \<open>Where the iterator stands\<close>

text \<open>
  The layout that the descriptors describe, without an iterator: what each member of the structure takes (a pointer eight bytes, a static
  array all of its entries, anything else its \<^verbatim>\<open>data_size\<close>), which members lie on top of each other in a union (the later ones
  have the offset \<^verbatim>\<open>PB_SIZE_MAX\<close>), and from that the offset of field \<open>i\<close> in the structure, where \<^verbatim>\<open>data_offset\<close> is the distance
  from the end of the member before; the offset of its \<^verbatim>\<open>has\<close>, count or \<^verbatim>\<open>which\<close> member; and the number of required fields before it.
\<close>

definition member_size :: "pb_field_t \<Rightarrow> nat" where
  "member_size f =
     (if pf_type f AND 0xc0 = 0x80 then 8
      else unat (pf_data_size f) * (if pf_type f AND 0xf0 = 0x20 then unat (pf_array_size f) else 1))"

definition shares_union :: "pb_field_t \<Rightarrow> pb_field_t \<Rightarrow> bool" where
  "shares_union f g \<longleftrightarrow> pf_type f AND 0x30 = 0x30 \<and> pf_type g AND 0x30 = 0x30 \<and> pf_data_offset g = 0xffffffff"

fun data_off :: "pb_field_t list \<Rightarrow> nat \<Rightarrow> nat" where
  "data_off fs 0 = unat (pf_data_offset (fs ! 0))"
| "data_off fs (Suc i) =
     (if shares_union (fs ! i) (fs ! Suc i) then data_off fs i
      else data_off fs i + member_size (fs ! i) + unat (pf_data_offset (fs ! Suc i)))"

fun size_off :: "pb_field_t list \<Rightarrow> nat \<Rightarrow> int" where
  "size_off fs 0 = int (data_off fs 0) + sint (pf_size_offset (fs ! 0))"
| "size_off fs (Suc i) =
     (if shares_union (fs ! i) (fs ! Suc i) then size_off fs i else int (data_off fs (Suc i)) + sint (pf_size_offset (fs ! Suc i)))"

lemma same_union_layout [simp]: "same_union f g = shares_union f g"
  by (simp add: same_union_def shares_union_def PB_HTYPE_def pb_htypes PB_SIZE_MAX_def)

lemma storage_bits:
  "(t AND 0xc0 = 0x80 \<longleftrightarrow> PB_ATYPE t = PB_ATYPE_POINTER) \<and>
   (t AND 0xf0 = 0x20 \<longleftrightarrow> PB_ATYPE t = PB_ATYPE_STATIC \<and> PB_HTYPE t = PB_HTYPE_REPEATED) \<and>
   \<not> (PB_ATYPE t = PB_ATYPE_POINTER \<and> PB_ATYPE t = PB_ATYPE_STATIC)"
  by (rule u8_all) code_simp

lemma prev_size_layout [simp]: "prev_size f = member_size f"
  using storage_bits [of "pf_type f"] by (auto simp: prev_size_def member_size_def)

definition required :: "pb_field_t \<Rightarrow> bool" where
  "required f \<longleftrightarrow> PB_HTYPE (pf_type f) = PB_HTYPE_REQUIRED"

definition required_before :: "pb_field_t list \<Rightarrow> nat \<Rightarrow> nat" where
  "required_before fs i = length (filter required (take i fs))"

definition iter_nth :: "pb_field_t list \<Rightarrow> addr \<Rightarrow> nat \<Rightarrow> pb_field_iter_t" where
  "iter_nth fs dest i =
     \<lparr>fi_start = fs, fi_pos = i, fi_required_field_index = required_before fs i, fi_dest_struct = dest,
      fi_pData = dest + data_off fs i, fi_pSize = nat (int dest + size_off fs i)\<rparr>"

definition tags_ok :: "pb_field_t list \<Rightarrow> bool" where
  "tags_ok fs \<longleftrightarrow> (\<forall>f \<in> set fs. pf_tag f \<noteq> 0) \<and> distinct (map pf_tag fs)"

lemma field_at_nth [simp]: "i < length fs \<Longrightarrow> field_at fs i = fs ! i"
  by (simp add: field_at_def)

lemma field_at_end [simp]: "field_at fs (length fs) = PB_LAST_FIELD"
  by (simp add: field_at_def)

lemma iter_nth_field [simp]: "i < length fs \<Longrightarrow> fi_field (iter_nth fs dest i) = fs ! i"
  by (simp add: fi_field_def iter_nth_def)

lemma iter_nth_pos [simp]:
  "fi_pos (iter_nth fs dest i) = i" "fi_start (iter_nth fs dest i) = fs" "fi_dest_struct (iter_nth fs dest i) = dest"
  "fi_pData (iter_nth fs dest i) = dest + data_off fs i" "fi_pSize (iter_nth fs dest i) = nat (int dest + size_off fs i)"
  "fi_required_field_index (iter_nth fs dest i) = required_before fs i"
  by (simp_all add: iter_nth_def)

lemma tags_ok_nonzero: "tags_ok fs \<Longrightarrow> i < length fs \<Longrightarrow> pf_tag (fs ! i) \<noteq> 0"
  by (simp add: tags_ok_def)

lemma iter_begin:
  assumes "tags_ok fs" and "0 < dest"
  shows "fs \<noteq> [] \<Longrightarrow> pb_field_iter_begin fs dest = (True, iter_nth fs dest 0)" and "fs = [] \<Longrightarrow> \<not> fst (pb_field_iter_begin fs dest)"
proof -
  assume "fs \<noteq> []"
  then show "pb_field_iter_begin fs dest = (True, iter_nth fs dest 0)"
    using assms tags_ok_nonzero [OF assms(1), of 0]
    by (simp add: pb_field_iter_begin_def iter_nth_def required_before_def size_ptr_def add.assoc Let_def)
next
  assume "fs = []"
  then show "\<not> fst (pb_field_iter_begin fs dest)"
    by (simp add: pb_field_iter_begin_def field_at_def PB_LAST_FIELD_def Let_def)
qed

lemma required_before_Suc: "i < length fs \<Longrightarrow> required_before fs (Suc i) = required_before fs i + (if required (fs ! i) then 1 else 0)"
  by (simp add: required_before_def take_Suc_conv_app_nth)

lemma iter_next:
  assumes "tags_ok fs" and "0 < dest" and "i < length fs"
  shows "pb_field_iter_next (iter_nth fs dest i) = (if Suc i < length fs then (True, iter_nth fs dest (Suc i)) else (False, iter_nth fs dest 0))"
proof (cases "Suc i < length fs")
  case True
  let ?p = "fs ! i" and ?f = "fs ! Suc i"
  have f: "fi_field ((iter_nth fs dest i)\<lparr>fi_pos := Suc i\<rparr>) = ?f" using True by (simp add: fi_field_def)
  note t = tags_ok_nonzero [OF assms(1,3)] tags_ok_nonzero [OF assms(1) True]
  show ?thesis
  proof (cases "same_union ?p ?f")
    case u: True
    then have "\<not> required ?p" by (auto simp: shares_union_def required_def PB_HTYPE_def pb_htypes)
    then have "(iter_nth fs dest i)\<lparr>fi_pos := Suc i\<rparr> = iter_nth fs dest (Suc i)"
      using u assms(3) by (simp add: iter_nth_def required_before_Suc)
    then show ?thesis using True u t f assms(3) by (simp add: pb_field_iter_next_def Let_def)
  next
    case u: False
    let ?d = "dest + data_off fs i + prev_size ?p + unat (pf_data_offset ?f)"
    have "(iter_nth fs dest i)\<lparr>fi_pos := Suc i, fi_required_field_index := required_before fs i + (if required ?p then 1 else 0),
        fi_pData := ?d, fi_pSize := size_ptr ?d ?f\<rparr> = iter_nth fs dest (Suc i)"
      using u assms(3) by (simp add: iter_nth_def required_before_Suc size_ptr_def algebra_simps)
    then show ?thesis using True u t f assms(3) by (simp add: pb_field_iter_next_def Let_def required_def)
  qed
next
  case False
  then have "Suc i = length fs" using assms(3) by simp
  then have "fi_field ((iter_nth fs dest i)\<lparr>fi_pos := Suc i\<rparr>) = PB_LAST_FIELD" by (simp add: fi_field_def)
  moreover have "fs \<noteq> []" using assms(3) by auto
  ultimately show ?thesis using False iter_begin(1) [OF assms(1,2)] tags_ok_nonzero [OF assms(1,3)] assms(3)
    by (simp add: pb_field_iter_next_def Let_def PB_LAST_FIELD_def)
qed

section \<open>Searching\<close>

lemma next_pos:
  assumes "tags_ok fs" and "0 < dest" and "i < length fs"
  shows "snd (pb_field_iter_next (iter_nth fs dest i)) = iter_nth fs dest (Suc i mod length fs)"
  using iter_next [OF assms] assms(3) by (cases "Suc i < length fs") (simp_all add: not_less le_Suc_eq)

lemma mod_shift_neq:
  assumes "k < n" and "j < k"
  shows "(i + Suc j) mod n \<noteq> i mod (n :: nat)"
proof
  assume "(i + Suc j) mod n = i mod n"
  then have "n dvd Suc j" by (metis add_diff_cancel_left' le_add1 mod_eq_dvd_iff_nat)
  then show False using assms by (auto dest: dvd_imp_le)
qed

text \<open>From position \<open>i\<close>, after \<open>k\<close> entries that are not wanted.\<close>

lemma find_loop_run:
  assumes fs: "tags_ok fs" "0 < dest" "i < length fs"
  shows "length fs < m + k \<Longrightarrow> k \<le> length fs \<Longrightarrow> (\<forall>j < k. \<not> wanted (fs ! ((i + j) mod length fs))) \<Longrightarrow> k < length fs \<Longrightarrow>
    iter_find_loop m i (iter_nth fs dest ((i + k) mod length fs)) wanted =
      (if \<exists>j < length fs. wanted (fs ! j)
       then Some (True, iter_nth fs dest ((i + (LEAST j. wanted (fs ! ((i + j) mod length fs)))) mod length fs))
       else Some (False, iter_nth fs dest i))"
proof (induction m arbitrary: k)
  case (Suc m)
  let ?n = "length fs" and ?w = "\<lambda>j. wanted (fs ! ((i + j) mod length fs))"
  have pos: "(i + k) mod ?n < ?n" using fs(3) by (intro mod_less_divisor) auto
  have nx: "snd (pb_field_iter_next (iter_nth fs dest ((i + k) mod ?n))) = iter_nth fs dest ((i + Suc k) mod ?n)"
    using next_pos [OF fs(1,2) pos] by (simp add: mod_Suc_eq)
  show ?case
  proof (cases "?w k")
    case True
    then have "(LEAST j. ?w j) = k" using Suc.prems(3) by (intro Least_equality) (auto simp: not_less [symmetric])
    moreover have "\<exists>j < ?n. wanted (fs ! j)" using True pos by blast
    ultimately show ?thesis using True pos by simp
  next
    case False
    then have w: "\<forall>j < Suc k. \<not> ?w j" using Suc.prems(3) by (simp add: less_Suc_eq)
    show ?thesis
    proof (cases "Suc k < ?n")
      case True
      then have "(i + Suc k) mod ?n \<noteq> i" using mod_shift_neq [of "Suc k" ?n k i] fs(3) by simp
      then show ?thesis using False nx pos Suc.IH [of "Suc k"] Suc.prems(1) w True by (simp add: Let_def)
    next
      case False': False
      then have k: "Suc k = ?n" using Suc.prems(4) by simp
      have "\<not> wanted (fs ! j)" if "j < ?n" for j
      proof -
        have "(i + (j + ?n - i) mod ?n) mod ?n = j" using that fs(3) by (simp add: mod_simps)
        moreover have "(j + ?n - i) mod ?n < Suc k" unfolding k using fs(3) by (intro mod_less_divisor) auto
        ultimately show ?thesis using w by metis
      qed
      moreover have "(i + Suc k) mod ?n = i" using fs(3) by (simp add: k)
      ultimately show ?thesis using False nx pos by (auto simp: Let_def)
    qed
  qed
qed simp

text \<open>The entry with a property that exactly one, or no, entry has.\<close>

lemma iter_find_unique:
  assumes "tags_ok fs" and "0 < dest" and "i < length fs" and "j < length fs" and "wanted (fs ! j)"
    and "\<And>k. k < length fs \<Longrightarrow> wanted (fs ! k) \<Longrightarrow> k = j"
  shows "iter_find_loop (Suc (length fs)) i (iter_nth fs dest i) wanted = Some (True, iter_nth fs dest j)"
proof -
  let ?w = "\<lambda>j. wanted (fs ! ((i + j) mod length fs))"
  have "(i + (j + length fs - i) mod length fs) mod length fs = j" using assms(3,4) by (simp add: mod_simps)
  then have "?w ((j + length fs - i) mod length fs)" using assms(5) by simp
  then have "?w (LEAST j. ?w j)" by (rule LeastI)
  moreover have "(i + (LEAST j. ?w j)) mod length fs < length fs" using assms(3) by (intro mod_less_divisor) auto
  ultimately have "(i + (LEAST j. ?w j)) mod length fs = j" using assms(6) by blast
  moreover have "0 < length fs" "\<exists>j < length fs. wanted (fs ! j)" using assms(3-5) by auto
  ultimately show ?thesis using find_loop_run [OF assms(1-3), of "Suc (length fs)" 0 wanted] assms(3)
    by (simp del: iter_find_loop.simps)
qed

lemma iter_find_none:
  assumes "tags_ok fs" and "0 < dest" and "i < length fs" and "\<And>k. k < length fs \<Longrightarrow> \<not> wanted (fs ! k)"
  shows "iter_find_loop (Suc (length fs)) i (iter_nth fs dest i) wanted = Some (False, iter_nth fs dest i)"
proof -
  have "0 < length fs" "\<not> (\<exists>j < length fs. wanted (fs ! j))" using assms(3,4) by auto
  then show ?thesis using find_loop_run [OF assms(1-3), of "Suc (length fs)" 0 wanted] assms(3) by (simp del: iter_find_loop.simps)
qed

text \<open>The iterator after \<open>i\<close> steps, and what the search for a number finds from there.\<close>

lemma iter_steps:
  assumes "tags_ok fs" and "0 < dest" and "i < length fs"
  shows "((\<lambda>it. snd (pb_field_iter_next it)) ^^ i) (snd (pb_field_iter_begin fs dest)) = iter_nth fs dest i"
  using assms(3)
proof (induction i)
  case 0
  then show ?case using iter_begin(1) [OF assms(1,2)] by simp
next
  case (Suc i)
  then show ?case using iter_next [OF assms(1,2), of i] by simp
qed

lemma tags_distinct:
  assumes "tags_ok fs" and "j < length fs" and "k < length fs" and "pf_tag (fs ! j) = pf_tag (fs ! k)"
  shows "j = k"
  using assms unfolding tags_ok_def distinct_conv_nth by (metis length_map nth_map)

lemma iter_find_tag:
  assumes "tags_ok fs" and "0 < dest" and "i < length fs" and "j < length fs" and "PB_LTYPE (pf_type (fs ! j)) \<noteq> PB_LTYPE_EXTENSION"
  shows "pb_field_iter_find (iter_nth fs dest i) (pf_tag (fs ! j)) = Some (True, iter_nth fs dest j)"
  unfolding pb_field_iter_find_def iter_nth_pos
  by (rule iter_find_unique [OF assms(1-4)]) (use assms(5) tags_distinct [OF assms(1) _ assms(4)] in auto)

lemma iter_find_absent:
  assumes "tags_ok fs" and "0 < dest" and "i < length fs" and "tag \<notin> set (map pf_tag fs)"
  shows "pb_field_iter_find (iter_nth fs dest i) tag = Some (False, iter_nth fs dest i)"
  unfolding pb_field_iter_find_def iter_nth_pos by (rule iter_find_none [OF assms(1-3)]) (use assms(4) in auto)

declare iter_find_loop.simps [simp del]

end
