(* ===== verification/Pb_Message.thy ===== *)
theory Pb_Message
  imports Pb_Iter
begin

text \<open>
  \<^verbatim>\<open>nanopb/pb_decode.c\<close> and \<^verbatim>\<open>nanopb/pb_encode.c\<close>: whole messages. What the code reaches through pointers and this theory does not define is
  gathered in two records: the arrays of descriptors and the types of extensions, which are constant data of the program, the
  allocator, and the functions of the application that fields and extensions point to.

  Messages nest, and objects in memory may be linked in a circle, so the functions that follow links take a bound on the depth
  and the number of rounds as their first argument. \<open>None\<close> means that the bound was reached, or that the code followed a pointer that descriptors must not
  have (a call through \<^verbatim>\<open>NULL\<close>, a message field without descriptors).
\<close>

section \<open>What the codecs are given\<close>

record pb_types =
  pt_fields :: "nat \<Rightarrow> pb_field_t list"
  pt_ext_arg :: "addr \<Rightarrow> pb_field_t"

type_synonym 's pb_ext_decoder =
  "'s pb_istream_t \<Rightarrow> addr \<Rightarrow> u32 \<Rightarrow> pb_wire_type_t \<Rightarrow> pb_heap \<Rightarrow> bool \<times> pb_heap \<times> 's pb_istream_t"

record 's pb_dec_env = pb_types +
  de_realloc :: pb_reallocator
  de_callback :: "addr \<Rightarrow> 's pb_decoder_t"
  de_ext_decode :: "addr \<Rightarrow> 's pb_ext_decoder option"

record 's pb_enc_env = pb_types +
  ee_callback :: "addr \<Rightarrow> 's pb_encoder_t"
  ee_ext_encode :: "addr \<Rightarrow> ('s pb_ostream_t \<Rightarrow> pb_mem \<Rightarrow> addr \<Rightarrow> bool \<times> 's pb_ostream_t) option"

text \<open>The members of \<^verbatim>\<open>pb_extension_t\<close>, and those of \<^verbatim>\<open>pb_callback_t\<close>.\<close>

definition ext_type :: "pb_mem \<Rightarrow> addr \<Rightarrow> addr" where "ext_type m ext = load_ptr m ext"
definition ext_dest :: "addr \<Rightarrow> addr" where "ext_dest ext = ext + 8"
definition ext_next :: "pb_mem \<Rightarrow> addr \<Rightarrow> addr" where "ext_next m ext = load_ptr m (ext + 16)"
definition ext_found :: "addr \<Rightarrow> addr" where "ext_found ext = ext + 24"
definition callback_func :: "pb_mem \<Rightarrow> addr \<Rightarrow> addr" where "callback_func m p = load_ptr m p"
definition callback_arg :: "addr \<Rightarrow> addr" where "callback_arg p = p + 8"

section \<open>Loops\<close>

text \<open>\<^verbatim>\<open>do { ... } while (pb_field_iter_next(&iter))\<close>, left early when the body says so.\<close>

lemma iter_next_forward:
  assumes "pb_field_iter_next iter = (True, iter')"
  shows "length (fi_start iter') - fi_pos iter' < length (fi_start iter) - fi_pos iter"
proof -
  have p: "fi_start iter' = fi_start iter" "fi_pos iter' = Suc (fi_pos iter)" "pf_tag (field_at (fi_start iter) (Suc (fi_pos iter))) \<noteq> 0"
    using assms by (auto simp: pb_field_iter_next_def fi_field_def Let_def split: if_splits)
  have "Suc (fi_pos iter) < length (fi_start iter)"
    using p(3) by (auto simp: field_at_def PB_LAST_FIELD_def split: if_splits)
  then show ?thesis using p by simp
qed

function do_fields :: "(pb_field_iter_t \<Rightarrow> 'a \<Rightarrow> (bool \<times> 'a) option) \<Rightarrow> pb_field_iter_t \<Rightarrow> 'a \<Rightarrow> (bool \<times> 'a) option" where
  "do_fields body iter st =
     (case body iter st of
        None \<Rightarrow> None
      | Some (False, st) \<Rightarrow> Some (False, st)
      | Some (True, st) \<Rightarrow>
          (case pb_field_iter_next iter of (False, _) \<Rightarrow> Some (True, st) | (True, iter) \<Rightarrow> do_fields body iter st))"
  by pat_completeness auto
termination
  by (relation "measure (\<lambda>(body, iter, st). length (fi_start iter) - fi_pos iter)") (auto dest: iter_next_forward [OF sym])

declare do_fields.simps [simp del]

text \<open>\<^verbatim>\<open>while (extension) { ...; extension = extension->next; }\<close>; \<open>mem\<close> is the memory of the state.\<close>

primrec ext_walk :: "nat \<Rightarrow> ('a \<Rightarrow> pb_mem) \<Rightarrow> (addr \<Rightarrow> 'a \<Rightarrow> (bool \<times> 'a) option) \<Rightarrow> addr \<Rightarrow> 'a \<Rightarrow> (bool \<times> 'a) option" where
  "ext_walk 0 mem body ext st = None"
| "ext_walk (Suc n) mem body ext st =
     (if ext = 0 then Some (True, st)
      else case body ext st of
             None \<Rightarrow> None
           | Some (False, st) \<Rightarrow> Some (False, st)
           | Some (True, st) \<Rightarrow> ext_walk n mem body (ext_next (mem st) ext) st)"

text \<open>A body that cannot fail.\<close>

definition always :: "'a option \<Rightarrow> (bool \<times> 'a) option" where
  "always r = map_option (Pair True) r"

definition iter_from_extension :: "'z pb_types_scheme \<Rightarrow> pb_mem \<Rightarrow> addr \<Rightarrow> pb_field_iter_t" where
  "iter_from_extension E m ext =
     (let field = pt_ext_arg E (ext_type m ext);
          dest = load_ptr m (ext_dest ext)
      in (snd (pb_field_iter_begin [field] dest))
           \<lparr>fi_pData := if PB_ATYPE (pf_type field) = PB_ATYPE_POINTER then ext_dest ext else dest, fi_pSize := ext_found ext\<rparr>)"

section \<open>Default values\<close>

definition for_fields :: "(pb_field_iter_t \<Rightarrow> pb_heap \<Rightarrow> pb_heap option) \<Rightarrow> pb_field_t list \<Rightarrow> addr \<Rightarrow> pb_heap \<Rightarrow> pb_heap option" where
  "for_fields body fs dest h =
     (case pb_field_iter_begin fs dest of
        (False, _) \<Rightarrow> Some h
      | (True, iter) \<Rightarrow> map_option snd (do_fields (\<lambda>iter h. always (body iter h)) iter h))"

text \<open>
  The data of a static field: a submessage, the default value or zeros. \<open>body\<close> is \<^verbatim>\<open>pb_field_set_to_default\<close> for the fields of a
  submessage.
\<close>

definition init_data :: "'z pb_types_scheme \<Rightarrow> (pb_field_iter_t \<Rightarrow> pb_heap \<Rightarrow> pb_heap option) \<Rightarrow> pb_field_iter_t \<Rightarrow> pb_heap \<Rightarrow> pb_heap option" where
  "init_data E body iter h =
     (let field = fi_field iter; n = unat (pf_data_size field) in
      if PB_LTYPE (pf_type field) = PB_LTYPE_SUBMESSAGE then
        (case pf_ptr field of Pb_submsg i \<Rightarrow> for_fields body (pt_fields E i) (fi_pData iter) h | _ \<Rightarrow> None)
      else case pf_ptr field of
             Pb_default v \<Rightarrow> Some (hstore h (fi_pData iter) (take n v))
           | Pb_null \<Rightarrow> Some (hstore h (fi_pData iter) (replicate n 0))
           | Pb_submsg _ \<Rightarrow> None)"

primrec pb_field_set_to_default :: "nat \<Rightarrow> 'z pb_types_scheme \<Rightarrow> pb_field_iter_t \<Rightarrow> pb_heap \<Rightarrow> pb_heap option" where
  "pb_field_set_to_default 0 E iter h = None"
| "pb_field_set_to_default (Suc n) E iter h =
     (let type = pf_type (fi_field iter); pData = fi_pData iter; pSize = fi_pSize iter in
      if PB_LTYPE type = PB_LTYPE_EXTENSION then
        map_option snd
          (ext_walk n hp_mem
             (\<lambda>ext h. let h = hstore h (ext_found ext) [0]
                      in always (pb_field_set_to_default n E (iter_from_extension E (hp_mem h) ext) h))
             (load_ptr (hp_mem h) pData) h)
      else if PB_ATYPE type = PB_ATYPE_STATIC then
        (if PB_HTYPE type = PB_HTYPE_OPTIONAL \<and> pSize \<noteq> pData then
           init_data E (pb_field_set_to_default n E) iter (hstore h pSize [0])
         else if PB_HTYPE type = PB_HTYPE_REPEATED \<or> PB_HTYPE type = PB_HTYPE_ONEOF then Some (hstore h pSize (le_bytes 4 0))
         else init_data E (pb_field_set_to_default n E) iter h)
      else if PB_ATYPE type = PB_ATYPE_POINTER then
        (let h = hstore h pData (le_bytes 8 0) in
         Some (if PB_HTYPE type = PB_HTYPE_REPEATED \<or> PB_HTYPE type = PB_HTYPE_ONEOF then hstore h pSize (le_bytes 4 0) else h))
      else Some h)"

definition pb_message_set_to_defaults :: "nat \<Rightarrow> 'z pb_types_scheme \<Rightarrow> pb_field_t list \<Rightarrow> addr \<Rightarrow> pb_heap \<Rightarrow> pb_heap option" where
  "pb_message_set_to_defaults n E fs dest h = for_fields (pb_field_set_to_default n E) fs dest h"

section \<open>Releasing messages\<close>

text \<open>The number of items of a message field.\<close>

definition release_count :: "pb_field_iter_t \<Rightarrow> pb_mem \<Rightarrow> nat" where
  "release_count iter m =
     (let field = fi_field iter; static = PB_ATYPE (pf_type field) = PB_ATYPE_STATIC in
      if PB_HTYPE (pf_type field) = PB_HTYPE_REPEATED then
        (let count = (if static \<and> fi_pSize iter = fi_pData iter then pf_array_size field else load_size m (fi_pSize iter))
         in unat (if static \<and> count > pf_array_size field then pf_array_size field else count))
      else 1)"

text \<open>\<^verbatim>\<open>pb_release\<close> for the items of an array; \<open>body\<close> is \<^verbatim>\<open>pb_release_single_field\<close>.\<close>

definition release_fields :: "(pb_field_iter_t \<Rightarrow> pb_heap \<Rightarrow> pb_heap option) \<Rightarrow> pb_field_t list \<Rightarrow> addr \<Rightarrow> pb_heap \<Rightarrow> pb_heap option" where
  "release_fields body fs dest h = (if dest = 0 then Some h else for_fields body fs dest h)"

primrec release_items ::
    "(pb_field_iter_t \<Rightarrow> pb_heap \<Rightarrow> pb_heap option) \<Rightarrow> pb_field_t list \<Rightarrow> nat \<Rightarrow> nat \<Rightarrow> addr \<Rightarrow> pb_heap \<Rightarrow> pb_heap option" where
  "release_items body fs data_size 0 pItem h = Some h"
| "release_items body fs data_size (Suc count) pItem h =
     (case release_fields body fs pItem h of None \<Rightarrow> None | Some h \<Rightarrow> release_items body fs data_size count (pItem + data_size) h)"

primrec free_entries :: "nat \<Rightarrow> addr \<Rightarrow> pb_heap \<Rightarrow> pb_heap" where
  "free_entries 0 pItem h = h"
| "free_entries (Suc count) pItem h =
     free_entries count (pItem + 8) (hstore (pb_free h (load_ptr (hp_mem h) pItem)) pItem (le_bytes 8 0))"

text \<open>The end of \<^verbatim>\<open>pb_release_single_field\<close>, which frees what a pointer field owns.\<close>

definition release_pointer :: "pb_field_iter_t \<Rightarrow> pb_heap \<Rightarrow> pb_heap" where
  "release_pointer iter h =
     (let type = pf_type (fi_field iter); pData = fi_pData iter; pSize = fi_pSize iter;
          h = (if PB_HTYPE type = PB_HTYPE_REPEATED \<and> (PB_LTYPE type = PB_LTYPE_STRING \<or> PB_LTYPE type = PB_LTYPE_BYTES)
               then free_entries (unat (load_size (hp_mem h) pSize)) (load_ptr (hp_mem h) pData) h else h);
          h = (if PB_HTYPE type = PB_HTYPE_REPEATED then hstore h pSize (le_bytes 4 0) else h)
      in hstore (pb_free h (load_ptr (hp_mem h) pData)) pData (le_bytes 8 0))"

primrec pb_release_single_field :: "nat \<Rightarrow> 'z pb_types_scheme \<Rightarrow> pb_field_iter_t \<Rightarrow> pb_heap \<Rightarrow> pb_heap option" where
  "pb_release_single_field 0 E iter h = None"
| "pb_release_single_field (Suc n) E iter h =
     (let field = fi_field iter; type = pf_type field in
      if PB_HTYPE type = PB_HTYPE_ONEOF \<and> load_size (hp_mem h) (fi_pSize iter) \<noteq> pf_tag field then Some h
      else
        map_option (\<lambda>h. if PB_ATYPE type = PB_ATYPE_POINTER then release_pointer iter h else h)
          (if PB_LTYPE type = PB_LTYPE_EXTENSION then
             map_option snd
               (ext_walk n hp_mem
                  (\<lambda>ext h. always (pb_release_single_field n E (iter_from_extension E (hp_mem h) ext) h))
                  (load_ptr (hp_mem h) (fi_pData iter)) h)
           else if PB_LTYPE type = PB_LTYPE_SUBMESSAGE \<and> PB_ATYPE type \<noteq> PB_ATYPE_CALLBACK then
             (let pItem = (if PB_ATYPE type = PB_ATYPE_POINTER then load_ptr (hp_mem h) (fi_pData iter) else fi_pData iter) in
              if pItem \<noteq> 0 then
                (case pf_ptr field of
                   Pb_submsg i \<Rightarrow>
                     release_items (pb_release_single_field n E) (pt_fields E i) (unat (pf_data_size field)) (release_count iter (hp_mem h)) pItem h
                 | _ \<Rightarrow> None)
              else Some h)
           else Some h))"

definition pb_release :: "nat \<Rightarrow> 'z pb_types_scheme \<Rightarrow> pb_field_t list \<Rightarrow> addr \<Rightarrow> pb_heap \<Rightarrow> pb_heap option" where
  "pb_release n E fs dest_struct h = release_fields (pb_release_single_field n E) fs dest_struct h"

text \<open>
  The result of \<^verbatim>\<open>pb_release_union_field\<close>: whether it returned true, the iterator, the heap and the stream.
\<close>

definition pb_release_union_field ::
    "nat \<Rightarrow> 'z pb_types_scheme \<Rightarrow> 's pb_istream_t \<Rightarrow> pb_field_iter_t \<Rightarrow> pb_heap \<Rightarrow> (bool \<times> pb_field_iter_t \<times> pb_heap \<times> 's pb_istream_t) option" where
  "pb_release_union_field n E s iter h =
     (let old_tag = load_size (hp_mem h) (fi_pSize iter); new_tag = pf_tag (fi_field iter) in
      if old_tag = 0 \<or> old_tag = new_tag then Some (True, iter, h, s)
      else case pb_field_iter_find iter old_tag of
             None \<Rightarrow> None
           | Some (False, iter) \<Rightarrow> Some (False, iter, h, is_fail s ''invalid union tag'')
           | Some (True, iter) \<Rightarrow>
               (case pb_release_single_field n E iter h of
                  None \<Rightarrow> None
                | Some h \<Rightarrow>
                    (case pb_field_iter_find iter new_tag of
                       None \<Rightarrow> None
                     | Some (False, iter) \<Rightarrow> Some (False, iter, h, is_fail s ''iterator error'')
                     | Some (True, iter) \<Rightarrow>
                         Some (True, iter, if PB_ATYPE (pf_type (fi_field iter)) = PB_ATYPE_POINTER then hstore h (fi_pData iter) (le_bytes 8 0) else h, s))))"

end
