(* ===== verification/Pb_Decode.thy ===== *)
theory Pb_Decode
  imports Pb_Message
begin

text \<open>
  \<^verbatim>\<open>nanopb/pb_decode.c\<close>: the decoding of messages.
\<close>

section \<open>Decoders\<close>

text \<open>A decoder that may run into its bound.\<close>

type_synonym 's pb_dec = "'s pb_istream_t \<Rightarrow> pb_field_t \<Rightarrow> addr \<Rightarrow> pb_heap \<Rightarrow> (bool \<times> pb_heap \<times> 's pb_istream_t) option"

text \<open>
  The table of decoders by the low bits of the type; \<open>submessage\<close> is \<^verbatim>\<open>pb_dec_submessage\<close>. There is none for extensions, nor beyond the
  end of the table.
\<close>

definition PB_DECODERS :: "pb_reallocator \<Rightarrow> 's pb_dec \<Rightarrow> u8 \<Rightarrow> 's pb_dec" where
  "PB_DECODERS R submessage ltype s field dest h =
     (if ltype = PB_LTYPE_BOOL then Some (pb_dec_bool s dest h)
      else if ltype = PB_LTYPE_VARINT then Some (pb_dec_varint s field dest h)
      else if ltype = PB_LTYPE_UVARINT then Some (pb_dec_uvarint s field dest h)
      else if ltype = PB_LTYPE_SVARINT then Some (pb_dec_svarint s field dest h)
      else if ltype = PB_LTYPE_FIXED32 then Some (pb_dec_fixed32 s field dest h)
      else if ltype = PB_LTYPE_FIXED64 then Some (pb_dec_fixed64 s field dest h)
      else if ltype = PB_LTYPE_BYTES then Some (pb_dec_bytes R s field dest h)
      else if ltype = PB_LTYPE_STRING then Some (pb_dec_string R s field dest h)
      else if ltype = PB_LTYPE_SUBMESSAGE then submessage s field dest h
      else if ltype = PB_LTYPE_FIXED_LENGTH_BYTES then Some (pb_dec_fixed_length_bytes s field dest h)
      else None)"

text \<open>
  \<^verbatim>\<open>iter->pSize\<close> points into the message or, for an array of fixed count, at a local variable of \<^verbatim>\<open>pb_decode_noinit\<close>; in that case
  the value of the variable stands for the pointer.
\<close>

datatype pb_cell = In_memory addr | On_stack u32

fun get_count :: "pb_mem \<Rightarrow> pb_cell \<Rightarrow> u32" where
  "get_count m (In_memory a) = load_size m a"
| "get_count m (On_stack v) = v"

fun put_count :: "pb_heap \<Rightarrow> pb_cell \<Rightarrow> u32 \<Rightarrow> pb_heap \<times> pb_cell" where
  "put_count h (In_memory a) v = (hstore h a (le_bytes 4 (unat v)), In_memory a)"
| "put_count h (On_stack _) v = (h, On_stack v)"

type_synonym 's field_result = "(bool \<times> pb_cell \<times> pb_heap \<times> 's pb_istream_t) option"

text \<open>The end of a function that returns what a decoder returned.\<close>

definition return_dec :: "pb_cell \<Rightarrow> (bool \<times> pb_heap \<times> 's pb_istream_t) option \<Rightarrow> 's field_result" where
  "return_dec cell r = map_option (\<lambda>(ok, h, s). (ok, cell, h, s)) r"

text \<open>The address of an entry of an array. The product is taken in 32 bits.\<close>

definition item_ptr :: "addr \<Rightarrow> pb_field_t \<Rightarrow> u32 \<Rightarrow> addr" where
  "item_ptr pData field i = pData + unat (pf_data_size field * i)"

section \<open>Static fields\<close>

text \<open>
  The loop over a packed array. Every round that succeeds consumes input, so the number of bytes of the substream bounds
  the rounds.
\<close>

primrec static_packed_loop :: "nat \<Rightarrow> 's pb_dec \<Rightarrow> pb_field_t \<Rightarrow> addr \<Rightarrow> pb_cell \<Rightarrow> 's pb_istream_t \<Rightarrow> pb_heap \<Rightarrow> 's field_result" where
  "static_packed_loop 0 func field pData cell sub h = None"
| "static_packed_loop (Suc n) func field pData cell sub h =
     (if is_bytes_left sub > 0 \<and> get_count (hp_mem h) cell < pf_array_size field then
        (case func sub field (item_ptr pData field (get_count (hp_mem h) cell)) h of
           None \<Rightarrow> None
         | Some (False, h, sub) \<Rightarrow> Some (False, cell, h, sub)
         | Some (True, h, sub) \<Rightarrow>
             (case put_count h cell (get_count (hp_mem h) cell + 1) of (h, cell) \<Rightarrow> static_packed_loop n func field pData cell sub h))
      else Some (True, cell, h, sub))"

definition decode_static_packed :: "'s pb_dec \<Rightarrow> pb_field_t \<Rightarrow> addr \<Rightarrow> pb_cell \<Rightarrow> 's pb_istream_t \<Rightarrow> pb_heap \<Rightarrow> 's field_result" where
  "decode_static_packed func field pData cell s h =
     (case pb_make_string_substream s of
        (None, s) \<Rightarrow> Some (False, cell, h, s)
      | (Some sub, s) \<Rightarrow>
          (case static_packed_loop (Suc (is_bytes_left sub)) func field pData cell sub h of
             None \<Rightarrow> None
           | Some (status, cell, h, sub) \<Rightarrow>
               if is_bytes_left sub \<noteq> 0 then Some (False, cell, h, is_fail s ''array overflow'')
               else case pb_close_string_substream s sub of
                      (False, s) \<Rightarrow> Some (False, cell, h, s)
                    | (True, s) \<Rightarrow> Some (status, cell, h, s)))"

text \<open>A single entry of an array. The counter is incremented even if there is no room.\<close>

definition decode_static_entry :: "'s pb_dec \<Rightarrow> pb_field_t \<Rightarrow> addr \<Rightarrow> pb_cell \<Rightarrow> 's pb_istream_t \<Rightarrow> pb_heap \<Rightarrow> 's field_result" where
  "decode_static_entry func field pData cell s h =
     (let count = get_count (hp_mem h) cell in
      case put_count h cell (count + 1) of
        (h, cell) \<Rightarrow>
          if count \<ge> pf_array_size field then Some (False, cell, h, is_fail s ''array overflow'')
          else return_dec cell (func s field (item_ptr pData field count) h))"

text \<open>
  A member of a union. A submessage that was not the current member is cleared first; \<open>n\<close> bounds the depth of the defaults.
\<close>

definition oneof_init :: "nat \<Rightarrow> 'z pb_types_scheme \<Rightarrow> pb_field_t \<Rightarrow> addr \<Rightarrow> pb_cell \<Rightarrow> pb_heap \<Rightarrow> pb_heap option" where
  "oneof_init n E field pData cell h =
     (if PB_LTYPE (pf_type field) = PB_LTYPE_SUBMESSAGE \<and> get_count (hp_mem h) cell \<noteq> pf_tag field then
        (case pf_ptr field of
           Pb_submsg i \<Rightarrow> pb_message_set_to_defaults n E (pt_fields E i) pData (hstore h pData (replicate (unat (pf_data_size field)) 0))
         | _ \<Rightarrow> None)
      else Some h)"

definition decode_static_field ::
    "nat \<Rightarrow> 's pb_dec_env \<Rightarrow> 's pb_dec \<Rightarrow> pb_wire_type_t \<Rightarrow> pb_field_iter_t \<Rightarrow> pb_cell \<Rightarrow> 's pb_istream_t \<Rightarrow> pb_heap \<Rightarrow> 's field_result" where
  "decode_static_field n E submessage wire_type iter cell s h =
     (let field = fi_field iter; type = pf_type field; pData = fi_pData iter; func = PB_DECODERS (de_realloc E) submessage (PB_LTYPE type) in
      if PB_HTYPE type = PB_HTYPE_REQUIRED then return_dec cell (func s field pData h)
      else if PB_HTYPE type = PB_HTYPE_OPTIONAL then
        return_dec cell (func s field pData
          (case cell of In_memory a \<Rightarrow> if a \<noteq> pData then hstore h a [1] else h | On_stack _ \<Rightarrow> h))
      else if PB_HTYPE type = PB_HTYPE_REPEATED then
        (if wire_type = PB_WT_STRING \<and> PB_LTYPE type \<le> PB_LTYPE_LAST_PACKABLE then decode_static_packed func field pData cell s h
         else decode_static_entry func field pData cell s h)
      else case oneof_init n E field pData cell h of
             None \<Rightarrow> None
           | Some h \<Rightarrow> (case put_count h cell (pf_tag field) of (h, cell) \<Rightarrow> return_dec cell (func s field pData h)))"

section \<open>Pointer fields\<close>

definition initialize_pointer_field :: "nat \<Rightarrow> 'z pb_types_scheme \<Rightarrow> addr \<Rightarrow> pb_field_t \<Rightarrow> pb_heap \<Rightarrow> pb_heap option" where
  "initialize_pointer_field n E pItem field h =
     (let ltype = PB_LTYPE (pf_type field) in
      if ltype = PB_LTYPE_STRING \<or> ltype = PB_LTYPE_BYTES then Some (hstore h pItem (le_bytes 8 0))
      else if ltype = PB_LTYPE_SUBMESSAGE then
        (case pf_ptr field of
           Pb_submsg i \<Rightarrow> pb_message_set_to_defaults n E (pt_fields E i) pItem (hstore h pItem (replicate (unat (pf_data_size field)) 0))
         | _ \<Rightarrow> None)
      else Some h)"

text \<open>A decoder on a new entry.\<close>

definition decode_new_item :: "nat \<Rightarrow> 'z pb_types_scheme \<Rightarrow> 's pb_dec \<Rightarrow> pb_field_t \<Rightarrow> addr \<Rightarrow> 's pb_istream_t \<Rightarrow> pb_heap \<Rightarrow> (bool \<times> pb_heap \<times> 's pb_istream_t) option" where
  "decode_new_item n E func field pItem s h =
     (case initialize_pointer_field n E pItem field h of None \<Rightarrow> None | Some h \<Rightarrow> func s field pItem h)"

text \<open>
  The storage is grown by a guess at the number of entries that remain, rounded up, as long as that fits in \<^verbatim>\<open>PB_SIZE_MAX\<close>.
  The difference is taken in 64 bits. The division is undefined when the size of an entry is zero.
\<close>

definition grow :: "nat \<Rightarrow> nat \<Rightarrow> nat \<Rightarrow> nat" where
  "grow allocated_size bytes_left data_size =
     (let remain = (bytes_left - 1) div data_size + 1
      in if remain < (unat PB_SIZE_MAX + 2 ^ 64 - allocated_size) mod 2 ^ 64 then size_add allocated_size remain
         else size_add allocated_size 1)"

text \<open>The outcome has the status, the stream for the message of an array that is too long, the cell, the heap and the substream.\<close>

primrec pointer_packed_loop ::
    "nat \<Rightarrow> nat \<Rightarrow> 's pb_dec_env \<Rightarrow> 's pb_dec \<Rightarrow> pb_field_t \<Rightarrow> addr \<Rightarrow> nat \<Rightarrow> pb_cell \<Rightarrow> 's pb_istream_t \<Rightarrow> 's pb_istream_t \<Rightarrow> pb_heap \<Rightarrow>
     (bool \<times> 's pb_istream_t \<times> pb_cell \<times> pb_heap \<times> 's pb_istream_t) option" where
  "pointer_packed_loop 0 n E func field pData allocated_size cell s sub h = None"
| "pointer_packed_loop (Suc k) n E func field pData allocated_size cell s sub h =
     (let count = get_count (hp_mem h) cell; data_size = unat (pf_data_size field) in
      if is_bytes_left sub = 0 then Some (True, s, cell, h, sub)
      else if count = PB_SIZE_MAX then Some (False, s\<lparr>is_errmsg := Some ''too many array entries''\<rparr>, cell, h, sub)
      else if data_size = 0 then None
      else
        let full = unat count + 1 > allocated_size;
            allocated_size = (if full then grow allocated_size (is_bytes_left sub) data_size else allocated_size)
        in case (if full then allocate_field (de_realloc E) sub pData data_size allocated_size h else (True, h, sub)) of
             (False, h, sub) \<Rightarrow> Some (False, s, cell, h, sub)
           | (True, h, sub) \<Rightarrow>
               let pItem = item_ptr (load_ptr (hp_mem h) pData) field count in
               if pItem = 0 then Some (False, s, cell, h, sub)
               else case decode_new_item n E func field pItem sub h of
                      None \<Rightarrow> None
                    | Some (False, h, sub) \<Rightarrow> Some (False, s, cell, h, sub)
                    | Some (True, h, sub) \<Rightarrow>
                        (case put_count h cell (get_count (hp_mem h) cell + 1) of
                           (h, cell) \<Rightarrow> pointer_packed_loop k n E func field pData allocated_size cell s sub h))"

definition decode_pointer_packed :: "nat \<Rightarrow> 's pb_dec_env \<Rightarrow> 's pb_dec \<Rightarrow> pb_field_t \<Rightarrow> addr \<Rightarrow> pb_cell \<Rightarrow> 's pb_istream_t \<Rightarrow> pb_heap \<Rightarrow> 's field_result" where
  "decode_pointer_packed n E func field pData cell s h =
     (case pb_make_string_substream s of
        (None, s) \<Rightarrow> Some (False, cell, h, s)
      | (Some sub, s) \<Rightarrow>
          (case pointer_packed_loop (Suc (is_bytes_left sub)) n E func field pData (unat (get_count (hp_mem h) cell)) cell s sub h of
             None \<Rightarrow> None
           | Some (status, s, cell, h, sub) \<Rightarrow>
               (case pb_close_string_substream s sub of
                  (False, s) \<Rightarrow> Some (False, cell, h, s)
                | (True, s) \<Rightarrow> Some (status, cell, h, s))))"

definition decode_pointer_entry :: "nat \<Rightarrow> 's pb_dec_env \<Rightarrow> 's pb_dec \<Rightarrow> pb_field_t \<Rightarrow> addr \<Rightarrow> pb_cell \<Rightarrow> 's pb_istream_t \<Rightarrow> pb_heap \<Rightarrow> 's field_result" where
  "decode_pointer_entry n E func field pData cell s h =
     (let count = get_count (hp_mem h) cell in
      if count = PB_SIZE_MAX then Some (False, cell, h, is_fail s ''too many array entries'')
      else case allocate_field (de_realloc E) s pData (unat (pf_data_size field)) (unat (count + 1)) h of
             (False, h, s) \<Rightarrow> Some (False, cell, h, s)
           | (True, h, s) \<Rightarrow>
               let pItem = item_ptr (load_ptr (hp_mem h) pData) field count
               in case put_count h cell (count + 1) of (h, cell) \<Rightarrow> return_dec cell (decode_new_item n E func field pItem s h))"

definition decode_pointer_single :: "nat \<Rightarrow> 's pb_dec_env \<Rightarrow> 's pb_dec \<Rightarrow> pb_field_iter_t \<Rightarrow> pb_cell \<Rightarrow> 's pb_istream_t \<Rightarrow> pb_heap \<Rightarrow> 's field_result" where
  "decode_pointer_single n E func iter cell s h =
     (let field = fi_field iter; type = pf_type field; pData = fi_pData iter in
      case (if PB_LTYPE type = PB_LTYPE_SUBMESSAGE \<and> load_ptr (hp_mem h) pData \<noteq> 0 then pb_release_single_field n E iter h else Some h) of
        None \<Rightarrow> None
      | Some h \<Rightarrow>
          (case (if PB_HTYPE type = PB_HTYPE_ONEOF then put_count h cell (pf_tag field) else (h, cell)) of
             (h, cell) \<Rightarrow>
               if PB_LTYPE type = PB_LTYPE_STRING \<or> PB_LTYPE type = PB_LTYPE_BYTES then return_dec cell (func s field pData h)
               else case allocate_field (de_realloc E) s pData (unat (pf_data_size field)) 1 h of
                      (False, h, s) \<Rightarrow> Some (False, cell, h, s)
                    | (True, h, s) \<Rightarrow> return_dec cell (decode_new_item n E func field (load_ptr (hp_mem h) pData) s h)))"

definition decode_pointer_field ::
    "nat \<Rightarrow> 's pb_dec_env \<Rightarrow> 's pb_dec \<Rightarrow> pb_wire_type_t \<Rightarrow> pb_field_iter_t \<Rightarrow> pb_cell \<Rightarrow> 's pb_istream_t \<Rightarrow> pb_heap \<Rightarrow> 's field_result" where
  "decode_pointer_field n E submessage wire_type iter cell s h =
     (let field = fi_field iter; type = pf_type field; pData = fi_pData iter; func = PB_DECODERS (de_realloc E) submessage (PB_LTYPE type) in
      if PB_HTYPE type = PB_HTYPE_REPEATED then
        (if wire_type = PB_WT_STRING \<and> PB_LTYPE type \<le> PB_LTYPE_LAST_PACKABLE then decode_pointer_packed n E func field pData cell s h
         else decode_pointer_entry n E func field pData cell s h)
      else decode_pointer_single n E func iter cell s h)"

section \<open>Callback fields\<close>

text \<open>The loop that calls the callback of the application until the substream is used up.\<close>

primrec callback_loop :: "nat \<Rightarrow> 's pb_decoder_t \<Rightarrow> pb_field_t \<Rightarrow> addr \<Rightarrow> 's pb_istream_t \<Rightarrow> pb_heap \<Rightarrow> (bool \<times> pb_heap \<times> 's pb_istream_t) option" where
  "callback_loop 0 decode field arg sub h = None"
| "callback_loop (Suc n) decode field arg sub h =
     (case decode sub field arg h of
        (False, h, sub) \<Rightarrow> Some (False, h, sub)
      | (True, h, sub) \<Rightarrow> if is_bytes_left sub \<noteq> 0 then callback_loop n decode field arg sub h else Some (True, h, sub))"

definition decode_callback_field ::
    "nat \<Rightarrow> 's pb_dec_env \<Rightarrow> pb_wire_type_t \<Rightarrow> pb_field_iter_t \<Rightarrow> 's pb_istream_t \<Rightarrow> pb_heap \<Rightarrow> (bool \<times> pb_heap \<times> 's pb_istream_t) option" where
  "decode_callback_field n E wire_type iter s h =
     (let pCallback = fi_pData iter; func = callback_func (hp_mem h) pCallback; arg = callback_arg pCallback; field = fi_field iter in
      if pCallback = 0 \<or> func = 0 then (case pb_skip_field s wire_type of (ok, s) \<Rightarrow> Some (ok, h, s))
      else if wire_type = PB_WT_STRING then
        (case pb_make_string_substream s of
           (None, s) \<Rightarrow> Some (False, h, s)
         | (Some sub, s) \<Rightarrow>
             (case callback_loop n (de_callback E func) field arg sub h of
                None \<Rightarrow> None
              | Some (False, h, sub) \<Rightarrow> Some (False, h, is_fail s ''callback failed'')
              | Some (True, h, sub) \<Rightarrow> (case pb_close_string_substream s sub of (ok, s) \<Rightarrow> Some (ok, h, s))))
      else case read_raw_value s wire_type 10 of
             (None, s) \<Rightarrow> Some (False, h, s)
           | (Some buffer, s) \<Rightarrow>
               (case de_callback E func (pb_istream_from_buffer buffer (length buffer)) field arg h of (ok, h, _) \<Rightarrow> Some (ok, h, s)))"

section \<open>Fields\<close>

definition decode_field ::
    "nat \<Rightarrow> 's pb_dec_env \<Rightarrow> 's pb_dec \<Rightarrow> pb_wire_type_t \<Rightarrow> pb_field_iter_t \<Rightarrow> pb_cell \<Rightarrow> 's pb_istream_t \<Rightarrow> pb_heap \<Rightarrow>
     (bool \<times> pb_field_iter_t \<times> pb_cell \<times> pb_heap \<times> 's pb_istream_t) option" where
  "decode_field n E submessage wire_type iter cell s h =
     (case (if PB_HTYPE (pf_type (fi_field iter)) = PB_HTYPE_ONEOF
            then map_option (\<lambda>(ok, iter, h, s). (ok, iter, In_memory (fi_pSize iter), h, s)) (pb_release_union_field n E s iter h)
            else Some (True, iter, cell, h, s)) of
        None \<Rightarrow> None
      | Some (False, iter, cell, h, s) \<Rightarrow> Some (False, iter, cell, h, s)
      | Some (True, iter, cell, h, s) \<Rightarrow>
          let atype = PB_ATYPE (pf_type (fi_field iter)) in
          map_option (\<lambda>(ok, cell, h, s). (ok, iter, cell, h, s))
            (if atype = PB_ATYPE_STATIC then decode_static_field n E submessage wire_type iter cell s h
             else if atype = PB_ATYPE_POINTER then decode_pointer_field n E submessage wire_type iter cell s h
             else if atype = PB_ATYPE_CALLBACK then return_dec cell (decode_callback_field n E wire_type iter s h)
             else Some (False, cell, h, is_fail s ''invalid field type'')))"

definition default_extension_decoder ::
    "nat \<Rightarrow> 's pb_dec_env \<Rightarrow> 's pb_dec \<Rightarrow> addr \<Rightarrow> u32 \<Rightarrow> pb_wire_type_t \<Rightarrow> 's pb_istream_t \<Rightarrow> pb_heap \<Rightarrow> (bool \<times> pb_heap \<times> 's pb_istream_t) option" where
  "default_extension_decoder n E submessage ext tag wire_type s h =
     (if pf_tag (pt_ext_arg E (ext_type (hp_mem h) ext)) \<noteq> tag then Some (True, h, s)
      else
        let iter = iter_from_extension E (hp_mem h) ext
        in map_option (\<lambda>(ok, _, _, h, s). (ok, h, s))
             (decode_field n E submessage wire_type iter (In_memory (fi_pSize iter)) s (hstore h (ext_found ext) [1])))"

text \<open>The loop of \<^verbatim>\<open>decode_extension\<close> also ends when a handler has read something; \<open>pos\<close> is the number of bytes there were.\<close>

primrec decode_extension_loop ::
    "nat \<Rightarrow> (addr \<Rightarrow> 's pb_istream_t \<Rightarrow> pb_heap \<Rightarrow> (bool \<times> pb_heap \<times> 's pb_istream_t) option) \<Rightarrow> nat \<Rightarrow> addr \<Rightarrow> 's pb_istream_t \<Rightarrow> pb_heap \<Rightarrow>
     (bool \<times> pb_heap \<times> 's pb_istream_t) option" where
  "decode_extension_loop 0 handle pos ext s h = None"
| "decode_extension_loop (Suc n) handle pos ext s h =
     (if ext \<noteq> 0 \<and> pos = is_bytes_left s then
        (case handle ext s h of
           None \<Rightarrow> None
         | Some (False, h, s) \<Rightarrow> Some (False, h, s)
         | Some (True, h, s) \<Rightarrow> decode_extension_loop n handle pos (ext_next (hp_mem h) ext) s h)
      else Some (True, h, s))"

definition decode_extension ::
    "nat \<Rightarrow> 's pb_dec_env \<Rightarrow> 's pb_dec \<Rightarrow> u32 \<Rightarrow> pb_wire_type_t \<Rightarrow> pb_field_iter_t \<Rightarrow> 's pb_istream_t \<Rightarrow> pb_heap \<Rightarrow> (bool \<times> pb_heap \<times> 's pb_istream_t) option" where
  "decode_extension n E submessage tag wire_type iter s h =
     decode_extension_loop n
       (\<lambda>ext s h. case de_ext_decode E (ext_type (hp_mem h) ext) of
                     Some decode \<Rightarrow> Some (decode s ext tag wire_type h)
                   | None \<Rightarrow> default_extension_decoder n E submessage ext tag wire_type s h)
       (is_bytes_left s) (load_ptr (hp_mem h) (fi_pData iter)) s h"

section \<open>Messages\<close>

definition PB_MAX_REQUIRED_FIELDS :: nat where "PB_MAX_REQUIRED_FIELDS = 64"

text \<open>
  The variables of \<^verbatim>\<open>pb_decode_noinit\<close>; \<^verbatim>\<open>fixed_count_field\<close> is an index.
\<close>

record 's dec_state =
  ds_stream :: "'s pb_istream_t"
  ds_heap :: pb_heap
  ds_iter :: pb_field_iter_t
  ds_fields_seen :: "u32 list"
  ds_extension_range_start :: u32
  ds_fixed_count_field :: "nat option"
  ds_fixed_count_size :: u32

definition dec_start :: "pb_field_t list \<Rightarrow> addr \<Rightarrow> 's pb_istream_t \<Rightarrow> pb_heap \<Rightarrow> 's dec_state" where
  "dec_start fs dest s h =
     \<lparr>ds_stream = s, ds_heap = h, ds_iter = snd (pb_field_iter_begin fs dest), ds_fields_seen = replicate ((PB_MAX_REQUIRED_FIELDS + 31) div 32) 0,
      ds_extension_range_start = 0, ds_fixed_count_field = None, ds_fixed_count_size = 0\<rparr>"

definition ds_fail :: "'s dec_state \<Rightarrow> string \<Rightarrow> 's dec_state" where
  "ds_fail st msg = st\<lparr>ds_stream := is_fail (ds_stream st) msg\<rparr>"

text \<open>How a round of the loop ends: with \<^verbatim>\<open>return false\<close>, \<^verbatim>\<open>break\<close> or \<^verbatim>\<open>continue\<close>.\<close>

datatype 's dec_step = Return_false "'s dec_state" | Break "'s dec_state" | Continue "'s dec_state"

definition skip_unknown :: "pb_wire_type_t \<Rightarrow> 's dec_state \<Rightarrow> 's dec_step" where
  "skip_unknown wire_type st =
     (case pb_skip_field (ds_stream st) wire_type of
        (False, s) \<Rightarrow> Return_false (st\<lparr>ds_stream := s\<rparr>)
      | (True, s) \<Rightarrow> Continue (st\<lparr>ds_stream := s\<rparr>))"

text \<open>A number that no field has: an extension, or skipped.\<close>

definition decode_unknown :: "nat \<Rightarrow> 's pb_dec_env \<Rightarrow> 's pb_dec \<Rightarrow> u32 \<Rightarrow> pb_wire_type_t \<Rightarrow> 's dec_state \<Rightarrow> 's dec_step option" where
  "decode_unknown n E submessage tag wire_type st =
     (if tag < ds_extension_range_start st then Some (skip_unknown wire_type st)
      else case find_extension_field (ds_iter st) of
             None \<Rightarrow> None
           | Some (found, iter) \<Rightarrow>
               let st = st\<lparr>ds_iter := iter, ds_extension_range_start := if found then pf_tag (fi_field iter) else - 1\<rparr> in
               if tag < ds_extension_range_start st then Some (skip_unknown wire_type st)
               else case decode_extension n E submessage tag wire_type iter (ds_stream st) (ds_heap st) of
                      None \<Rightarrow> None
                    | Some (False, h, s) \<Rightarrow> Some (Return_false (st\<lparr>ds_heap := h, ds_stream := s\<rparr>))
                    | Some (True, h, s) \<Rightarrow>
                        if is_bytes_left (ds_stream st) \<noteq> is_bytes_left s then Some (Continue (st\<lparr>ds_heap := h, ds_stream := s\<rparr>))
                        else Some (skip_unknown wire_type (st\<lparr>ds_heap := h, ds_stream := s\<rparr>)))"

text \<open>The check at a change of the array of fixed count and at the end.\<close>

definition fixed_count_complete :: "'s dec_state \<Rightarrow> bool" where
  "fixed_count_complete st \<longleftrightarrow>
     (case ds_fixed_count_field st of
        None \<Rightarrow> True
      | Some i \<Rightarrow> ds_fixed_count_size st = pf_array_size (field_at (fi_start (ds_iter st)) i))"

definition is_fixed_count :: "pb_field_iter_t \<Rightarrow> bool" where
  "is_fixed_count iter \<longleftrightarrow> PB_HTYPE (pf_type (fi_field iter)) = PB_HTYPE_REPEATED \<and> fi_pSize iter = fi_pData iter"

definition mark_seen :: "pb_field_iter_t \<Rightarrow> u32 list \<Rightarrow> u32 list" where
  "mark_seen iter seen =
     (let i = fi_required_field_index iter in
      if PB_HTYPE (pf_type (fi_field iter)) = PB_HTYPE_REQUIRED \<and> i < PB_MAX_REQUIRED_FIELDS
      then seen[i div 32 := seen ! (i div 32) OR push_bit (i mod 32) 1] else seen)"

text \<open>A field the message has.\<close>

definition decode_known :: "nat \<Rightarrow> 's pb_dec_env \<Rightarrow> 's pb_dec \<Rightarrow> pb_wire_type_t \<Rightarrow> 's dec_state \<Rightarrow> 's dec_step option" where
  "decode_known n E submessage wire_type st =
     (let iter = ds_iter st; fixed = is_fixed_count iter; new = fixed \<and> ds_fixed_count_field st \<noteq> Some (fi_pos iter) in
      if new \<and> \<not> fixed_count_complete st then Some (Return_false (ds_fail st ''wrong size for fixed count field''))
      else
        let st = (if new then st\<lparr>ds_fixed_count_field := Some (fi_pos iter), ds_fixed_count_size := 0\<rparr> else st);
            cell = (if fixed then On_stack (ds_fixed_count_size st) else In_memory (fi_pSize iter));
            st = st\<lparr>ds_fields_seen := mark_seen iter (ds_fields_seen st)\<rparr>
        in map_option
             (\<lambda>(ok, iter, cell, h, s).
                let st = st\<lparr>ds_iter := iter, ds_heap := h, ds_stream := s,
                            ds_fixed_count_size := (case cell of On_stack v \<Rightarrow> v | In_memory _ \<Rightarrow> ds_fixed_count_size st)\<rparr>
                in if ok then Continue st else Return_false st)
             (decode_field n E submessage wire_type iter cell (ds_stream st) (ds_heap st)))"

definition decode_round :: "nat \<Rightarrow> 's pb_dec_env \<Rightarrow> 's pb_dec \<Rightarrow> 's dec_state \<Rightarrow> 's dec_step option" where
  "decode_round n E submessage st =
     (case pb_decode_tag (ds_stream st) of
        (None, eof, s) \<Rightarrow> Some (if eof then Break (st\<lparr>ds_stream := s\<rparr>) else Return_false (st\<lparr>ds_stream := s\<rparr>))
      | (Some (wire_type, tag), _, s) \<Rightarrow>
          (case pb_field_iter_find (ds_iter st) tag of
             None \<Rightarrow> None
           | Some (False, iter) \<Rightarrow> decode_unknown n E submessage tag wire_type (st\<lparr>ds_stream := s, ds_iter := iter\<rparr>)
           | Some (True, iter) \<Rightarrow> decode_known n E submessage wire_type (st\<lparr>ds_stream := s, ds_iter := iter\<rparr>)))"

text \<open>
  The end of \<^verbatim>\<open>pb_decode_noinit\<close>. The iterator is moved to the last field, to count the required fields, and then wraps around.
\<close>

function seek_end :: "pb_field_iter_t \<Rightarrow> nat \<times> u8 \<times> pb_field_iter_t" where
  "seek_end iter =
     (case pb_field_iter_next iter of
        (True, iter) \<Rightarrow> seek_end iter
      | (False, iter') \<Rightarrow> (fi_required_field_index iter, pf_type (fi_field iter), iter'))"
  by pat_completeness auto
termination
  by (relation "measure (\<lambda>iter. length (fi_start iter) - fi_pos iter)") (auto dest: iter_next_forward [OF sym])

declare seek_end.simps [simp del]

definition req_field_count :: "pb_field_iter_t \<Rightarrow> nat" where
  "req_field_count iter =
     (case seek_end iter of
        (count, last_type, iter) \<Rightarrow>
          min PB_MAX_REQUIRED_FIELDS
            (if PB_HTYPE last_type = PB_HTYPE_REQUIRED \<and> pf_tag (fi_field iter) \<noteq> 0 then count + 1 else count))"

definition all_seen :: "nat \<Rightarrow> u32 list \<Rightarrow> bool" where
  "all_seen count seen \<longleftrightarrow>
     (\<forall>i \<in> set [0..<count div 32]. seen ! i = - 1) \<and>
     (count mod 32 \<noteq> 0 \<longrightarrow> seen ! (count div 32) = drop_bit (32 - count mod 32) (- 1))"

definition decode_end :: "'s dec_state \<Rightarrow> bool \<times> 's dec_state" where
  "decode_end st =
     (if \<not> fixed_count_complete st then (False, ds_fail st ''wrong size for fixed count field'')
      else if \<not> all_seen (req_field_count (ds_iter st)) (ds_fields_seen st) then (False, ds_fail st ''missing required field'')
      else (True, st))"

text \<open>
  \<^verbatim>\<open>pb_decode_noinit\<close> and what it calls for submessages, tied together by the bound. \<open>noinit\<close> is the function for the messages inside.
\<close>

type_synonym 's pb_noinit = "'s pb_istream_t \<Rightarrow> pb_field_t list \<Rightarrow> addr \<Rightarrow> pb_heap \<Rightarrow> (bool \<times> pb_heap \<times> 's pb_istream_t) option"

definition decode_with_defaults :: "nat \<Rightarrow> 'z pb_types_scheme \<Rightarrow> 's pb_noinit \<Rightarrow> 's pb_noinit" where
  "decode_with_defaults n E noinit s fs dest h =
     (case pb_message_set_to_defaults n E fs dest h of
        None \<Rightarrow> None
      | Some h \<Rightarrow>
          (case noinit s fs dest h of
             None \<Rightarrow> None
           | Some (True, h, s) \<Rightarrow> Some (True, h, s)
           | Some (False, h, s) \<Rightarrow> map_option (\<lambda>h. (False, h, s)) (pb_release n E fs dest h)))"

definition pb_dec_submessage :: "nat \<Rightarrow> 'z pb_types_scheme \<Rightarrow> 's pb_noinit \<Rightarrow> 's pb_dec" where
  "pb_dec_submessage n E noinit s field dest h =
     (case pb_make_string_substream s of
        (None, s) \<Rightarrow> Some (False, h, s)
      | (Some sub, s) \<Rightarrow>
          (case pf_ptr field of
             Pb_null \<Rightarrow> Some (False, h, is_fail s ''invalid field descriptor'')
           | Pb_default _ \<Rightarrow> None
           | Pb_submsg i \<Rightarrow>
               (case (if PB_HTYPE (pf_type field) = PB_HTYPE_REPEATED then decode_with_defaults n E noinit sub (pt_fields E i) dest h
                      else noinit sub (pt_fields E i) dest h) of
                  None \<Rightarrow> None
                | Some (status, h, sub) \<Rightarrow>
                    (case pb_close_string_substream s sub of (False, s) \<Rightarrow> Some (False, h, s) | (True, s) \<Rightarrow> Some (status, h, s)))))"

definition decode_from :: "('s dec_state \<Rightarrow> (bool \<times> 's dec_state) option) \<Rightarrow> 's pb_noinit" where
  "decode_from loop s fs dest h =
     map_option (\<lambda>(ok, st). case (if ok then decode_end st else (False, st)) of (ok, st) \<Rightarrow> (ok, ds_heap st, ds_stream st))
       (loop (dec_start fs dest s h))"

primrec decode_loop :: "nat \<Rightarrow> 's pb_dec_env \<Rightarrow> 's dec_state \<Rightarrow> (bool \<times> 's dec_state) option" where
  "decode_loop 0 E st = None"
| "decode_loop (Suc n) E st =
     (if is_bytes_left (ds_stream st) = 0 then Some (True, st)
      else case decode_round n E (pb_dec_submessage n E (decode_from (decode_loop n E))) st of
             None \<Rightarrow> None
           | Some (Return_false st) \<Rightarrow> Some (False, st)
           | Some (Break st) \<Rightarrow> Some (True, st)
           | Some (Continue st) \<Rightarrow> decode_loop n E st)"

definition pb_decode_noinit :: "nat \<Rightarrow> 's pb_dec_env \<Rightarrow> 's pb_noinit" where
  "pb_decode_noinit n E = decode_from (decode_loop n E)"

definition pb_decode :: "nat \<Rightarrow> 's pb_dec_env \<Rightarrow> 's pb_noinit" where
  "pb_decode n E = decode_with_defaults n E (pb_decode_noinit n E)"

text \<open>Messages after their length, and what \<^verbatim>\<open>pb_decode_nullterminated\<close> is in this version.\<close>

definition decode_delimited :: "'s pb_noinit \<Rightarrow> 's pb_noinit" where
  "decode_delimited dec s fs dest h =
     (case pb_make_string_substream s of
        (None, s) \<Rightarrow> Some (False, h, s)
      | (Some sub, s) \<Rightarrow>
          (case dec sub fs dest h of
             None \<Rightarrow> None
           | Some (status, h, sub) \<Rightarrow>
               (case pb_close_string_substream s sub of (False, s) \<Rightarrow> Some (False, h, s) | (True, s) \<Rightarrow> Some (status, h, s))))"

definition pb_decode_delimited_noinit :: "nat \<Rightarrow> 's pb_dec_env \<Rightarrow> 's pb_noinit" where
  "pb_decode_delimited_noinit n E = decode_delimited (pb_decode_noinit n E)"

definition pb_decode_delimited :: "nat \<Rightarrow> 's pb_dec_env \<Rightarrow> 's pb_noinit" where
  "pb_decode_delimited n E = decode_delimited (pb_decode n E)"

definition pb_decode_nullterminated :: "nat \<Rightarrow> 's pb_dec_env \<Rightarrow> 's pb_noinit" where
  "pb_decode_nullterminated n E = pb_decode n E"

end
