(* ===== verification/Pb_Static.thy ===== *)
theory Pb_Static
  imports Pb_Decode
begin

text \<open>
  What the decoders of nanopb do on arbitrary input, for message types without pointers, callbacks and extensions: they return, they go
  forward on the stream, and they write nothing outside the memory of the field. Setting defaults and releasing such messages is treated in the same way.
\<close>

section \<open>Streams only go forward\<close>

text \<open>A callback that is asked for some bytes delivers no more than these.\<close>

fun honest_source :: "'s pb_source \<Rightarrow> bool" where
  "honest_source (Buf_read _) = True"
| "honest_source (In_callback f _) = (\<forall>st n bs. fst (f st n) = Some bs \<longrightarrow> length bs \<le> n)"

definition honest :: "'s pb_istream_t \<Rightarrow> bool" where
  "honest s \<longleftrightarrow> honest_source (is_source s)"

definition forward :: "'s pb_istream_t \<Rightarrow> 's pb_istream_t \<Rightarrow> bool" where
  "forward s s' \<longleftrightarrow> is_bytes_left s' \<le> is_bytes_left s \<and> (honest s \<longrightarrow> honest s')"

named_theorems forward_rules

lemma forward_refl [simp, intro]: "forward s s"
  by (simp add: forward_def)

lemma forward_trans [trans]: "forward s s' \<Longrightarrow> forward s' s'' \<Longrightarrow> forward s s''"
  by (auto simp: forward_def)

lemma forward_fail [simp]: "forward s (is_fail s' msg) = forward s s'" "forward (is_fail s msg) s' = forward s s'"
  by (simp_all add: forward_def is_fail_def honest_def)

lemma forward_left: "forward s s' \<Longrightarrow> is_bytes_left s' \<le> is_bytes_left s"
  by (simp add: forward_def)

lemma source_read_honest:
  assumes "source_read src n = (r, src')"
  shows "honest_source src' = honest_source src" and "honest_source src \<Longrightarrow> r = Some bs \<Longrightarrow> length bs \<le> n"
proof -
  show "honest_source src' = honest_source src"
    using assms by (cases src) (auto simp: buf_read_def split: prod.splits)
  show "length bs \<le> n" if "honest_source src" "r = Some bs"
  proof (cases src)
    case (Buf_read b)
    then show ?thesis using assms that by (auto simp: buf_read_def)
  next
    case (In_callback f st)
    then have "fst (f st n) = Some bs" using assms that(2) by (auto split: prod.splits)
    then show ?thesis using that(1) In_callback by auto
  qed
qed

lemma forward_source:
  assumes "source_read (is_source s) n = (r, src)" and "k \<le> is_bytes_left s"
  shows "forward s (s\<lparr>is_source := src, is_bytes_left := k\<rparr>)" and "honest s \<Longrightarrow> r = Some bs \<Longrightarrow> length bs \<le> n"
  using source_read_honest [OF assms(1)] assms(2) by (simp_all add: forward_def honest_def)

lemma forward_source_only:
  "source_read (is_source s) n = (r, src) \<Longrightarrow> forward s (s\<lparr>is_source := src\<rparr>)"
  using forward_source(1) [of s n r src "is_bytes_left s"] by (simp add: forward_def honest_def)

lemma forward_readbyte [forward_rules]: "pb_readbyte s = (r, s') \<Longrightarrow> forward s s'"
  by (auto simp: pb_readbyte_def split: if_splits prod.splits option.splits
      intro: forward_source(1) forward_source_only)

lemma forward_read_bytes [forward_rules]: "pb_read_bytes s n = (r, s') \<Longrightarrow> forward s s'"
  by (auto simp: pb_read_bytes_def split: if_splits prod.splits option.splits
      intro: forward_source(1) forward_source_only)

lemma read_bytes_length: "pb_read_bytes s n = (Some bs, s') \<Longrightarrow> honest s \<Longrightarrow> length bs \<le> n"
  by (auto simp: pb_read_bytes_def split: if_splits prod.splits option.splits dest: forward_source(2))

lemma forward_skip_loop: "pb_skip_loop s n = (r, s') \<Longrightarrow> forward s s'"
proof (induction s n rule: pb_skip_loop.induct)
  case (1 s n)
  obtain r1 s1 where r1: "pb_read_bytes s 16 = (r1, s1)" by (cases "pb_read_bytes s 16")
  then have f: "forward s s1" by (rule forward_read_bytes)
  show ?case
  proof (cases "n > 16 \<and> r1 \<noteq> None")
    case True
    then obtain bs where "r1 = Some bs" by blast
    then show ?thesis using 1 True r1 f by (subst (asm) pb_skip_loop.simps) (auto intro: forward_trans)
  next
    case False
    then show ?thesis using 1(2) r1 f by (subst (asm) pb_skip_loop.simps) (auto split: if_splits intro: forward_read_bytes)
  qed
qed

lemma forward_read [forward_rules]: "pb_read s b n = (r, s') \<Longrightarrow> forward s s'"
  by (auto simp: pb_read_def split: if_splits dest: forward_skip_loop forward_read_bytes)

lemma read_length: "pb_read s True n = (Some bs, s') \<Longrightarrow> honest s \<Longrightarrow> length bs \<le> n"
  by (auto simp: pb_read_def split: if_splits dest: read_bytes_length)

lemma forward_varint_loop: "decode_varint_loop s pos q = (r, s') \<Longrightarrow> forward s s'"
proof (induction s pos q rule: decode_varint_loop.induct)
  case (1 s pos q)
  obtain r1 s1 where r1: "pb_readbyte s = (r1, s1)" by (cases "pb_readbyte s")
  then have f: "forward s s1" by (rule forward_readbyte)
  show ?case
    using 1 r1 f by (subst (asm) (2) decode_varint_loop.simps)
      (auto simp: Let_def split: if_splits option.splits intro: forward_trans)
qed

lemma forward_varint [forward_rules]: "pb_decode_varint s = (r, s') \<Longrightarrow> forward s s'"
  unfolding pb_decode_varint_def by (rule forward_varint_loop)

lemma forward_varint32_loop: "varint32_loop s pos q = (r, s') \<Longrightarrow> forward s s'"
proof (induction s pos q rule: varint32_loop.induct)
  case (1 s pos q)
  obtain r1 s1 where r1: "pb_readbyte s = (r1, s1)" by (cases "pb_readbyte s")
  then have f: "forward s s1" by (rule forward_readbyte)
  show ?case
    using 1 r1 f by (subst (asm) (2) varint32_loop.simps)
      (auto simp: Let_def split: if_splits option.splits intro: forward_trans)
qed

lemma forward_varint32_eof: "pb_decode_varint32_eof s = ((r, s'), e) \<Longrightarrow> forward s s' \<and> (r \<noteq> None \<longrightarrow> is_bytes_left s' < is_bytes_left s)"
  by (auto simp: pb_decode_varint32_eof_def split: prod.splits option.splits if_splits
      dest: forward_readbyte forward_varint32_loop readbyte_left intro: forward_trans)
    (meson forward_left forward_varint32_loop le_less_trans readbyte_left)

lemma forward_varint32 [forward_rules]: "pb_decode_varint32 s = (r, s') \<Longrightarrow> forward s s'"
  unfolding pb_decode_varint32_def by (metis forward_varint32_eof surjective_pairing)

lemma varint32_left: "pb_decode_varint32 s = (Some v, s') \<Longrightarrow> is_bytes_left s' < is_bytes_left s"
  unfolding pb_decode_varint32_def by (metis forward_varint32_eof option.distinct(1) surjective_pairing)

lemma varint_left: "pb_decode_varint s = (Some v, s') \<Longrightarrow> is_bytes_left s' < is_bytes_left s"
proof -
  assume "pb_decode_varint s = (Some v, s')"
  then obtain b s1 where "pb_readbyte s = (Some b, s1)" "forward s1 s'"
    unfolding pb_decode_varint_def
    by (subst (asm) decode_varint_loop.simps) (auto simp: Let_def split: if_splits option.splits prod.splits dest: forward_varint_loop)
  then show ?thesis using readbyte_left forward_left by (meson le_less_trans)
qed

lemma forward_svarint [forward_rules]: "pb_decode_svarint s = (r, s') \<Longrightarrow> forward s s'"
  by (auto simp: pb_decode_svarint_def split: prod.splits option.splits dest: forward_varint)

lemma svarint_left: "pb_decode_svarint s = (Some v, s') \<Longrightarrow> is_bytes_left s' < is_bytes_left s"
  by (auto simp: pb_decode_svarint_def split: prod.splits option.splits dest: varint_left)

lemma forward_fixed32 [forward_rules]: "pb_decode_fixed32 s = (r, s') \<Longrightarrow> forward s s'"
  unfolding pb_decode_fixed32_def by (auto split: prod.splits option.splits dest: forward_read)

lemma forward_fixed64 [forward_rules]: "pb_decode_fixed64 s = (r, s') \<Longrightarrow> forward s s'"
  unfolding pb_decode_fixed64_def by (auto split: prod.splits option.splits dest: forward_read)

lemma fixed32_left: "pb_decode_fixed32 s = (Some v, s') \<Longrightarrow> is_bytes_left s' < is_bytes_left s"
  unfolding pb_decode_fixed32_def by (auto split: prod.splits option.splits dest: read_left [of 4, simplified])

lemma fixed64_left: "pb_decode_fixed64 s = (Some v, s') \<Longrightarrow> is_bytes_left s' < is_bytes_left s"
  unfolding pb_decode_fixed64_def by (auto split: prod.splits option.splits dest: read_left [of 8, simplified])

lemma forward_tag:
  assumes "pb_decode_tag s = (r, e, s')"
  shows "forward s s'" and "r \<noteq> None \<Longrightarrow> is_bytes_left s' < is_bytes_left s" and "r = Some (wt, tag) \<Longrightarrow> tag < - 1"
proof -
  obtain v s1 e1 where v: "pb_decode_varint32_eof s = ((v, s1), e1)" by (metis surj_pair)
  note f = forward_varint32_eof [OF v]
  show "forward s s'" "r \<noteq> None \<Longrightarrow> is_bytes_left s' < is_bytes_left s"
    using assms v f by (auto simp: pb_decode_tag_def split: option.splits if_splits)
  show "tag < - 1" if w: "r = Some (wt, tag)"
  proof -
    obtain temp :: u32 where "tag = drop_bit 3 temp"
      using assms v w by (auto simp: pb_decode_tag_def split: option.splits if_splits)
    then have "unat tag = unat temp div 8" by (simp add: unat_drop_bit)
    moreover have "unat temp < 2 ^ 32" using unat_less [of temp] by simp
    ultimately have "unat tag < 2 ^ 29" by simp
    moreover have "unat (- 1 :: u32) = 2 ^ 32 - 1" by (simp add: unsigned_minus_1_eq_mask mask_eq_exp_minus_1)
    moreover have "(2 :: nat) ^ 29 < 2 ^ 32 - 1" by simp
    ultimately show ?thesis unfolding word_less_nat_alt by (metis order.strict_trans)
  qed
qed

lemma forward_skip_varint: "pb_skip_varint s = (r, s') \<Longrightarrow> forward s s'"
proof (induction s rule: pb_skip_varint.induct)
  case (1 s)
  obtain r1 s1 where r1: "pb_read s True 1 = (r1, s1)" by (cases "pb_read s True 1")
  then have f: "forward s s1" by (rule forward_read)
  show ?case
    using 1 r1 f by (subst (asm) (2) pb_skip_varint.simps) (auto split: if_splits option.splits intro: forward_trans)
qed

lemma forward_read_ok: "read_ok (pb_read s b n) = (r, s') \<Longrightarrow> forward s s'"
  by (cases "pb_read s b n") (auto simp: read_ok_def dest: forward_read)

lemma forward_skip_field [forward_rules]: "pb_skip_field s wt = (r, s') \<Longrightarrow> forward s s'"
  by (auto simp: pb_skip_field_def pb_skip_string_def split: if_splits prod.splits option.splits
      dest: forward_skip_varint forward_read_ok forward_varint32 intro: forward_trans)

lemma forward_make_substream:
  assumes "pb_make_string_substream s = (r, s')"
  shows "forward s s'" and "r = Some sub \<Longrightarrow> forward s sub" and "r = Some sub \<Longrightarrow> is_bytes_left sub + is_bytes_left s' < is_bytes_left s"
proof -
  obtain v s1 where v: "pb_decode_varint32 s = (v, s1)" by (cases "pb_decode_varint32 s")
  note f = forward_varint32 [OF v]
  show "forward s s'" "r = Some sub \<Longrightarrow> forward s sub"
    using assms v f by (auto simp: pb_make_string_substream_def forward_def honest_def is_fail_def split: option.splits if_splits)
  show "is_bytes_left sub + is_bytes_left s' < is_bytes_left s" if "r = Some sub"
    using assms v that varint32_left by (auto simp: pb_make_string_substream_def split: option.splits if_splits)
qed

lemma forward_close_substream:
  assumes "pb_close_string_substream s sub = (r, s')" and "honest s \<Longrightarrow> honest sub"
  shows "forward s s' \<and> is_bytes_left s' = is_bytes_left s"
proof -
  obtain ok sub' where c: "(if is_bytes_left sub \<noteq> 0 then read_ok (pb_read sub False (is_bytes_left sub)) else (True, sub)) = (ok, sub')"
    by fastforce
  have "forward sub sub'" using c forward_read_ok by (auto split: if_splits)
  then show ?thesis using assms c by (auto simp: pb_close_string_substream_def forward_def honest_def split: bool.splits)
qed

section \<open>Decoders of single fields\<close>

text \<open>
  The outcome of a decoder on the memory \<open>A\<close>: it returns, leaves the rest of memory and the table of objects alone, and goes forward on
  the stream.
\<close>

definition within :: "addr set \<Rightarrow> 's pb_istream_t \<Rightarrow> pb_heap \<Rightarrow> bool \<times> pb_heap \<times> 's pb_istream_t \<Rightarrow> bool" where
  "within A s h r \<longleftrightarrow>
     (case r of (ok, h', s') \<Rightarrow> agree_off A (hp_mem h) (hp_mem h') \<and> hp_objects h' = hp_objects h \<and> forward s s')"

lemma withinI [intro]: "agree_off A (hp_mem h) (hp_mem h') \<Longrightarrow> hp_objects h' = hp_objects h \<Longrightarrow> forward s s' \<Longrightarrow> within A s h (ok, h', s')"
  by (simp add: within_def)

lemma within_store: "span p (length bs) \<subseteq> A \<Longrightarrow> forward s s' \<Longrightarrow> within A s h (ok, hstore h p bs, s')"
  by (simp add: within_def agree_off_mstore)

lemma within_trans:
  "within A s h (ok, h', s') \<Longrightarrow> within A s' h' r \<Longrightarrow> within A s h r"
  by (cases r) (auto simp: within_def intro: agree_off_trans forward_trans)

lemma within_mono: "within A s h r \<Longrightarrow> A \<subseteq> B \<Longrightarrow> within B s h r"
  by (cases r) (auto simp: within_def intro: agree_off_mono)

lemma within_forward: "forward s0 s \<Longrightarrow> within A s h r \<Longrightarrow> within A s0 h r"
  by (cases r) (auto simp: within_def intro: forward_trans)

lemma within_read_to:
  assumes "honest s" and "span p n \<subseteq> A"
  shows "within A s h (read_to s p n h)"
proof (cases "pb_read s True n")
  case (Pair r s')
  then have f: "forward s s'" by (rule forward_read)
  have "span p (length bs) \<subseteq> A" if "r = Some bs" for bs
    using read_length [of s n bs s'] Pair that assms span_mono [of p p "length bs" n] by auto
  then show ?thesis using Pair f by (auto simp: read_to_def split: option.splits intro: within_store)
qed

lemma within_scalars:
  assumes "honest s"
  shows "span dest 1 \<subseteq> A \<Longrightarrow> within A s h (pb_dec_bool s dest h)"
    and "span dest (unat (pf_data_size field)) \<subseteq> A \<Longrightarrow> within A s h (pb_dec_varint s field dest h)"
    and "span dest (unat (pf_data_size field)) \<subseteq> A \<Longrightarrow> within A s h (pb_dec_uvarint s field dest h)"
    and "span dest (unat (pf_data_size field)) \<subseteq> A \<Longrightarrow> within A s h (pb_dec_svarint s field dest h)"
    and "span dest 4 \<subseteq> A \<Longrightarrow> within A s h (pb_dec_fixed32 s field dest h)"
    and "span dest 8 \<subseteq> A \<Longrightarrow> within A s h (pb_dec_fixed64 s field dest h)"
  unfolding pb_dec_bool_def pb_dec_varint_def pb_dec_uvarint_def pb_dec_svarint_def pb_dec_fixed32_def pb_dec_fixed64_def
  by (auto simp: Let_def within_def agree_off_mstore split: prod.splits option.splits dest: forward_rules)

lemma within_fixed_length:
  assumes "honest s" and "span dest (unat (pf_data_size field)) \<subseteq> A"
  shows "within A s h (pb_dec_fixed_length_bytes s field dest h)"
proof -
  obtain v s1 where v: "pb_decode_varint32 s = (v, s1)" by (cases "pb_decode_varint32 s")
  then have f: "forward s s1" by (rule forward_varint32)
  then have "honest s1" using assms(1) by (simp add: forward_def)
  moreover have "within A s h (True, hstore h dest (replicate (unat (pf_data_size field)) 0), s1)"
    using f assms(2) by (intro within_store) simp_all
  ultimately show ?thesis
    unfolding pb_dec_fixed_length_bytes_def v using f assms(2)
    by (auto split: option.splits intro: within_forward [OF f] within_read_to)
qed

lemma within_string_into:
  assumes "honest s" and "span p (Suc n) \<subseteq> A"
  shows "within A s h (string_into s p n h)"
proof -
  obtain ok h1 s1 where r: "read_to s p n h = (ok, h1, s1)" by (metis prod_cases3)
  have w: "within A s h (ok, h1, s1)" using within_read_to [OF assms(1), of p n A h] assms(2) r span_mono [of p p n "Suc n"] by auto
  have "within A s1 h1 (ok, hstore h1 (p + n) [0], s1)" using assms(2) by (intro within_store) (auto simp: span_def)
  from within_trans [OF w this] show ?thesis by (simp add: string_into_def r)
qed

lemma within_bytes_into:
  assumes "honest s" and "span p (n + 4) \<subseteq> A"
  shows "within A s h (bytes_into s p n h)"
proof -
  let ?h = "hstore h p (le_bytes 4 n)"
  have "within A s h (True, ?h, s)" using assms(2) by (intro within_store) (auto simp: span_def)
  moreover have "within A s ?h (read_to s (p + 4) n ?h)" using assms by (intro within_read_to) (auto simp: span_def)
  ultimately show ?thesis unfolding bytes_into_def by (rule within_trans)
qed

lemma within_string:
  assumes "honest s" and "PB_ATYPE (pf_type field) = PB_ATYPE_STATIC" and "span dest (unat (pf_data_size field)) \<subseteq> A"
  shows "within A s h (pb_dec_string R s field dest h)" and "within A s h (pb_dec_bytes R s field dest h)"
proof -
  have p: "PB_ATYPE (pf_type field) \<noteq> PB_ATYPE_POINTER" using assms(2) by (simp add: pb_atypes)
  obtain v s1 where v: "pb_decode_varint32 s = (v, s1)" by (cases "pb_decode_varint32 s")
  then have f: "forward s s1" by (rule forward_varint32)
  then have hs: "honest s1" using assms(1) by (simp add: forward_def)
  have sub: "span dest n \<subseteq> A" if "n \<le> unat (pf_data_size field)" for n
    using span_mono [of dest dest n "unat (pf_data_size field)"] that assms(3) by auto
  have "within A s1 h (string_into s1 dest (unat sz) h)"
    if "\<not> unat (sz + 1) < unat sz" "\<not> unat (pf_data_size field) < unat (sz + 1)" for sz :: u32
    using that unat_plus_one [of sz] by (intro within_string_into [OF hs] sub) simp
  then show "within A s h (pb_dec_string R s field dest h)"
    unfolding pb_dec_string_def v Let_def using f p
    by (auto split: option.splits intro: within_forward [OF f])
  have "within A s1 h (bytes_into s1 dest (unat sz) h)"
    if "\<not> size_add (unat sz) 4 < unat sz" "\<not> unat (pf_data_size field) < size_add (unat sz) 4" for sz :: u32
    using that unat_less [of sz] by (intro within_bytes_into [OF hs] sub) (simp add: size_add_def)
  then show "within A s h (pb_dec_bytes R s field dest h)"
    unfolding pb_dec_bytes_def v Let_def using f p
    by (auto split: option.splits intro: within_forward [OF f])
qed

section \<open>Message types\<close>

text \<open>
  A message type whose fields all lie inside its structure of \<open>sz\<close> bytes: what the generator of nanopb produces when nothing is allocated and
  nothing is left to a callback. The first argument bounds how deep messages are nested by value.

  An array without a counter has to have room for one, because \<^verbatim>\<open>pb_field_set_to_default\<close> clears the counter
  also when there is none. A message without fields has room for the byte that C requires.
\<close>

definition extent :: "pb_field_t \<Rightarrow> nat" where
  "extent f = unat (pf_data_size f) * (if PB_HTYPE (pf_type f) = PB_HTYPE_REPEATED then unat (pf_array_size f) else 1)"

definition cell_ok :: "pb_field_t list \<Rightarrow> nat \<Rightarrow> nat \<Rightarrow> bool" where
  "cell_ok fs sz i \<longleftrightarrow>
     (let htype = PB_HTYPE (pf_type (fs ! i)) in
      if htype = PB_HTYPE_REQUIRED then True
      else if htype = PB_HTYPE_OPTIONAL then size_off fs i = int (data_off fs i) \<or> (0 \<le> size_off fs i \<and> size_off fs i + 1 \<le> int sz)
      else 0 \<le> size_off fs i \<and> size_off fs i + 4 \<le> int sz)"

definition size_ok :: "(nat \<Rightarrow> nat \<Rightarrow> bool) \<Rightarrow> pb_field_t \<Rightarrow> bool" where
  "size_ok sub f \<longleftrightarrow>
     (let ltype = PB_LTYPE (pf_type f); n = unat (pf_data_size f) in
      if ltype = PB_LTYPE_SUBMESSAGE then (case pf_ptr f of Pb_submsg j \<Rightarrow> sub j n | _ \<Rightarrow> False)
      else (case pf_ptr f of Pb_submsg _ \<Rightarrow> False | _ \<Rightarrow> True) \<and>
        (if ltype = PB_LTYPE_BOOL then 1 \<le> n
         else if ltype = PB_LTYPE_FIXED32 then 4 \<le> n
         else if ltype = PB_LTYPE_FIXED64 then 8 \<le> n
         else ltype \<in> {PB_LTYPE_VARINT, PB_LTYPE_UVARINT, PB_LTYPE_SVARINT, PB_LTYPE_BYTES, PB_LTYPE_STRING, PB_LTYPE_FIXED_LENGTH_BYTES}))"

definition static_field :: "(nat \<Rightarrow> nat \<Rightarrow> bool) \<Rightarrow> pb_field_t list \<Rightarrow> nat \<Rightarrow> nat \<Rightarrow> bool" where
  "static_field sub fs sz i \<longleftrightarrow>
     PB_ATYPE (pf_type (fs ! i)) = PB_ATYPE_STATIC \<and> data_off fs i + extent (fs ! i) \<le> sz \<and> extent (fs ! i) < 2 ^ 32 \<and>
     cell_ok fs sz i \<and> size_ok sub (fs ! i)"

primrec static_msg :: "nat \<Rightarrow> 'z pb_types_scheme \<Rightarrow> pb_field_t list \<Rightarrow> nat \<Rightarrow> bool" where
  "static_msg 0 E fs sz = False"
| "static_msg (Suc d) E fs sz =
     (tags_ok fs \<and> 0 < sz \<and> list_all (static_field (\<lambda>j n. static_msg d E (pt_fields E j) n) fs sz) [0..<length fs])"

lemma static_msgD:
  assumes "static_msg d E fs sz"
  obtains d' where "d = Suc d'" and "tags_ok fs" and "0 < sz"
    and "\<And>i. i < length fs \<Longrightarrow> static_field (\<lambda>j n. static_msg d' E (pt_fields E j) n) fs sz i"
  using assms by (cases d) (auto simp: list_all_iff)

lemma PB_HTYPE_cases:
  "PB_HTYPE t = PB_HTYPE_REQUIRED \<or> PB_HTYPE t = PB_HTYPE_OPTIONAL \<or> PB_HTYPE t = PB_HTYPE_REPEATED \<or> PB_HTYPE t = PB_HTYPE_ONEOF"
  by (rule u8_all) code_simp

text \<open>A walk over all fields of a message, when every step returns and keeps a relation.\<close>

lemma do_fields_invariant:
  assumes "tags_ok fs" and "0 < dest" and "i < length fs" and "P i st"
    and "\<And>j st. i \<le> j \<Longrightarrow> j < length fs \<Longrightarrow> P j st \<Longrightarrow> \<exists>st'. body (iter_nth fs dest j) st = Some (True, st') \<and> P (Suc j) st'"
  shows "\<exists>st'. do_fields body (iter_nth fs dest i) st = Some (True, st') \<and> P (length fs) st'"
  using assms(3-5)
proof (induction "length fs - i" arbitrary: i st)
  case (Suc k)
  obtain st1 where st1: "body (iter_nth fs dest i) st = Some (True, st1)" "P (Suc i) st1" using Suc.prems(3) [OF order.refl Suc.prems(1,2)] by blast
  note nx = iter_next [OF assms(1,2) Suc.prems(1)]
  show ?case
  proof (cases "Suc i < length fs")
    case True
    have "k = length fs - Suc i" using Suc.hyps(2) by simp
    then have "\<exists>st'. do_fields body (iter_nth fs dest (Suc i)) st1 = Some (True, st') \<and> P (length fs) st'"
      by (rule Suc.hyps(1)) (use True st1 Suc.prems(3) in simp_all)
    then show ?thesis using st1(1) nx True by (subst do_fields.simps) simp
  next
    case False
    then have "Suc i = length fs" using Suc.prems(1) by simp
    then show ?thesis using st1 nx False by (subst do_fields.simps) auto
  qed
qed simp

lemma for_fields_invariant:
  assumes "tags_ok fs" and "0 < dest" and "P h"
    and "\<And>j h. j < length fs \<Longrightarrow> P h \<Longrightarrow> \<exists>h'. body (iter_nth fs dest j) h = Some h' \<and> P h'"
  shows "\<exists>h'. for_fields body fs dest h = Some h' \<and> P h'"
proof (cases "fs = []")
  case True
  then have "\<not> fst (pb_field_iter_begin fs dest)" by (rule iter_begin(2) [OF assms(1,2)])
  then show ?thesis using assms(3) by (auto simp: for_fields_def split: prod.splits bool.splits)
next
  case False
  then have b: "pb_field_iter_begin fs dest = (True, iter_nth fs dest 0)" by (rule iter_begin(1) [OF assms(1,2)])
  have "\<exists>h'. do_fields (\<lambda>iter h. always (body iter h)) (iter_nth fs dest 0) h = Some (True, h') \<and> P h'"
  proof (rule do_fields_invariant [OF assms(1,2)])
    show "\<exists>st'. always (body (iter_nth fs dest j) st) = Some (True, st') \<and> P st'" if "j < length fs" "P st" for j st
      using assms(4) [OF that] by (auto simp: always_def)
  qed (use False assms(3) in auto)
  then show ?thesis using b by (auto simp: for_fields_def)
qed

section \<open>Defaults\<close>

definition same_off :: "addr set \<Rightarrow> pb_heap \<Rightarrow> pb_heap \<Rightarrow> bool" where
  "same_off A h h' \<longleftrightarrow> agree_off A (hp_mem h) (hp_mem h') \<and> hp_objects h' = hp_objects h"

lemma same_off_refl [simp, intro]: "same_off A h h"
  by (simp add: same_off_def)

lemma same_off_trans [trans]: "same_off A h h' \<Longrightarrow> same_off A h' h'' \<Longrightarrow> same_off A h h''"
  by (auto simp: same_off_def intro: agree_off_trans)

lemma same_off_mono: "same_off A h h' \<Longrightarrow> A \<subseteq> B \<Longrightarrow> same_off B h h'"
  by (auto simp: same_off_def intro: agree_off_mono)

lemma same_off_store: "span p (length bs) \<subseteq> A \<Longrightarrow> same_off A h (hstore h p bs)"
  by (simp add: same_off_def agree_off_mstore)

lemma within_same_off: "within A s h (ok, h', s') \<longleftrightarrow> same_off A h h' \<and> forward s s'"
  by (auto simp: within_def same_off_def)

lemma field_span:
  assumes "static_field sub fs sz i" and "k \<le> extent (fs ! i)"
  shows "span (dest + data_off fs i) k \<subseteq> span dest sz"
  using assms by (intro span_mono) (simp_all add: static_field_def)

lemma cell_span:
  assumes "static_field sub fs sz i" and "PB_HTYPE (pf_type (fs ! i)) = PB_HTYPE_REPEATED \<or> PB_HTYPE (pf_type (fs ! i)) = PB_HTYPE_ONEOF"
  shows "span (nat (int dest + size_off fs i)) 4 \<subseteq> span dest sz"
  using assms by (intro span_mono) (auto simp: static_field_def cell_ok_def Let_def pb_htypes)

lemma has_span:
  assumes "static_field sub fs sz i" and "PB_HTYPE (pf_type (fs ! i)) = PB_HTYPE_OPTIONAL" and "nat (int dest + size_off fs i) \<noteq> dest + data_off fs i"
  shows "span (nat (int dest + size_off fs i)) 1 \<subseteq> span dest sz"
  using assms by (intro span_mono) (auto simp: static_field_def cell_ok_def Let_def pb_htypes)

lemma static_not_extension: "static_field sub fs sz i \<Longrightarrow> PB_LTYPE (pf_type (fs ! i)) \<noteq> PB_LTYPE_EXTENSION"
  by (auto simp: static_field_def size_ok_def Let_def pb_ltypes split: if_splits)

lemma init_data_ok:
  assumes f: "static_field (\<lambda>j n. static_msg d E (pt_fields E j) n) fs sz i" "i < length fs" "0 < dest"
    and "PB_HTYPE (pf_type (fs ! i)) \<noteq> PB_HTYPE_REPEATED"
    and sub: "\<And>gs n p h. static_msg d E gs n \<Longrightarrow> 0 < p \<Longrightarrow> \<exists>h'. for_fields body gs p h = Some h' \<and> same_off (span p n) h h'"
  shows "\<exists>h'. init_data E body (iter_nth fs dest i) h = Some h' \<and> same_off (span dest sz) h h'"
proof -
  let ?f = "fs ! i" and ?p = "dest + data_off fs i"
  have e: "extent ?f = unat (pf_data_size ?f)" using assms(4) by (simp add: extent_def)
  note sp = field_span [OF f(1), of _ dest, unfolded e]
  show ?thesis
  proof (cases "PB_LTYPE (pf_type ?f) = PB_LTYPE_SUBMESSAGE")
    case True
    then obtain j where j: "pf_ptr ?f = Pb_submsg j" "static_msg d E (pt_fields E j) (unat (pf_data_size ?f))"
      using f(1) by (auto simp: static_field_def size_ok_def Let_def split: pb_ptr.splits)
    from sub [OF j(2), of ?p h] f(3) obtain h' where h': "for_fields body (pt_fields E j) ?p h = Some h'" "same_off (span ?p (unat (pf_data_size ?f))) h h'"
      by auto
    then show ?thesis using True j(1) f(2) same_off_mono [OF h'(2) sp] by (auto simp: init_data_def Let_def)
  next
    case False
    have "same_off (span dest sz) h (hstore h ?p bs)" if "length bs \<le> unat (pf_data_size ?f)" for bs
      by (intro same_off_store sp that)
    then show ?thesis using False f(1,2)
      by (auto simp: init_data_def Let_def static_field_def size_ok_def split: pb_ptr.splits)
  qed
qed

lemma set_to_default_ok:
  "static_msg d E fs sz \<Longrightarrow> d \<le> n \<Longrightarrow> 0 < dest \<Longrightarrow> \<exists>h'. pb_message_set_to_defaults n E fs dest h = Some h' \<and> same_off (span dest sz) h h'"
proof (induction n arbitrary: d fs sz dest h)
  case (Suc n)
  from Suc.prems(1) obtain d' where d': "d = Suc d'" "tags_ok fs"
    "\<And>i. i < length fs \<Longrightarrow> static_field (\<lambda>j n. static_msg d' E (pt_fields E j) n) fs sz i" by (rule static_msgD) blast
  have sub: "\<exists>h'. for_fields (pb_field_set_to_default n E) gs p h = Some h' \<and> same_off (span p k) h h'"
    if "static_msg d' E gs k" "0 < p" for gs k p h
    using Suc.IH [OF that(1) _ that(2)] Suc.prems(2) d'(1) by (simp add: pb_message_set_to_defaults_def)
  have "\<exists>h'. pb_field_set_to_default (Suc n) E (iter_nth fs dest i) h = Some h' \<and> same_off (span dest sz) h h'" if i: "i < length fs" for i h
  proof -
    note f = d'(3) [OF i]
    let ?t = "pf_type (fs ! i)" and ?q = "nat (int dest + size_off fs i)"
    have a: "PB_ATYPE ?t = PB_ATYPE_STATIC" using f by (simp add: static_field_def)
    note x = static_not_extension [OF f]
    show ?thesis
    proof (cases "PB_HTYPE ?t = PB_HTYPE_REPEATED \<or> PB_HTYPE ?t = PB_HTYPE_ONEOF")
      case True
      then have "same_off (span dest sz) h (hstore h ?q (le_bytes 4 0))" using cell_span [OF f] by (intro same_off_store) simp
      then show ?thesis using True i a x by (auto simp: Let_def pb_htypes)
    next
      case False
      then have nr: "PB_HTYPE ?t \<noteq> PB_HTYPE_REPEATED" by simp
      note init = init_data_ok [OF f i Suc.prems(3) nr sub]
      show ?thesis
      proof (cases "PB_HTYPE ?t = PB_HTYPE_OPTIONAL \<and> ?q \<noteq> dest + data_off fs i")
        case True
        then have s: "same_off (span dest sz) h (hstore h ?q [0])" using has_span [OF f] by (intro same_off_store) simp
        from init [of "hstore h ?q [0]"] show ?thesis using True i a x same_off_trans [OF s] by (auto simp: Let_def)
      next
        case b: False
        from init [of h] show ?thesis using False b i a x by (auto simp: Let_def)
      qed
    qed
  qed
  then have step: "\<exists>h''. pb_field_set_to_default (Suc n) E (iter_nth fs dest i) h' = Some h'' \<and> same_off (span dest sz) h h''"
    if "i < length fs" "same_off (span dest sz) h h'" for i h'
    using that same_off_trans by blast
  show ?case unfolding pb_message_set_to_defaults_def
    by (rule for_fields_invariant [OF d'(2) Suc.prems(3)]) (use step in auto)
qed simp

section \<open>Releasing\<close>

text \<open>A message that holds no pointers has nothing to release.\<close>

lemma release_fields_ok:
  assumes "tags_ok fs" and "0 < dest" and "\<And>i. i < length fs \<Longrightarrow> body (iter_nth fs dest i) h = Some h"
  shows "release_fields body fs dest h = Some h"
  using for_fields_invariant [OF assms(1,2), of "\<lambda>h'. h' = h" h body] assms(2,3) by (simp add: release_fields_def)

lemma release_items_ok:
  assumes "\<And>p. 0 < p \<Longrightarrow> release_fields body fs p h = Some h" and "0 < p"
  shows "release_items body fs k c p h = Some h"
  using assms(2) by (induction c arbitrary: p) (simp_all add: assms(1))

lemma release_field_ok:
  "static_msg d E fs sz \<Longrightarrow> d \<le> n \<Longrightarrow> 0 < dest \<Longrightarrow> i < length fs \<Longrightarrow> pb_release_single_field n E (iter_nth fs dest i) h = Some h"
proof (induction n arbitrary: d fs sz dest i)
  case (Suc n)
  from Suc.prems(1) obtain d' where d': "d = Suc d'" "tags_ok fs"
    "\<And>i. i < length fs \<Longrightarrow> static_field (\<lambda>j n. static_msg d' E (pt_fields E j) n) fs sz i" by (rule static_msgD) blast
  let ?f = "fs ! i" and ?p = "dest + data_off fs i"
  note f = d'(3) [OF Suc.prems(4)]
  have a: "PB_ATYPE (pf_type ?f) = PB_ATYPE_STATIC" using f by (simp add: static_field_def)
  have sub: "release_fields (pb_release_single_field n E) gs p h = Some h" if "static_msg d' E gs k" "0 < p" for gs k p
  proof (rule release_fields_ok)
    show "tags_ok gs" using that(1) by (rule static_msgD)
  qed (use that Suc.IH [OF that(1)] Suc.prems(2) d'(1) in simp_all)
  show ?case
  proof (cases "PB_LTYPE (pf_type ?f) = PB_LTYPE_SUBMESSAGE")
    case True
    then obtain j where j: "pf_ptr ?f = Pb_submsg j" "static_msg d' E (pt_fields E j) (unat (pf_data_size ?f))"
      using f by (auto simp: static_field_def size_ok_def Let_def split: pb_ptr.splits)
    have "release_items (pb_release_single_field n E) (pt_fields E j) k c ?p h = Some h" for k c
      by (rule release_items_ok) (use sub [OF j(2)] Suc.prems(3) in simp_all)
    then show ?thesis using True j(1) a Suc.prems(3,4) static_not_extension [OF f] by (simp add: Let_def pb_atypes)
  next
    case False
    then show ?thesis using a Suc.prems(4) static_not_extension [OF f] by (simp add: Let_def pb_atypes)
  qed
qed simp

lemma release_ok: "static_msg d E fs sz \<Longrightarrow> d \<le> n \<Longrightarrow> 0 < dest \<Longrightarrow> pb_release n E fs dest h = Some h"
  unfolding pb_release_def by (rule release_fields_ok) (auto elim: static_msgD intro: release_field_ok)

section \<open>Static fields\<close>

lemma size_okD:
  assumes "size_ok sub f" and "PB_LTYPE (pf_type f) \<noteq> PB_LTYPE_SUBMESSAGE"
  shows "PB_LTYPE (pf_type f) = PB_LTYPE_BOOL \<and> 1 \<le> unat (pf_data_size f) \<or>
    PB_LTYPE (pf_type f) = PB_LTYPE_FIXED32 \<and> 4 \<le> unat (pf_data_size f) \<or>
    PB_LTYPE (pf_type f) = PB_LTYPE_FIXED64 \<and> 8 \<le> unat (pf_data_size f) \<or>
    PB_LTYPE (pf_type f) \<in> {PB_LTYPE_VARINT, PB_LTYPE_UVARINT, PB_LTYPE_SVARINT, PB_LTYPE_BYTES, PB_LTYPE_STRING, PB_LTYPE_FIXED_LENGTH_BYTES}"
  using assms unfolding size_ok_def Let_def by (auto split: if_splits)

lemma decoders_within:
  assumes "honest s" and "PB_ATYPE (pf_type f) = PB_ATYPE_STATIC" and "size_ok sub f" and "span p (unat (pf_data_size f)) \<subseteq> A"
    and "PB_LTYPE (pf_type f) = PB_LTYPE_SUBMESSAGE \<Longrightarrow> \<exists>r. submessage s f p h = Some r \<and> within A s h r"
  shows "\<exists>r. PB_DECODERS R submessage (PB_LTYPE (pf_type f)) s f p h = Some r \<and> within A s h r"
proof (cases "PB_LTYPE (pf_type f) = PB_LTYPE_SUBMESSAGE")
  case True
  then show ?thesis using assms(5) by (simp add: PB_DECODERS_def pb_ltypes)
next
  case False
  have sp: "span p k \<subseteq> A" if "k \<le> unat (pf_data_size f)" for k
    using span_mono [of p p k "unat (pf_data_size f)"] that assms(4) by auto
  note sc = within_scalars [OF assms(1)] within_string [OF assms(1,2,4)] within_fixed_length [OF assms(1,4)]
  from size_okD [OF assms(3) False] show ?thesis
    by (elim disjE conjE insertE emptyE; simp only: PB_DECODERS_def pb_ltypes; simp add: sc sp assms(4))
qed

lemma packable_left:
  assumes "PB_DECODERS R submessage t s f p h = Some (True, h', s')" and "t \<le> PB_LTYPE_LAST_PACKABLE"
  shows "is_bytes_left s' < is_bytes_left s"
proof -
  have "t \<le> 5 \<longrightarrow> t \<in> {0, 1, 2, 3, 4, 5}" for t :: u8 by (rule u8_all) code_simp
  then have "t \<in> {0, 1, 2, 3, 4, 5}" using assms(2) by (simp add: PB_LTYPE_LAST_PACKABLE_def)
  then show ?thesis using assms(1)
    by (elim insertE emptyE)
      (auto simp: PB_DECODERS_def pb_ltypes pb_dec_bool_def pb_dec_varint_def pb_dec_uvarint_def pb_dec_svarint_def pb_dec_fixed32_def
        pb_dec_fixed64_def Let_def split: option.splits prod.splits if_splits
        dest: varint32_left varint_left svarint_left fixed32_left fixed64_left)
qed

definition field_within :: "addr set \<Rightarrow> 's pb_istream_t \<Rightarrow> pb_heap \<Rightarrow> 's field_result \<Rightarrow> bool" where
  "field_within A s h r \<longleftrightarrow> (\<exists>ok c h' s'. r = Some (ok, c, h', s') \<and> same_off A h h' \<and> forward s s')"

lemma field_withinI: "r = Some (ok, c, h', s') \<Longrightarrow> same_off A h h' \<Longrightarrow> forward s s' \<Longrightarrow> field_within A s h r"
  by (auto simp: field_within_def)

lemma field_within_return: "\<exists>r. x = Some r \<and> within A s h r \<Longrightarrow> field_within A s h (return_dec c x)"
  by (auto simp: field_within_def return_dec_def within_same_off)

lemma field_within_after: "same_off A h h' \<Longrightarrow> field_within A s h' r \<Longrightarrow> field_within A s h r"
  by (auto simp: field_within_def intro: same_off_trans)

definition cell_in :: "addr set \<Rightarrow> pb_cell \<Rightarrow> bool" where
  "cell_in A c \<longleftrightarrow> (case c of In_memory a \<Rightarrow> span a 4 \<subseteq> A | On_stack _ \<Rightarrow> True)"

lemma put_count_ok:
  assumes "cell_in A c" and "put_count h c v = (h', c')"
  shows "same_off A h h'" and "cell_in A c'"
  using assms by (cases c; auto simp: cell_in_def same_off_store)+

lemma item_span:
  assumes "extent f < 2 ^ 32" and "PB_HTYPE (pf_type f) = PB_HTYPE_REPEATED" and "c < pf_array_size f"
  shows "span (item_ptr p f c) (unat (pf_data_size f)) \<subseteq> span p (extent f)"
proof -
  have "Suc (unat c) \<le> unat (pf_array_size f)" using assms(3) by (simp add: word_less_nat_alt)
  then have c: "unat (pf_data_size f) * Suc (unat c) \<le> extent f"
    unfolding extent_def if_P [OF assms(2)] by (rule mult_le_mono2)
  then have "unat (pf_data_size f) * unat c < 2 ^ 32" using assms(1) by (auto intro: le_less_trans)
  then have "unat (pf_data_size f * c) = unat (pf_data_size f) * unat c" by (simp add: unat_word_ariths)
  then show ?thesis using c by (intro span_mono) (simp_all add: item_ptr_def)
qed

lemma static_packed_loop_ok:
  assumes f: "extent f < 2 ^ 32" "PB_HTYPE (pf_type f) = PB_HTYPE_REPEATED" "PB_ATYPE (pf_type f) = PB_ATYPE_STATIC" "size_ok sub f"
      "span p (extent f) \<subseteq> A" "PB_LTYPE (pf_type f) \<le> PB_LTYPE_LAST_PACKABLE"
  shows "is_bytes_left s < n \<Longrightarrow> honest s \<Longrightarrow> cell_in A c \<Longrightarrow>
    field_within A s h (static_packed_loop n (PB_DECODERS R submessage (PB_LTYPE (pf_type f))) f p c s h)"
proof (induction n arbitrary: s c h)
  case (Suc n)
  let ?func = "PB_DECODERS R submessage (PB_LTYPE (pf_type f))"
  show ?case
  proof (cases "is_bytes_left s > 0 \<and> get_count (hp_mem h) c < pf_array_size f")
    case True
    let ?q = "item_ptr p f (get_count (hp_mem h) c)"
    have "span ?q (unat (pf_data_size f)) \<subseteq> A" using item_span [OF f(1,2)] True f(5) by blast
    moreover have "PB_LTYPE (pf_type f) \<noteq> PB_LTYPE_SUBMESSAGE" using f(6) by (auto simp: pb_ltypes)
    ultimately obtain ok h1 s1 where r: "?func s f ?q h = Some (ok, h1, s1)" "same_off A h h1" "forward s s1"
      using decoders_within [OF Suc.prems(2) f(3,4), of ?q A submessage h R] by (auto simp: within_same_off)
    show ?thesis
    proof (cases ok)
      case ok: True
      obtain h2 c2 where h2: "put_count h1 c (get_count (hp_mem h1) c + 1) = (h2, c2)" by fastforce
      note pc = put_count_ok [OF Suc.prems(3) h2]
      have "is_bytes_left s1 < is_bytes_left s" using packable_left [of R submessage _ s f ?q h h1 s1] r(1) ok f(6) by simp
      moreover have "honest s1" using r(3) Suc.prems(2) by (simp add: forward_def)
      ultimately have "field_within A s1 h2 (static_packed_loop n ?func f p c2 s1 h2)" using Suc.IH [of s1 c2 h2] Suc.prems(1) pc(2) by simp
      then obtain ok' c' h' s' where "static_packed_loop n ?func f p c2 s1 h2 = Some (ok', c', h', s')" "same_off A h2 h'" "forward s1 s'"
        by (auto simp: field_within_def)
      moreover have "static_packed_loop (Suc n) ?func f p c s h = static_packed_loop n ?func f p c2 s1 h2"
        using True r(1) ok h2 by simp
      ultimately show ?thesis using r(2,3) pc(1) by (auto simp: field_within_def intro: same_off_trans forward_trans)
    qed (use True r in \<open>auto intro: field_withinI\<close>)
  qed (auto intro: field_withinI)
qed simp

lemma decode_static_packed_ok:
  assumes "extent f < 2 ^ 32" "PB_HTYPE (pf_type f) = PB_HTYPE_REPEATED" "PB_ATYPE (pf_type f) = PB_ATYPE_STATIC" "size_ok sub f"
      "span p (extent f) \<subseteq> A" "PB_LTYPE (pf_type f) \<le> PB_LTYPE_LAST_PACKABLE" and "honest s" "cell_in A c"
  shows "field_within A s h (decode_static_packed (PB_DECODERS R submessage (PB_LTYPE (pf_type f))) f p c s h)"
proof -
  obtain r s1 where r: "pb_make_string_substream s = (r, s1)" by fastforce
  note fw = forward_make_substream [OF r]
  show ?thesis
  proof (cases r)
    case None
    then show ?thesis using r fw(1) by (intro field_withinI) (auto simp: decode_static_packed_def)
  next
    case (Some sub1)
    then have hs: "honest sub1" using fw(2) assms(7) by (simp add: forward_def)
    from static_packed_loop_ok [OF assms(1-6) lessI hs assms(8), of h R submessage] obtain status c1 h1 sub2 where
      l: "static_packed_loop (Suc (is_bytes_left sub1)) (PB_DECODERS R submessage (PB_LTYPE (pf_type f))) f p c sub1 h = Some (status, c1, h1, sub2)"
        "same_off A h h1" "forward sub1 sub2" unfolding field_within_def by blast
    obtain ok s2 where cl: "pb_close_string_substream s1 sub2 = (ok, s2)" by fastforce
    have "honest sub2" using l(3) hs by (simp add: forward_def)
    then have "forward s s2" using forward_close_substream [OF cl] fw(1) by (blast intro: forward_trans)
    moreover have "decode_static_packed (PB_DECODERS R submessage (PB_LTYPE (pf_type f))) f p c s h =
        (if is_bytes_left sub2 \<noteq> 0 then Some (False, c1, h1, is_fail s1 ''array overflow'') else Some (ok \<and> status, c1, h1, s2))"
      unfolding decode_static_packed_def r Some prod.case option.case l(1) cl by (cases ok) simp_all
    ultimately show ?thesis using l(2) fw(1) by (cases "is_bytes_left sub2 = 0") (auto simp: field_within_def)
  qed
qed

lemma decode_static_entry_ok:
  assumes "extent f < 2 ^ 32" "PB_HTYPE (pf_type f) = PB_HTYPE_REPEATED" "span p (extent f) \<subseteq> A" "cell_in A c"
    and func: "\<And>q h. span q (unat (pf_data_size f)) \<subseteq> A \<Longrightarrow> p \<le> q \<Longrightarrow> \<exists>r. func s f q h = Some r \<and> within A s h r"
  shows "field_within A s h (decode_static_entry func f p c s h)"
proof -
  let ?c = "get_count (hp_mem h) c"
  obtain h1 c1 where h1: "put_count h c (?c + 1) = (h1, c1)" by fastforce
  note pc = put_count_ok [OF assms(4) h1]
  show ?thesis
  proof (cases "?c \<ge> pf_array_size f")
    case True
    then show ?thesis using h1 pc(1) by (intro field_withinI) (auto simp: decode_static_entry_def Let_def)
  next
    case False
    then have "span (item_ptr p f ?c) (unat (pf_data_size f)) \<subseteq> A" using item_span [OF assms(1,2)] assms(3) by (simp add: not_le) blast
    from func [OF this, of h1] have "field_within A s h1 (return_dec c1 (func s f (item_ptr p f ?c) h1))"
      by (intro field_within_return) (simp add: item_ptr_def)
    then show ?thesis using field_within_after [OF pc(1)] h1 False by (simp add: decode_static_entry_def Let_def)
  qed
qed

text \<open>What is needed of the decoder of submessages nested at most \<open>d\<close> deep, on at most \<open>m\<close> bytes.\<close>

definition sub_ok :: "nat \<Rightarrow> 'z pb_types_scheme \<Rightarrow> nat \<Rightarrow> 's pb_dec \<Rightarrow> bool" where
  "sub_ok d E m submessage \<longleftrightarrow>
     (\<forall>s f p h. PB_LTYPE (pf_type f) = PB_LTYPE_SUBMESSAGE \<longrightarrow> size_ok (\<lambda>j n. static_msg d E (pt_fields E j) n) f \<longrightarrow> 0 < p \<longrightarrow> honest s \<longrightarrow>
        is_bytes_left s \<le> m \<longrightarrow> (\<exists>r. submessage s f p h = Some r \<and> within (span p (unat (pf_data_size f))) s h r))"

lemma static_func_ok:
  assumes f: "static_field (\<lambda>j n. static_msg d E (pt_fields E j) n) fs sz i"
    and "sub_ok d E m submessage" and "honest s" and "is_bytes_left s \<le> m"
    and "0 < q" and "span q (unat (pf_data_size (fs ! i))) \<subseteq> A"
  shows "\<exists>r. PB_DECODERS R submessage (PB_LTYPE (pf_type (fs ! i))) s (fs ! i) q h = Some r \<and> within A s h r"
proof (rule decoders_within)
  assume "PB_LTYPE (pf_type (fs ! i)) = PB_LTYPE_SUBMESSAGE"
  then have "\<exists>r. submessage s (fs ! i) q h = Some r \<and> within (span q (unat (pf_data_size (fs ! i)))) s h r"
    using assms(2-5) f unfolding sub_ok_def static_field_def by blast
  then show "\<exists>r. submessage s (fs ! i) q h = Some r \<and> within A s h r" using within_mono assms(6) by blast
qed (use assms f in \<open>auto simp: static_field_def\<close>)

lemma oneof_init_ok:
  assumes f: "static_field (\<lambda>j n. static_msg d E (pt_fields E j) n) fs sz i" and "d \<le> n" and "0 < dest"
    and "PB_HTYPE (pf_type (fs ! i)) \<noteq> PB_HTYPE_REPEATED"
  shows "\<exists>h'. oneof_init n E (fs ! i) (dest + data_off fs i) c h = Some h' \<and> same_off (span dest sz) h h'"
proof (cases "PB_LTYPE (pf_type (fs ! i)) = PB_LTYPE_SUBMESSAGE")
  case True
  let ?p = "dest + data_off fs i" and ?n = "unat (pf_data_size (fs ! i))"
  have e: "extent (fs ! i) = ?n" using assms(4) by (simp add: extent_def)
  note sp = field_span [OF f, of _ dest, unfolded e]
  obtain j where j: "pf_ptr (fs ! i) = Pb_submsg j" "static_msg d E (pt_fields E j) ?n"
    using f True by (auto simp: static_field_def size_ok_def Let_def split: pb_ptr.splits)
  let ?h = "hstore h ?p (replicate ?n 0)"
  have "same_off (span dest sz) h ?h" using sp by (intro same_off_store) simp
  moreover obtain h' where h': "pb_message_set_to_defaults n E (pt_fields E j) ?p ?h = Some h'" "same_off (span ?p ?n) ?h h'"
    using set_to_default_ok [OF j(2) assms(2), of ?p ?h] assms(3) by auto
  ultimately have "same_off (span dest sz) h h'" using same_off_mono [OF h'(2) sp] by (blast intro: same_off_trans)
  then show ?thesis using j(1) h'(1) True by (simp add: oneof_init_def)
qed (simp add: oneof_init_def)

lemma decode_static_field_ok:
  assumes f: "static_field (\<lambda>j n. static_msg d E (pt_fields E j) n) fs sz i" "i < length fs"
    and "d \<le> n" and "0 < dest" and sub: "sub_ok d E m submessage" "honest s" "is_bytes_left s \<le> m"
    and c: "c = In_memory (nat (int dest + size_off fs i)) \<or> PB_HTYPE (pf_type (fs ! i)) = PB_HTYPE_REPEATED \<and> (\<exists>v. c = On_stack v)"
  shows "field_within (span dest sz) s h (decode_static_field n E submessage wt (iter_nth fs dest i) c s h)"
proof -
  let ?f = "fs ! i" and ?p = "dest + data_off fs i" and ?A = "span dest sz" and ?t = "pf_type (fs ! i)"
  let ?func = "PB_DECODERS (de_realloc E) submessage (PB_LTYPE ?t)"
  have e: "extent ?f < 2 ^ 32" "size_ok (\<lambda>j n. static_msg d E (pt_fields E j) n) ?f" "PB_ATYPE ?t = PB_ATYPE_STATIC"
    using f(1) by (simp_all add: static_field_def)
  note func = static_func_ok [OF f(1) sub]
  have one: "field_within ?A s h1 (return_dec c1 (?func s ?f ?p h1))" if "PB_HTYPE ?t \<noteq> PB_HTYPE_REPEATED" for c1 h1
    using field_span [OF f(1), of "unat (pf_data_size ?f)" dest] that \<open>0 < dest\<close>
    by (intro field_within_return func) (simp_all add: extent_def)
  consider "PB_HTYPE ?t = PB_HTYPE_REQUIRED" | "PB_HTYPE ?t = PB_HTYPE_OPTIONAL" | "PB_HTYPE ?t = PB_HTYPE_REPEATED" | "PB_HTYPE ?t = PB_HTYPE_ONEOF"
    using PB_HTYPE_cases by blast
  then show ?thesis
  proof cases
    case 1
    then show ?thesis using one [of h c] f(2) by (simp add: decode_static_field_def Let_def pb_htypes)
  next
    case 2
    let ?q = "nat (int dest + size_off fs i)"
    have c2: "c = In_memory ?q" using c 2 by (auto simp: pb_htypes)
    have "same_off ?A h (if ?q \<noteq> ?p then hstore h ?q [1] else h)" using has_span [OF f(1) 2, of dest]
      by (cases "?q = ?p") (simp_all add: same_off_store)
    from field_within_after [OF this one] show ?thesis using f(2) 2 c2 by (simp add: decode_static_field_def Let_def pb_htypes)
  next
    case 3
    have ci: "cell_in ?A c" using c cell_span [OF f(1)] 3 by (auto simp: cell_in_def)
    have sp: "span ?p (extent ?f) \<subseteq> ?A" by (rule field_span [OF f(1)]) simp
    show ?thesis
    proof (cases "wt = PB_WT_STRING \<and> PB_LTYPE ?t \<le> PB_LTYPE_LAST_PACKABLE")
      case True
      then have "field_within ?A s h (decode_static_packed ?func ?f ?p c s h)" by (intro decode_static_packed_ok [OF e(1) 3 e(3,2) sp _ sub(2) ci]) simp
      then show ?thesis using f(2) 3 True by (simp add: decode_static_field_def Let_def pb_htypes)
    next
      case False
      have "field_within ?A s h (decode_static_entry ?func ?f ?p c s h)"
        by (intro decode_static_entry_ok [OF e(1) 3 sp ci] func) (use \<open>0 < dest\<close> in auto)
      then show ?thesis using f(2) 3 False by (auto simp: decode_static_field_def Let_def pb_htypes)
    qed
  next
    case 4
    then have nr: "PB_HTYPE ?t \<noteq> PB_HTYPE_REPEATED" by (simp add: pb_htypes)
    then have c4: "c = In_memory (nat (int dest + size_off fs i))" "cell_in ?A c" using c cell_span [OF f(1)] 4 by (auto simp: cell_in_def)
    obtain h1 where h1: "oneof_init n E ?f ?p c h = Some h1" "same_off ?A h h1" using oneof_init_ok [OF f(1) assms(3,4) nr] by blast
    obtain h2 c2 where h2: "put_count h1 c (pf_tag ?f) = (h2, c2)" by fastforce
    have "same_off ?A h h2" using h1(2) put_count_ok(1) [OF c4(2) h2] by (rule same_off_trans)
    from field_within_after [OF this one [OF nr]] show ?thesis using f(2) 4 h1(1) h2 by (simp add: decode_static_field_def Let_def pb_htypes)
  qed
qed

end
