(* ===== verification/Pb_Types.thy ===== *)
theory Pb_Types
  imports Pb_Static
begin

text \<open>
  Message types of Firestore, as the macros of \<^verbatim>\<open>nanopb/pb.h\<close> describe them: time stamps, the precondition of a write, positions and the
  empty message. The offsets are those of 64-bit targets. They serve as examples of what is proved of all types, and show that the hypotheses are
  met by descriptors of the program.
\<close>

text \<open>
  The macros, with the offset, the delta and the size they compute from the structure as arguments.
\<close>

definition PB_SINGULAR_STATIC :: "u32 \<Rightarrow> u32 \<Rightarrow> u8 \<Rightarrow> u32 \<Rightarrow> pb_ptr \<Rightarrow> pb_field_t" where
  "PB_SINGULAR_STATIC tag fd ltype membersize ptr =
     \<lparr>pf_tag = tag, pf_type = PB_ATYPE_STATIC OR PB_HTYPE_OPTIONAL OR ltype, pf_data_offset = fd, pf_size_offset = 0,
      pf_data_size = membersize, pf_array_size = 0, pf_ptr = ptr\<rparr>"

definition PB_ANONYMOUS_ONEOF_STATIC :: "u32 \<Rightarrow> u32 \<Rightarrow> u32 \<Rightarrow> u8 \<Rightarrow> u32 \<Rightarrow> pb_ptr \<Rightarrow> pb_field_t" where
  "PB_ANONYMOUS_ONEOF_STATIC tag fd delta ltype membersize ptr =
     \<lparr>pf_tag = tag, pf_type = PB_ATYPE_STATIC OR PB_HTYPE_ONEOF OR ltype, pf_data_offset = fd, pf_size_offset = delta,
      pf_data_size = membersize, pf_array_size = 0, pf_ptr = ptr\<rparr>"

definition PB_REPEATED_FIXED_COUNT :: "u32 \<Rightarrow> u32 \<Rightarrow> u8 \<Rightarrow> u32 \<Rightarrow> u32 \<Rightarrow> pb_ptr \<Rightarrow> pb_field_t" where
  "PB_REPEATED_FIXED_COUNT tag fd ltype membersize arraysize ptr =
     \<lparr>pf_tag = tag, pf_type = PB_ATYPE_STATIC OR PB_HTYPE_REPEATED OR ltype, pf_data_offset = fd, pf_size_offset = 0,
      pf_data_size = membersize, pf_array_size = arraysize, pf_ptr = ptr\<rparr>"

text \<open>\<^verbatim>\<open>int64_t seconds; int32_t nanos;\<close>\<close>

definition google_protobuf_Timestamp_fields :: "pb_field_t list" where
  "google_protobuf_Timestamp_fields =
     [PB_SINGULAR_STATIC 1 0 PB_LTYPE_VARINT 8 Pb_null, PB_SINGULAR_STATIC 2 0 PB_LTYPE_VARINT 4 Pb_null]"

text \<open>\<^verbatim>\<open>pb_size_t which_condition_type; union { bool exists; google_protobuf_Timestamp update_time; };\<close> with the union at offset 8.\<close>

definition google_firestore_v1_Precondition_fields :: "pb_field_t list" where
  "google_firestore_v1_Precondition_fields =
     [PB_ANONYMOUS_ONEOF_STATIC 1 8 (- 8) PB_LTYPE_BOOL 1 Pb_null, PB_ANONYMOUS_ONEOF_STATIC 2 PB_SIZE_MAX (- 8) PB_LTYPE_SUBMESSAGE 16 (Pb_submsg 0)]"

text \<open>\<^verbatim>\<open>double latitude; double longitude;\<close>\<close>

definition google_type_LatLng_fields :: "pb_field_t list" where
  "google_type_LatLng_fields =
     [PB_SINGULAR_STATIC 1 0 PB_LTYPE_FIXED64 8 Pb_null, PB_SINGULAR_STATIC 2 0 PB_LTYPE_FIXED64 8 Pb_null]"

text \<open>\<^verbatim>\<open>char dummy_field;\<close>\<close>

definition google_protobuf_Empty_fields :: "pb_field_t list" where
  "google_protobuf_Empty_fields = []"

text \<open>The arrays by number, and an environment without callbacks and extensions.\<close>

definition firestore_fields :: "nat \<Rightarrow> pb_field_t list" where
  "firestore_fields i =
     (if i = 0 then google_protobuf_Timestamp_fields else if i = 1 then google_firestore_v1_Precondition_fields
      else if i = 2 then google_type_LatLng_fields else google_protobuf_Empty_fields)"

definition firestore_dec :: "unit pb_dec_env" where
  "firestore_dec =
     \<lparr>pt_fields = firestore_fields, pt_ext_arg = (\<lambda>_. PB_LAST_FIELD), de_realloc = (\<lambda>_ _ _. None),
      de_callback = (\<lambda>_ s _ _ h. (False, h, s)), de_ext_decode = (\<lambda>_. None)\<rparr>"

lemmas firestore_defs = firestore_dec_def firestore_fields_def google_protobuf_Timestamp_fields_def google_firestore_v1_Precondition_fields_def
  google_type_LatLng_fields_def google_protobuf_Empty_fields_def PB_SINGULAR_STATIC_def PB_ANONYMOUS_ONEOF_STATIC_def pb_ltypes pb_htypes pb_atypes PB_LTYPE_def PB_HTYPE_def PB_ATYPE_def
  PB_SIZE_MAX_def
lemmas static_defs = static_field_def cell_ok_def size_ok_def extent_def tags_ok_def shares_union_def member_size_def

lemma firestore_static:
  "static_msg (Suc 0) firestore_dec google_protobuf_Timestamp_fields 16" "static_msg (Suc (Suc 0)) firestore_dec google_firestore_v1_Precondition_fields 24"
  "static_msg (Suc 0) firestore_dec google_type_LatLng_fields 16" "static_msg (Suc 0) firestore_dec google_protobuf_Empty_fields 1"
  by (simp_all add: firestore_defs static_defs Let_def)






end
