(* ===== verification/Pb_Decode_Safe.thy ===== *)
theory Pb_Decode_Safe
  imports Pb_Types
begin

text \<open>
  Decoding a message of a type without pointers, on arbitrary input: it returns, and it writes nothing outside the structure.
\<close>

section \<open>Any field\<close>

text \<open>
  Where the iterator of \<^verbatim>\<open>pb_decode_noinit\<close> can stand. In a message without fields it stays on the terminator.
\<close>

definition iter_ok :: "pb_field_t list \<Rightarrow> addr \<Rightarrow> pb_field_iter_t \<Rightarrow> bool" where
  "iter_ok fs dest it \<longleftrightarrow> (if fs = [] then it = snd (pb_field_iter_begin [] dest) else \<exists>i < length fs. it = iter_nth fs dest i)"

lemma iter_ok_nth: "i < length fs \<Longrightarrow> iter_ok fs dest (iter_nth fs dest i)"
  by (auto simp: iter_ok_def)

lemma iter_ok_begin: "tags_ok fs \<Longrightarrow> 0 < dest \<Longrightarrow> iter_ok fs dest (snd (pb_field_iter_begin fs dest))"
  using iter_begin(1) [of fs dest] by (auto simp: iter_ok_def)

lemma empty_iter:
  assumes "0 < dest"
  shows "fi_field (snd (pb_field_iter_begin [] dest)) = PB_LAST_FIELD" "fi_pData (snd (pb_field_iter_begin [] dest)) = dest"
    "fi_pos (snd (pb_field_iter_begin [] dest)) = 0" "fi_start (snd (pb_field_iter_begin [] dest)) = []"
    "pb_field_iter_next (snd (pb_field_iter_begin [] dest)) = (False, snd (pb_field_iter_begin [] dest))"
  using assms by (simp_all add: pb_field_iter_begin_def pb_field_iter_next_def fi_field_def field_at_def PB_LAST_FIELD_def Let_def)

lemma find_loop_ok:
  assumes "tags_ok fs" and "0 < dest" and "iter_ok fs dest it"
  shows "\<exists>found it'. iter_find_loop (Suc (length fs)) (fi_pos it) it wanted = Some (found, it') \<and> iter_ok fs dest it' \<and>
    (found \<longleftrightarrow> wanted (fi_field it') \<and> (\<exists>f. (f \<in> set fs \<or> fs = [] \<and> f = PB_LAST_FIELD) \<and> wanted f))"
proof (cases "fs = []")
  case True
  then show ?thesis using assms(3) empty_iter [OF assms(2)] by (auto simp: iter_ok_def iter_find_loop.simps Let_def)
next
  case False
  then obtain i where i: "i < length fs" "it = iter_nth fs dest i" using assms(3) by (auto simp: iter_ok_def)
  let ?l = "(i + (LEAST j. wanted (fs ! ((i + j) mod length fs)))) mod length fs"
  have r: "iter_find_loop (Suc (length fs)) i (iter_nth fs dest i) wanted =
      (if \<exists>j < length fs. wanted (fs ! j) then Some (True, iter_nth fs dest ?l) else Some (False, iter_nth fs dest i))"
    using find_loop_run [OF assms(1,2) i(1), of "Suc (length fs)" 0 wanted] i(1) False by (simp del: iter_find_loop.simps)
  have l: "?l < length fs" using i(1) by (intro mod_less_divisor) auto
  have "wanted (fs ! ?l)" if j: "j < length fs" "wanted (fs ! j)" for j
  proof (rule LeastI)
    show "wanted (fs ! ((i + (j + length fs - i) mod length fs) mod length fs))" using i(1) j by (simp add: mod_simps)
  qed
  then show ?thesis unfolding i(2) iter_nth_pos r using l i(1) False by (auto simp: iter_ok_nth in_set_conv_nth)
qed

lemma release_union_ok:
  assumes m: "static_msg d E fs sz" and "d \<le> n" and "0 < dest" and i: "i < length fs"
  shows "\<exists>ok it' s'. pb_release_union_field n E s (iter_nth fs dest i) h = Some (ok, it', h, s') \<and> iter_ok fs dest it' \<and>
    (ok \<longrightarrow> it' = iter_nth fs dest i) \<and> forward s s'"
proof -
  from m obtain d' where t: "tags_ok fs"
    and st: "\<And>i. i < length fs \<Longrightarrow> static_field (\<lambda>j n. static_msg d' E (pt_fields E j) n) fs sz i" by (rule static_msgD) blast
  let ?it = "iter_nth fs dest i" and ?old = "load_size (hp_mem h) (nat (int dest + size_off fs i))" and ?new = "pf_tag (fs ! i)"
  have find: "pb_field_iter_find (iter_nth fs dest j) (pf_tag (fs ! k)) = Some (True, iter_nth fs dest k)" if "j < length fs" "k < length fs" for j k
    by (rule iter_find_tag [OF t \<open>0 < dest\<close> that static_not_extension [OF st [OF that(2)]]])
  have a: "PB_ATYPE (pf_type (fs ! i)) \<noteq> PB_ATYPE_POINTER" using st [OF i] by (simp add: static_field_def pb_atypes)
  consider "?old = 0 \<or> ?old = ?new" | j where "\<not> (?old = 0 \<or> ?old = ?new)" "j < length fs" "pf_tag (fs ! j) = ?old"
    | "\<not> (?old = 0 \<or> ?old = ?new)" "\<And>k. k < length fs \<Longrightarrow> pf_tag (fs ! k) \<noteq> ?old" by blast
  then show ?thesis
  proof cases
    case 1
    then show ?thesis using i by (auto simp: pb_release_union_field_def Let_def iter_ok_nth)
  next
    case (2 j)
    have "pb_release_union_field n E s ?it h = Some (True, ?it, h, s)"
      using 2(1) i find [OF i 2(2), unfolded 2(3)] release_field_ok [OF m assms(2,3) 2(2), of h] find [OF 2(2) i] a
      by (simp add: pb_release_union_field_def Let_def)
    then show ?thesis using i by (auto simp: iter_ok_nth)
  next
    case 3
    then have none: "pb_field_iter_find ?it ?old = Some (False, ?it)"
      by (intro iter_find_absent [OF t \<open>0 < dest\<close> i]) (metis in_set_conv_nth length_map nth_map)
    have "pb_release_union_field n E s ?it h = Some (False, ?it, h, is_fail s ''invalid union tag'')"
      using 3(1) i none by (simp add: pb_release_union_field_def Let_def)
    then show ?thesis using i by (auto simp: iter_ok_nth)
  qed
qed

lemma decode_field_ok:
  assumes m: "static_msg (Suc d) E fs sz" and "Suc d \<le> n" and "0 < dest" and i: "i < length fs"
    and sub: "sub_ok d E m submessage" "honest s" "is_bytes_left s \<le> m"
    and c: "c = In_memory (nat (int dest + size_off fs i)) \<or> PB_HTYPE (pf_type (fs ! i)) = PB_HTYPE_REPEATED \<and> (\<exists>v. c = On_stack v)"
  shows "\<exists>ok it' c' h' s'. decode_field n E submessage wt (iter_nth fs dest i) c s h = Some (ok, it', c', h', s') \<and>
    iter_ok fs dest it' \<and> same_off (span dest sz) h h' \<and> forward s s'"
proof -
  have f: "static_field (\<lambda>j n. static_msg d E (pt_fields E j) n) fs sz i" using m i by (auto simp: list_all_iff)
  then have a: "PB_ATYPE (pf_type (fs ! i)) = PB_ATYPE_STATIC" by (simp add: static_field_def)
  have dn: "d \<le> n" using assms(2) by simp
  show ?thesis
  proof (cases "PB_HTYPE (pf_type (fs ! i)) = PB_HTYPE_ONEOF")
    case True
    from release_union_ok [OF m assms(2,3) i, of s h] obtain ok it' s1 where r:
      "pb_release_union_field n E s (iter_nth fs dest i) h = Some (ok, it', h, s1)" "iter_ok fs dest it'" "ok \<longrightarrow> it' = iter_nth fs dest i" "forward s s1"
      by blast
    then have s1: "honest s1" "is_bytes_left s1 \<le> m" using sub(2,3) by (auto simp: forward_def)
    show ?thesis
    proof (cases ok)
      case ok: True
      from decode_static_field_ok [OF f i dn assms(3) sub(1) s1 disjI1 [OF refl], of h wt] obtain ok' c' h' s' where
        "decode_static_field n E submessage wt (iter_nth fs dest i) (In_memory (nat (int dest + size_off fs i))) s1 h = Some (ok', c', h', s')"
        "same_off (span dest sz) h h'" "forward s1 s'" unfolding field_within_def by blast
      then show ?thesis using r ok True i a by (auto simp: decode_field_def Let_def iter_ok_nth intro: forward_trans)
    qed (use r True i in \<open>auto simp: decode_field_def\<close>)
  next
    case False
    from decode_static_field_ok [OF f i dn assms(3) sub c, of h wt] obtain ok' c' h' s' where
      "decode_static_field n E submessage wt (iter_nth fs dest i) c s h = Some (ok', c', h', s')"
      "same_off (span dest sz) h h'" "forward s s'" unfolding field_within_def by blast
    then show ?thesis using False i a by (auto simp: decode_field_def Let_def iter_ok_nth)
  qed
qed

section \<open>The loop\<close>

definition step_ok :: "pb_field_t list \<Rightarrow> addr \<Rightarrow> nat \<Rightarrow> 's dec_state \<Rightarrow> 's dec_step option \<Rightarrow> bool" where
  "step_ok fs dest sz st r \<longleftrightarrow>
     (\<exists>st'. (r = Some (Return_false st') \<or> r = Some (Break st') \<or> r = Some (Continue st')) \<and>
        iter_ok fs dest (ds_iter st') \<and> same_off (span dest sz) (ds_heap st) (ds_heap st') \<and> forward (ds_stream st) (ds_stream st'))"

lemma step_okI:
  assumes "r = Some (Return_false st') \<or> r = Some (Break st') \<or> r = Some (Continue st')" and "iter_ok fs dest (ds_iter st')"
    and "same_off (span dest sz) (ds_heap st) (ds_heap st')" and "forward (ds_stream st) (ds_stream st')"
  shows "step_ok fs dest sz st r"
  using assms unfolding step_ok_def by blast

lemma skip_unknown_ok: "iter_ok fs dest (ds_iter st) \<Longrightarrow> step_ok fs dest sz st (Some (skip_unknown wt st))"
proof -
  assume it: "iter_ok fs dest (ds_iter st)"
  obtain ok s where r: "pb_skip_field (ds_stream st) wt = (ok, s)" by fastforce
  then have "forward (ds_stream st) s" by (rule forward_skip_field)
  then show ?thesis using r it by (intro step_okI [where st' = "st\<lparr>ds_stream := s\<rparr>"]) (auto simp: skip_unknown_def split: bool.splits)
qed

lemma decode_unknown_ok:
  assumes m: "static_msg (Suc d) E fs sz" and "0 < dest" and it: "iter_ok fs dest (ds_iter st)" and "tag < - 1"
  shows "step_ok fs dest sz st (decode_unknown n E submessage tag wt st)"
proof (cases "tag < ds_extension_range_start st")
  case True
  then show ?thesis using skip_unknown_ok [OF it] by (simp add: decode_unknown_def)
next
  case False
  have t: "tags_ok fs" using m by simp
  have f: "static_field (\<lambda>j n. static_msg d E (pt_fields E j) n) fs sz i" if "i < length fs" for i using m that by (auto simp: list_all_iff)
  have nx: "PB_LTYPE (pf_type f) \<noteq> PB_LTYPE_EXTENSION" if "f \<in> set fs \<or> fs = [] \<and> f = PB_LAST_FIELD" for f
    using that static_not_extension [OF f] by (auto simp: in_set_conv_nth PB_LAST_FIELD_def PB_LTYPE_def pb_ltypes)
  have st: "fi_start (ds_iter st) = fs" using it empty_iter(4) [OF assms(2)] by (auto simp: iter_ok_def split: if_splits)
  obtain found it' where r: "find_extension_field (ds_iter st) = Some (found, it')" "iter_ok fs dest it'"
      "found \<longrightarrow> (\<exists>f. (f \<in> set fs \<or> fs = [] \<and> f = PB_LAST_FIELD) \<and> PB_LTYPE (pf_type f) = PB_LTYPE_EXTENSION)"
    using find_loop_ok [OF t assms(2) it, of "\<lambda>field. PB_LTYPE (pf_type field) = PB_LTYPE_EXTENSION"]
    unfolding find_extension_field_def st by blast
  then have nf: "\<not> found" using nx by blast
  let ?st = "st\<lparr>ds_iter := it', ds_extension_range_start := - 1\<rparr>"
  have "decode_unknown n E submessage tag wt st = Some (skip_unknown wt ?st)" using False r(1) nf assms(4) by (simp add: decode_unknown_def Let_def)
  moreover have "step_ok fs dest sz ?st (Some (skip_unknown wt ?st))" using r(2) by (intro skip_unknown_ok) simp
  ultimately show ?thesis by (simp add: step_ok_def)
qed

lemma last_field_types: "PB_HTYPE (pf_type PB_LAST_FIELD) = PB_HTYPE_REQUIRED" "PB_ATYPE (pf_type PB_LAST_FIELD) = PB_ATYPE_STATIC"
  "PB_LTYPE (pf_type PB_LAST_FIELD) = PB_LTYPE_BOOL"
  by (simp_all add: PB_LAST_FIELD_def PB_HTYPE_def PB_ATYPE_def PB_LTYPE_def pb_htypes pb_atypes pb_ltypes)

text \<open>On the terminator of a message without fields: it is taken for a required bool at the start of the structure.\<close>

lemma decode_terminator_ok:
  assumes "0 < dest" and "0 < sz" and "honest s"
  shows "\<exists>ok it' c' h' s'. decode_field n E submessage wt (snd (pb_field_iter_begin [] dest)) c s h = Some (ok, it', c', h', s') \<and>
    iter_ok [] dest it' \<and> same_off (span dest sz) h h' \<and> forward s s'"
proof -
  have "within (span dest sz) s h (pb_dec_bool s dest h)"
    using within_scalars(1) [OF assms(3), of dest "span dest sz" h] assms(2) span_mono [of dest dest 1 sz] by simp
  then obtain ok h' s' where r: "pb_dec_bool s dest h = (ok, h', s')" "same_off (span dest sz) h h'" "forward s s'"
    by (cases "pb_dec_bool s dest h") (auto simp: within_same_off)
  have "decode_field n E submessage wt (snd (pb_field_iter_begin [] dest)) c s h = Some (ok, snd (pb_field_iter_begin [] dest), c, h', s')"
    using r(1) empty_iter [OF assms(1)] last_field_types
    by (simp add: decode_field_def decode_static_field_def PB_DECODERS_def return_dec_def pb_htypes pb_atypes pb_ltypes Let_def)
  then show ?thesis using r by (auto simp: iter_ok_def)
qed

lemma decode_known_ok:
  assumes m: "static_msg (Suc d) E fs sz" and "Suc d \<le> n" and "0 < dest" and it: "iter_ok fs dest (ds_iter st)"
    and sub: "sub_ok d E k submessage" "honest (ds_stream st)" "is_bytes_left (ds_stream st) \<le> k"
  shows "step_ok fs dest sz st (decode_known n E submessage wt st)"
proof -
  let ?it = "ds_iter st" and ?fixed = "is_fixed_count (ds_iter st)"
  let ?new = "?fixed \<and> ds_fixed_count_field st \<noteq> Some (fi_pos ?it)"
  define st1 where "st1 = (if ?new then st\<lparr>ds_fixed_count_field := Some (fi_pos ?it), ds_fixed_count_size := 0\<rparr> else st)"
  define c where "c = (if ?fixed then On_stack (ds_fixed_count_size st1) else In_memory (fi_pSize ?it))"
  define st2 where "st2 = st1\<lparr>ds_fields_seen := mark_seen ?it (ds_fields_seen st1)\<rparr>"
  have st2: "ds_stream st2 = ds_stream st" "ds_heap st2 = ds_heap st" by (simp_all add: st2_def st1_def)
  have "\<exists>ok it' c' h' s'. decode_field n E submessage wt ?it c (ds_stream st) (ds_heap st) = Some (ok, it', c', h', s') \<and>
      iter_ok fs dest it' \<and> same_off (span dest sz) (ds_heap st) h' \<and> forward (ds_stream st) s'"
  proof (cases "fs = []")
    case True
    then show ?thesis using decode_terminator_ok [OF assms(3) _ sub(2), of sz n E submessage wt c "ds_heap st"] it m by (simp add: iter_ok_def)
  next
    case False
    then obtain i where i: "i < length fs" "?it = iter_nth fs dest i" using it by (auto simp: iter_ok_def)
    have "c = In_memory (nat (int dest + size_off fs i)) \<or> PB_HTYPE (pf_type (fs ! i)) = PB_HTYPE_REPEATED \<and> (\<exists>v. c = On_stack v)"
      using i by (auto simp: c_def is_fixed_count_def)
    from decode_field_ok [OF m assms(2,3) i(1) sub this] show ?thesis unfolding i(2) .
  qed
  then obtain ok it' c' h' s' where r: "decode_field n E submessage wt ?it c (ds_stream st) (ds_heap st) = Some (ok, it', c', h', s')"
      "iter_ok fs dest it'" "same_off (span dest sz) (ds_heap st) h'" "forward (ds_stream st) s'" by blast
  define st3 where "st3 = st2\<lparr>ds_iter := it', ds_heap := h', ds_stream := s',
      ds_fixed_count_size := (case c' of On_stack v \<Rightarrow> v | In_memory _ \<Rightarrow> ds_fixed_count_size st2)\<rparr>"
  show ?thesis
  proof (cases "?new \<and> \<not> fixed_count_complete st")
    case True
    then show ?thesis using it
      by (intro step_okI [where st' = "ds_fail st ''wrong size for fixed count field''"]) (simp_all add: decode_known_def Let_def ds_fail_def)
  next
    case False
    have "decode_known n E submessage wt st = Some (if ok then Continue st3 else Return_false st3)"
      unfolding decode_known_def Let_def if_not_P [OF False] st1_def [symmetric] c_def [symmetric] st2_def [symmetric] st2 r(1)
      by (simp add: st3_def)
    then show ?thesis using r(2-4) by (intro step_okI [where st' = st3]) (simp_all add: st3_def)
  qed
qed

lemma decode_round_ok:
  assumes m: "static_msg (Suc d) E fs sz" and "Suc d \<le> n" and "0 < dest" and it: "iter_ok fs dest (ds_iter st)"
    and sub: "sub_ok d E k submessage" "honest (ds_stream st)" "is_bytes_left (ds_stream st) \<le> Suc k"
  shows "step_ok fs dest sz st (decode_round n E submessage st) \<and>
    (\<forall>st'. decode_round n E submessage st = Some (Continue st') \<longrightarrow> is_bytes_left (ds_stream st') < is_bytes_left (ds_stream st))"
proof -
  obtain r e s where tag: "pb_decode_tag (ds_stream st) = (r, e, s)" by (metis prod_cases3)
  note fw = forward_tag [OF tag]
  show ?thesis
  proof (cases r)
    case None
    then show ?thesis using tag fw(1) it
      by (auto simp: decode_round_def step_ok_def intro: exI [of _ "st\<lparr>ds_stream := s\<rparr>"])
  next
    case (Some w)
    obtain wt tg where w: "w = (wt, tg)" by fastforce
    have l: "is_bytes_left s < is_bytes_left (ds_stream st)" "tg < - 1" "honest s" using fw Some w sub(2) by (auto simp: forward_def)
    have t: "tags_ok fs" using m by simp
    have st: "fi_start (ds_iter st) = fs" using it empty_iter(4) [OF assms(3)] by (auto simp: iter_ok_def split: if_splits)
    from find_loop_ok [OF t assms(3) it, of "\<lambda>field. pf_tag field = tg \<and> PB_LTYPE (pf_type field) \<noteq> PB_LTYPE_EXTENSION"] obtain found it' where
      f: "pb_field_iter_find (ds_iter st) tg = Some (found, it')" "iter_ok fs dest it'" unfolding pb_field_iter_find_def st by blast
    let ?st = "st\<lparr>ds_stream := s, ds_iter := it'\<rparr>"
    have "step_ok fs dest sz ?st (if found then decode_known n E submessage wt ?st else decode_unknown n E submessage tg wt ?st)"
      using decode_known_ok [OF m assms(2,3), of ?st k submessage wt] decode_unknown_ok [OF m assms(3), of ?st tg n submessage wt] f(2) l sub(1,3)
      by simp
    moreover have "decode_round n E submessage st = (if found then decode_known n E submessage wt ?st else decode_unknown n E submessage tg wt ?st)"
      using tag Some w f(1) by (cases found) (simp_all add: decode_round_def)
    ultimately have x: "step_ok fs dest sz ?st (decode_round n E submessage st)" by simp
    then obtain st' where "(decode_round n E submessage st = Some (Return_false st') \<or> decode_round n E submessage st = Some (Break st') \<or>
        decode_round n E submessage st = Some (Continue st'))" "iter_ok fs dest (ds_iter st')"
        "same_off (span dest sz) (ds_heap st) (ds_heap st')" "forward s (ds_stream st')" by (auto simp: step_ok_def)
    moreover from this have "forward (ds_stream st) (ds_stream st')" "is_bytes_left (ds_stream st') < is_bytes_left (ds_stream st)"
      using forward_trans [OF fw(1)] forward_left l(1) by (blast, fastforce)
    ultimately show ?thesis by (auto simp: step_ok_def)
  qed
qed

text \<open>What is proved of a decoder of messages, given its bound.\<close>

definition noinit_ok :: "nat \<Rightarrow> 'z pb_types_scheme \<Rightarrow> nat \<Rightarrow> 's pb_noinit \<Rightarrow> bool" where
  "noinit_ok d E k noinit \<longleftrightarrow>
     (\<forall>fs sz dest s h. static_msg d E fs sz \<longrightarrow> 0 < dest \<longrightarrow> honest s \<longrightarrow> is_bytes_left s \<le> k \<longrightarrow>
        (\<exists>r. noinit s fs dest h = Some r \<and> within (span dest sz) s h r))"

lemma decode_with_defaults_ok:
  assumes "noinit_ok d E k noinit" and "d \<le> n"
  shows "noinit_ok d E k (decode_with_defaults n E noinit)"
  unfolding noinit_ok_def
proof (intro allI impI)
  fix fs and sz dest :: nat and s :: "'b pb_istream_t" and h
  assume a: "static_msg d E fs sz" "0 < dest" "honest s" "is_bytes_left s \<le> k"
  obtain h1 where h1: "pb_message_set_to_defaults n E fs dest h = Some h1" "same_off (span dest sz) h h1"
    using set_to_default_ok [OF a(1) assms(2) a(2)] by blast
  obtain ok h2 s2 where r: "noinit s fs dest h1 = Some (ok, h2, s2)" "same_off (span dest sz) h1 h2" "forward s s2"
  proof -
    have "\<exists>r. noinit s fs dest h1 = Some r \<and> within (span dest sz) s h1 r" using assms(1) a unfolding noinit_ok_def by blast
    then show ?thesis using that by (auto simp: within_same_off)
  qed
  have "decode_with_defaults n E noinit s fs dest h = Some (ok, h2, s2)"
    using h1(1) r(1) release_ok [OF a(1) assms(2) a(2)] by (cases ok) (simp_all add: decode_with_defaults_def)
  then show "\<exists>r. decode_with_defaults n E noinit s fs dest h = Some r \<and> within (span dest sz) s h r"
    using r h1(2) by (auto simp: within_same_off intro: same_off_trans)
qed

lemma dec_submessage_ok:
  assumes "noinit_ok d E k noinit" and "d \<le> n"
  shows "sub_ok d E (Suc k) (pb_dec_submessage n E noinit)"
  unfolding sub_ok_def
proof (intro allI impI)
  fix s :: "'b pb_istream_t" and f and p :: addr and h
  assume a: "PB_LTYPE (pf_type f) = PB_LTYPE_SUBMESSAGE" "size_ok (\<lambda>j n. static_msg d E (pt_fields E j) n) f" "0 < p" "honest s" "is_bytes_left s \<le> Suc k"
  let ?A = "span p (unat (pf_data_size f))"
  obtain j where j: "pf_ptr f = Pb_submsg j" "static_msg d E (pt_fields E j) (unat (pf_data_size f))"
    using a(1,2) by (auto simp: size_ok_def Let_def split: pb_ptr.splits)
  obtain r s1 where r: "pb_make_string_substream s = (r, s1)" by fastforce
  note fw = forward_make_substream [OF r]
  show "\<exists>r. pb_dec_submessage n E noinit s f p h = Some r \<and> within ?A s h r"
  proof (cases r)
    case None
    then show ?thesis using r fw(1) by (simp add: pb_dec_submessage_def within_same_off)
  next
    case (Some sub)
    have sub: "honest sub" "is_bytes_left sub \<le> k" using fw(2,3) [OF Some] a(4,5) by (auto simp: forward_def)
    let ?d = "if PB_HTYPE (pf_type f) = PB_HTYPE_REPEATED then decode_with_defaults n E noinit sub (pt_fields E j) p h else noinit sub (pt_fields E j) p h"
    have "\<exists>r. ?d = Some r \<and> within ?A sub h r"
      using decode_with_defaults_ok [OF assms] assms(1) j(2) a(3) sub unfolding noinit_ok_def by simp
    then obtain status h1 sub1 where d: "?d = Some (status, h1, sub1)" "same_off ?A h h1" "forward sub sub1" by (auto simp: within_same_off)
    obtain ok s2 where cl: "pb_close_string_substream s1 sub1 = (ok, s2)" by fastforce
    have "honest sub1" using d(3) sub(1) by (simp add: forward_def)
    then have "forward s s2" using forward_close_substream [OF cl] fw(1) by (blast intro: forward_trans)
    moreover have "pb_dec_submessage n E noinit s f p h = Some (ok \<and> status, h1, s2)"
      unfolding pb_dec_submessage_def r Some prod.case option.case j(1) pb_ptr.case d(1) cl by (cases ok) simp_all
    ultimately show ?thesis using d(2) by (simp add: within_same_off)
  qed
qed

text \<open>What is proved of the loop, and what follows for the function around it.\<close>

definition loop_ok :: "'s pb_dec_env \<Rightarrow> nat \<Rightarrow> bool" where
  "loop_ok E n \<longleftrightarrow>
     (\<forall>d fs sz dest st. static_msg d E fs sz \<longrightarrow> 0 < dest \<longrightarrow> iter_ok fs dest (ds_iter st) \<longrightarrow> honest (ds_stream st) \<longrightarrow>
        is_bytes_left (ds_stream st) + d < n \<longrightarrow>
        (\<exists>ok st'. decode_loop n E st = Some (ok, st') \<and> same_off (span dest sz) (ds_heap st) (ds_heap st') \<and> forward (ds_stream st) (ds_stream st')))"

lemma noinit_from_loop:
  assumes "loop_ok E n" and "k + d < n"
  shows "noinit_ok d E k (decode_from (decode_loop n E))"
  unfolding noinit_ok_def
proof (intro allI impI)
  fix fs and sz dest :: nat and s :: "'a pb_istream_t" and h
  assume a: "static_msg d E fs sz" "0 < dest" "honest s" "is_bytes_left s \<le> k"
  have "iter_ok fs dest (ds_iter (dec_start fs dest s h))" using a(1,2) by (auto simp: dec_start_def elim: static_msgD intro: iter_ok_begin)
  moreover have "is_bytes_left s + d < n" using a(4) assms(2) by linarith
  moreover have "ds_stream (dec_start fs dest s h) = s" "ds_heap (dec_start fs dest s h) = h" by (simp_all add: dec_start_def)
  ultimately obtain ok st' where
    "decode_loop n E (dec_start fs dest s h) = Some (ok, st')" "same_off (span dest sz) h (ds_heap st')" "forward s (ds_stream st')"
    using assms(1) a(1-3) unfolding loop_ok_def by metis
  then show "\<exists>r. decode_from (decode_loop n E) s fs dest h = Some r \<and> within (span dest sz) s h r"
    by (auto simp: decode_from_def decode_end_def ds_fail_def within_same_off)
qed

lemma decode_loop_run:
  "static_msg d E fs sz \<Longrightarrow> 0 < dest \<Longrightarrow> iter_ok fs dest (ds_iter st) \<Longrightarrow> honest (ds_stream st) \<Longrightarrow> is_bytes_left (ds_stream st) + d < n \<Longrightarrow>
    \<exists>ok st'. decode_loop n E st = Some (ok, st') \<and> same_off (span dest sz) (ds_heap st) (ds_heap st') \<and> forward (ds_stream st) (ds_stream st')"
proof (induction n arbitrary: d fs sz dest st)
  case (Suc n)
  show ?case
  proof (cases "is_bytes_left (ds_stream st)")
    case 0
    then show ?thesis by auto
  next
    case (Suc k)
    obtain d' where d': "d = Suc d'" using Suc.prems(1) by (rule static_msgD)
    let ?noinit = "decode_from (decode_loop n E)"
    have "noinit_ok d' E (k - 1) ?noinit"
      by (rule noinit_from_loop [where n = n]) (use Suc.IH Suc.prems(5) Suc d' in \<open>auto simp: loop_ok_def\<close>)
    from dec_submessage_ok [OF this, of n] have so: "sub_ok d' E k (pb_dec_submessage n E ?noinit)"
      using Suc.prems(5) d' by (cases k) (auto simp: sub_ok_def)
    have dn: "Suc d' \<le> n" "is_bytes_left (ds_stream st) \<le> Suc k" using Suc.prems(5) d' Suc by simp_all
    note rd = decode_round_ok [OF Suc.prems(1) [unfolded d'] dn(1) Suc.prems(2,3) so Suc.prems(4) dn(2)]
    then obtain st' where st': "(decode_round n E (pb_dec_submessage n E ?noinit) st = Some (Return_false st') \<or>
        decode_round n E (pb_dec_submessage n E ?noinit) st = Some (Break st') \<or> decode_round n E (pb_dec_submessage n E ?noinit) st = Some (Continue st'))"
      "iter_ok fs dest (ds_iter st')" "same_off (span dest sz) (ds_heap st) (ds_heap st')" "forward (ds_stream st) (ds_stream st')"
      by (auto simp: step_ok_def)
    show ?thesis
    proof (cases "decode_round n E (pb_dec_submessage n E ?noinit) st = Some (Continue st')")
      case True
      then have "is_bytes_left (ds_stream st') < is_bytes_left (ds_stream st)" using rd by blast
      moreover have "honest (ds_stream st')" using st'(4) Suc.prems(4) by (simp add: forward_def)
      ultimately obtain ok st2 where "decode_loop n E st' = Some (ok, st2)" "same_off (span dest sz) (ds_heap st') (ds_heap st2)"
          "forward (ds_stream st') (ds_stream st2)"
        using Suc.IH [OF Suc.prems(1,2) st'(2)] Suc.prems(5) by force
      then show ?thesis using True Suc st'(3,4) by (auto intro: same_off_trans forward_trans)
    qed (use st' Suc in auto)
  qed
qed simp

lemma loop_ok: "loop_ok E n"
  unfolding loop_ok_def using decode_loop_run by blast

lemma pb_decode_ok:
  assumes "static_msg d E fs sz" and "0 < dest" and "honest s" and "is_bytes_left s + d < n"
  shows "\<exists>r. pb_decode n E s fs dest h = Some r \<and> within (span dest sz) s h r"
proof -
  have "noinit_ok d E (is_bytes_left s) (pb_decode n E)"
    unfolding pb_decode_def pb_decode_noinit_def
    by (intro decode_with_defaults_ok noinit_from_loop [OF loop_ok]) (use assms(4) in simp_all)
  then show ?thesis using assms(1-3) unfolding noinit_ok_def by blast
qed

section \<open>Properties\<close>

text \<open>
  C15: \<^verbatim>\<open>pb_decode\<close> ends on every input, whatever the bytes say about lengths and nesting, for every message type without pointers,
  callbacks and extensions whose layout is well formed in the sense of \<open>static_msg\<close>: a bound on rounds and depth that exceeds the number of
  input bytes by the depth of the type is enough, and the number of bytes left does not grow.
\<close>

theorem pb_decode_returns:
  fixes s :: "'s pb_istream_t"
  assumes "static_msg d E fs sz" and "0 < dest" and "honest s" and "is_bytes_left s + d < n"
  shows "\<exists>ok h' s'. pb_decode n E s fs dest h = Some (ok, h', s') \<and> is_bytes_left s' \<le> is_bytes_left s"
proof -
  obtain r where "pb_decode n E s fs dest h = Some r" "within (span dest sz) s h r" using pb_decode_ok [OF assms] by blast
  then show ?thesis by (cases r) (auto simp: within_same_off dest: forward_left)
qed

text \<open>A precondition whose submessage claims more bytes than there are.\<close>

theorem pb_decode_returns_witness:
  "\<exists>ok h' s'. pb_decode 9 firestore_dec (pb_istream_from_buffer [0x12, 0x7f, 0x08, 0x05, 0x10, 0xff] 6) google_firestore_v1_Precondition_fields 16
     \<lparr>hp_mem = (\<lambda>_. 7), hp_objects = []\<rparr> = Some (ok, h', s') \<and> is_bytes_left s' \<le> 6"
  using pb_decode_returns [OF firestore_static(2), of 16 "pb_istream_from_buffer [0x12, 0x7f, 0x08, 0x05, 0x10, 0xff] 6" 9
      "\<lparr>hp_mem = (\<lambda>_. 7), hp_objects = []\<rparr>"]
  by (simp add: honest_def pb_istream_from_buffer_def)

text \<open>
  C14: decoding never writes outside the structure it was given: for every input, also one that is not a message of the type and on which
  \<^verbatim>\<open>pb_decode\<close> fails, memory outside the \<open>sz\<close> bytes of the message is as it was, and nothing is allocated or freed. What \<open>static_msg\<close>
  asks of the type: no pointers, callbacks or extensions; every member lies inside the structure, and so do its \<^verbatim>\<open>has\<close> flag, its counter or
  its union tag; the size of each member suits its type; and the same of the types of submessages, down to depth \<open>d\<close>. An array of fixed
  count has no counter, but the code clears four bytes at its start as if they were one, so for such an array these four bytes are required to lie
  inside the structure: a structure that ends in an array of fixed count of fewer than four bytes is not covered, and the code does
  write outside it (\<open>fixed_count_default_overflows\<close>).
\<close>

theorem pb_decode_in_bounds:
  fixes s :: "'s pb_istream_t"
  assumes "static_msg d E fs sz" and "0 < dest" and "honest s" and "is_bytes_left s + d < n"
    and "pb_decode n E s fs dest h = Some (ok, h', s')"
  shows "(\<forall>a. a \<notin> {dest..<dest + sz} \<longrightarrow> hp_mem h' a = hp_mem h a) \<and> hp_objects h' = hp_objects h"
  using pb_decode_ok [OF assms(1-4), of h] assms(5) by (simp add: within_def agree_off_def span_def)

definition sample_decode :: "(bool \<times> pb_heap \<times> unit pb_istream_t) option" where
  "sample_decode = pb_decode 9 firestore_dec (pb_istream_from_buffer [0x08, 0x05, 0x10, 0x09] 4) google_protobuf_Timestamp_fields 16
     \<lparr>hp_mem = (\<lambda>_. 7), hp_objects = []\<rparr>"

lemma sample_decode_eval:
  "map_option (\<lambda>(ok, h, s). (ok, mload (hp_mem h) 16 12, is_bytes_left s)) sample_decode = Some (True, [5, 0, 0, 0, 0, 0, 0, 0, 9, 0, 0, 0], 0)"
  by code_simp

theorem pb_decode_in_bounds_witness:
  "\<exists>h' s'. sample_decode = Some (True, h', s') \<and> mload (hp_mem h') 16 12 = [5, 0, 0, 0, 0, 0, 0, 0, 9, 0, 0, 0] \<and> hp_mem h' 15 = 7 \<and> hp_mem h' 32 = 7"
proof -
  let ?s = "pb_istream_from_buffer [0x08, 0x05, 0x10, 0x09] 4 :: unit pb_istream_t"
  obtain h' s' where r: "sample_decode = Some (True, h', s')" "mload (hp_mem h') 16 12 = [5, 0, 0, 0, 0, 0, 0, 0, 9, 0, 0, 0]"
    using sample_decode_eval by auto
  have "(\<forall>a. a \<notin> {16..<16 + 16} \<longrightarrow> hp_mem h' a = 7) \<and> hp_objects h' = []"
    using pb_decode_in_bounds [OF firestore_static(1), of 16 ?s 9] r(1) by (simp add: sample_decode_def honest_def pb_istream_from_buffer_def)
  then have "hp_mem h' 15 = 7" "hp_mem h' 32 = 7" by simp_all
  then show ?thesis using r by blast
qed

section \<open>Two oddities\<close>

text \<open>
  In a message type without fields the iterator stands on the terminator, whose number 0 a field number 0 of the input matches:
  the field is then decoded as a required bool into the first byte of the structure.
\<close>

lemma empty_message_decodes_terminator:
  "map_option (\<lambda>(ok, h, s). (ok, mload (hp_mem h) 16 2)) (pb_decode 9 firestore_dec (pb_istream_from_buffer [0x01, 0x05] 2) google_protobuf_Empty_fields 16
     \<lparr>hp_mem = (\<lambda>_. 7), hp_objects = []\<rparr>) = Some (True, [1, 7])"
  by code_simp

text \<open>
  The counter of an array of fixed count does not exist, but is cleared when the message is initialised: four bytes at the start of the
  array, which for an array of two bools is outside of it.
\<close>

lemma fixed_count_default_overflows:
  "map_option (\<lambda>h. mload (hp_mem h) 16 4)
     (pb_message_set_to_defaults 2 firestore_dec [PB_REPEATED_FIXED_COUNT 1 0 PB_LTYPE_BOOL 1 2 Pb_null] 16 \<lparr>hp_mem = (\<lambda>_. 7), hp_objects = []\<rparr>) =
   Some [0, 0, 0, 0]"
  by code_simp

end
