(* ===== verification/Pb_Encode.thy ===== *)
theory Pb_Encode
  imports Pb_Message
begin

text \<open>
  \<^verbatim>\<open>nanopb/pb_encode.c\<close>: the encoding of messages. Encoding does not change memory; a callback of the application is taken not to either.
\<close>

section \<open>Encoders\<close>

type_synonym 's pb_enc = "'s pb_ostream_t \<Rightarrow> pb_field_t \<Rightarrow> pb_mem \<Rightarrow> addr \<Rightarrow> (bool \<times> 's pb_ostream_t) option"

definition PB_ENCODERS :: "'s pb_enc \<Rightarrow> u8 \<Rightarrow> 's pb_enc" where
  "PB_ENCODERS submessage ltype s field m src =
     (if ltype = PB_LTYPE_BOOL then Some (pb_enc_bool s field m src)
      else if ltype = PB_LTYPE_VARINT then Some (pb_enc_varint s field m src)
      else if ltype = PB_LTYPE_UVARINT then Some (pb_enc_uvarint s field m src)
      else if ltype = PB_LTYPE_SVARINT then Some (pb_enc_svarint s field m src)
      else if ltype = PB_LTYPE_FIXED32 then Some (pb_enc_fixed32 s field m src)
      else if ltype = PB_LTYPE_FIXED64 then Some (pb_enc_fixed64 s field m src)
      else if ltype = PB_LTYPE_BYTES then Some (pb_enc_bytes s field m src)
      else if ltype = PB_LTYPE_STRING then Some (pb_enc_string s field m src)
      else if ltype = PB_LTYPE_SUBMESSAGE then submessage s field m src
      else if ltype = PB_LTYPE_FIXED_LENGTH_BYTES then Some (pb_enc_fixed_length_bytes s field m src)
      else None)"

text \<open>Two steps, the second only if the first returned true.\<close>

definition and_then :: "(bool \<times> 's pb_ostream_t) option \<Rightarrow> ('s pb_ostream_t \<Rightarrow> (bool \<times> 's pb_ostream_t) option) \<Rightarrow> (bool \<times> 's pb_ostream_t) option" where
  "and_then r k = (case r of None \<Rightarrow> None | Some (False, s) \<Rightarrow> Some (False, s) | Some (True, s) \<Rightarrow> k s)"

section \<open>Arrays\<close>

text \<open>One call of \<open>step\<close> for each entry.\<close>

primrec for_entries :: "nat \<Rightarrow> nat \<Rightarrow> ('s pb_ostream_t \<Rightarrow> addr \<Rightarrow> (bool \<times> 's pb_ostream_t) option) \<Rightarrow> addr \<Rightarrow> 's pb_ostream_t \<Rightarrow> (bool \<times> 's pb_ostream_t) option" where
  "for_entries 0 data_size step p s = Some (True, s)"
| "for_entries (Suc count) data_size step p s = and_then (step s p) (for_entries count data_size step (p + data_size))"

text \<open>\<^verbatim>\<open>pb_write(stream, NULL, size)\<close> on a stream that only counts.\<close>

definition pb_write_sizing :: "'s pb_ostream_t \<Rightarrow> nat \<Rightarrow> bool \<times> 's pb_ostream_t" where
  "pb_write_sizing s n = pb_write s (replicate n 0)"

definition packed_size :: "'s pb_enc \<Rightarrow> pb_field_t \<Rightarrow> pb_mem \<Rightarrow> addr \<Rightarrow> nat \<Rightarrow> (bool \<times> nat) option" where
  "packed_size func field m pData count =
     (if PB_LTYPE (pf_type field) = PB_LTYPE_FIXED32 then Some (True, size_mul 4 count)
      else if PB_LTYPE (pf_type field) = PB_LTYPE_FIXED64 then Some (True, size_mul 8 count)
      else map_option (\<lambda>(ok, s). (ok, os_bytes_written s))
             (for_entries count (unat (pf_data_size field)) (\<lambda>s p. func s field m p) pData PB_OSTREAM_SIZING))"

definition encode_packed :: "'s pb_enc \<Rightarrow> pb_field_t \<Rightarrow> pb_mem \<Rightarrow> addr \<Rightarrow> nat \<Rightarrow> 's pb_ostream_t \<Rightarrow> (bool \<times> 's pb_ostream_t) option" where
  "encode_packed func field m pData count s =
     and_then (Some (pb_encode_tag s PB_WT_STRING (pf_tag field)))
       (\<lambda>s. case packed_size func field m pData count of
              None \<Rightarrow> None
            | Some (False, _) \<Rightarrow> Some (False, s)
            | Some (True, n) \<Rightarrow>
                and_then (Some (pb_encode_varint s (of_nat n)))
                  (\<lambda>s. if \<not> has_callback (os_sink s) then Some (pb_write_sizing s n)
                       else for_entries count (unat (pf_data_size field)) (\<lambda>s p. func s field m p) pData s))"

text \<open>Entries with a tag each; strings and bytes that are allocated are reached through a pointer.\<close>

definition encode_entry :: "'s pb_enc \<Rightarrow> pb_field_t \<Rightarrow> pb_mem \<Rightarrow> 's pb_ostream_t \<Rightarrow> addr \<Rightarrow> (bool \<times> 's pb_ostream_t) option" where
  "encode_entry func field m s p =
     and_then (Some (pb_encode_tag_for_field s field))
       (\<lambda>s. func s field m
              (if PB_ATYPE (pf_type field) = PB_ATYPE_POINTER \<and>
                  (PB_LTYPE (pf_type field) = PB_LTYPE_STRING \<or> PB_LTYPE (pf_type field) = PB_LTYPE_BYTES) then load_ptr m p else p))"

definition encode_array :: "'s pb_enc \<Rightarrow> pb_field_t \<Rightarrow> pb_mem \<Rightarrow> addr \<Rightarrow> nat \<Rightarrow> 's pb_ostream_t \<Rightarrow> (bool \<times> 's pb_ostream_t) option" where
  "encode_array func field m pData count s =
     (if count = 0 then Some (True, s)
      else if PB_ATYPE (pf_type field) \<noteq> PB_ATYPE_POINTER \<and> count > unat (pf_array_size field)
      then Some (False, os_fail s ''array max size exceeded'')
      else if PB_LTYPE (pf_type field) \<le> PB_LTYPE_LAST_PACKABLE then encode_packed func field m pData count s
      else for_entries count (unat (pf_data_size field)) (encode_entry func field m) pData s)"

section \<open>Values that proto3 leaves out\<close>

primrec pb_check_proto3_default_value :: "nat \<Rightarrow> 'z pb_types_scheme \<Rightarrow> pb_field_t \<Rightarrow> pb_mem \<Rightarrow> addr \<Rightarrow> bool option" where
  "pb_check_proto3_default_value 0 E field m pData = None"
| "pb_check_proto3_default_value (Suc n) E field m pData =
     (let type = pf_type field; pSize = size_ptr pData field; ltype = PB_LTYPE type; static = PB_ATYPE type = PB_ATYPE_STATIC;
          zero = list_all (\<lambda>b. b = 0) (mload m pData (unat (pf_data_size field)));
          rest = (if PB_ATYPE type = PB_ATYPE_POINTER \<and> ltype > PB_LTYPE_LAST_PACKABLE then Some (load_ptr m pData = 0) else Some zero);
          singular =
            (if static \<and> ltype = PB_LTYPE_BYTES then Some (load_size m pData = 0)
             else if static \<and> ltype = PB_LTYPE_STRING then Some (m pData = 0)
             else if static \<and> ltype = PB_LTYPE_FIXED_LENGTH_BYTES then Some (pf_data_size field = 0)
             else if static \<and> ltype = PB_LTYPE_SUBMESSAGE then
               (case pf_ptr field of
                  Pb_submsg i \<Rightarrow>
                    (case pb_field_iter_begin (pt_fields E i) pData of
                       (False, _) \<Rightarrow> Some True
                     | (True, iter) \<Rightarrow>
                         map_option fst
                           (do_fields (\<lambda>iter _. map_option (\<lambda>b. (b, ())) (pb_check_proto3_default_value n E (fi_field iter) m (fi_pData iter))) iter ()))
                | _ \<Rightarrow> None)
             else rest)
      in if PB_HTYPE type = PB_HTYPE_REQUIRED then Some False
         else if PB_HTYPE type = PB_HTYPE_REPEATED then
           (if pf_size_offset field \<noteq> 0 then Some (load_size m pSize = 0) else if static then Some False else singular)
         else if PB_HTYPE type = PB_HTYPE_ONEOF then Some (load_size m pSize = 0)
         else if PB_HTYPE type = PB_HTYPE_OPTIONAL \<and> pf_size_offset field \<noteq> 0 then Some (\<not> safe_read_bool m pSize)
         else singular)"

section \<open>Fields\<close>

definition encode_single :: "'s pb_enc \<Rightarrow> pb_field_t \<Rightarrow> pb_mem \<Rightarrow> addr \<Rightarrow> 's pb_ostream_t \<Rightarrow> (bool \<times> 's pb_ostream_t) option" where
  "encode_single func field m pData s = and_then (Some (pb_encode_tag_for_field s field)) (\<lambda>s. func s field m pData)"

text \<open>
  The bool \<^verbatim>\<open>implicit_has\<close>, for a field without a \<^verbatim>\<open>has\<close> member; \<open>has\<close> is what \<^verbatim>\<open>safe_read_bool(pSize)\<close> returns. In a union and an
  array \<^verbatim>\<open>pSize\<close> points into the message.
\<close>

definition implicit_has :: "nat \<Rightarrow> 'z pb_types_scheme \<Rightarrow> pb_field_t \<Rightarrow> pb_mem \<Rightarrow> addr \<Rightarrow> bool option" where
  "implicit_has n E field m pData =
     (case (if pf_size_offset field = 0 \<and> PB_HTYPE (pf_type field) = PB_HTYPE_OPTIONAL
            then map_option Not (pb_check_proto3_default_value n E field m pData) else Some True) of
        None \<Rightarrow> None
      | Some b \<Rightarrow> Some (if PB_ATYPE (pf_type field) = PB_ATYPE_POINTER then load_ptr m pData \<noteq> 0 else b))"

definition encode_basic_field :: "nat \<Rightarrow> 'z pb_types_scheme \<Rightarrow> 's pb_enc \<Rightarrow> pb_field_t \<Rightarrow> pb_mem \<Rightarrow> addr \<Rightarrow> 's pb_ostream_t \<Rightarrow> (bool \<times> 's pb_ostream_t) option" where
  "encode_basic_field n E submessage field m pData s =
     (let type = pf_type field; func = PB_ENCODERS submessage (PB_LTYPE type); pSize = size_ptr pData field;
          p = (if PB_ATYPE type = PB_ATYPE_POINTER then load_ptr m pData else pData)
      in case implicit_has n E field m pData of
           None \<Rightarrow> None
         | Some implicit \<Rightarrow>
             let has = (if pf_size_offset field \<noteq> 0 then safe_read_bool m pSize else implicit) in
             if PB_HTYPE type = PB_HTYPE_REQUIRED then
               (if p = 0 then Some (False, os_fail s ''missing required field'') else encode_single func field m p s)
             else if PB_HTYPE type = PB_HTYPE_OPTIONAL then (if has then encode_single func field m p s else Some (True, s))
             else if PB_HTYPE type = PB_HTYPE_REPEATED then
               encode_array func field m p (unat (if pf_size_offset field \<noteq> 0 then load_size m pSize else pf_array_size field)) s
             else if pf_size_offset field = 0 then None
             else if load_size m pSize = pf_tag field then encode_single func field m p s
             else Some (True, s))"

definition encode_callback_field :: "'s pb_enc_env \<Rightarrow> pb_field_t \<Rightarrow> pb_mem \<Rightarrow> addr \<Rightarrow> 's pb_ostream_t \<Rightarrow> bool \<times> 's pb_ostream_t" where
  "encode_callback_field E field m pData s =
     (let func = callback_func m pData in
      if func \<noteq> 0 then
        (case ee_callback E func s field m (callback_arg pData) of
           (False, s) \<Rightarrow> (False, os_fail s ''callback error'')
         | (True, s) \<Rightarrow> (True, s))
      else (True, s))"

definition encode_field :: "nat \<Rightarrow> 's pb_enc_env \<Rightarrow> 's pb_enc \<Rightarrow> pb_field_t \<Rightarrow> pb_mem \<Rightarrow> addr \<Rightarrow> 's pb_ostream_t \<Rightarrow> (bool \<times> 's pb_ostream_t) option" where
  "encode_field n E submessage field m pData s =
     (let atype = PB_ATYPE (pf_type field) in
      if atype = PB_ATYPE_STATIC \<or> atype = PB_ATYPE_POINTER then encode_basic_field n E submessage field m pData s
      else if atype = PB_ATYPE_CALLBACK then Some (encode_callback_field E field m pData s)
      else Some (False, os_fail s ''invalid field type''))"

definition default_extension_encoder :: "nat \<Rightarrow> 's pb_enc_env \<Rightarrow> 's pb_enc \<Rightarrow> pb_mem \<Rightarrow> addr \<Rightarrow> 's pb_ostream_t \<Rightarrow> (bool \<times> 's pb_ostream_t) option" where
  "default_extension_encoder n E submessage m ext s =
     (let field = pt_ext_arg E (ext_type m ext) in
      encode_field n E submessage field m
        (if PB_ATYPE (pf_type field) = PB_ATYPE_POINTER then ext_dest ext else load_ptr m (ext_dest ext)) s)"

definition encode_extension_field :: "nat \<Rightarrow> 's pb_enc_env \<Rightarrow> 's pb_enc \<Rightarrow> pb_mem \<Rightarrow> addr \<Rightarrow> 's pb_ostream_t \<Rightarrow> (bool \<times> 's pb_ostream_t) option" where
  "encode_extension_field n E submessage m pData s =
     ext_walk n (\<lambda>_. m)
       (\<lambda>ext s. case ee_ext_encode E (ext_type m ext) of
                   Some encode \<Rightarrow> Some (encode s m ext)
                 | None \<Rightarrow> default_extension_encoder n E submessage m ext s)
       (load_ptr m pData) s"

section \<open>Messages\<close>

text \<open>The type of \<^verbatim>\<open>pb_encode\<close>, and \<^verbatim>\<open>pb_encode_submessage\<close> on top of it.\<close>

type_synonym 's pb_encoder = "'s pb_ostream_t \<Rightarrow> pb_field_t list \<Rightarrow> pb_mem \<Rightarrow> addr \<Rightarrow> (bool \<times> 's pb_ostream_t) option"

definition encode_submessage_with :: "'s pb_encoder \<Rightarrow> 's pb_encoder" where
  "encode_submessage_with encode s fs m src =
     (case encode PB_OSTREAM_SIZING fs m src of
        None \<Rightarrow> None
      | Some (False, sub) \<Rightarrow> Some (False, s\<lparr>os_errmsg := os_errmsg sub\<rparr>)
      | Some (True, sub) \<Rightarrow>
          let n = os_bytes_written sub in
          and_then (Some (pb_encode_varint s (of_nat n)))
            (\<lambda>s. if \<not> has_callback (os_sink s) then Some (pb_write_sizing s n)
                 else if size_add (os_bytes_written s) n > os_max_size s then Some (False, os_fail s ''stream full'')
                 else case encode \<lparr>os_sink = os_sink s, os_max_size = n, os_bytes_written = 0, os_errmsg = None\<rparr> fs m src of
                        None \<Rightarrow> None
                      | Some (status, sub) \<Rightarrow>
                          let s = s\<lparr>os_bytes_written := size_add (os_bytes_written s) (os_bytes_written sub), os_sink := os_sink sub,
                                    os_errmsg := os_errmsg sub\<rparr>
                          in if os_bytes_written sub \<noteq> n then Some (False, os_fail s ''submsg size changed'') else Some (status, s)))"

definition pb_enc_submessage :: "'z pb_types_scheme \<Rightarrow> 's pb_encoder \<Rightarrow> 's pb_enc" where
  "pb_enc_submessage E encode s field m src =
     (case pf_ptr field of
        Pb_null \<Rightarrow> Some (False, os_fail s ''invalid field descriptor'')
      | Pb_default _ \<Rightarrow> None
      | Pb_submsg i \<Rightarrow> encode_submessage_with encode s (pt_fields E i) m src)"

primrec pb_encode :: "nat \<Rightarrow> 's pb_enc_env \<Rightarrow> 's pb_encoder" where
  "pb_encode 0 E s fs m src = None"
| "pb_encode (Suc n) E s fs m src =
     (case pb_field_iter_begin fs src of
        (False, _) \<Rightarrow> Some (True, s)
      | (True, iter) \<Rightarrow>
          do_fields
            (\<lambda>iter s.
               if PB_LTYPE (pf_type (fi_field iter)) = PB_LTYPE_EXTENSION
               then encode_extension_field n E (pb_enc_submessage E (pb_encode n E)) m (fi_pData iter) s
               else encode_field n E (pb_enc_submessage E (pb_encode n E)) (fi_field iter) m (fi_pData iter) s)
            iter s)"

definition pb_encode_submessage :: "nat \<Rightarrow> 's pb_enc_env \<Rightarrow> 's pb_encoder" where
  "pb_encode_submessage n E = encode_submessage_with (pb_encode n E)"

definition pb_encode_delimited :: "nat \<Rightarrow> 's pb_enc_env \<Rightarrow> 's pb_encoder" where
  "pb_encode_delimited n E = pb_encode_submessage n E"

definition pb_encode_nullterminated :: "nat \<Rightarrow> 's pb_enc_env \<Rightarrow> 's pb_encoder" where
  "pb_encode_nullterminated n E s fs m src = and_then (pb_encode n E s fs m src) (\<lambda>s. Some (pb_write s [0]))"

text \<open>The size that \<^verbatim>\<open>pb_get_encoded_size\<close> stores, or \<open>Some None\<close> when it returns false.\<close>

definition pb_get_encoded_size :: "nat \<Rightarrow> 's pb_enc_env \<Rightarrow> pb_field_t list \<Rightarrow> pb_mem \<Rightarrow> addr \<Rightarrow> nat option option" where
  "pb_get_encoded_size n E fs m src =
     map_option (\<lambda>(ok, s :: 's pb_ostream_t). if ok then Some (os_bytes_written s) else None) (pb_encode n E PB_OSTREAM_SIZING fs m src)"

end
