(* ===== verification/Pb_Wire_Spec.thy ===== *)
theory Pb_Wire_Spec
  imports Pb_Types Pb_Encode
begin

text \<open>
  The protobuf encoding of a message as a function of the memory it lies in, written without streams and without the readers, tests and
  conversions of the code, and the proof that \<^verbatim>\<open>pb_encode\<close> writes it. Types are those without pointers, callbacks and extensions.
\<close>

section \<open>The encoding of a message\<close>

definition wire_type :: "pb_field_t \<Rightarrow> nat" where
  "wire_type f =
     (let t = PB_LTYPE (pf_type f) in
      if t = PB_LTYPE_BOOL \<or> t = PB_LTYPE_VARINT \<or> t = PB_LTYPE_UVARINT \<or> t = PB_LTYPE_SVARINT then 0
      else if t = PB_LTYPE_FIXED32 then 5 else if t = PB_LTYPE_FIXED64 then 1 else 2)"

definition tag_wire :: "nat \<Rightarrow> pb_field_t \<Rightarrow> bytes" where
  "tag_wire wt f = varint (8 * unat (pf_tag f) + wt)"

text \<open>
  The number that \<open>n\<close> bytes in memory stand for, without and with a sign, and the zigzag code of protobuf, which
  interleaves the negative numbers with the others.
\<close>

definition unsigned_at :: "pb_mem \<Rightarrow> addr \<Rightarrow> nat \<Rightarrow> nat" where
  "unsigned_at m p n = le_val (mload m p n)"

definition signed_at :: "pb_mem \<Rightarrow> addr \<Rightarrow> nat \<Rightarrow> int" where
  "signed_at m p n = (let v = int (unsigned_at m p n) in if v < 2 ^ (8 * n - 1) then v else v - 2 ^ (8 * n))"

definition zigzag :: "int \<Rightarrow> nat" where
  "zigzag x = nat (if 0 \<le> x then 2 * x else - 2 * x - 1)"

text \<open>The string in a member of \<open>n\<close> bytes ends before its first zero.\<close>

definition string_at :: "pb_mem \<Rightarrow> addr \<Rightarrow> nat \<Rightarrow> bytes" where
  "string_at m p n = takeWhile (\<lambda>b. b \<noteq> 0) (mload m p n)"

text \<open>The flag, counter or tag of the field at \<open>p\<close>.\<close>

definition cell_addr :: "pb_field_t \<Rightarrow> addr \<Rightarrow> addr" where
  "cell_addr f p = nat (int p + sint (pf_size_offset f))"

text \<open>A value after its tag; \<open>sub\<close> is the encoding of the submessage of a given type at an address.\<close>

definition value_wire :: "(nat \<Rightarrow> addr \<Rightarrow> bytes) \<Rightarrow> pb_field_t \<Rightarrow> pb_mem \<Rightarrow> addr \<Rightarrow> bytes" where
  "value_wire sub f m p =
     (let t = PB_LTYPE (pf_type f); n = unat (pf_data_size f) in
      if t = PB_LTYPE_BOOL then varint (if m p = 0 then 0 else 1)
      else if t = PB_LTYPE_VARINT then varint (nat (signed_at m p n mod 2 ^ 64))
      else if t = PB_LTYPE_UVARINT then varint (unsigned_at m p n)
      else if t = PB_LTYPE_SVARINT then varint (zigzag (signed_at m p n))
      else if t = PB_LTYPE_FIXED32 then mload m p 4
      else if t = PB_LTYPE_FIXED64 then mload m p 8
      else if t = PB_LTYPE_BYTES then varint (unsigned_at m p 4) @ mload m (p + 4) (unsigned_at m p 4)
      else if t = PB_LTYPE_STRING then varint (length (string_at m p n)) @ string_at m p n
      else if t = PB_LTYPE_SUBMESSAGE then
        (case pf_ptr f of Pb_submsg j \<Rightarrow> varint (length (sub j p)) @ sub j p | _ \<Rightarrow> [])
      else varint n @ mload m p n)"

definition item_addrs :: "pb_field_t \<Rightarrow> nat \<Rightarrow> addr \<Rightarrow> addr list" where
  "item_addrs f c p = map (\<lambda>k. p + k * unat (pf_data_size f)) [0..<c]"

text \<open>
  The addresses of the values that a field contributes: the entries of an array, or one value, or none; \<open>zero\<close> says whether a field without a
  flag has the value that proto3 does not send.
\<close>

definition field_count :: "pb_field_t \<Rightarrow> pb_mem \<Rightarrow> addr \<Rightarrow> nat" where
  "field_count f m p = (if pf_size_offset f \<noteq> 0 then unsigned_at m (cell_addr f p) 4 else unat (pf_array_size f))"

definition present :: "bool \<Rightarrow> pb_field_t \<Rightarrow> pb_mem \<Rightarrow> addr \<Rightarrow> bool" where
  "present zero f m p \<longleftrightarrow>
     (let htype = PB_HTYPE (pf_type f) in
      if htype = PB_HTYPE_REQUIRED then True
      else if htype = PB_HTYPE_OPTIONAL then (if pf_size_offset f \<noteq> 0 then m (cell_addr f p) \<noteq> 0 else \<not> zero)
      else unsigned_at m (cell_addr f p) 4 = unat (pf_tag f))"

definition field_addrs :: "bool \<Rightarrow> pb_field_t \<Rightarrow> pb_mem \<Rightarrow> addr \<Rightarrow> addr list" where
  "field_addrs zero f m p =
     (if PB_HTYPE (pf_type f) = PB_HTYPE_REPEATED then item_addrs f (field_count f m p) p
      else if present zero f m p then [p] else [])"

text \<open>Arrays of numbers are sent as one string, everything else as one key and value after the other.\<close>

definition packed :: "pb_field_t \<Rightarrow> bool" where
  "packed f \<longleftrightarrow> PB_HTYPE (pf_type f) = PB_HTYPE_REPEATED \<and> wire_type f \<noteq> 2"

definition field_wire :: "(nat \<Rightarrow> addr \<Rightarrow> bytes) \<Rightarrow> bool \<Rightarrow> pb_field_t \<Rightarrow> pb_mem \<Rightarrow> addr \<Rightarrow> bytes" where
  "field_wire sub zero f m p =
     (let addrs = field_addrs zero f m p; values = concat (map (value_wire sub f m) addrs) in
      if packed f then (if addrs = [] then [] else tag_wire 2 f @ varint (length values) @ values)
      else concat (map (\<lambda>a. tag_wire (wire_type f) f @ value_wire sub f m a) addrs))"

text \<open>The values that proto3 leaves out.\<close>

definition zero_value :: "(nat \<Rightarrow> addr \<Rightarrow> bool) \<Rightarrow> pb_field_t \<Rightarrow> pb_mem \<Rightarrow> addr \<Rightarrow> bool" where
  "zero_value zsub f m p =
     (let t = PB_LTYPE (pf_type f); n = unat (pf_data_size f) in
      if t = PB_LTYPE_BYTES then unsigned_at m p 4 = 0
      else if t = PB_LTYPE_STRING then m p = 0
      else if t = PB_LTYPE_FIXED_LENGTH_BYTES then pf_data_size f = 0
      else if t = PB_LTYPE_SUBMESSAGE then (case pf_ptr f of Pb_submsg j \<Rightarrow> zsub j p | _ \<Rightarrow> False)
      else list_all (\<lambda>b. b = 0) (mload m p n))"

definition zero_field :: "(nat \<Rightarrow> addr \<Rightarrow> bool) \<Rightarrow> pb_field_t \<Rightarrow> pb_mem \<Rightarrow> addr \<Rightarrow> bool" where
  "zero_field zsub f m p =
     (let q = cell_addr f p; htype = PB_HTYPE (pf_type f) in
      if htype = PB_HTYPE_REQUIRED then False
      else if htype = PB_HTYPE_REPEATED then pf_size_offset f \<noteq> 0 \<and> unsigned_at m q 4 = 0
      else if htype = PB_HTYPE_ONEOF then unsigned_at m q 4 = 0
      else if pf_size_offset f \<noteq> 0 then m q = 0
      else zero_value zsub f m p)"

primrec zero_msg :: "nat \<Rightarrow> 'z pb_types_scheme \<Rightarrow> pb_field_t list \<Rightarrow> pb_mem \<Rightarrow> addr \<Rightarrow> bool" where
  "zero_msg 0 E fs m p = False"
| "zero_msg (Suc d) E fs m p =
     list_all (\<lambda>i. zero_field (\<lambda>j. zero_msg d E (pt_fields E j) m) (fs ! i) m (p + data_off fs i)) [0..<length fs]"

primrec msg_wire :: "nat \<Rightarrow> 'z pb_types_scheme \<Rightarrow> pb_field_t list \<Rightarrow> pb_mem \<Rightarrow> addr \<Rightarrow> bytes" where
  "msg_wire 0 E fs m p = []"
| "msg_wire (Suc d) E fs m p =
     concat (map (\<lambda>i. field_wire (\<lambda>j. msg_wire d E (pt_fields E j) m)
       (zero_field (\<lambda>j. zero_msg d E (pt_fields E j) m) (fs ! i) m (p + data_off fs i)) (fs ! i) m (p + data_off fs i)) [0..<length fs])"

text \<open>
  What must hold of a message for it to be encoded: integer members have the size of an integer type, unions have a tag, and the counts,
  the lengths of byte arrays and the strings, of what is present, fit into the members they are stored in.
\<close>

definition valid_value :: "(nat \<Rightarrow> addr \<Rightarrow> bool) \<Rightarrow> pb_field_t \<Rightarrow> pb_mem \<Rightarrow> addr \<Rightarrow> bool" where
  "valid_value vsub f m p \<longleftrightarrow>
     (let t = PB_LTYPE (pf_type f); n = unat (pf_data_size f) in
      if t = PB_LTYPE_VARINT \<or> t = PB_LTYPE_UVARINT \<or> t = PB_LTYPE_SVARINT then n \<in> {1, 2, 4, 8}
      else if t = PB_LTYPE_BYTES then unsigned_at m p 4 + 4 \<le> n
      else if t = PB_LTYPE_STRING then length (string_at m p n) < n
      else if t = PB_LTYPE_SUBMESSAGE then (case pf_ptr f of Pb_submsg j \<Rightarrow> vsub j p | _ \<Rightarrow> False)
      else True)"

definition valid_field :: "(nat \<Rightarrow> addr \<Rightarrow> bool) \<Rightarrow> bool \<Rightarrow> pb_field_t \<Rightarrow> pb_mem \<Rightarrow> addr \<Rightarrow> bool" where
  "valid_field vsub zero f m p \<longleftrightarrow>
     (PB_HTYPE (pf_type f) = PB_HTYPE_ONEOF \<longrightarrow> pf_size_offset f \<noteq> 0) \<and>
     (PB_HTYPE (pf_type f) = PB_HTYPE_REPEATED \<longrightarrow> field_count f m p \<le> unat (pf_array_size f)) \<and>
     list_all (valid_value vsub f m) (field_addrs zero f m p)"

primrec valid_msg :: "nat \<Rightarrow> 'z pb_types_scheme \<Rightarrow> pb_field_t list \<Rightarrow> pb_mem \<Rightarrow> addr \<Rightarrow> bool" where
  "valid_msg 0 E fs m p = False"
| "valid_msg (Suc d) E fs m p =
     list_all (\<lambda>i. valid_field (\<lambda>j. valid_msg d E (pt_fields E j) m)
       (zero_field (\<lambda>j. zero_msg d E (pt_fields E j) m) (fs ! i) m (p + data_off fs i)) (fs ! i) m (p + data_off fs i)) [0..<length fs]"

section \<open>What the code reads\<close>

text \<open>The readers of the encoder deliver what the definitions above say.\<close>

lemma unsigned_at_less: "unsigned_at m p n < 256 ^ n"
  using le_val_less [of "mload m p n"] by (simp add: unsigned_at_def)

lemma size_ptr_cell [simp]: "size_ptr p f = cell_addr f p"
  by (simp add: size_ptr_def cell_addr_def)

lemma safe_read_bool_at [simp]: "safe_read_bool m p \<longleftrightarrow> m p \<noteq> 0"
  by (simp add: safe_read_bool_def mload_def)

lemma load_size_at [simp]: "unat (load_size m p) = unsigned_at m p 4"
  using unsigned_at_less [of m p 4] by (simp add: load_size_def unsigned_at_def unat_of_nat)

lemma load_size_eq: "load_size m p = v \<longleftrightarrow> unsigned_at m p 4 = unat v"
  by (simp add: word_unat_eq_iff)

lemma size_range: "n \<in> int_sizes \<Longrightarrow> (256 :: nat) ^ n \<le> 2 ^ 64 \<and> 1 \<le> n \<and> n \<le> 8"
  by (auto simp: int_sizes_def)

lemma load_u_at:
  assumes "n \<in> int_sizes"
  shows "unat (load_u n (mload m p n)) = unsigned_at m p n"
  using unsigned_at_less [of m p n] size_range [OF assms] by (simp add: load_u_def unsigned_at_def unat_of_nat)

lemma signed_at_take_bit:
  assumes "n \<in> int_sizes"
  shows "signed_at m p n = signed_take_bit (8 * n - 1) (int (unsigned_at m p n))"
proof -
  define v where "v = int (unsigned_at m p n)"
  have "unsigned_at m p n < 2 ^ (8 * n)" using unsigned_at_less [of m p n] by (simp add: power_mult)
  then have v: "0 \<le> v" "v < 2 ^ (8 * n)" by (simp_all add: v_def)
  have n: "8 * n = Suc (8 * n - 1)" using size_range [OF assms] by simp
  have "take_bit (Suc (8 * n - 1)) v = v" using v n by (metis take_bit_int_eq_self)
  then have "signed_take_bit (8 * n - 1) v = (if bit v (8 * n - 1) then v - 2 ^ (8 * n) else v)"
    using n by (simp add: signed_take_bit_eq_take_bit_minus)
  moreover have "bit v (8 * n - 1) \<longleftrightarrow> \<not> v < 2 ^ (8 * n - 1)"
  proof -
    have "v div 2 ^ (8 * n - 1) = (if v < 2 ^ (8 * n - 1) then 0 else 1)"
    proof (cases "v < 2 ^ (8 * n - 1)")
      case False
      have "v < 2 * 2 ^ (8 * n - 1)" using v(2) n by (metis power_Suc)
      then show ?thesis using False int_div_pos_eq [of v "2 ^ (8 * n - 1)" 1 "v - 2 ^ (8 * n - 1)"] by simp
    qed (use v in simp)
    then show ?thesis by (simp add: bit_iff_odd)
  qed
  ultimately show ?thesis by (simp add: signed_at_def v_def Let_def)
qed

lemma load_s_at:
  assumes "n \<in> int_sizes"
  shows "load_s n (mload m p n) = of_int (signed_at m p n)"
  using signed_at_take_bit [OF assms] by (simp add: load_s_def unsigned_at_def signed_take_bit_of_int [symmetric])

lemma signed_at_range:
  assumes "n \<in> int_sizes"
  shows "- (2 ^ 63) \<le> signed_at m p n \<and> signed_at m p n < 2 ^ 63"
proof -
  have "unsigned_at m p n < 256 ^ n" by (rule unsigned_at_less)
  then show ?thesis using assms by (auto simp: int_sizes_def signed_at_def Let_def)
qed

lemma load_s_unat:
  assumes "n \<in> int_sizes"
  shows "unat (load_s n (mload m p n)) = nat (signed_at m p n mod 2 ^ 64)"
  unfolding load_s_at [OF assms] by (simp add: uint_word_of_int take_bit_eq_mod flip: nat_uint_eq)

lemma zigzag_at:
  fixes m :: pb_mem and p :: addr
  assumes "n \<in> int_sizes"
  defines "v \<equiv> load_s n (mload m p n)"
  shows "unat (if v <s 0 then NOT (push_bit 1 v) else push_bit 1 v) = zigzag (signed_at m p n)"
proof -
  define x where "x = signed_at m p n"
  have r: "- (2 ^ 63) \<le> x" "x < 2 ^ 63" using signed_at_range [OF assms(1)] by (simp_all add: x_def)
  have v: "v = of_int x" by (simp add: v_def x_def load_s_at [OF assms(1)])
  have "sint v = x" unfolding v using r by (simp add: sint_sbintrunc' signed_take_bit_int_eq_self)
  then have neg: "v <s 0 \<longleftrightarrow> x < 0" by (simp add: word_sless_alt)
  have p: "push_bit 1 v = of_int (2 * x)" by (simp add: v push_bit_eq_mult)
  have "NOT (push_bit 1 v) = of_int (- 2 * x - 1)" unfolding p by (simp add: not_eq_complement)
  then have "(if v <s 0 then NOT (push_bit 1 v) else push_bit 1 v) = of_int (if 0 \<le> x then 2 * x else - 2 * x - 1)"
    using p neg by simp
  moreover have "uint (of_int y :: u64) = y" if "0 \<le> y" "y < 2 ^ 64" for y
    using that by (simp add: uint_word_of_int take_bit_eq_mod)
  from this [of "if 0 \<le> x then 2 * x else - 2 * x - 1"] r
  have "uint (of_int (if 0 \<le> x then 2 * x else - 2 * x - 1) :: u64) = (if 0 \<le> x then 2 * x else - 2 * x - 1)" by simp
  ultimately show ?thesis by (simp only: zigzag_def x_def [symmetric] unat_eq_nat_uint)
qed

lemma mload_strlen: "mload m p (strlen_loop m p n) = string_at m p n"
proof (induction n arbitrary: p)
  case 0
  then show ?case by (simp add: strlen_loop.simps string_at_def mload_def)
next
  case (Suc n)
  have "mload m p (Suc k) = m p # mload m (Suc p) k" for k by (simp add: mload_def upt_conv_Cons del: upt_Suc)
  then show ?case using Suc [of "Suc p"] by (simp add: strlen_loop.simps [of m p "Suc n"] string_at_def)
qed

lemma strlen_at: "strlen_loop m p n = length (string_at m p n)"
  using mload_strlen [of m p n] by (metis add_diff_cancel_left' length_map length_upt mload_def)

lemma mload_string [simp]: "mload m p (length (string_at m p n)) = string_at m p n"
  using mload_strlen [of m p n] by (simp add: strlen_at)

section \<open>Writing\<close>

text \<open>A stream with room for \<open>n\<close> more bytes, over a buffer or only counting, and the stream after bytes have been written.\<close>

fun sink_room :: "'s pb_sink \<Rightarrow> nat \<Rightarrow> bool" where
  "sink_room No_callback n = True"
| "sink_room (Buf_write region dest) n = (dest + n \<le> length region)"
| "sink_room (Out_callback _ _) n = False"

definition room :: "'s pb_ostream_t \<Rightarrow> nat \<Rightarrow> bool" where
  "room s n \<longleftrightarrow>
     os_errmsg s = None \<and> sink_room (os_sink s) n \<and> os_bytes_written s + n < 2 ^ 64 \<and>
     (has_callback (os_sink s) \<longrightarrow> os_bytes_written s + n \<le> os_max_size s)"

definition put :: "'s pb_ostream_t \<Rightarrow> bytes \<Rightarrow> 's pb_ostream_t" where
  "put s bs = s\<lparr>os_sink := snd (sink_write (os_sink s) bs), os_bytes_written := os_bytes_written s + length bs\<rparr>"

definition emit :: "('s pb_ostream_t \<Rightarrow> (bool \<times> 's pb_ostream_t) option) \<Rightarrow> bytes \<Rightarrow> bool" where
  "emit op bs \<longleftrightarrow> (\<forall>s. room s (length bs) \<longrightarrow> op s = Some (True, put s bs))"

lemma emitD: "emit op bs \<Longrightarrow> room s (length bs) \<Longrightarrow> op s = Some (True, put s bs)"
  by (simp add: emit_def)

lemma write_at_append:
  "p + length a + length b \<le> length r \<Longrightarrow> write_at (write_at r p a) (p + length a) b = write_at r p (a @ b)"
  by (cases a) (auto simp: write_at_def min_def ac_simps)

lemma put_Nil: "room s 0 \<Longrightarrow> put s [] = s"
  by (cases "os_sink s") (simp_all add: put_def buf_write_def room_def write_at_def)

lemma room_split:
  assumes "room s (length a + length b)"
  shows "room s (length a)" and "room (put s a) (length b)" and "put (put s a) b = put s (a @ b)"
proof -
  show "room s (length a)" using assms by (cases "os_sink s") (auto simp: room_def)
  show "room (put s a) (length b)"
    using assms by (cases "os_sink s") (auto simp: room_def put_def buf_write_def length_write_at add.assoc)
  show "put (put s a) b = put s (a @ b)"
    using assms by (cases "os_sink s") (auto simp: room_def put_def buf_write_def write_at_append add.assoc)
qed

lemma emit_Nil: "emit (\<lambda>s. Some (True, s)) []"
  by (simp add: emit_def put_Nil)

lemma emit_seq:
  fixes op1 op2 :: "'s pb_ostream_t \<Rightarrow> (bool \<times> 's pb_ostream_t) option"
  assumes "emit op1 a" and "emit op2 b"
  shows "emit (\<lambda>s. and_then (op1 s) op2) (a @ b)"
  unfolding emit_def
proof (intro allI impI)
  fix s :: "'s pb_ostream_t"
  assume "room s (length (a @ b))"
  then have "room s (length a + length b)" by simp
  note r = room_split [OF this]
  show "and_then (op1 s) op2 = Some (True, put s (a @ b))"
    using emitD [OF assms(1) r(1)] emitD [OF assms(2) r(2)] r(3) by (simp add: and_then_def)
qed

lemma write_room: "room s (length bs) \<Longrightarrow> pb_write s bs = (True, put s bs)"
proof (cases "bs = []")
  case True
  assume "room s (length bs)"
  then show ?thesis using True put_Nil [of s] by (simp add: pb_write_def size_add_def room_def)
next
  case False
  assume "room s (length bs)"
  then show ?thesis using False
    by (cases "os_sink s") (auto simp: pb_write_def Let_def size_add_def room_def put_def buf_write_def)
qed

lemma emit_write: "emit (\<lambda>s. Some (pb_write s bs)) bs"
  by (simp add: emit_def write_room)

lemma emit_varint: "emit (\<lambda>s. Some (pb_encode_varint s v)) (varint (unat v))"
  unfolding pb_encode_varint_write by (rule emit_write)

lemma emit_varint_nat: "n < 2 ^ 64 \<Longrightarrow> emit (\<lambda>s. Some (pb_encode_varint s (of_nat n))) (varint n)"
  using emit_varint [of "of_nat n"] by (simp add: unat_of_nat)

lemma emit_tag: "unat wt < 8 \<Longrightarrow> emit (\<lambda>s. Some (pb_encode_tag s wt (pf_tag f))) (tag_wire (unat wt) f)"
  unfolding tag_wire_def using emit_write by (simp add: pb_encode_tag_write)

lemma encode_string_seq:
  "Some (pb_encode_string s bs) = and_then (Some (pb_encode_varint s (of_nat (length bs)))) (\<lambda>s. Some (pb_write s bs))"
  by (simp add: and_then_def pb_encode_string_def split: prod.splits bool.splits)

lemma emit_string: "length bs < 2 ^ 64 \<Longrightarrow> emit (\<lambda>s. Some (pb_encode_string s bs)) (varint (length bs) @ bs)"
  unfolding encode_string_seq by (intro emit_seq emit_varint_nat emit_write)

section \<open>Values\<close>

lemma le_bytes_map: "le_bytes n v = map (\<lambda>i. of_nat (v div 256 ^ i)) [0..<n]"
proof (induction n arbitrary: v)
  case (Suc n)
  have "[0..<Suc n] = 0 # map Suc [0..<n]" by (simp add: upt_conv_Cons map_Suc_upt del: upt_Suc)
  then show ?case using Suc by (simp add: div_mult2_eq del: upt_Suc)
qed simp

lemma octet_div: "8 \<le> LENGTH('a) \<Longrightarrow> octet (v :: 'a::len word) k = of_nat (unat v div 2 ^ k)"
  by (simp add: word_unat_eq_iff unat_octet unat_of_nat)

lemma fixed_bytes_load: "fixed32_bytes (of_nat (le_val (mload m p 4))) = mload m p 4" "fixed64_bytes (of_nat (le_val (mload m p 8))) = mload m p 8"
proof -
  have "fixed32_bytes v = le_bytes 4 (unat v)" "fixed64_bytes w = le_bytes 8 (unat w)" for v w
    by (simp_all add: fixed32_bytes_def fixed64_bytes_def le_bytes_map upt_rec octet_div)
  moreover have "le_val (mload m p 4) < 2 ^ 32" "le_val (mload m p 8) < 2 ^ 64"
    using le_val_less [of "mload m p 4"] le_val_less [of "mload m p 8"] by simp_all
  ultimately show "fixed32_bytes (of_nat (le_val (mload m p 4))) = mload m p 4" "fixed64_bytes (of_nat (le_val (mload m p 8))) = mload m p 8"
    using le_bytes_le_val [of "mload m p 4"] le_bytes_le_val [of "mload m p 8"] by (simp_all add: unat_of_nat)
qed

lemma strlen_le: "strlen_loop m p n \<le> n"
proof (induction n arbitrary: p)
  case (Suc n)
  then show ?case by (subst strlen_loop.simps) simp
qed (subst strlen_loop.simps, simp)

lemma u32_less_u64: "unat (x :: u32) < 2 ^ 64"
  using unat_less [of x] by (simp add: less_trans)

text \<open>The encoder of a field writes its value.\<close>

lemma emit_value:
  assumes "size_ok S f" and "PB_ATYPE (pf_type f) = PB_ATYPE_STATIC" and "valid_value V f m p" and "0 < p"
    and "\<And>j. pf_ptr f = Pb_submsg j \<Longrightarrow> V j p \<Longrightarrow> emit (\<lambda>s. submessage s f m p) (varint (length (W j p)) @ W j p)"
  shows "emit (\<lambda>s. PB_ENCODERS submessage (PB_LTYPE (pf_type f)) s f m p) (value_wire W f m p)"
proof -
  let ?t = "PB_LTYPE (pf_type f)" and ?n = "unat (pf_data_size f)"
  have n: "?n < 2 ^ 64" "strlen_loop m p ?n < 2 ^ 64" "unat (load_size m p) < 2 ^ 64"
    using u32_less_u64 le_less_trans [OF strlen_le u32_less_u64] by blast+
  have int: "?n \<in> int_sizes" if "?t = PB_LTYPE_VARINT \<or> ?t = PB_LTYPE_UVARINT \<or> ?t = PB_LTYPE_SVARINT"
    using assms(3) that by (auto simp: valid_value_def int_sizes_def Let_def)
  have "?t = PB_LTYPE_BOOL \<or> ?t = PB_LTYPE_VARINT \<or> ?t = PB_LTYPE_UVARINT \<or> ?t = PB_LTYPE_SVARINT \<or> ?t = PB_LTYPE_FIXED32 \<or>
      ?t = PB_LTYPE_FIXED64 \<or> ?t = PB_LTYPE_BYTES \<or> ?t = PB_LTYPE_STRING \<or> ?t = PB_LTYPE_SUBMESSAGE \<or> ?t = PB_LTYPE_FIXED_LENGTH_BYTES"
    using assms(1) by (auto simp: size_ok_def Let_def split: if_splits)
  moreover have ?thesis if "?t = PB_LTYPE_BOOL"
    using emit_varint [of 1] emit_varint [of 0] by (cases "m p = 0") (simp_all add: that PB_ENCODERS_def value_wire_def pb_enc_bool_def Let_def)
  moreover have ?thesis if "?t = PB_LTYPE_VARINT"
    using int emit_varint [of "load_s ?n (mload m p ?n)"] load_s_unat
    by (simp add: that PB_ENCODERS_def value_wire_def pb_enc_varint_def Let_def pb_ltypes)
  moreover have ?thesis if "?t = PB_LTYPE_UVARINT"
    using int emit_varint [of "load_u ?n (mload m p ?n)"] load_u_at
    by (simp add: that PB_ENCODERS_def value_wire_def pb_enc_uvarint_def Let_def pb_ltypes)
  moreover have ?thesis if "?t = PB_LTYPE_SVARINT"
    using int emit_varint [of "let v = load_s ?n (mload m p ?n) in if v <s 0 then NOT (push_bit 1 v) else push_bit 1 v"] zigzag_at
    by (simp add: that PB_ENCODERS_def value_wire_def pb_enc_svarint_def pb_encode_svarint_def Let_def pb_ltypes)
  moreover have ?thesis if "?t = PB_LTYPE_FIXED32"
    using emit_write [of "mload m p 4"] by (simp add: that PB_ENCODERS_def value_wire_def pb_enc_fixed32_def pb_encode_fixed_write fixed_bytes_load Let_def pb_ltypes)
  moreover have ?thesis if "?t = PB_LTYPE_FIXED64"
    using emit_write [of "mload m p 8"] by (simp add: that PB_ENCODERS_def value_wire_def pb_enc_fixed64_def pb_encode_fixed_write fixed_bytes_load Let_def pb_ltypes)
  moreover have ?thesis if t: "?t = PB_LTYPE_BYTES"
  proof -
    have "unsigned_at m p 4 + 4 \<le> ?n" using assms(3) by (simp add: t valid_value_def Let_def pb_ltypes)
    then have "\<not> unsigned_at m p 4 > (?n + (2 ^ 64 - 4)) mod 2 ^ 64"
      using n(1) mod_add_self2 [of "?n - 4" "2 ^ 64 :: nat"] by (simp add: add.commute)
    then show ?thesis using assms(4) n(3) emit_string [of "mload m (p + 4) (unsigned_at m p 4)"]
      by (simp add: t PB_ENCODERS_def value_wire_def pb_enc_bytes_def Let_def pb_ltypes)
  qed
  moreover have ?thesis if "?t = PB_LTYPE_STRING"
    using assms(2,4) n(2) emit_string [of "string_at m p ?n"]
    by (simp add: that PB_ENCODERS_def value_wire_def pb_enc_string_def strlen_at Let_def pb_ltypes pb_atypes)
  moreover have ?thesis if t: "?t = PB_LTYPE_SUBMESSAGE"
  proof -
    obtain j where "pf_ptr f = Pb_submsg j" "V j p"
      using assms(3) by (auto simp: t valid_value_def Let_def pb_ltypes split: pb_ptr.splits)
    with assms(5) [of j] show ?thesis by (simp add: t PB_ENCODERS_def value_wire_def Let_def pb_ltypes)
  qed
  moreover have ?thesis if "?t = PB_LTYPE_FIXED_LENGTH_BYTES"
    using n(1) emit_string [of "mload m p ?n"]
    by (simp add: that PB_ENCODERS_def value_wire_def pb_enc_fixed_length_bytes_def Let_def pb_ltypes)
  ultimately show ?thesis by blast
qed

lemma emit_tag_for_field:
  assumes "size_ok S f"
  shows "emit (\<lambda>s. Some (pb_encode_tag_for_field s f)) (tag_wire (wire_type f) f)"
proof -
  let ?t = "PB_LTYPE (pf_type f)"
  have t: "?t = PB_LTYPE_BOOL \<or> ?t = PB_LTYPE_VARINT \<or> ?t = PB_LTYPE_UVARINT \<or> ?t = PB_LTYPE_SVARINT \<or> ?t = PB_LTYPE_FIXED32 \<or>
      ?t = PB_LTYPE_FIXED64 \<or> ?t = PB_LTYPE_BYTES \<or> ?t = PB_LTYPE_STRING \<or> ?t = PB_LTYPE_SUBMESSAGE \<or> ?t = PB_LTYPE_FIXED_LENGTH_BYTES"
    using assms by (auto simp: size_ok_def Let_def split: if_splits)
  have "emit (\<lambda>s. Some (pb_encode_tag s PB_WT_VARINT (pf_tag f))) (tag_wire 0 f)" "emit (\<lambda>s. Some (pb_encode_tag s PB_WT_64BIT (pf_tag f))) (tag_wire 1 f)"
    "emit (\<lambda>s. Some (pb_encode_tag s PB_WT_STRING (pf_tag f))) (tag_wire 2 f)" "emit (\<lambda>s. Some (pb_encode_tag s PB_WT_32BIT (pf_tag f))) (tag_wire 5 f)"
    using emit_tag [of PB_WT_VARINT f] emit_tag [of PB_WT_64BIT f] emit_tag [of PB_WT_STRING f] emit_tag [of PB_WT_32BIT f]
    by (simp_all add: wire_types)
  then show ?thesis using t unfolding pb_encode_tag_for_field_def wire_type_def Let_def by (auto simp: pb_ltypes)
qed

section \<open>Fields\<close>

lemma item_addrs_Suc: "item_addrs f (Suc c) p = p # item_addrs f c (p + unat (pf_data_size f))"
proof -
  have "[0..<Suc c] = 0 # map Suc [0..<c]" by (simp add: upt_conv_Cons map_Suc_upt del: upt_Suc)
  then show ?thesis by (simp add: item_addrs_def add.assoc del: upt_Suc)
qed

lemma item_addrs_0 [simp]: "item_addrs f 0 p = []"
  by (simp add: item_addrs_def)

lemma item_addrs_Nil [simp]: "item_addrs f c p = [] \<longleftrightarrow> c = 0"
  by (simp add: item_addrs_def)

lemma length_item_addrs [simp]: "length (item_addrs f c p) = c"
  by (simp add: item_addrs_def)

lemma item_addrs_ge: "a \<in> set (item_addrs f c p) \<Longrightarrow> p \<le> a"
  by (auto simp: item_addrs_def)

lemma emit_entries:
  assumes "\<And>a. a \<in> set (item_addrs f c p) \<Longrightarrow> emit (\<lambda>s. step s a) (w a)"
  shows "emit (for_entries c (unat (pf_data_size f)) step p) (concat (map w (item_addrs f c p)))"
  using assms
proof (induction c arbitrary: p)
  case 0
  then show ?case using emit_Nil by simp
next
  case (Suc c)
  have "emit (for_entries c (unat (pf_data_size f)) step (p + unat (pf_data_size f))) (concat (map w (item_addrs f c (p + unat (pf_data_size f)))))"
    by (rule Suc.IH) (use Suc.prems in \<open>auto simp: item_addrs_Suc\<close>)
  from emit_seq [OF _ this, of "\<lambda>s. step s p" "w p"] Suc.prems show ?case by (simp add: item_addrs_Suc)
qed

text \<open>A stream that only counts, and a buffer with exactly the room that is needed.\<close>

lemma room_sizing: "n < 2 ^ 64 \<Longrightarrow> room PB_OSTREAM_SIZING n"
  by (simp add: room_def PB_OSTREAM_SIZING_def)

lemma put_sizing: "os_bytes_written (put PB_OSTREAM_SIZING bs) = length bs"
  by (simp add: put_def PB_OSTREAM_SIZING_def)

lemma write_sizing_put:
  assumes "room s (length bs)" and "\<not> has_callback (os_sink s)"
  shows "pb_write_sizing s (length bs) = (True, put s bs)"
proof -
  have k: "os_sink s = No_callback" using assms(2) by (cases "os_sink s") simp_all
  have "pb_write s (replicate (length bs) 0) = (True, put s (replicate (length bs) 0))" using assms(1) by (intro write_room) simp
  then show ?thesis by (simp add: pb_write_sizing_def put_def k)
qed

lemma emit_submessage:
  fixes encode :: "'s pb_encoder"
  assumes "emit (\<lambda>s. encode s fs m p) bs"
  shows "emit (\<lambda>s. encode_submessage_with encode s fs m p) (varint (length bs) @ bs)"
  unfolding emit_def
proof (intro allI impI)
  fix s :: "'s pb_ostream_t"
  assume "room s (length (varint (length bs) @ bs))"
  then have "room s (length (varint (length bs)) + length bs)" by simp
  note r = room_split [OF this]
  let ?s = "put s (varint (length bs))"
  have n: "length bs < 2 ^ 64" using r(2) by (simp add: room_def)
  have sz: "encode PB_OSTREAM_SIZING fs m p = Some (True, put PB_OSTREAM_SIZING bs)" by (rule emitD [OF assms room_sizing [OF n]])
  have v: "pb_encode_varint s (of_nat (length bs)) = (True, ?s)" using emitD [OF emit_varint_nat [OF n] r(1)] by simp
  show "encode_submessage_with encode s fs m p = Some (True, put s (varint (length bs) @ bs))"
  proof (cases "has_callback (os_sink ?s)")
    case False
    then show ?thesis using write_sizing_put [OF r(2)] by (simp add: encode_submessage_with_def sz put_sizing v and_then_def r(3) Let_def)
  next
    case True
    let ?t = "\<lparr>os_sink = os_sink ?s, os_max_size = length bs, os_bytes_written = 0, os_errmsg = None\<rparr>"
    have "room ?t (length bs)" using r(2) by (simp add: room_def)
    then have e: "encode ?t fs m p = Some (True, put ?t bs)" by (rule emitD [OF assms])
    have b: "os_errmsg ?s = None" "os_bytes_written ?s + length bs \<le> os_max_size ?s" "os_bytes_written ?s + length bs < 2 ^ 64"
      using r(2) True by (auto simp: room_def)
    then have "size_add (os_bytes_written ?s) (length bs) = os_bytes_written ?s + length bs" by (simp add: size_add_def)
    moreover have "os_sink (put ?t bs) = os_sink (put ?s bs)" "os_bytes_written (put ?t bs) = length bs" "os_errmsg (put ?t bs) = None"
      by (simp_all add: put_def)
    moreover have "?s\<lparr>os_bytes_written := os_bytes_written ?s + length bs, os_sink := os_sink (put ?s bs), os_errmsg := None\<rparr> = put ?s bs"
      using b(1) by (simp add: put_def)
    ultimately show ?thesis using True b by (simp add: encode_submessage_with_def sz put_sizing v and_then_def r(3) Let_def e)
  qed
qed

text \<open>Only encodings of less than \<open>2 ^ 64\<close> bytes have room anywhere.\<close>

lemma emit_small: "(length bs < 2 ^ 64 \<Longrightarrow> emit op bs) \<Longrightarrow> emit op bs"
  by (auto simp: emit_def room_def)

lemma emit_packed:
  fixes func :: "'s pb_enc"
  assumes e: "\<And>a. a \<in> set (item_addrs f c p) \<Longrightarrow> emit (\<lambda>s. func s f m a) (w a)"
    and l: "\<And>a. PB_LTYPE (pf_type f) = PB_LTYPE_FIXED32 \<Longrightarrow> length (w a) = 4" "\<And>a. PB_LTYPE (pf_type f) = PB_LTYPE_FIXED64 \<Longrightarrow> length (w a) = 8"
  shows "emit (encode_packed func f m p c) (tag_wire 2 f @ varint (length (concat (map w (item_addrs f c p)))) @ concat (map w (item_addrs f c p)))"
proof (rule emit_small)
  define vs where "vs = concat (map w (item_addrs f c p))"
  assume "length (tag_wire 2 f @ varint (length (concat (map w (item_addrs f c p)))) @ concat (map w (item_addrs f c p))) < 2 ^ 64"
  then have n: "length vs < 2 ^ 64" by (simp add: vs_def)
  let ?loop = "for_entries c (unat (pf_data_size f)) (\<lambda>s p. func s f m p) p"
  have loop: "emit ?loop vs" unfolding vs_def using e by (rule emit_entries)
  have k: "length vs = c * k" if "\<And>a. length (w a) = k" for k
    by (simp add: vs_def length_concat that comp_def map_replicate_const sum_list_replicate)
  have ps: "packed_size func f m p c = Some (True, length vs)"
  proof -
    have "?loop PB_OSTREAM_SIZING = Some (True, put PB_OSTREAM_SIZING vs)" by (rule emitD [OF loop room_sizing [OF n]])
    moreover have "size_mul 4 c = length vs" if "PB_LTYPE (pf_type f) = PB_LTYPE_FIXED32"
      using k [OF l(1) [OF that]] n by (simp add: size_mul_def mult.commute)
    moreover have "size_mul 8 c = length vs" if "PB_LTYPE (pf_type f) = PB_LTYPE_FIXED64"
      using k [OF l(2) [OF that]] n by (simp add: size_mul_def mult.commute)
    ultimately show ?thesis by (simp add: packed_size_def put_sizing)
  qed
  have "emit (\<lambda>s. if \<not> has_callback (os_sink s) then Some (pb_write_sizing s (length vs)) else ?loop s) vs"
    using loop write_sizing_put by (auto simp: emit_def)
  from emit_seq [OF emit_tag [of PB_WT_STRING f] emit_seq [OF emit_varint_nat [OF n] this]] show
    "emit (encode_packed func f m p c) (tag_wire 2 f @ varint (length (concat (map w (item_addrs f c p)))) @ concat (map w (item_addrs f c p)))"
    by (simp add: encode_packed_def [abs_def] ps vs_def [symmetric] wire_types)
qed

lemma emit_array:
  assumes "size_ok S f" and "PB_ATYPE (pf_type f) = PB_ATYPE_STATIC" and "c \<le> unat (pf_array_size f)"
    and e: "\<And>a. a \<in> set (item_addrs f c p) \<Longrightarrow> emit (\<lambda>s. func s f m a) (value_wire W f m a)"
  shows "emit (encode_array func f m p c)
    (if PB_LTYPE (pf_type f) \<le> PB_LTYPE_LAST_PACKABLE then
       (if c = 0 then [] else tag_wire 2 f @ varint (length (concat (map (value_wire W f m) (item_addrs f c p)))) @ concat (map (value_wire W f m) (item_addrs f c p)))
     else concat (map (\<lambda>a. tag_wire (wire_type f) f @ value_wire W f m a) (item_addrs f c p)))"
proof (cases "c = 0")
  case True
  then show ?thesis using emit_Nil by (simp add: encode_array_def [abs_def])
next
  case c: False
  have fix32: "length (value_wire W f m a) = 4" if "PB_LTYPE (pf_type f) = PB_LTYPE_FIXED32" for a
    using that by (simp add: value_wire_def Let_def pb_ltypes)
  have fix64: "length (value_wire W f m a) = 8" if "PB_LTYPE (pf_type f) = PB_LTYPE_FIXED64" for a
    using that by (simp add: value_wire_def Let_def pb_ltypes)
  have "emit (\<lambda>s. encode_entry func f m s a) (tag_wire (wire_type f) f @ value_wire W f m a)" if "a \<in> set (item_addrs f c p)" for a
    using emit_seq [OF emit_tag_for_field [OF assms(1)] e [OF that]] assms(2) by (simp add: encode_entry_def [abs_def] pb_atypes)
  then have "emit (for_entries c (unat (pf_data_size f)) (encode_entry func f m) p) (concat (map (\<lambda>a. tag_wire (wire_type f) f @ value_wire W f m a) (item_addrs f c p)))"
    by (rule emit_entries)
  with emit_packed [of f c p func m "value_wire W f m", OF e fix32 fix64] show ?thesis
    using c assms(2,3) by (simp add: encode_array_def [abs_def] pb_atypes)
qed

text \<open>The check for values that proto3 leaves out.\<close>

lemma do_fields_all:
  assumes "tags_ok fs" and "0 < dest" and "\<And>j. j < length fs \<Longrightarrow> body (iter_nth fs dest j) () = Some (b j, ())"
  shows "i < length fs \<Longrightarrow> do_fields body (iter_nth fs dest i) () = Some (list_all b [i..<length fs], ())"
proof (induction "length fs - i" arbitrary: i)
  case (Suc k)
  note nx = iter_next [OF assms(1,2) Suc.prems]
  have u: "[i..<length fs] = i # [Suc i..<length fs]" using Suc.prems by (rule upt_conv_Cons)
  show ?case
  proof (cases "Suc i < length fs")
    case True
    then have "do_fields body (iter_nth fs dest (Suc i)) () = Some (list_all b [Suc i..<length fs], ())"
      using Suc.hyps by simp
    then show ?thesis using assms(3) [OF Suc.prems] nx True unfolding u by (subst do_fields.simps) (cases "b i", simp_all)
  next
    case False
    then have "Suc i = length fs" using Suc.prems by simp
    then show ?thesis using assms(3) [OF Suc.prems] nx False unfolding u by (subst do_fields.simps) (cases "b i"; auto)
  qed
qed simp

lemma check_zero:
  assumes "static_field (\<lambda>j. static_msg d E (pt_fields E j)) fs sz i" and "d < n" and "0 < p"
  shows "pb_check_proto3_default_value n E (fs ! i) m p = Some (zero_field (\<lambda>j. zero_msg d E (pt_fields E j) m) (fs ! i) m p)"
  using assms
proof (induction n arbitrary: d fs sz i p)
  case (Suc n)
  let ?f = "fs ! i"
  have st: "PB_ATYPE (pf_type ?f) = PB_ATYPE_STATIC" "size_ok (\<lambda>j. static_msg d E (pt_fields E j)) ?f"
    using Suc.prems(1) by (simp_all add: static_field_def)
  have sub: "(case pb_field_iter_begin (pt_fields E j) p of
        (False, _) \<Rightarrow> Some True
      | (True, iter) \<Rightarrow> map_option fst (do_fields (\<lambda>iter _. map_option (\<lambda>b. (b, ())) (pb_check_proto3_default_value n E (fi_field iter) m (fi_pData iter))) iter ())) =
      Some (zero_msg d E (pt_fields E j) m p)"
    if t: "PB_LTYPE (pf_type ?f) = PB_LTYPE_SUBMESSAGE" and j: "pf_ptr ?f = Pb_submsg j" for j
  proof -
    have "static_msg d E (pt_fields E j) (unat (pf_data_size ?f))" using st(2) t j by (simp add: size_ok_def)
    then obtain d' where d': "d = Suc d'" and tags: "tags_ok (pt_fields E j)"
      and fld: "\<And>i. i < length (pt_fields E j) \<Longrightarrow> static_field (\<lambda>j n. static_msg d' E (pt_fields E j) n) (pt_fields E j) (unat (pf_data_size ?f)) i"
      by (rule static_msgD) blast
    show ?thesis
    proof (cases "pt_fields E j = []")
      case True
      have "\<not> fst (pb_field_iter_begin (pt_fields E j) p)" by (rule iter_begin(2) [OF tags Suc.prems(3) True])
      then show ?thesis using True by (auto simp: d' split: prod.splits bool.splits)
    next
      case False
      have b: "pb_field_iter_begin (pt_fields E j) p = (True, iter_nth (pt_fields E j) p 0)" using False by (rule iter_begin(1) [OF tags Suc.prems(3)])
      have "pb_check_proto3_default_value n E (pt_fields E j ! k) m (p + data_off (pt_fields E j) k) =
          Some (zero_field (\<lambda>j. zero_msg d' E (pt_fields E j) m) (pt_fields E j ! k) m (p + data_off (pt_fields E j) k))"
        if "k < length (pt_fields E j)" for k
        using Suc.IH [OF fld [OF that], of "p + data_off (pt_fields E j) k"] Suc.prems(2,3) d' by simp
      from do_fields_all [OF tags Suc.prems(3), of "\<lambda>iter _. map_option (\<lambda>b. (b, ())) (pb_check_proto3_default_value n E (fi_field iter) m (fi_pData iter))"
          "\<lambda>k. zero_field (\<lambda>j. zero_msg d' E (pt_fields E j) m) (pt_fields E j ! k) m (p + data_off (pt_fields E j) k)" 0] this
      show ?thesis using False by (simp add: b d' iter_nth_field)
    qed
  qed
  show ?case
    using st sub PB_HTYPE_cases [of "pf_type ?f"] 
    by (auto simp: Let_def zero_field_def zero_value_def size_ok_def load_size_eq pb_ltypes pb_htypes pb_atypes split: pb_ptr.splits)
qed simp

lemma packable_wire_type:
  assumes "size_ok S f"
  shows "wire_type f \<noteq> 2 \<longleftrightarrow> PB_LTYPE (pf_type f) \<le> PB_LTYPE_LAST_PACKABLE"
proof -
  have "PB_LTYPE (pf_type f) \<in> {PB_LTYPE_BOOL, PB_LTYPE_VARINT, PB_LTYPE_UVARINT, PB_LTYPE_SVARINT, PB_LTYPE_FIXED32, PB_LTYPE_FIXED64,
      PB_LTYPE_BYTES, PB_LTYPE_STRING, PB_LTYPE_SUBMESSAGE, PB_LTYPE_FIXED_LENGTH_BYTES}"
    using assms by (auto simp: size_ok_def Let_def split: if_splits)
  then show ?thesis by (auto simp: wire_type_def Let_def pb_ltypes)
qed

lemma emit_field:
  assumes st: "static_field (\<lambda>j. static_msg d E (pt_fields E j)) fs sz i" and "d < n" and "0 < p"
    and v: "valid_field V (zero_field (\<lambda>j. zero_msg d E (pt_fields E j) m) (fs ! i) m p) (fs ! i) m p"
    and sub: "\<And>j a. pf_ptr (fs ! i) = Pb_submsg j \<Longrightarrow> V j a \<Longrightarrow> 0 < a \<Longrightarrow> emit (\<lambda>s. submessage s (fs ! i) m a) (varint (length (W j a)) @ W j a)"
  shows "emit (encode_field n E submessage (fs ! i) m p) (field_wire W (zero_field (\<lambda>j. zero_msg d E (pt_fields E j) m) (fs ! i) m p) (fs ! i) m p)"
proof -
  let ?f = "fs ! i"
  define z where "z = zero_field (\<lambda>j. zero_msg d E (pt_fields E j) m) ?f m p"
  have a: "PB_ATYPE (pf_type ?f) = PB_ATYPE_STATIC" and so: "size_ok (\<lambda>j. static_msg d E (pt_fields E j)) ?f"
    using st by (simp_all add: static_field_def)
  have ih: "implicit_has n E ?f m p = Some (if pf_size_offset ?f = 0 \<and> PB_HTYPE (pf_type ?f) = PB_HTYPE_OPTIONAL then \<not> z else True)"
    using check_zero [OF assms(1-3)] a by (simp add: implicit_has_def z_def pb_atypes)
  let ?func = "PB_ENCODERS submessage (PB_LTYPE (pf_type ?f))"
  have val: "emit (\<lambda>s. ?func s ?f m x) (value_wire W ?f m x)" if "x \<in> set (field_addrs z ?f m p)" for x
  proof (rule emit_value [OF so a, where V = V])
    show "valid_value V ?f m x" using v that by (auto simp: valid_field_def z_def [symmetric] list_all_iff)
    show "0 < x" using that \<open>0 < p\<close> item_addrs_ge [of x ?f _ p] by (auto simp: field_addrs_def split: if_splits dest: item_addrs_ge)
    then show "emit (\<lambda>s. submessage s ?f m x) (varint (length (W j x)) @ W j x)" if "pf_ptr ?f = Pb_submsg j" "V j x" for j
      using sub that by blast
  qed
  have one: "emit (encode_single ?func ?f m p) (tag_wire (wire_type ?f) ?f @ value_wire W ?f m p)" if "field_addrs z ?f m p = [p]"
    using emit_seq [OF emit_tag_for_field [OF so] val [of p]] that by (simp add: encode_single_def [abs_def])
  have "emit (encode_basic_field n E submessage ?f m p) (field_wire W z ?f m p)"
  proof (cases "PB_HTYPE (pf_type ?f) = PB_HTYPE_REPEATED")
    case True
    let ?c = "field_count ?f m p"
    have ad: "field_addrs z ?f m p = item_addrs ?f ?c p" using True by (simp add: field_addrs_def)
    have "?c \<le> unat (pf_array_size ?f)" using v True by (simp add: valid_field_def)
    note array = emit_array [OF so a this, of p ?func m W, OF val [unfolded ad]]
    have "encode_basic_field n E submessage ?f m p = encode_array ?func ?f m p ?c"
      using True a by (simp add: encode_basic_field_def fun_eq_iff ih Let_def field_count_def load_size_eq pb_htypes pb_atypes)
    moreover have "packed ?f \<longleftrightarrow> PB_LTYPE (pf_type ?f) \<le> PB_LTYPE_LAST_PACKABLE" using True packable_wire_type [OF so] by (simp add: packed_def)
    ultimately show ?thesis using array by (simp only: field_wire_def ad Let_def item_addrs_Nil)
  next
    case False
    have np: "\<not> packed ?f" using False by (simp add: packed_def)
    show ?thesis
    proof (cases "present z ?f m p")
      case True
      then have ad: "field_addrs z ?f m p = [p]" using False by (simp add: field_addrs_def)
      have "encode_basic_field n E submessage ?f m p = encode_single ?func ?f m p"
        using True False v a \<open>0 < p\<close> PB_HTYPE_cases [of "pf_type ?f"]
        by (auto simp: encode_basic_field_def fun_eq_iff ih Let_def present_def valid_field_def load_size_eq pb_htypes pb_atypes split: if_splits)
      then show ?thesis using one [OF ad] by (simp add: field_wire_def np ad Let_def)
    next
      case False
      with \<open>PB_HTYPE (pf_type ?f) \<noteq> PB_HTYPE_REPEATED\<close> have ad: "field_addrs z ?f m p = []" by (simp add: field_addrs_def)
      have "encode_basic_field n E submessage ?f m p = (\<lambda>s. Some (True, s))"
        using \<open>PB_HTYPE (pf_type ?f) \<noteq> PB_HTYPE_REPEATED\<close> False v a PB_HTYPE_cases [of "pf_type ?f"]
        by (auto simp: encode_basic_field_def fun_eq_iff ih Let_def present_def valid_field_def load_size_eq pb_htypes pb_atypes split: if_splits)
      then show ?thesis using emit_Nil by (simp add: field_wire_def np ad Let_def)
    qed
  qed
  then show ?thesis using a by (simp add: encode_field_def [abs_def] z_def)
qed

section \<open>Messages\<close>

text \<open>The walk over the fields, writing each of them.\<close>

lemma do_fields_emit:
  fixes body :: "pb_field_iter_t \<Rightarrow> 's pb_ostream_t \<Rightarrow> (bool \<times> 's pb_ostream_t) option"
  assumes "tags_ok fs" and "0 < dest" and "\<And>j. j < length fs \<Longrightarrow> emit (body (iter_nth fs dest j)) (w j)"
  shows "i < length fs \<Longrightarrow> emit (do_fields body (iter_nth fs dest i)) (concat (map w [i..<length fs]))"
proof (induction "length fs - i" arbitrary: i)
  case (Suc k)
  note nx = iter_next [OF assms(1,2) Suc.prems]
  have u: "[i..<length fs] = i # [Suc i..<length fs]" using Suc.prems by (rule upt_conv_Cons)
  show ?case
  proof (cases "Suc i < length fs")
    case True
    have "do_fields body (iter_nth fs dest i) = (\<lambda>s. and_then (body (iter_nth fs dest i) s) (do_fields body (iter_nth fs dest (Suc i))))"
      using nx True by (intro ext, subst do_fields.simps) (auto simp: and_then_def split: option.splits prod.splits bool.splits)
    moreover have "emit (do_fields body (iter_nth fs dest (Suc i))) (concat (map w [Suc i..<length fs]))" using True Suc.hyps by simp
    ultimately show ?thesis using emit_seq [OF assms(3) [OF Suc.prems]] unfolding u by simp
  next
    case False
    then have l: "Suc i = length fs" using Suc.prems by simp
    have "do_fields body (iter_nth fs dest i) s = body (iter_nth fs dest i) s" if "body (iter_nth fs dest i) s = Some (True, s')" for s s'
      using nx False l that by (subst do_fields.simps) (auto split: prod.splits bool.splits)
    then show ?thesis using assms(3) [OF Suc.prems] l unfolding u emit_def by simp
  qed
qed simp

lemma encode_emits:
  assumes "static_msg d E fs sz" and "valid_msg d E fs m p" and "d < n" and "0 < p"
  shows "emit (\<lambda>s. pb_encode n E s fs m p) (msg_wire d E fs m p)"
  using assms
proof (induction n arbitrary: d fs sz p)
  case (Suc n)
  obtain d' where d': "d = Suc d'" and tags: "tags_ok fs" and fld: "\<And>i. i < length fs \<Longrightarrow> static_field (\<lambda>j n. static_msg d' E (pt_fields E j) n) fs sz i"
    using Suc.prems(1) by (rule static_msgD) blast
  let ?z = "\<lambda>j. zero_field (\<lambda>j. zero_msg d' E (pt_fields E j) m) (fs ! j) m (p + data_off fs j)"
  let ?sub = "pb_enc_submessage E (pb_encode n E)"
  let ?body = "\<lambda>iter s. if PB_LTYPE (pf_type (fi_field iter)) = PB_LTYPE_EXTENSION then encode_extension_field n E ?sub m (fi_pData iter) s
    else encode_field n E ?sub (fi_field iter) m (fi_pData iter) s"
  have body: "emit (?body (iter_nth fs p j)) (field_wire (\<lambda>j. msg_wire d' E (pt_fields E j) m) (?z j) (fs ! j) m (p + data_off fs j))" if j: "j < length fs" for j
  proof -
    have st: "static_field (\<lambda>j. static_msg d' E (pt_fields E j)) fs sz j" using fld [OF j] .
    have "emit (encode_field n E ?sub (fs ! j) m (p + data_off fs j)) (field_wire (\<lambda>j. msg_wire d' E (pt_fields E j) m) (?z j) (fs ! j) m (p + data_off fs j))"
    proof (rule emit_field [OF st])
      show "d' < n" "0 < p + data_off fs j" using Suc.prems d' by simp_all
      show "valid_field (\<lambda>j. valid_msg d' E (pt_fields E j) m) (?z j) (fs ! j) m (p + data_off fs j)"
        using Suc.prems(2) j d' by (simp add: list_all_iff)
      fix k a
      assume k: "pf_ptr (fs ! j) = Pb_submsg k" "valid_msg d' E (pt_fields E k) m a" "0 < a"
      have "static_msg d' E (pt_fields E k) (unat (pf_data_size (fs ! j)))"
        using st k(1) by (auto simp: static_field_def size_ok_def Let_def split: if_splits)
      from emit_submessage [of "pb_encode n E" "pt_fields E k" m a, OF Suc.IH [OF this k(2) _ k(3)]] show
        "emit (\<lambda>s. ?sub s (fs ! j) m a) (varint (length (msg_wire d' E (pt_fields E k) m a)) @ msg_wire d' E (pt_fields E k) m a)"
        using Suc.prems(3) d' by (simp add: pb_enc_submessage_def k(1))
    qed
    moreover have "PB_LTYPE (pf_type (fs ! j)) \<noteq> PB_LTYPE_EXTENSION"
      using st by (auto simp: static_field_def size_ok_def Let_def pb_ltypes split: if_splits)
    ultimately show ?thesis using j by simp
  qed
  show ?case
  proof (cases "fs = []")
    case True
    then have "\<not> fst (pb_field_iter_begin fs p)" by (rule iter_begin(2) [OF tags Suc.prems(4)])
    then have "pb_encode (Suc n) E s fs m p = Some (True, s)" for s by (auto split: prod.splits bool.splits)
    then show ?thesis using emit_Nil True d' by simp
  next
    case False
    then have b: "pb_field_iter_begin fs p = (True, iter_nth fs p 0)" by (rule iter_begin(1) [OF tags Suc.prems(4)])
    have "emit (do_fields ?body (iter_nth fs p 0)) (msg_wire d E fs m p)"
      using do_fields_emit [OF tags Suc.prems(4), of ?body "\<lambda>j. field_wire (\<lambda>j. msg_wire d' E (pt_fields E j) m) (?z j) (fs ! j) m (p + data_off fs j)" 0, OF body] False
      by (simp add: d')
    then show ?thesis by (simp add: b)
  qed
qed simp

lemma emit_buffer:
  assumes "emit op bs" and "length bs \<le> length buf" and "length buf < 2 ^ 64"
  shows "\<exists>s. op (pb_ostream_from_buffer buf (length buf)) = Some (True, s) \<and> os_sink s = Buf_write (bs @ drop (length bs) buf) (length bs) \<and>
    os_bytes_written s = length bs"
proof -
  have "room (pb_ostream_from_buffer buf (length buf)) (length bs)" using assms(2,3) by (simp add: room_def pb_ostream_from_buffer_def)
  from emitD [OF assms(1) this] show ?thesis using assms(2)
    by (auto simp: put_def pb_ostream_from_buffer_def buf_write_def write_at_def)
qed

section \<open>Properties\<close>

text \<open>The Firestore types for the encoder, and a precondition in memory: an update time of 5 seconds and 9 nanoseconds.\<close>

definition firestore_enc :: "unit pb_enc_env" where
  "firestore_enc = \<lparr>pt_fields = firestore_fields, pt_ext_arg = (\<lambda>_. PB_LAST_FIELD), ee_callback = (\<lambda>_ s _ _ _. (False, s)), ee_ext_encode = (\<lambda>_. None)\<rparr>"

lemma firestore_enc_static: "static_msg (Suc (Suc 0)) firestore_enc google_firestore_v1_Precondition_fields 24"
  by (simp add: firestore_enc_def firestore_defs static_defs Let_def)

definition sample_precondition :: pb_mem where
  "sample_precondition = mstore (\<lambda>_. 0) 16 [2, 0, 0, 0, 0, 0, 0, 0, 5, 0, 0, 0, 0, 0, 0, 0, 9, 0, 0, 0]"

text \<open>
  C36: \<^verbatim>\<open>pb_encode\<close> writes exactly the protobuf encoding of the message in memory, as \<open>msg_wire\<close> defines it without streams: the fields in the
  order of the descriptors, those left out that are absent or, without a flag, zero; arrays of numbers packed, submessages after
  their length. It needs no more room than that, \<^verbatim>\<open>pb_get_encoded_size\<close> returns its length, and \<^verbatim>\<open>pb_encode_delimited\<close> puts the
  length first. This holds for every type without pointers, callbacks and extensions and every valid message of it.
\<close>

theorem pb_encode_wire:
  fixes E :: "'s pb_enc_env"
  assumes "static_msg d E fs sz" and "valid_msg d E fs m p" and "0 < p" and "d < n"
  defines "w \<equiv> msg_wire d E fs m p"
  shows "(length w < 2 ^ 64 \<longrightarrow> pb_get_encoded_size n E fs m p = Some (Some (length w))) \<and>
    (\<forall>buf. length w \<le> length buf \<and> length buf < 2 ^ 64 \<longrightarrow>
       (\<exists>s. pb_encode n E (pb_ostream_from_buffer buf (length buf)) fs m p = Some (True, s) \<and>
          os_sink s = Buf_write (w @ drop (length w) buf) (length w) \<and> os_bytes_written s = length w)) \<and>
    (\<forall>buf. length (varint (length w) @ w) \<le> length buf \<and> length buf < 2 ^ 64 \<longrightarrow>
       (\<exists>s k. pb_encode_delimited n E (pb_ostream_from_buffer buf (length buf)) fs m p = Some (True, s) \<and>
          os_sink s = Buf_write (varint (length w) @ w @ drop k buf) k \<and> k = length (varint (length w) @ w)))"
proof -
  have e: "emit (\<lambda>s. pb_encode n E s fs m p) w" unfolding w_def by (rule encode_emits [OF assms(1,2,4,3)])
  have "pb_get_encoded_size n E fs m p = Some (Some (length w))" if "length w < 2 ^ 64"
    using emitD [OF e room_sizing [OF that]] by (simp add: pb_get_encoded_size_def put_sizing)
  moreover have "emit (\<lambda>s. pb_encode_delimited n E s fs m p) (varint (length w) @ w)"
    using emit_submessage [of "pb_encode n E" fs m p, OF e] by (simp add: pb_encode_delimited_def pb_encode_submessage_def)
  note emit_buffer [OF this]
  ultimately show ?thesis using emit_buffer [OF e] by (simp add: conj_ac) metis
qed

theorem pb_encode_wire_witness:
  "pb_get_encoded_size 3 firestore_enc google_firestore_v1_Precondition_fields sample_precondition 16 = Some (Some 6) \<and>
   (\<exists>s. pb_encode 3 firestore_enc (pb_ostream_from_buffer [0xee, 0xee, 0xee, 0xee, 0xee, 0xee, 0xee, 0xee] 8) google_firestore_v1_Precondition_fields sample_precondition 16 = Some (True, s) \<and>
      os_sink s = Buf_write [0x12, 0x04, 0x08, 0x05, 0x10, 0x09, 0xee, 0xee] 6)"
proof -
  have v: "valid_msg (Suc (Suc 0)) firestore_enc google_firestore_v1_Precondition_fields sample_precondition 16" by code_simp
  have w: "msg_wire (Suc (Suc 0)) firestore_enc google_firestore_v1_Precondition_fields sample_precondition 16 = [0x12, 0x04, 0x08, 0x05, 0x10, 0x09]" by code_simp
  have "0 < (16 :: nat)" "Suc (Suc 0) < (3 :: nat)" by simp_all
  note t = pb_encode_wire [OF firestore_enc_static v this, unfolded w]
  have l: "length [0x12 :: u8, 0x04, 0x08, 0x05, 0x10, 0x09] = 6" "length [0xee :: u8, 0xee, 0xee, 0xee, 0xee, 0xee, 0xee, 0xee] = 8" by simp_all
  have "\<exists>s. pb_encode 3 firestore_enc (pb_ostream_from_buffer [0xee, 0xee, 0xee, 0xee, 0xee, 0xee, 0xee, 0xee] 8)
      google_firestore_v1_Precondition_fields sample_precondition 16 = Some (True, s) \<and>
      os_sink s = Buf_write ([0x12, 0x04, 0x08, 0x05, 0x10, 0x09] @ drop 6 [0xee, 0xee, 0xee, 0xee, 0xee, 0xee, 0xee, 0xee]) 6 \<and> os_bytes_written s = 6"
    using t [THEN conjunct2, THEN conjunct1, rule_format, of "[0xee, 0xee, 0xee, 0xee, 0xee, 0xee, 0xee, 0xee]"] unfolding l by simp
  moreover have "pb_get_encoded_size 3 firestore_enc google_firestore_v1_Precondition_fields sample_precondition 16 = Some (Some 6)"
    using t [THEN conjunct1] unfolding l by simp
  ultimately show ?thesis by auto
qed

end
