(* ===== verification/Spec2Isabelle.thy ===== *)
theory Spec2Isabelle
  imports Set_Of Stack Obj Bio_Stream Base64 Unicode Oid_Text Cbs_Time Ber_Spec Pb_Decode_Safe Pb_Wire_Spec
begin

text \<open>
  \<^bold>\<open>What this is.\<close> A model, with proofs, of the data structures and encoders that the C code of
  this repository rests on. CartX is a Flutter application; the C under \<^verbatim>\<open>ios/Pods\<close> is the stack
  that its Firebase plugins pull in, and at the bottom of it is BoringSSL (\<^verbatim>\<open>BoringSSL-GRPC/src\<close>),
  whose reader and builder of byte strings, stacks, hash tables and BIO pairs every parser and
  protocol above uses. Paths below are relative to \<^verbatim>\<open>BoringSSL-GRPC/src/crypto\<close>. The other C library is
  \<^verbatim>\<open>nanopb\<close>, with which Firestore reads and writes its protobuf messages.

  \<^bold>\<open>Parts and theories.\<close>
  \<^item> \<open>Prelude\<close>: machine words, \<^verbatim>\<open>size_t\<close> arithmetic with its wrap-around, regions of memory and the
    allocator. An allocator is a parameter of every function that may allocate; \<open>malloc_ok\<close> is what
    C promises of \<^verbatim>\<open>malloc\<close>, and it may refuse any request.
  \<^item> \<open>Mem\<close>: \<^verbatim>\<open>mem.c\<close>, the allocation wrappers and string helpers.
  \<^item> \<open>Codec\<close>: the interface between a reader and the encoding it reads (locales \<open>codec\<close> and
    \<open>canonical_codec\<close>), with prefix-freeness and sequences proved once.
  \<^item> \<open>Cbs\<close>, \<open>Cbs_Ints\<close>, \<open>Der\<close>: \<^verbatim>\<open>bytestring/cbs.c\<close>, the reader. A \<^verbatim>\<open>CBS\<close> is the bytes it covers; a
    reading function returns the value (\<open>None\<close> for a zero return) and the bytes left. Every fixed-width
    integer, length-prefixed string, base-128 number, tag and DER element is shown to be a canonical
    codec.
  \<^item> \<open>Cbb\<close>, \<open>Cbb_Asn1\<close>: \<^verbatim>\<open>bytestring/cbb.c\<close>, the builder, with one buffer and the chain of pending
    children. \<open>Cbb_Refine\<close>, \<open>Cbb_Spec\<close> and \<open>Cbb_Der\<close> give its specification, a stack of open frames with
    the kind of each length prefix, and prove that every operation refines it: what success means,
    that failure is recorded and stays, and that an operation succeeds when its specification is
    defined and there is room. The contracts are locales (\<open>cbb_op\<close>, \<open>cbb_append\<close>), interpreted for each
    operation.
  \<^item> \<open>Asn1_Int\<close>: INTEGER in both directions, and the locale \<open>wire\<close>, a writer and a reader that agree on
    an encoding: what is built is read back.
  \<^item> \<open>Set_Of\<close>: the sort of \<^verbatim>\<open>CBB_flush_asn1_set_of\<close>.
  \<^item> \<open>Cmp_Order\<close>: the contract of a comparison function (\<open>total_cmp\<close>), heap sort and binary search.
  \<^item> \<open>Stack\<close>: \<^verbatim>\<open>stack/stack.c\<close>, with the reachable stacks as an inductive predicate; the two operations that
    replace elements without clearing the \<open>sorted\<close> flag enter it with conditions.
  \<^item> \<open>Lhash\<close>, \<open>Obj\<close>: \<^verbatim>\<open>lhash/lhash.c\<close> as a set of elements up to its comparison (locale
    \<open>hash_contract\<close>), and the hash and comparison functions of \<^verbatim>\<open>obj/obj.c\<close> that meet the contract.
  \<^item> \<open>Bio_Pair\<close>: \<^verbatim>\<open>bio/pair.c\<close> and the calls of \<^verbatim>\<open>bio/bio.c\<close> that reach it, over a heap of BIOs, since
    the two ends refer to each other; the ring buffer is a byte queue (locale \<open>byte_queue\<close>).
    \<open>Bio_Stream\<close> follows both ends through every sequence of calls (\<open>pair_run\<close>) and shows that each
    direction is a stream, and that no reachable call is undefined.
  \<^item> \<open>Oid_Text\<close>, \<open>Cbs_Time\<close>: the parts of \<^verbatim>\<open>cbs.c\<close> that deal with text, the dotted form of an object
    identifier (inverse to the writer of \<^verbatim>\<open>cbb.c\<close>) and the two time formats of RFC 5280.
  \<^item> \<open>Ber\<close>: \<^verbatim>\<open>bytestring/ber.c\<close>, the search for BER and its conversion to DER, on top of the reader and the
    builder. \<open>Ber_Grammar\<close> says what BER elements, plain DER and the conversion are as grammars over bytes, without
    any function of the code (\<open>ber_len\<close>, \<open>plain_der\<close>, \<open>ber_der\<close>), and proves the element reader of \<^verbatim>\<open>cbs.c\<close>
    against it. \<open>Ber_Spec\<close> shows that the code follows the conversion in both directions, by way of a relation that
    abstracts from the builder, its handles and memory (\<open>converts\<close>), and that its output is plain DER.
  \<^item> \<open>Unicode\<close>: \<^verbatim>\<open>bytestring/unicode.c\<close>, four encodings of code points as readers and writers.
  \<^item> \<open>Posix_Time\<close>: \<^verbatim>\<open>asn1/posix_time.c\<close> against the calendar, with C's truncating division; the
    additions of \<^verbatim>\<open>OPENSSL_gmtime_adj\<close>, which take offsets of the caller, are undefined (\<open>None\<close>) when they overflow.
  \<^item> \<open>Const_Time\<close>: the branch-free comparisons and selections of \<^verbatim>\<open>internal.h\<close>.
  \<^item> \<open>Base64\<close>: \<^verbatim>\<open>base64/base64.c\<close>, one-shot and streaming, with round trips for both.
  \<^item> \<open>Pb_Stream\<close>: the streams of \<^verbatim>\<open>nanopb/pb_decode.c\<close> and \<^verbatim>\<open>nanopb/pb_encode.c\<close> and the functions that read and write the
    wire format on them. \<open>Pb_Varint\<close> and \<open>Pb_Wire\<close> prove them against the format, once for every source of bytes (locale \<open>pb_input\<close>) and
    every sink (locale \<open>pb_output\<close>), with buffers and counting streams as instances.
  \<^item> \<open>Pb_Mem\<close>: the memory that messages live in, an array of bytes with the objects allocated in it; \<^verbatim>\<open>realloc\<close> is a parameter, and
    \<open>realloc_ok\<close> is what C promises of it. \<open>Pb_Field\<close>: the descriptors of \<^verbatim>\<open>nanopb/pb.h\<close> and the codecs of single fields on that memory.
  \<^item> \<open>Pb_Iter\<close>: \<^verbatim>\<open>nanopb/pb_common.c\<close>, the iterator over the fields of a message, against the layout that the descriptors describe (\<open>member_size\<close>,
    \<open>data_off\<close>, \<open>size_off\<close>).
  \<^item> \<open>Pb_Message\<close>, \<open>Pb_Decode\<close>, \<open>Pb_Encode\<close>: whole messages, in the order of the code: default values and release, then the decoding of static,
    pointer, callback and extension fields up to \<^verbatim>\<open>pb_decode\<close>, and their encoding up to \<^verbatim>\<open>pb_encode\<close>. The descriptors of a program,
    its callbacks and its allocator are gathered in records (\<open>pb_types\<close>, \<open>pb_dec_env\<close>, \<open>pb_enc_env\<close>).
  \<^item> \<open>Pb_Static\<close>, \<open>Pb_Decode_Safe\<close>: for message types without pointers, callbacks and extensions (\<open>static_msg\<close>), decoding ends on every input
    and writes only to the structure it was given. \<open>Pb_Types\<close> has types of Firestore, from its generated descriptors, that meet the hypotheses.
    \<open>Pb_Wire_Spec\<close> defines the encoding of a message as a function of memory (\<open>msg_wire\<close>) and shows that \<^verbatim>\<open>pb_encode\<close> writes it.

  \<^bold>\<open>Bounds and fuel.\<close> Lengths are naturals and every \<^verbatim>\<open>size_t\<close> operation that can overflow is taken
  modulo \<open>2 ^ 64\<close>. Loops are recursive functions with termination proofs; the nested
  recursion of \<^verbatim>\<open>cbs_convert_ber\<close> ends because no call ever puts input back. A conversion of \<open>n\<close> bytes of BER
  needs at most \<open>10 * n\<close> bytes of builder, including what is reserved while lengths are pending. The two ring-buffer loops
  run with fuel 2, the "one or two iterations" of the comments in the code, and are shown to end
  within it. The functions of nanopb that follow links (submessages, extensions, callbacks) take a bound on depth and rounds, since
  memory and descriptors may be circular; \<open>None\<close> says that it was reached or that the code has no defined behaviour. For the decoder, the number of input bytes plus the depth of the
  message type is enough (\<open>pb_decode_returns\<close>).

  \<^bold>\<open>Not modelled.\<close> The Dart application (no C), the vendored C++ of gRPC, Abseil and Firebase, and
  the cryptography, X.509 and TLS of BoringSSL. Within the modelled files: freeing and cleansing memory
  (nothing is observable afterwards), error-queue entries, the printf wrappers, callbacks of
  \<^verbatim>\<open>OPENSSL_lh_doall_arg\<close> that call back into the table, and BIO chains.
\<close>

end
